(* ===== verification/Prelude.thy ===== *)
theory Prelude
  imports Main "HOL-Library.Word" "HOL-Library.List_Lexorder" "HOL-Library.Char_ord"
begin

text \<open>
  What every component shares: the names of the model's types (bytes, offsets, results), Go's
  fixed-width arithmetic written out on \<open>nat\<close> and \<open>int\<close>, byte buffers with
  \<open>copy\<close>-style overlays, fixed-width little- and big-endian fields, and the insertion sort
  that stands for Go's \<open>sort\<close> of distinct keys.
\<close>

named_theorems field_simps_disk \<open>lengths and values of on-disk fields\<close>
named_theorems blit_simps \<open>overlays of byte buffers\<close>

unbundle bit_operations_syntax

section \<open>Types\<close>

type_synonym byte = "8 word"
type_synonym bytes = "byte list"

text \<open>
  A Go error is a value of this type; \<open>Panic\<close> stands for a run-time panic (index out of
  range, integer division by zero), which is not an error value in Go but ends the call.
\<close>

datatype error =
    EOF
  | ShortWrite
  | ErrExist
  | ErrNotExist
  | Err string
  | Panic string

text \<open>The shape \<open>(T, error)\<close> of a Go result, and its sequencing.\<close>

type_synonym 'a result = "error + 'a"

definition bindE :: "'a result \<Rightarrow> ('a \<Rightarrow> 'b result) \<Rightarrow> 'b result" where
  "bindE r k = (case r of Inl e \<Rightarrow> Inl e | Inr a \<Rightarrow> k a)"

lemma bindE_simps [simp]:
  "bindE (Inl e) k = Inl e"
  "bindE (Inr a) k = k a"
  by (simp_all add: bindE_def)

lemma bindE_cong [fundef_cong]:
  "r = r' \<Longrightarrow> (\<And>a. r' = Inr a \<Longrightarrow> k a = k' a) \<Longrightarrow> bindE r k = bindE r' k'"
  by (cases r') auto

lemma bindE_Inr_iff: "bindE r k = Inr b \<longleftrightarrow> (\<exists>a. r = Inr a \<and> k a = Inr b)"
  by (cases r) auto

lemma bindE_Inl_iff: "bindE r k = Inl e \<longleftrightarrow> r = Inl e \<or> (\<exists>a. r = Inr a \<and> k a = Inl e)"
  by (cases r) auto

lemma bindE_splits: "P (bindE r k) \<longleftrightarrow> (\<forall>e. r = Inl e \<longrightarrow> P (Inl e)) \<and> (\<forall>a. r = Inr a \<longrightarrow> P (k a))"
  by (cases r) auto

text \<open>The same for an operation that also returns the new state: the first error ends the call.\<close>

definition bindS :: "'a result \<times> 's \<Rightarrow> ('a \<Rightarrow> 's \<Rightarrow> 'b result \<times> 's) \<Rightarrow> 'b result \<times> 's" where
  "bindS m k = (case m of (Inl e, s) \<Rightarrow> (Inl e, s) | (Inr a, s) \<Rightarrow> k a s)"

lemma bindS_simps [simp]:
  "bindS (Inl e, s) k = (Inl e, s)"
  "bindS (Inr a, s) k = k a s"
  by (simp_all add: bindS_def)

lemma bindS_cong [fundef_cong]:
  "m = m' \<Longrightarrow> (\<And>a s. m' = (Inr a, s) \<Longrightarrow> k a s = k' a s) \<Longrightarrow> bindS m k = bindS m' k'"
  by (cases m'; cases "fst m'") (auto simp: bindS_def)

lemma bindS_Inr_iff: "bindS m k = (Inr b, t) \<longleftrightarrow> (\<exists>a s. m = (Inr a, s) \<and> k a s = (Inr b, t))"
  by (cases m; cases "fst m") (auto simp: bindS_def)

fun isOK :: "'a result \<Rightarrow> bool" where
  "isOK (Inr a) = True"
| "isOK (Inl e) = False"

section \<open>Fixed-width arithmetic\<close>

definition u8 :: "nat \<Rightarrow> nat" where "u8 n = n mod 2 ^ 8"
definition u16 :: "nat \<Rightarrow> nat" where "u16 n = n mod 2 ^ 16"
definition u32 :: "nat \<Rightarrow> nat" where "u32 n = n mod 2 ^ 32"
definition u64 :: "nat \<Rightarrow> nat" where "u64 n = n mod 2 ^ 64"

text \<open>Unsigned subtraction wraps; conversion of a signed value to an unsigned one too.\<close>

definition sub64 :: "nat \<Rightarrow> nat \<Rightarrow> nat" where
  "sub64 a b = nat ((int a - int b) mod 2 ^ 64)"

definition i64 :: "int \<Rightarrow> int" where
  "i64 x = (x + 2 ^ 63) mod 2 ^ 64 - 2 ^ 63"

definition u64_of_int :: "int \<Rightarrow> nat" where
  "u64_of_int x = nat (x mod 2 ^ 64)"

definition u16_of_int :: "int \<Rightarrow> nat" where
  "u16_of_int x = nat (x mod 2 ^ 16)"

definition u32_of_int :: "int \<Rightarrow> nat" where
  "u32_of_int x = nat (x mod 2 ^ 32)"

lemma u8_small [simp]: "n < 256 \<Longrightarrow> u8 n = n"
  and u16_small [simp]: "n < 65536 \<Longrightarrow> u16 n = n"
  and u32_small [simp]: "n < 4294967296 \<Longrightarrow> u32 n = n"
  and u64_small [simp]: "n < 18446744073709551616 \<Longrightarrow> u64 n = n"
  by (simp_all add: u8_def u16_def u32_def u64_def)

lemma u_bounds [simp]:
  "u8 n < 256" "u16 n < 65536" "u32 n < 4294967296" "u64 n < 18446744073709551616"
  by (simp_all add: u8_def u16_def u32_def u64_def)

lemma u64_le [simp]: "u64 n \<le> n"
  by (simp add: u64_def)

lemma sub64_le [simp]: "b \<le> a \<Longrightarrow> a < 18446744073709551616 \<Longrightarrow> sub64 a b = a - b"
  by (simp add: sub64_def flip: of_nat_diff)

lemma i64_small [simp]: "- 9223372036854775808 \<le> x \<Longrightarrow> x < 9223372036854775808 \<Longrightarrow> i64 x = x"
  by (simp add: i64_def)

lemma u64_of_int_small [simp]: "0 \<le> x \<Longrightarrow> x < 18446744073709551616 \<Longrightarrow> u64_of_int x = nat x"
  by (simp add: u64_of_int_def)

text \<open>Go's integer division truncates towards zero (the divisors of the code are positive).\<close>

definition go_div :: "int \<Rightarrow> int \<Rightarrow> int" where
  "go_div a b = (if a < 0 then - ((- a) div b) else a div b)"

lemma go_div_nonneg [simp]: "0 \<le> a \<Longrightarrow> go_div a b = a div b"
  by (simp add: go_div_def)

definition ceil_div :: "nat \<Rightarrow> nat \<Rightarrow> nat" where
  "ceil_div a b = (a + b - 1) div b"

lemma ceil_div_mult_ge: "0 < b \<Longrightarrow> a \<le> ceil_div a b * b"
proof -
  assume b: "0 < b"
  have "(a + b - 1) mod b < b" using b by simp
  moreover have "ceil_div a b * b + (a + b - 1) mod b = a + b - 1"
    by (simp add: ceil_div_def)
  ultimately show ?thesis by linarith
qed

lemma ceil_div_mult_less: "0 < b \<Longrightarrow> 0 < a \<Longrightarrow> ceil_div a b * b < a + b"
proof -
  assume b: "0 < b" and a: "0 < a"
  have "ceil_div a b * b \<le> a + b - 1"
    unfolding ceil_div_def by (rule div_times_less_eq_dividend)
  then show ?thesis using a by linarith
qed

lemma ceil_div_le_iff: "0 < b \<Longrightarrow> ceil_div a b \<le> k \<longleftrightarrow> a \<le> k * b"
proof -
  assume b: "0 < b"
  have "ceil_div a b \<le> k \<longleftrightarrow> a + b - 1 < Suc k * b"
    using b by (simp add: ceil_div_def less_mult_imp_div_less div_less_iff_less_mult flip: less_Suc_eq_le)
  also have "\<dots> \<longleftrightarrow> a \<le> k * b" using b by auto
  finally show ?thesis .
qed

lemma ceil_div_mono: "a \<le> a' \<Longrightarrow> ceil_div a b \<le> ceil_div a' b"
  by (simp add: ceil_div_def div_le_mono)

lemma ceil_div_0 [simp]: "0 < b \<Longrightarrow> ceil_div 0 b = 0"
  by (simp add: ceil_div_def)

text \<open>Rounding up to a multiple of a power of two, which Go writes with a mask.\<close>

definition round_up :: "nat \<Rightarrow> nat \<Rightarrow> nat" where
  "round_up a m = ceil_div a m * m"

lemma round_up_ge: "0 < m \<Longrightarrow> a \<le> round_up a m"
  by (simp add: round_up_def ceil_div_mult_ge)

lemma round_up_dvd [simp]: "m dvd round_up a m"
  by (simp add: round_up_def)

lemma round_up_less: "0 < m \<Longrightarrow> round_up a m < a + m"
  using ceil_div_mult_less[of m a] by (cases "a = 0") (auto simp: round_up_def)

lemma round_up_id: "0 < m \<Longrightarrow> m dvd a \<Longrightarrow> round_up a m = a"
proof -
  assume m: "0 < m" and "m dvd a"
  then obtain k where a: "a = m * k" by blast
  have eq: "a + m - 1 = (m - 1) + m * k" using m a by simp
  have "(a + m - 1) div m = k" unfolding eq using m by (subst div_mult_self2) auto
  then show ?thesis by (simp add: round_up_def ceil_div_def a mult.commute)
qed

text \<open>Moving inside one cluster, block or sector.\<close>

lemma div_mod_offset:
  fixes a c i :: nat
  assumes "a mod c + i < c"
  shows "(a + i) div c = a div c" "(a + i) mod c = a mod c + i"
proof -
  have "a + i = (a mod c + i) + a div c * c" using div_mult_mod_eq[of a c] by linarith
  then show "(a + i) div c = a div c" "(a + i) mod c = a mod c + i"
    using assms by (metis add_0 div_less div_mult_self1 less_nat_zero_code neq0_conv add.commute div_0,
      metis mod_less mod_mult_self1)
qed

section \<open>Byte buffers\<close>

definition zeros :: "nat \<Rightarrow> bytes" where
  "zeros n = replicate n 0"

lemma length_zeros [simp]: "length (zeros n) = n"
  by (simp add: zeros_def)

lemma zeros_append: "zeros m @ zeros n = zeros (m + n)"
  by (simp add: zeros_def replicate_add)

lemma take_zeros [simp]: "take n (zeros m) = zeros (min n m)"
  and drop_zeros [simp]: "drop n (zeros m) = zeros (m - n)"
  and zeros_0 [simp]: "zeros 0 = []"
  by (simp_all add: zeros_def)

text \<open>
  Overwriting a buffer from an offset on. With \<open>off + length p \<le> length xs\<close> this is
  \<open>copy(xs[off:], p)\<close>; the callers check the range, as the code does.
\<close>

definition blit :: "bytes \<Rightarrow> nat \<Rightarrow> bytes \<Rightarrow> bytes" where
  "blit xs off p = take off xs @ p @ drop (off + length p) xs"

text \<open>Reading a window of a buffer.\<close>

definition window :: "'a list \<Rightarrow> nat \<Rightarrow> nat \<Rightarrow> 'a list" where
  "window xs off n = take n (drop off xs)"

lemma length_blit [simp, blit_simps]:
  "off + length p \<le> length xs \<Longrightarrow> length (blit xs off p) = length xs"
  by (simp add: blit_def)

lemma length_window [simp]: "off + n \<le> length xs \<Longrightarrow> length (window xs off n) = n"
  by (simp add: window_def)

lemma nth_blit: "off + length p \<le> length xs \<Longrightarrow> i < length xs \<Longrightarrow>
    blit xs off p ! i = (if off \<le> i \<and> i < off + length p then p ! (i - off) else xs ! i)"
  by (auto simp: blit_def nth_append min_def)

lemma nth_window: "off + n \<le> length xs \<Longrightarrow> i < n \<Longrightarrow> window xs off n ! i = xs ! (off + i)"
  by (simp add: window_def)

lemma window_blit_same [simp, blit_simps]:
  "off + length p \<le> length xs \<Longrightarrow> n = length p \<Longrightarrow> window (blit xs off p) off n = p"
  by (simp add: blit_def window_def)

lemma window_blit_other [blit_simps]:
  "off + length p \<le> length xs \<Longrightarrow> o' + n \<le> length xs \<Longrightarrow> o' + n \<le> off \<or> off + length p \<le> o'
    \<Longrightarrow> window (blit xs off p) o' n = window xs o' n"
  by (rule nth_equalityI) (auto simp: nth_window nth_blit)

lemma window_window: "window (window xs a n) b m = window xs (a + b) (min m (n - b))"
  by (simp add: window_def drop_take add.commute)

lemma blit_nil [simp]: "blit xs off [] = xs"
  by (simp add: blit_def)

lemma window_append_left: "off + n \<le> length xs \<Longrightarrow> window (xs @ ys) off n = window xs off n"
  by (simp add: window_def)

lemma window_append_right: "length xs \<le> off \<Longrightarrow> window (xs @ ys) off n = window ys (off - length xs) n"
  by (simp add: window_def)

lemma window_all [simp]: "window xs 0 (length xs) = xs"
  by (simp add: window_def)

lemma blit_overwrite [blit_simps]:
  "off + length p \<le> length xs \<Longrightarrow> length q = length p \<Longrightarrow> blit (blit xs off p) off q = blit xs off q"
  by (intro nth_equalityI) (auto simp: nth_blit)

lemma take_blit_other: "n \<le> off \<Longrightarrow> off \<le> length xs \<Longrightarrow> take n (blit xs off p) = take n xs"
  by (simp add: blit_def)

text \<open>Records of one size: the window of the \<open>i\<close>-th is the \<open>i\<close>-th.\<close>

lemma window_concat:
  "\<forall>x \<in> set xs. length x = k \<Longrightarrow> i < length xs \<Longrightarrow> window (concat xs) (i * k) k = xs ! i"
proof (induction xs arbitrary: i)
  case (Cons x xs)
  then show ?case
  proof (cases i)
    case 0
    then show ?thesis using Cons.prems by (simp add: window_def)
  next
    case (Suc j)
    then show ?thesis using Cons by (simp add: window_append_right)
  qed
qed simp

text \<open>Adjacent overlays are one overlay: the shape of a sequential writer.\<close>

lemma blit_blit_adjacent:
  "off + length p + length q \<le> length xs \<Longrightarrow>
   blit (blit xs off p) (off + length p) q = blit xs off (p @ q)"
  by (simp add: blit_def ac_simps)

section \<open>Fixed-width fields\<close>

fun le_bytes :: "nat \<Rightarrow> nat \<Rightarrow> bytes" where
  "le_bytes 0 x = []"
| "le_bytes (Suc n) x = word_of_nat (x mod 256) # le_bytes n (x div 256)"

fun le_val :: "bytes \<Rightarrow> nat" where
  "le_val [] = 0"
| "le_val (b # bs) = unat b + 256 * le_val bs"

definition be_bytes :: "nat \<Rightarrow> nat \<Rightarrow> bytes" where
  "be_bytes n x = rev (le_bytes n x)"

definition be_val :: "bytes \<Rightarrow> nat" where
  "be_val bs = le_val (rev bs)"

lemma unat_byte_less: "unat (b :: byte) < 256"
  using unsigned_less[of b] by simp

lemma length_le_bytes [simp, field_simps_disk]: "length (le_bytes n x) = n"
  by (induction n arbitrary: x) auto

lemma length_be_bytes [simp, field_simps_disk]: "length (be_bytes n x) = n"
  by (simp add: be_bytes_def)

lemma unat_byte_of_mod: "unat (word_of_nat (x mod 256) :: byte) = x mod 256"
  by (simp add: unat_of_nat)

lemma le_val_le_bytes [simp, field_simps_disk]: "le_val (le_bytes n x) = x mod 256 ^ n"
proof (induction n arbitrary: x)
  case 0
  then show ?case by simp
next
  case (Suc n)
  have "x mod (256 * 256 ^ n) = 256 * (x div 256 mod 256 ^ n) + x mod 256"
    by (rule mod_mult2_eq)
  with Suc show ?case by (simp add: unat_byte_of_mod)
qed

lemma be_val_be_bytes [simp, field_simps_disk]: "be_val (be_bytes n x) = x mod 256 ^ n"
  by (simp add: be_val_def be_bytes_def)

lemma le_val_bound: "le_val bs < 256 ^ length bs"
proof (induction bs)
  case Nil
  then show ?case by simp
next
  case (Cons b bs)
  have "unat b < 256" by (rule unat_byte_less)
  with Cons show ?case by simp
qed

lemma be_val_bound: "be_val bs < 256 ^ length bs"
  using le_val_bound[of "rev bs"] by (simp add: be_val_def)

lemma le_bytes_le_val [simp]: "n = length bs \<Longrightarrow> le_bytes n (le_val bs) = bs"
proof (induction bs arbitrary: n)
  case Nil
  then show ?case by simp
next
  case (Cons b bs)
  have "unat b < 256" by (rule unat_byte_less)
  then show ?case using Cons by (simp add: mod_mult_right_eq div_mult_self4)
qed

lemma le_bytes_mod: "le_bytes n (x mod 256 ^ n) = le_bytes n x"
  by (metis length_le_bytes le_bytes_le_val le_val_le_bytes)

text \<open>
  \<open>binary.LittleEndian.PutUintN(b[off:], v)\<close> and \<open>UintN(b[off:])\<close>, the width in
  bytes first.
\<close>

definition put_le :: "nat \<Rightarrow> nat \<Rightarrow> nat \<Rightarrow> bytes \<Rightarrow> bytes" where
  "put_le w off v b = blit b off (le_bytes w v)"

definition get_le :: "nat \<Rightarrow> bytes \<Rightarrow> nat \<Rightarrow> nat" where
  "get_le w b off = le_val (window b off w)"

lemma length_put_le [simp]: "off + w \<le> length b \<Longrightarrow> length (put_le w off v b) = length b"
  by (simp add: put_le_def)

lemma get_put_le [field_simps_disk]:
  "off + w \<le> length b \<Longrightarrow> get_le w (put_le w off v b) off = v mod 256 ^ w"
  by (simp add: put_le_def get_le_def)

lemma window_put_le_other [blit_simps]:
  "off + w \<le> length b \<Longrightarrow> o' + n \<le> length b \<Longrightarrow> o' + n \<le> off \<or> off + w \<le> o'
    \<Longrightarrow> window (put_le w off v b) o' n = window b o' n"
  by (simp add: put_le_def window_blit_other)

lemma get_put_le_other [field_simps_disk]:
  "off + w \<le> length b \<Longrightarrow> o' + w' \<le> length b \<Longrightarrow> o' + w' \<le> off \<or> off + w \<le> o'
    \<Longrightarrow> get_le w' (put_le w off v b) o' = get_le w' b o'"
  by (simp add: get_le_def window_put_le_other)

lemma get_le_blit_other [field_simps_disk]:
  "off + length p \<le> length b \<Longrightarrow> o' + w' \<le> length b \<Longrightarrow> o' + w' \<le> off \<or> off + length p \<le> o'
    \<Longrightarrow> get_le w' (blit b off p) o' = get_le w' b o'"
  by (simp add: get_le_def window_blit_other)

lemma put_put_le [field_simps_disk]: "off + w \<le> length b \<Longrightarrow> put_le w off v (put_le w off v' b) = put_le w off v b"
  by (simp add: put_le_def blit_overwrite)

text \<open>
  The same for a buffer of a known size: instantiated at that size these rules read a field off a
  long chain of writes in time linear in the chain.
\<close>

lemma sized:
  "length b = n \<Longrightarrow> off + w \<le> n \<Longrightarrow> length (put_le w off v b) = n"
  "length b = n \<Longrightarrow> off + length p \<le> n \<Longrightarrow> length (blit b off p) = n"
  "length b = n \<Longrightarrow> off + w \<le> n \<Longrightarrow> get_le w (put_le w off v b) off = v mod 256 ^ w"
  "off + w \<le> n \<Longrightarrow> o' + w' \<le> n \<Longrightarrow> o' + w' \<le> off \<or> off + w \<le> o' \<Longrightarrow> length b = n
    \<Longrightarrow> get_le w' (put_le w off v b) o' = get_le w' b o'"
  "off + length p \<le> n \<Longrightarrow> o' + w' \<le> n \<Longrightarrow> o' + w' \<le> off \<or> off + length p \<le> o' \<Longrightarrow> length b = n
    \<Longrightarrow> get_le w' (blit b off p) o' = get_le w' b o'"
  "off + w \<le> n \<Longrightarrow> o' + k \<le> n \<Longrightarrow> o' + k \<le> off \<or> off + w \<le> o' \<Longrightarrow> length b = n
    \<Longrightarrow> window (put_le w off v b) o' k = window b o' k"
  "off + length p \<le> n \<Longrightarrow> o' + k \<le> n \<Longrightarrow> o' + k \<le> off \<or> off + length p \<le> o' \<Longrightarrow> length b = n
    \<Longrightarrow> window (blit b off p) o' k = window b o' k"
  "length b = n \<Longrightarrow> off + length p \<le> n \<Longrightarrow> k = length p \<Longrightarrow> window (blit b off p) off k = p"
  by (simp_all add: get_put_le get_put_le_other get_le_blit_other window_put_le_other window_blit_other)

section \<open>Strings\<close>

text \<open>A Go string is a sequence of bytes; the model keeps names as \<open>string\<close>.\<close>

definition bytes_of :: "string \<Rightarrow> bytes" where
  "bytes_of s = map of_char s"

definition string_of :: "bytes \<Rightarrow> string" where
  "string_of bs = map (\<lambda>b. char_of (unat b)) bs"

lemma length_bytes_of [simp]: "length (bytes_of s) = length s"
  by (simp add: bytes_of_def)

lemma unat_of_char: "unat (of_char c :: byte) = of_char c"
proof -
  have "(of_char c :: nat) < 256" by (metis nat_of_char_less_256)
  moreover have "(of_char c :: byte) = word_of_nat (of_char c)"
    by (simp add: of_nat_of_char)
  ultimately show ?thesis by (simp add: unat_of_nat)
qed

lemma string_of_bytes_of [simp]: "string_of (bytes_of s) = s"
  by (simp add: string_of_def bytes_of_def unat_of_char comp_def)

lemma bytes_of_string_of [simp]: "bytes_of (string_of bs) = bs"
proof -
  have "of_char (char_of (unat b) :: char) = b" for b :: byte
  proof -
    have "unat b < 256" by (rule unat_byte_less)
    then have "unat (of_char (char_of (unat b) :: char) :: byte) = unat b"
      by (simp add: unat_of_char of_char_of)
    then show ?thesis by (rule word_unat_eq_iff [THEN iffD2])
  qed
  then show ?thesis by (simp add: string_of_def bytes_of_def comp_def)
qed

lemma bytes_of_inject [simp]: "bytes_of s = bytes_of t \<longleftrightarrow> s = t"
  by (metis string_of_bytes_of)

lemma bytes_of_append [simp]: "bytes_of (s @ t) = bytes_of s @ bytes_of t"
  by (simp add: bytes_of_def)

text \<open>\<open>strings.Split\<close> on a one-byte separator: one part more than there are separators.\<close>

fun split_char :: "char \<Rightarrow> string \<Rightarrow> string list" where
  "split_char c [] = [[]]"
| "split_char c (x # xs) =
     (if x = c then [] # split_char c xs
      else (case split_char c xs of [] \<Rightarrow> [[x]] | p # ps \<Rightarrow> (x # p) # ps))"

lemma split_char_not_Nil [simp]: "split_char c s \<noteq> []"
  by (induction s) (auto split: list.splits)

lemma split_char_no_sep: "p \<in> set (split_char c s) \<Longrightarrow> c \<notin> set p"
  by (induction s arbitrary: p) (fastforce split: list.splits if_splits)+

lemma split_char_none: "c \<notin> set s \<Longrightarrow> split_char c s = [s]"
  by (induction s) auto

lemma split_char_append: "c \<notin> set s \<Longrightarrow> split_char c (s @ c # t) = s # split_char c t"
  by (induction s) auto

text \<open>\<open>be.PutUint32(b[off:], v)\<close>, \<open>be.Uint32(b[off:])\<close> and their siblings.\<close>

definition put_be :: "nat \<Rightarrow> nat \<Rightarrow> nat \<Rightarrow> bytes \<Rightarrow> bytes" where
  "put_be w off v b = blit b off (be_bytes w v)"

definition get_be :: "nat \<Rightarrow> bytes \<Rightarrow> nat \<Rightarrow> nat" where
  "get_be w b off = be_val (window b off w)"

lemma length_put_be [simp]: "off + w \<le> length b \<Longrightarrow> length (put_be w off v b) = length b"
  by (simp add: put_be_def)

lemma get_put_be: "off + w \<le> length b \<Longrightarrow> get_be w (put_be w off v b) off = v mod 256 ^ w"
  by (simp add: put_be_def get_be_def)

lemma get_put_be_other:
  "off + w \<le> length b \<Longrightarrow> o' + w' \<le> length b \<Longrightarrow> o' + w' \<le> off \<or> off + w \<le> o'
    \<Longrightarrow> get_be w' (put_be w off v b) o' = get_be w' b o'"
  by (simp add: put_be_def get_be_def window_blit_other)

section \<open>Sorting by a key\<close>

text \<open>
  \<open>sort.Slice\<close> by name is only used on directories, whose names are distinct; there the
  order is the only sorted permutation, so a stable insertion sort stands for it.
\<close>

definition sort_by_name :: "(string \<times> 'a) list \<Rightarrow> (string \<times> 'a) list" where
  "sort_by_name xs = sort_key fst xs"

lemma set_sort_by_name [simp]: "set (sort_by_name xs) = set xs"
  by (simp add: sort_by_name_def)

lemma length_sort_by_name [simp]: "length (sort_by_name xs) = length xs"
  by (simp add: sort_by_name_def)

lemma sort_by_name_Nil [simp]: "sort_by_name [] = []"
  by (simp add: sort_by_name_def)

lemma sorted_sort_by_name: "sorted (map fst (sort_by_name xs))"
  by (simp add: sort_by_name_def)

lemma distinct_sort_by_name [simp]:
  "distinct (map fst (sort_by_name xs)) = distinct (map fst xs)"
  by (simp add: sort_by_name_def distinct_map inj_on_def)

lemma sum_list_insort: "sum_list (map f (insort_key k x xs)) = f x + (sum_list (map f xs) :: nat)"
  by (induction xs) auto

lemma sum_list_sort_by_name [simp]: "sum_list (map f (sort_by_name xs)) = (sum_list (map f xs) :: nat)"
  unfolding sort_by_name_def by (induction xs) (auto simp: sum_list_insort)

end
