(* ===== verification/Codec.thy ===== *)
theory Codec
  imports Prelude
begin

text \<open>
  What the engines use of Go's standard library to encode text and check data: the runes of a
  string (UTF-8, with U+FFFD for every byte that is not part of a valid sequence),
  \<open>utf16.Encode\<close> and \<open>utf16.Decode\<close>, and the CRC-32 of \<open>hash/crc32\<close> with the
  IEEE and the Castagnoli polynomials (\<open>internal/binio\<close>).
\<close>

section \<open>Runes\<close>

definition cont_byte :: "nat \<Rightarrow> nat \<Rightarrow> nat \<Rightarrow> bool" where
  "cont_byte lo hi b \<longleftrightarrow> lo \<le> b \<and> b \<le> hi"

text \<open>
  One step of \<open>utf8.DecodeRune\<close>: the rune and how many bytes it takes. The second byte's
  range depends on the first one, which excludes overlong forms and surrogates.
\<close>

definition second_range :: "nat \<Rightarrow> nat \<times> nat" where
  "second_range a =
     (if a = 0xE0 then (0xA0, 0xBF) else if a = 0xED then (0x80, 0x9F)
      else if a = 0xF0 then (0x90, 0xBF) else if a = 0xF4 then (0x80, 0x8F) else (0x80, 0xBF))"

definition rune_len :: "nat \<Rightarrow> nat" where
  "rune_len a =
     (if a < 0x80 then 1 else if 0xC2 \<le> a \<and> a \<le> 0xDF then 2 else if 0xE0 \<le> a \<and> a \<le> 0xEF then 3
      else if 0xF0 \<le> a \<and> a \<le> 0xF4 then 4 else 0)"

definition decode_rune :: "nat \<Rightarrow> nat list \<Rightarrow> nat \<times> nat" where
  "decode_rune a rest =
     (let n = rune_len a; (lo, hi) = second_range a in
      if n = 1 then (a, 1)
      else if n = 0 \<or> length rest < n - 1 \<or> \<not> cont_byte lo hi (rest ! 0)
        \<or> \<not> list_all (cont_byte 0x80 0xBF) (take (n - 2) (drop 1 rest)) then (0xFFFD, 1)
      else if n = 2 then ((a - 0xC0) * 64 + (rest ! 0 - 0x80), 2)
      else if n = 3 then ((a - 0xE0) * 4096 + (rest ! 0 - 0x80) * 64 + (rest ! 1 - 0x80), 3)
      else ((a - 0xF0) * 262144 + (rest ! 0 - 0x80) * 4096 + (rest ! 1 - 0x80) * 64 + (rest ! 2 - 0x80), 4))"

lemma decode_rune_len: "1 \<le> snd (decode_rune a rest)"
  by (simp add: decode_rune_def Let_def split: prod.split)

function runes_of :: "nat list \<Rightarrow> nat list" where
  "runes_of [] = []"
| "runes_of (a # rest) = (let (r, n) = decode_rune a rest in r # runes_of (drop (n - 1) rest))"
  by pat_completeness auto
termination
  by (relation "measure length") auto

text \<open>\<open>[]rune(s)\<close>.\<close>

definition runes :: "string \<Rightarrow> nat list" where
  "runes s = runes_of (map of_char s)"

text \<open>\<open>string(rs)\<close>: every rune as UTF-8, an invalid one as U+FFFD.\<close>

definition encode_rune :: "nat \<Rightarrow> nat list" where
  "encode_rune r =
     (let r = (if 0x10FFFF < r \<or> (0xD800 \<le> r \<and> r \<le> 0xDFFF) then 0xFFFD else r) in
      if r < 0x80 then [r]
      else if r < 0x800 then [0xC0 + r div 64, 0x80 + r mod 64]
      else if r < 0x10000 then [0xE0 + r div 4096, 0x80 + r div 64 mod 64, 0x80 + r mod 64]
      else [0xF0 + r div 262144, 0x80 + r div 4096 mod 64, 0x80 + r div 64 mod 64, 0x80 + r mod 64])"

definition string_of_runes :: "nat list \<Rightarrow> string" where
  "string_of_runes rs = map char_of (concat (map encode_rune rs))"

section \<open>UTF-16\<close>

fun utf16_encode :: "nat list \<Rightarrow> nat list" where
  "utf16_encode [] = []"
| "utf16_encode (r # rs) =
     (if r < 0xD800 \<or> (0xE000 \<le> r \<and> r < 0x10000) then r # utf16_encode rs
      else if 0x10000 \<le> r \<and> r \<le> 0x10FFFF
      then (0xD800 + (r - 0x10000) div 0x400) # (0xDC00 + (r - 0x10000) mod 0x400) # utf16_encode rs
      else 0xFFFD # utf16_encode rs)"

fun utf16_decode :: "nat list \<Rightarrow> nat list" where
  "utf16_decode [] = []"
| "utf16_decode [u] = [if u < 0xD800 \<or> 0xE000 \<le> u then u else 0xFFFD]"
| "utf16_decode (u # v # us) =
     (if u < 0xD800 \<or> 0xE000 \<le> u then u # utf16_decode (v # us)
      else if u < 0xDC00 \<and> 0xDC00 \<le> v \<and> v < 0xE000
      then (0x10000 + (u - 0xD800) * 0x400 + (v - 0xDC00)) # utf16_decode us
      else 0xFFFD # utf16_decode (v # us))"

definition rune_ok :: "nat \<Rightarrow> bool" where
  "rune_ok r \<longleftrightarrow> r < 0xD800 \<or> (0xE000 \<le> r \<and> r \<le> 0x10FFFF)"

lemma utf16_round_trip: "list_all rune_ok rs \<Longrightarrow> utf16_decode (utf16_encode rs) = rs"
proof (induction rs rule: utf16_encode.induct)
  case (2 r rs)
  show ?case
  proof (cases "r < 0x10000")
    case True
    then show ?thesis using 2 by (cases "utf16_encode rs") (auto simp: rune_ok_def)
  next
    case False
    have "(r - 0x10000) div 0x400 * 0x400 + (r - 0x10000) mod 0x400 = r - 0x10000" by simp
    moreover have "(r - 0x10000) div 0x400 < 0x400" using False 2 by (auto simp: rune_ok_def)
    moreover have "(r - 0x10000) mod 0x400 < 0x400" by simp
    ultimately show ?thesis using 2 False by (auto simp: rune_ok_def)
  qed
qed simp

lemma utf16_units: "list_all (\<lambda>u. u < 65536) (utf16_encode rs)"
proof (induction rs rule: utf16_encode.induct)
  case (2 r rs)
  have "(r - 0x10000) mod 0x400 < 0x400" by simp
  then show ?case using 2 by auto
qed simp

section \<open>CRC-32\<close>

definition poly_ieee :: "32 word" where "poly_ieee = 0xEDB88320"
definition poly_castagnoli :: "32 word" where "poly_castagnoli = 0x82F63B78"

definition crc_bit :: "32 word \<Rightarrow> 32 word \<Rightarrow> 32 word" where
  "crc_bit poly c = (if bit c 0 then drop_bit 1 c XOR poly else drop_bit 1 c)"

definition crc_byte :: "32 word \<Rightarrow> 32 word \<Rightarrow> byte \<Rightarrow> 32 word" where
  "crc_byte poly c b = (crc_bit poly ^^ 8) (c XOR ucast b)"

text \<open>\<open>crc32.Update(crc, tab, data)\<close>.\<close>

definition crc_update :: "32 word \<Rightarrow> 32 word \<Rightarrow> bytes \<Rightarrow> 32 word" where
  "crc_update poly crc data = NOT (foldl (crc_byte poly) (NOT crc) data)"

definition crc32_ieee :: "bytes \<Rightarrow> 32 word" where
  "crc32_ieee data = crc_update poly_ieee 0 data"

definition CRC32C :: "bytes \<Rightarrow> 32 word" where
  "CRC32C data = crc_update poly_castagnoli 0 data"

definition CRC32CUpdate :: "32 word \<Rightarrow> bytes \<Rightarrow> 32 word" where
  "CRC32CUpdate crc data = crc_update poly_castagnoli crc data"

lemma crc_update_append: "crc_update poly crc (a @ b) = crc_update poly (crc_update poly crc a) b"
  by (simp add: crc_update_def)

lemma CRC32C_append: "CRC32C (a @ b) = CRC32CUpdate (CRC32C a) b"
  by (simp add: CRC32C_def CRC32CUpdate_def crc_update_append)

section \<open>The calendar\<close>

text \<open>
  \<open>t.UTC().Date()\<close> and \<open>t.UTC().Clock()\<close> of a Unix time: the proleptic Gregorian
  calendar, counted in 400-year eras of 146097 days from 1 March 0000.
\<close>

definition civil_of_days :: "int \<Rightarrow> int \<times> nat \<times> nat" where
  "civil_of_days days =
     (let z = days + 719468; era = z div 146097; doe = nat (z mod 146097);
          yoe = (doe - doe div 1460 + doe div 36524 - doe div 146096) div 365;
          doy = doe - (365 * yoe + yoe div 4 - yoe div 100);
          mp = (5 * doy + 2) div 153;
          d = doy - (153 * mp + 2) div 5 + 1;
          m = (if mp < 10 then mp + 3 else mp - 9)
      in (int yoe + era * 400 + (if m \<le> 2 then 1 else 0), m, d))"

definition clock_of_secs :: "int \<Rightarrow> nat \<times> nat \<times> nat" where
  "clock_of_secs s = (let r = nat (s mod 86400) in (r div 3600, r div 60 mod 60, r mod 60))"

section \<open>Decimal numbers\<close>

fun format_dec :: "nat \<Rightarrow> string" where
  "format_dec n = (if n < 10 then [char_of (48 + n)] else format_dec (n div 10) @ [char_of (48 + n mod 10)])"

declare format_dec.simps [simp del]

definition digit_val :: "char \<Rightarrow> nat" where
  "digit_val c = of_char c - 48"

definition is_digit :: "char \<Rightarrow> bool" where
  "is_digit c \<longleftrightarrow> 48 \<le> (of_char c :: nat) \<and> (of_char c :: nat) \<le> 57"

definition dec_val :: "string \<Rightarrow> nat" where
  "dec_val s = foldl (\<lambda>v c. v * 10 + digit_val c) 0 s"

lemma of_char_digit: "d < 10 \<Longrightarrow> (of_char (char_of (48 + d) :: char) :: nat) = 48 + d"
  by simp

lemma dec_val_snoc: "dec_val (s @ [c]) = dec_val s * 10 + digit_val c"
  by (simp add: dec_val_def)

lemma dec_val_format [simp]: "dec_val (format_dec n) = n"
proof (induction n rule: format_dec.induct)
  case (1 n)
  show ?case
  proof (cases "n < 10")
    case True
    then show ?thesis by (simp add: format_dec.simps[of n] dec_val_def digit_val_def)
  next
    case False
    then show ?thesis using 1 by (simp add: format_dec.simps[of n] dec_val_snoc) (simp add: digit_val_def)
  qed
qed

lemma format_dec_digits: "list_all is_digit (format_dec n)"
proof (induction n rule: format_dec.induct)
  case (1 n)
  have "n mod 10 \<le> 9" using mod_less_divisor[of 10 n] by linarith
  then show ?case using 1 by (subst format_dec.simps) (auto simp: list_all_iff is_digit_def)
qed

lemma format_dec_inject [simp]: "format_dec m = format_dec n \<longleftrightarrow> m = n"
  by (metis dec_val_format)

lemma format_dec_not_Nil [simp]: "format_dec n \<noteq> []"
  by (subst format_dec.simps) simp

lemma length_format_dec: "length (format_dec n) \<le> k \<longleftrightarrow> 0 < k \<and> n < 10 ^ k"
proof (induction n arbitrary: k rule: format_dec.induct)
  case (1 n)
  show ?case
  proof (cases "n < 10")
    case True
    then show ?thesis using power_increasing[of 1 k "10::nat"] by (auto simp: format_dec.simps[of n] Suc_le_eq)
  next
    case False
    then have l: "length (format_dec n) = Suc (length (format_dec (n div 10)))" by (simp add: format_dec.simps[of n])
    show ?thesis
    proof (cases k)
      case 0
      then show ?thesis by (simp add: l)
    next
      case (Suc j)
      have "length (format_dec n) \<le> k \<longleftrightarrow> 0 < j \<and> n div 10 < 10 ^ j" using 1[OF False, of j] by (simp add: l Suc)
      also have "\<dots> \<longleftrightarrow> n < 10 ^ k" using False by (cases j) (auto simp: Suc div_less_iff_less_mult mult.commute)
      finally show ?thesis using Suc by simp
    qed
  qed
qed

end
