(* ===== verification/Device.thy ===== *)
theory Device
  imports Prelude
begin

text \<open>
  The block-device layer (\<open>pkg/device\<close>). The Go interface \<open>Device\<close> is a record of its
  three methods over a device state (an interface value is a dictionary and a receiver).
  \<open>Mem\<close>, \<open>Section\<close> and \<open>File\<close> are three such dictionaries. The locale
  \<open>block_device\<close> is the contract the engines rely on; \<open>bounded_device\<close> adds the
  rejection of a write that leaves the device.
\<close>

section \<open>The Device interface\<close>

text \<open>
  \<open>ReadAt(p, off)\<close> returns the bytes it copied into the front of \<open>p\<close> and its error;
  \<open>WriteAt(p, off)\<close> the count, the error and the new state.
\<close>

record 'd device_ops =
  dev_size :: "'d \<Rightarrow> int"
  dev_read_at :: "'d \<Rightarrow> nat \<Rightarrow> int \<Rightarrow> bytes \<times> error option"
  dev_write_at :: "'d \<Rightarrow> bytes \<Rightarrow> int \<Rightarrow> (nat \<times> error option) \<times> 'd"

text \<open>A fresh zeroed buffer of \<open>n\<close> bytes after a read that filled its front.\<close>

definition buf_of :: "nat \<Rightarrow> bytes \<Rightarrow> bytes" where
  "buf_of n data = data @ zeros (n - length data)"

text \<open>
  The idiom of every reader of the repository: read into a fresh buffer and tolerate
  \<open>io.EOF\<close>: \<open>if _, err := dev.ReadAt(b, off); err != nil && err != io.EOF\<close>.
\<close>

definition read_full :: "'d device_ops \<Rightarrow> 'd \<Rightarrow> nat \<Rightarrow> int \<Rightarrow> bytes result" where
  "read_full D d n off =
     (case dev_read_at D d n off of
        (data, None) \<Rightarrow> Inr (buf_of n data)
      | (data, Some EOF) \<Rightarrow> Inr (buf_of n data)
      | (data, Some e) \<Rightarrow> Inl e)"

text \<open>A write whose count the caller ignores: \<open>_, err := dev.WriteAt(p, off)\<close>.\<close>

definition write_all :: "'d device_ops \<Rightarrow> 'd \<Rightarrow> bytes \<Rightarrow> int \<Rightarrow> error option \<times> 'd" where
  "write_all D d p off = (case dev_write_at D d p off of ((n, e), d') \<Rightarrow> (e, d'))"

lemma length_buf_of [simp]: "length data \<le> n \<Longrightarrow> length (buf_of n data) = n"
  by (simp add: buf_of_def)

lemma buf_of_full [simp]: "length data = n \<Longrightarrow> buf_of n data = data"
  by (simp add: buf_of_def zeros_def)

lemma buf_of_extend:
  assumes "buf_of m data = w" "length w = m" "m \<le> n"
  shows "buf_of n data = buf_of n w"
proof -
  have "length (buf_of m data) = max m (length data)" by (simp add: buf_of_def)
  then have "length data \<le> m" using assms by simp
  then have "n - length data = (m - length data) + (n - m)" using assms by simp
  then have "zeros (n - length data) = zeros (m - length data) @ zeros (n - m)"
    by (simp add: zeros_def replicate_add)
  then show ?thesis using assms by (auto simp: buf_of_def)
qed

section \<open>Mem\<close>

text \<open>The in-memory device is its buffer. \<open>m.data[off:]\<close> panics past the end of it.\<close>

definition mem_new :: "nat \<Rightarrow> bytes" where
  "mem_new sz = zeros sz"

definition mem_size :: "bytes \<Rightarrow> int" where
  "mem_size m = int (length m)"

definition mem_read_at :: "bytes \<Rightarrow> nat \<Rightarrow> int \<Rightarrow> bytes \<times> error option" where
  "mem_read_at m n off =
     (if off < 0 then ([], Some (Err ''device: negative offset''))
      else if off \<ge> int (length m) then ([], Some EOF)
      else let data = window m (nat off) n in
        if length data < n then (data, Some EOF) else (data, None))"

definition mem_write_at :: "bytes \<Rightarrow> bytes \<Rightarrow> int \<Rightarrow> (nat \<times> error option) \<times> bytes" where
  "mem_write_at m p off =
     (if off < 0 then ((0, Some (Err ''device: negative offset'')), m)
      else if i64 (off + int (length p)) > int (length m) then ((0, Some ShortWrite), m)
      else if off > int (length m) then ((0, Some (Panic ''slice bounds out of range'')), m)
      else let q = take (length m - nat off) p in ((length q, None), blit m (nat off) q))"

definition mem_discard :: "bytes \<Rightarrow> int \<Rightarrow> int \<Rightarrow> error option \<times> bytes" where
  "mem_discard m off len =
     (if off < 0 \<or> i64 (off + len) > int (length m)
      then (Some (Err ''device: discard out of range''), m)
      else if i64 (off + len) < off then (Some (Panic ''slice bounds out of range''), m)
      else (None, blit m (nat off) (zeros (nat len))))"

definition mem_ops :: "bytes device_ops" where
  "mem_ops = \<lparr> dev_size = mem_size, dev_read_at = mem_read_at, dev_write_at = mem_write_at \<rparr>"

lemma mem_ops_sel [simp]:
  "dev_size mem_ops = mem_size" "dev_read_at mem_ops = mem_read_at"
  "dev_write_at mem_ops = mem_write_at"
  by (simp_all add: mem_ops_def)

section \<open>Section\<close>

text \<open>
  \<open>Section\<close> is a window \<open>[off, off + size)\<close> of another device. It holds a pointer to
  that device, so its state is the underlying device's state.
\<close>

definition section_read_at ::
  "'d device_ops \<Rightarrow> int \<Rightarrow> int \<Rightarrow> 'd \<Rightarrow> nat \<Rightarrow> int \<Rightarrow> bytes \<times> error option" where
  "section_read_at D soff ssize d n off =
     (if off < 0 \<or> off > ssize then ([], Some (Err ''device: section read out of range''))
      else let n' = (if i64 (off + int n) > ssize then nat (ssize - off) else n) in
        dev_read_at D d n' (i64 (soff + off)))"

definition section_write_at ::
  "'d device_ops \<Rightarrow> int \<Rightarrow> int \<Rightarrow> 'd \<Rightarrow> bytes \<Rightarrow> int \<Rightarrow> (nat \<times> error option) \<times> 'd" where
  "section_write_at D soff ssize d p off =
     (if off < 0 \<or> i64 (off + int (length p)) > ssize
      then ((0, Some (Err ''device: section write out of range'')), d)
      else dev_write_at D d p (i64 (soff + off)))"

definition section_ops :: "'d device_ops \<Rightarrow> int \<Rightarrow> int \<Rightarrow> 'd device_ops" where
  "section_ops D soff ssize =
     \<lparr> dev_size = (\<lambda>d. ssize), dev_read_at = section_read_at D soff ssize,
       dev_write_at = section_write_at D soff ssize \<rparr>"

lemma section_ops_sel [simp]:
  "dev_size (section_ops D so ss) = (\<lambda>d. ss)"
  "dev_read_at (section_ops D so ss) = section_read_at D so ss"
  "dev_write_at (section_ops D so ss) = section_write_at D so ss"
  by (simp_all add: section_ops_def)

section \<open>File\<close>

text \<open>
  \<open>File\<close> carries a logical size over an \<open>*os.File\<close>, whose \<open>ReadAt\<close> and
  \<open>WriteAt\<close> it inherits. The standard library's file is its contents: a read past the end is
  \<open>io.EOF\<close>, a write past the end grows the file with zeros, an empty transfer does nothing.
\<close>

definition host_read_at :: "bytes \<Rightarrow> nat \<Rightarrow> int \<Rightarrow> bytes \<times> error option" where
  "host_read_at f n off =
     (if off < 0 then ([], Some (Err ''negative offset''))
      else if n = 0 then ([], None)
      else let data = window f (nat off) n in
        if length data < n then (data, Some EOF) else (data, None))"

definition host_write_at :: "bytes \<Rightarrow> bytes \<Rightarrow> int \<Rightarrow> (nat \<times> error option) \<times> bytes" where
  "host_write_at f p off =
     (if off < 0 then ((0, Some (Err ''negative offset'')), f)
      else if p = [] then ((0, None), f)
      else let g = f @ zeros (nat off + length p - length f) in
        ((length p, None), blit g (nat off) p))"

definition host_truncate :: "bytes \<Rightarrow> int \<Rightarrow> error option \<times> bytes" where
  "host_truncate f sz =
     (if sz < 0 then (Some (Err ''invalid argument''), f)
      else (None, take (nat sz) f @ zeros (nat sz - length f)))"

definition file_ops :: "int \<Rightarrow> bytes device_ops" where
  "file_ops sz =
     \<lparr> dev_size = (\<lambda>d. sz), dev_read_at = host_read_at, dev_write_at = host_write_at \<rparr>"

lemma file_ops_sel [simp]:
  "dev_size (file_ops s) = (\<lambda>d. s)" "dev_read_at (file_ops s) = host_read_at"
  "dev_write_at (file_ops s) = host_write_at"
  by (simp_all add: file_ops_def)

section \<open>The contract\<close>

text \<open>
  What an engine may assume of the device it is handed: its contents \<open>view\<close>, a read
  that starts inside it returns that window (zero-padded by the fresh buffer), a write that lies
  inside it replaces exactly that window.
\<close>

locale block_device =
  fixes D :: "'d device_ops"
    and view :: "'d \<Rightarrow> bytes"
    and invar :: "'d \<Rightarrow> bool"
  assumes size_view: "invar d \<Longrightarrow> dev_size D d = int (length (view d))"
    and size_bound: "invar d \<Longrightarrow> length (view d) < 2 ^ 63"
    and read_view: "invar d \<Longrightarrow> 0 \<le> off \<Longrightarrow> off \<le> dev_size D d \<Longrightarrow> off + int n < 2 ^ 63 \<Longrightarrow>
        read_full D d n off = Inr (buf_of n (window (view d) (nat off) n))"
    and write_view: "invar d \<Longrightarrow> 0 \<le> off \<Longrightarrow> off + int (length p) \<le> dev_size D d \<Longrightarrow>
        \<exists>d'. dev_write_at D d p off = ((length p, None), d') \<and> invar d'
           \<and> view d' = blit (view d) (nat off) p"
begin

lemma read_inside:
  assumes "invar d" "off + n \<le> length (view d)"
  shows "read_full D d n (int off) = Inr (window (view d) off n)"
proof -
  have "int off + int n < 2 ^ 63" using assms size_bound[of d] by simp
  moreover have "int off \<le> dev_size D d" using assms size_view[of d] by simp
  ultimately show ?thesis using assms read_view[of d "int off" n] by simp
qed

lemma write_inside:
  assumes "invar d" "off + length p \<le> length (view d)"
  shows "\<exists>d'. write_all D d p (int off) = (None, d') \<and> invar d' \<and> view d' = blit (view d) off p"
  using assms write_view[of d "int off" p] size_view[of d]
  by (auto simp: write_all_def)

lemma write_then_read:
  assumes "invar d" "off + length p \<le> length (view d)" "write_all D d p (int off) = (e, d')"
  shows "read_full D d' (length p) (int off) = Inr p"
proof -
  obtain d'' where w: "write_all D d p (int off) = (None, d'')" "invar d''"
    "view d'' = blit (view d) off p"
    using write_inside assms(1,2) by blast
  then have "off + length p \<le> length (view d'')" using assms(2) by simp
  with w assms show ?thesis using read_inside[of d'' off "length p"] by simp
qed

lemma write_keeps_size:
  assumes "invar d" "off + length p \<le> length (view d)" "write_all D d p (int off) = (e, d')"
  shows "dev_size D d' = dev_size D d"
  using assms write_inside[OF assms(1,2)] size_view by fastforce

end

text \<open>A device that also refuses a write that would leave it, and is unchanged by the refusal.\<close>

locale bounded_device = block_device +
  assumes write_out: "invar d \<Longrightarrow> off < 0 \<or> off + int (length p) > dev_size D d \<Longrightarrow>
      off + int (length p) < 2 ^ 63 \<Longrightarrow>
      \<exists>e. dev_write_at D d p off = ((0, Some e), d)"

text \<open>\<open>Mem\<close> meets the bounded contract: its contents are its buffer.\<close>

definition mem_invar :: "bytes \<Rightarrow> bool" where
  "mem_invar m \<longleftrightarrow> length m < 2 ^ 63"

lemma mem_read_full:
  assumes "0 \<le> off"
  shows "read_full mem_ops m n off = Inr (buf_of n (window m (nat off) n))"
proof (cases "int (length m) \<le> off")
  case True
  then have "window m (nat off) n = []" using assms by (simp add: window_def)
  with True assms show ?thesis by (simp add: read_full_def mem_read_at_def)
next
  case False
  with assms show ?thesis by (simp add: read_full_def mem_read_at_def Let_def)
qed

lemma mem_write_inside:
  assumes "mem_invar m" "0 \<le> off" "off + int (length p) \<le> int (length m)"
  shows "mem_write_at m p off = ((length p, None), blit m (nat off) p)"
proof -
  have "i64 (off + int (length p)) = off + int (length p)"
    using assms by (simp add: mem_invar_def)
  moreover have "length p \<le> length m - nat off" using assms by linarith
  ultimately show ?thesis using assms by (simp add: mem_write_at_def Let_def)
qed

lemma mem_invar_blit:
  "mem_invar m \<Longrightarrow> off + length p \<le> length m \<Longrightarrow> mem_invar (blit m off p)"
  by (simp add: mem_invar_def)

interpretation mem: bounded_device mem_ops "\<lambda>m. m" mem_invar
proof unfold_locales
  fix m :: bytes and off n p
  show "mem_invar m \<Longrightarrow> dev_size mem_ops m = int (length m)" by (simp add: mem_size_def)
  show "mem_invar m \<Longrightarrow> length m < 2 ^ 63" by (simp add: mem_invar_def)
  show "0 \<le> off \<Longrightarrow> read_full mem_ops m n off = Inr (buf_of n (window m (nat off) n))"
    by (rule mem_read_full)
  show "\<exists>m'. dev_write_at mem_ops m p off = ((length p, None), m') \<and> mem_invar m'
      \<and> m' = blit m (nat off) p"
    if "mem_invar m" "0 \<le> off" "off + int (length p) \<le> dev_size mem_ops m"
    using that by (auto simp: mem_size_def mem_write_inside intro!: mem_invar_blit)
  show "\<exists>e. dev_write_at mem_ops m p off = ((0, Some e), m)"
    if "mem_invar m" "off < 0 \<or> off + int (length p) > dev_size mem_ops m"
      "off + int (length p) < 2 ^ 63"
    using that by (cases "off < 0") (auto simp: mem_size_def mem_write_at_def)
qed


text \<open>
  A \<open>Section\<close> of any device that meets the contract meets it too, when it lies inside the
  device: its contents are the window.
\<close>

definition section_view :: "('d \<Rightarrow> bytes) \<Rightarrow> int \<Rightarrow> int \<Rightarrow> 'd \<Rightarrow> bytes" where
  "section_view view so ss d = window (view d) (nat so) (nat ss)"

definition section_invar ::
  "('d \<Rightarrow> bytes) \<Rightarrow> ('d \<Rightarrow> bool) \<Rightarrow> int \<Rightarrow> int \<Rightarrow> 'd \<Rightarrow> bool" where
  "section_invar view invar so ss d \<longleftrightarrow>
     invar d \<and> 0 \<le> so \<and> 0 \<le> ss \<and> so + ss \<le> int (length (view d))"

lemma length_section_view:
  "section_invar view invar so ss d \<Longrightarrow> length (section_view view so ss d) = nat ss"
  by (auto simp: section_invar_def section_view_def intro!: length_window)

lemma window_window_clamp:
  assumes "off \<le> ss"
  shows "window (window xs so ss) off n = window xs (so + off) (min n (ss - off))"
  using assms by (simp add: window_window)

lemma window_blit_shift:
  assumes "so + ss \<le> length xs" "off + length p \<le> ss"
  shows "window (blit xs (so + off) p) so ss = blit (window xs so ss) off p"
  using assms by (intro nth_equalityI) (auto simp: nth_window nth_blit)

context block_device
begin

lemma section_read_full:
  assumes inv: "section_invar view invar so ss d" and off: "0 \<le> off" "off \<le> ss"
    and n: "off + int n < 2 ^ 63"
  shows "read_full (section_ops D so ss) d n off
       = Inr (buf_of n (window (section_view view so ss d) (nat off) n))"
proof -
  let ?n = "min n (nat (ss - off))"
  have bnd: "so + ss < 2 ^ 63"
    using inv size_bound[of d] by (auto simp: section_invar_def)
  have i: "i64 (off + int n) = off + int n" "i64 (so + off) = so + off"
    using off n bnd inv by (auto simp: section_invar_def)
  have n': "(if i64 (off + int n) > ss then nat (ss - off) else n) = ?n"
    using off by (auto simp: i min_def)
  have rd: "section_read_at D so ss d n off = dev_read_at D d ?n (so + off)"
    unfolding section_read_at_def Let_def using off n' i by simp
  have len: "off + int ?n \<le> ss" using off by simp
  have "read_full D d ?n (so + off) = Inr (buf_of ?n (window (view d) (nat (so + off)) ?n))"
    using inv off len size_view[of d] bnd by (intro read_view) (auto simp: section_invar_def)
  moreover have "nat (so + off) + ?n \<le> length (view d)"
    using inv off len by (auto simp: section_invar_def)
  ultimately have rf: "read_full D d ?n (so + off) = Inr (window (view d) (nat (so + off)) ?n)"
    by simp
  have w: "window (section_view view so ss d) (nat off) n = window (view d) (nat (so + off)) ?n"
    using inv off by (simp add: section_view_def section_invar_def window_window nat_add_distrib nat_diff_distrib)
  obtain data where data: "fst (dev_read_at D d ?n (so + off)) = data" by blast
  have "buf_of ?n data = window (view d) (nat (so + off)) ?n"
    using rf data by (auto simp: read_full_def split: prod.splits option.splits error.splits)
  then have "buf_of n data = buf_of n (window (view d) (nat (so + off)) ?n)"
    using inv off len by (intro buf_of_extend) (auto simp: section_invar_def)
  then show ?thesis using rf data by (auto simp: read_full_def rd w split: prod.splits option.splits error.splits)
qed


lemma section_write_inside:
  assumes inv: "section_invar view invar so ss d" and off: "0 \<le> off" "off + int (length p) \<le> ss"
  shows "\<exists>d'. dev_write_at (section_ops D so ss) d p off = ((length p, None), d')
     \<and> section_invar view invar so ss d'
     \<and> section_view view so ss d' = blit (section_view view so ss d) (nat off) p"
proof -
  have bnd: "so + ss < 2 ^ 63"
    using inv size_bound[of d] by (auto simp: section_invar_def)
  have i: "i64 (off + int (length p)) = off + int (length p)" "i64 (so + off) = so + off"
    using off bnd inv by (auto simp: section_invar_def)
  have w: "section_write_at D so ss d p off = dev_write_at D d p (so + off)"
    using off i by (simp add: section_write_at_def)
  obtain d' where d': "dev_write_at D d p (so + off) = ((length p, None), d')" "invar d'"
    "view d' = blit (view d) (nat (so + off)) p"
    using write_view[of d "so + off" p] inv off size_view[of d] by (auto simp: section_invar_def)
  have "nat (so + off) + length p \<le> length (view d)" using inv off by (auto simp: section_invar_def)
  then have "section_invar view invar so ss d'" using inv d' by (auto simp: section_invar_def)
  moreover have "section_view view so ss d' = blit (section_view view so ss d) (nat off) p"
    using inv off d' window_blit_shift[of "nat so" "nat ss" "view d" "nat off" p]
    by (auto simp: section_view_def section_invar_def nat_add_distrib)
  ultimately show ?thesis using w d' by simp
qed

lemma section_write_out:
  assumes "section_invar view invar so ss d" "off < 0 \<or> off + int (length p) > ss"
    "off + int (length p) < 2 ^ 63"
  shows "\<exists>e. dev_write_at (section_ops D so ss) d p off = ((0, Some e), d)"
  using assms by (cases "off < 0") (auto simp: section_write_at_def)

lemma section_bounded:
  "bounded_device (section_ops D so ss) (section_view view so ss) (section_invar view invar so ss)"
proof unfold_locales
  fix d off n p
  assume inv: "section_invar view invar so ss d"
  show "dev_size (section_ops D so ss) d = int (length (section_view view so ss d))"
    using inv by (simp add: length_section_view) (simp add: section_invar_def)
  show "length (section_view view so ss d) < 2 ^ 63"
    using inv size_bound[of d] by (auto simp: length_section_view section_invar_def)
  show "read_full (section_ops D so ss) d n off
      = Inr (buf_of n (window (section_view view so ss d) (nat off) n))"
    if "0 \<le> off" "off \<le> dev_size (section_ops D so ss) d" "off + int n < 2 ^ 63"
    using inv that by (intro section_read_full) auto
  show "\<exists>d'. dev_write_at (section_ops D so ss) d p off = ((length p, None), d')
      \<and> section_invar view invar so ss d'
      \<and> section_view view so ss d' = blit (section_view view so ss d) (nat off) p"
    if "0 \<le> off" "off + int (length p) \<le> dev_size (section_ops D so ss) d"
    using inv that by (intro section_write_inside) auto
  show "\<exists>e. dev_write_at (section_ops D so ss) d p off = ((0, Some e), d)"
    if "off < 0 \<or> off + int (length p) > dev_size (section_ops D so ss) d"
      "off + int (length p) < 2 ^ 63"
    using inv that by (intro section_write_out) auto
qed

end

interpretation sect: bounded_device "section_ops mem_ops so ss"
    "section_view (\<lambda>m. m) so ss" "section_invar (\<lambda>m. m) mem_invar so ss" for so ss
  by (rule mem.section_bounded)

text \<open>
  A \<open>File\<close> whose host file is no longer than the logical size meets the contract: its
  contents are the host file, zero-extended to that size. It is not bounded: the host file grows.
\<close>

definition file_view :: "int \<Rightarrow> bytes \<Rightarrow> bytes" where
  "file_view sz f = buf_of (nat sz) f"

definition file_invar :: "int \<Rightarrow> bytes \<Rightarrow> bool" where
  "file_invar sz f \<longleftrightarrow> int (length f) \<le> sz \<and> sz < 2 ^ 63"

lemma window_buf_of:
  assumes "length f \<le> sz"
  shows "buf_of n (window (buf_of sz f) off n) = buf_of n (window f off n)"
proof -
  let ?k = "sz - length f - (off - length f)"
  let ?d = "take n (drop off f)"
  have "window (buf_of sz f) off n = ?d @ zeros (min (n - length ?d) ?k)"
    by (auto simp: window_def buf_of_def zeros_def min_def)
  moreover have "min (n - a) k + (n - (a + min (n - a) k)) = n - a" for a k :: nat
    by (simp add: min_def)
  ultimately show ?thesis
    by (simp add: buf_of_def window_def zeros_append del: length_take)
qed

lemma host_read_full:
  assumes "0 \<le> off"
  shows "read_full (file_ops sz) f n off = Inr (buf_of n (window f (nat off) n))"
  using assms by (auto simp: read_full_def host_read_at_def Let_def window_def)

lemma host_write_inside:
  assumes "file_invar sz f" "0 \<le> off" "off + int (length p) \<le> sz"
  shows "\<exists>f'. host_write_at f p off = ((length p, None), f') \<and> file_invar sz f'
     \<and> file_view sz f' = blit (file_view sz f) (nat off) p"
proof (cases "p = []")
  case True
  with assms show ?thesis by (simp add: host_write_at_def)
next
  case False
  let ?k = "nat off + length p - length f"
  let ?f' = "blit (f @ zeros ?k) (nat off) p"
  have len: "nat off + length p \<le> length (f @ zeros ?k)" "length (f @ zeros ?k) \<le> nat sz"
    using assms by (auto simp: file_invar_def)
  have fi: "file_invar sz ?f'" using len assms by (auto simp: file_invar_def)
  have ext: "file_view sz f = (f @ zeros ?k) @ zeros (nat sz - length (f @ zeros ?k))"
    using len by (auto simp: file_view_def buf_of_def zeros_append)
  have "file_view sz ?f' = ?f' @ zeros (nat sz - length (f @ zeros ?k))"
    using len by (simp add: file_view_def buf_of_def)
  also have "\<dots> = blit (file_view sz f) (nat off) p"
    unfolding ext blit_def using len by simp
  finally show ?thesis using False assms fi by (auto simp: host_write_at_def Let_def)
qed

interpretation hostfile: block_device "file_ops sz" "file_view sz" "file_invar sz" for sz
proof unfold_locales
  fix f :: bytes and off n p
  assume inv: "file_invar sz f"
  show "dev_size (file_ops sz) f = int (length (file_view sz f))"
    using inv by (auto simp: file_view_def file_invar_def)
  show "length (file_view sz f) < 2 ^ 63"
    using inv by (auto simp: file_view_def file_invar_def)
  show "read_full (file_ops sz) f n off = Inr (buf_of n (window (file_view sz f) (nat off) n))"
    if "0 \<le> off"
  proof -
    have "length f \<le> nat sz" using inv by (auto simp: file_invar_def)
    then show ?thesis
      using window_buf_of[of f "nat sz" n "nat off"] that by (simp add: host_read_full file_view_def)
  qed
  show "\<exists>f'. dev_write_at (file_ops sz) f p off = ((length p, None), f') \<and> file_invar sz f'
      \<and> file_view sz f' = blit (file_view sz f) (nat off) p"
    if "0 \<le> off" "off + int (length p) \<le> dev_size (file_ops sz) f"
    using inv that by (simp add: host_write_inside)
qed


section \<open>Properties\<close>

text \<open>
  C11. Handing an engine one partition is safe: through a \<open>Section\<close> of a memory disk a write
  is either refused, leaving the disk alone, or changes no byte outside the window; and it is
  accepted exactly when it lies inside the window.
\<close>

theorem section_writes_stay_inside:
  assumes m: "length m < 2 ^ 63" and win: "0 \<le> so" "0 \<le> ss" "so + ss \<le> int (length m)"
    and off: "off + int (length p) < 2 ^ 63" "- (2 ^ 62) \<le> off"
  shows "case section_write_at mem_ops so ss m p off of ((n, e), m') \<Rightarrow>
      length m' = length m
    \<and> (\<forall>i < length m. int i < so \<or> so + ss \<le> int i \<longrightarrow> m' ! i = m ! i)
    \<and> (e = None \<longleftrightarrow> 0 \<le> off \<and> off + int (length p) \<le> ss)
    \<and> (if e = None then m' = blit m (nat (so + off)) p else m' = m)"
proof -
  have inv: "section_invar (\<lambda>m. m) mem_invar so ss m"
    using m win by (simp add: section_invar_def mem_invar_def)
  show ?thesis
  proof (cases "0 \<le> off \<and> off + int (length p) \<le> ss")
    case True
    then have "section_write_at mem_ops so ss m p off = mem_write_at m p (so + off)"
      using m win off by (simp add: section_write_at_def)
    also have "\<dots> = ((length p, None), blit m (nat (so + off)) p)"
      using m win True by (intro mem_write_inside) (auto simp: mem_invar_def)
    finally show ?thesis using True win by (auto simp: nth_blit)
  next
    case False
    then have "off < 0 \<or> off + int (length p) > ss" by linarith
    then have "\<exists>e. section_write_at mem_ops so ss m p off = ((0, Some e), m)"
      using mem.section_write_out[OF inv _ off(1)] by simp
    then show ?thesis using False by auto
  qed
qed

theorem section_writes_stay_inside_witness:
  "case section_write_at mem_ops 512 1024 (mem_new 4096) [1, 2, 3] 1021 of ((n, e), m') \<Rightarrow>
      length m' = length (mem_new 4096)
    \<and> (\<forall>i < length (mem_new 4096). int i < 512 \<or> 512 + 1024 \<le> int i \<longrightarrow> m' ! i = mem_new 4096 ! i)
    \<and> (e = None \<longleftrightarrow> (0::int) \<le> 1021 \<and> 1021 + int (length [1::byte, 2, 3]) \<le> 1024)
    \<and> (if e = None then m' = blit (mem_new 4096) (nat (512 + 1021)) [1, 2, 3] else m' = mem_new 4096)"
  by (rule section_writes_stay_inside) (simp_all add: mem_new_def)

text \<open>
  A read through a \<open>Section\<close> that crosses the end of the window, inside the disk, returns
  fewer bytes than asked for and no error, where \<open>io.ReaderAt\<close> requires an error whenever
  \<open>n < len(p)\<close>.
\<close>

lemma section_short_read_has_no_error:
  assumes m: "length m < 2 ^ 63" and win: "0 \<le> so" "so + ss < int (length m)"
    and off: "0 \<le> off" "off \<le> ss" "ss < off + int n" "off + int n < 2 ^ 63"
  shows "\<exists>data. section_read_at mem_ops so ss m n off = (data, None) \<and> length data < n
    \<and> data = window m (nat (so + off)) (nat (ss - off))"
proof -
  have "i64 (off + int n) = off + int n" "i64 (so + off) = so + off" using assms by auto
  moreover have "length (window m (nat (so + off)) (nat (ss - off))) = nat (ss - off)"
    using assms by (intro length_window) linarith
  ultimately show ?thesis using assms by (auto simp: section_read_at_def mem_read_at_def Let_def)
qed

end
