(* ===== verification/Alloc.thy ===== *)
theory Alloc
  imports Prelude
begin

text \<open>
  Block allocation (\<open>pkg/alloc\<close>): the first-fit bitmap allocator, scanned a 64-bit word at a
  time, and \<open>AllocRuns\<close>, which spreads a request over several runs of any allocator that
  meets the contract of the locales \<open>allocator\<close> and \<open>run_allocator\<close>. The abstraction of
  an allocator is the set of its used blocks.
\<close>

section \<open>The interfaces\<close>

text \<open>
  \<open>Allocator\<close> and its optional capability \<open>RunAllocator\<close>, which \<open>AllocRuns\<close>
  finds by a type assertion: \<open>None\<close> when it is absent.
\<close>

record 'a allocator_ops =
  al_alloc :: "'a \<Rightarrow> nat \<Rightarrow> nat result \<times> 'a"
  al_free :: "'a \<Rightarrow> nat \<Rightarrow> nat \<Rightarrow> error option \<times> 'a"
  al_reserve :: "'a \<Rightarrow> nat \<Rightarrow> nat \<Rightarrow> error option \<times> 'a"
  al_upto :: "('a \<Rightarrow> nat \<Rightarrow> (nat \<times> nat) result \<times> 'a) option"

definition ErrNoSpace :: error where
  "ErrNoSpace = Err ''alloc: no contiguous space''"

definition errZeroLen :: error where
  "errZeroLen = Err ''alloc: zero-length allocation''"

lemma errZeroLen_neq [simp]: "errZeroLen \<noteq> ErrNoSpace" "ErrNoSpace \<noteq> errZeroLen"
  by (simp_all add: ErrNoSpace_def errZeroLen_def)

record run =
  run_start :: nat
  run_len :: nat

definition run_blocks :: "run \<Rightarrow> nat set" where
  "run_blocks r = {run_start r ..< run_start r + run_len r}"

section \<open>The bitmap\<close>

record bitmap =
  bm_bits :: "64 word list"
  bm_total :: nat
  bm_hint :: nat

text \<open>\<open>math/bits.TrailingZeros64\<close>.\<close>

definition trailing_zeros64 :: "64 word \<Rightarrow> nat" where
  "trailing_zeros64 w = length (takeWhile (\<lambda>k. \<not> bit w k) [0..<64])"

definition mark :: "nat \<Rightarrow> bitmap \<Rightarrow> bitmap" where
  "mark i b = b\<lparr>bm_bits := (bm_bits b)[i div 64 := bm_bits b ! (i div 64) OR push_bit (i mod 64) 1]\<rparr>"

definition unmark :: "nat \<Rightarrow> bitmap \<Rightarrow> bitmap" where
  "unmark i b = b\<lparr>bm_bits := (bm_bits b)[i div 64 :=
     bm_bits b ! (i div 64) AND NOT (push_bit (i mod 64) 1)]\<rparr>"

text \<open>\<open>NewBitmap\<close>: all free, the padding bits of the last word marked.\<close>

definition new_bitmap :: "nat \<Rightarrow> bitmap" where
  "new_bitmap tot =
     (let words = u64 (tot + 63) div 64 in
      fold mark [tot ..< words * 64]
        \<lparr>bm_bits = replicate words 0, bm_total = tot, bm_hint = 0\<rparr>)"

text \<open>The word loops of \<open>firstFree\<close> and \<open>firstUsed\<close>, from word \<open>i\<close> holding \<open>w\<close>.\<close>

function scan_free :: "bitmap \<Rightarrow> nat \<Rightarrow> 64 word \<Rightarrow> nat" where
  "scan_free b i w =
     (if w \<noteq> -1 then i * 64 + trailing_zeros64 (NOT w)
      else if Suc i \<ge> length (bm_bits b) then bm_total b
      else scan_free b (Suc i) (bm_bits b ! Suc i))"
  by pat_completeness auto
termination
  by (relation "measure (\<lambda>(b, i, w). length (bm_bits b) - i)") auto

function scan_used :: "bitmap \<Rightarrow> nat \<Rightarrow> 64 word \<Rightarrow> nat" where
  "scan_used b i w =
     (if w \<noteq> 0 then min (i * 64 + trailing_zeros64 w) (bm_total b)
      else if Suc i \<ge> length (bm_bits b) then bm_total b
      else scan_used b (Suc i) (bm_bits b ! Suc i))"
  by pat_completeness auto
termination
  by (relation "measure (\<lambda>(b, i, w). length (bm_bits b) - i)") auto

declare scan_free.simps [simp del] scan_used.simps [simp del]

definition low_mask :: "nat \<Rightarrow> 64 word" where
  "low_mask k = push_bit k 1 - 1"

definition firstFree :: "bitmap \<Rightarrow> nat \<Rightarrow> nat" where
  "firstFree b frm =
     (if frm \<ge> bm_total b then bm_total b
      else scan_free b (frm div 64) (bm_bits b ! (frm div 64) OR low_mask (frm mod 64)))"

definition firstUsed :: "bitmap \<Rightarrow> nat \<Rightarrow> nat" where
  "firstUsed b frm =
     (if frm \<ge> bm_total b then bm_total b
      else scan_used b (frm div 64) (bm_bits b ! (frm div 64) AND NOT (low_mask (frm mod 64))))"

text \<open>\<open>take\<close>: mark the run and refresh the hint. The bound of the loop wraps at 64 bits.\<close>

definition bm_take :: "bitmap \<Rightarrow> nat \<Rightarrow> nat \<Rightarrow> bitmap" where
  "bm_take b start n =
     (let b' = fold mark [start ..< u64 (start + n)] b in
      b'\<lparr>bm_hint := firstFree b' (bm_hint b')\<rparr>)"

text \<open>The search of \<open>Alloc\<close>; \<open>None\<close> would be a loop that never returns.\<close>

partial_function (option) bm_search :: "bitmap \<Rightarrow> nat \<Rightarrow> nat \<Rightarrow> nat option option" where
  "bm_search b n i =
     (if i < bm_total b
      then (let e = firstUsed b i in
        if e - i \<ge> n then Some (Some i) else bm_search b n (firstFree b e))
      else Some None)"

definition bm_alloc :: "bitmap \<Rightarrow> nat \<Rightarrow> nat result \<times> bitmap" where
  "bm_alloc b n =
     (if n = 0 then (Inl errZeroLen, b)
      else (case bm_search b n (firstFree b (bm_hint b)) of
              Some (Some i) \<Rightarrow> (Inr i, bm_take b i n)
            | Some None \<Rightarrow> (Inl ErrNoSpace, b)
            | None \<Rightarrow> (Inl (Panic ''does not return''), b)))"

definition bm_alloc_upto :: "bitmap \<Rightarrow> nat \<Rightarrow> (nat \<times> nat) result \<times> bitmap" where
  "bm_alloc_upto b n =
     (if n = 0 then (Inl errZeroLen, b)
      else let start = firstFree b (bm_hint b) in
        if start \<ge> bm_total b then (Inl ErrNoSpace, b)
        else let got = min (firstUsed b start - start) n in
          (Inr (start, got), bm_take b start got))"

definition bm_free :: "bitmap \<Rightarrow> nat \<Rightarrow> nat \<Rightarrow> error option \<times> bitmap" where
  "bm_free b start n =
     (if u64 (start + n) > bm_total b then (Some (Err ''alloc: free out of range''), b)
      else let b' = fold unmark [start ..< u64 (start + n)] b in
        (None, if start < bm_hint b' then b'\<lparr>bm_hint := start\<rparr> else b'))"

definition bm_reserve :: "bitmap \<Rightarrow> nat \<Rightarrow> nat \<Rightarrow> error option \<times> bitmap" where
  "bm_reserve b start n =
     (if u64 (start + n) > bm_total b then (Some (Err ''alloc: reserve out of range''), b)
      else (None, bm_take b start n))"

definition bitmap_ops :: "bitmap allocator_ops" where
  "bitmap_ops = \<lparr> al_alloc = bm_alloc, al_free = bm_free, al_reserve = bm_reserve,
     al_upto = Some bm_alloc_upto \<rparr>"

section \<open>Allocation in several runs\<close>

text \<open>The halving probe of \<open>allocAtMost\<close> for an allocator without \<open>AllocUpTo\<close>.\<close>

fun probe_halves :: "'a allocator_ops \<Rightarrow> 'a \<Rightarrow> nat \<Rightarrow> (nat \<times> nat) result \<times> 'a" where
  "probe_halves A a want =
     (if want = 0 then (Inl ErrNoSpace, a)
      else (case al_alloc A a want of
              (Inr start, a') \<Rightarrow> (Inr (start, want), a')
            | (Inl e, a') \<Rightarrow> if e = ErrNoSpace then probe_halves A a' (want div 2) else (Inl e, a')))"

declare probe_halves.simps [simp del]

definition allocAtMost :: "'a allocator_ops \<Rightarrow> 'a \<Rightarrow> nat \<Rightarrow> (nat \<times> nat) result \<times> 'a" where
  "allocAtMost A a want =
     (case al_alloc A a want of
        (Inr start, a') \<Rightarrow> (Inr (start, want), a')
      | (Inl e, a') \<Rightarrow>
          if e \<noteq> ErrNoSpace then (Inl e, a')
          else (case al_upto A of
                  Some up \<Rightarrow> up a' want
                | None \<Rightarrow> probe_halves A a' (want div 2)))"

definition free_runs :: "'a allocator_ops \<Rightarrow> run list \<Rightarrow> 'a \<Rightarrow> 'a" where
  "free_runs A runs a = fold (\<lambda>r a. snd (al_free A a (run_start r) (run_len r))) runs a"

partial_function (option) alloc_runs_loop ::
  "'a allocator_ops \<Rightarrow> nat \<Rightarrow> nat \<Rightarrow> run list \<Rightarrow> 'a \<Rightarrow> (run list result \<times> 'a) option" where
  "alloc_runs_loop A maxRun left runs a =
     (if left > 0
      then (case allocAtMost A a (if maxRun > 0 \<and> left > maxRun then maxRun else left) of
              (Inl e, a') \<Rightarrow> Some (Inl e, free_runs A runs a')
            | (Inr (start, got), a') \<Rightarrow>
                alloc_runs_loop A maxRun (sub64 left got)
                  (runs @ [\<lparr>run_start = start, run_len = got\<rparr>]) a')
      else Some (Inr runs, a))"

definition AllocRuns :: "'a allocator_ops \<Rightarrow> 'a \<Rightarrow> nat \<Rightarrow> nat \<Rightarrow> (run list result \<times> 'a) option" where
  "AllocRuns A a n maxRun =
     (if n = 0 then Some (Inr [], a) else alloc_runs_loop A maxRun n [] a)"

section \<open>Bits and words\<close>

definition bm_used :: "bitmap \<Rightarrow> nat \<Rightarrow> bool" where
  "bm_used b i = bit (bm_bits b ! (i div 64)) (i mod 64)"

lemma trailing_zeros64_spec:
  assumes "w \<noteq> 0"
  shows "trailing_zeros64 w < 64" "bit w (trailing_zeros64 w)"
    "k < trailing_zeros64 w \<Longrightarrow> \<not> bit w k"
proof -
  let ?P = "\<lambda>k. \<not> bit w k"
  obtain k where k: "bit w k" using assms by (auto simp: bit_eq_iff)
  then have "k < 64" using bit_imp_le_length[OF k] by simp
  with k have ex: "\<exists>x \<in> set [0..<64]. \<not> ?P x" by auto
  then have lt: "length (takeWhile ?P [0..<64]) < length [0..<64]"
    by (metis length_takeWhile_le nat_less_le take_all_iff takeWhile_eq_all_conv takeWhile_eq_take)
  then show l: "trailing_zeros64 w < 64" by (simp add: trailing_zeros64_def)
  from nth_length_takeWhile[OF lt] l show "bit w (trailing_zeros64 w)"
    by (simp add: trailing_zeros64_def)
  show "\<not> bit w k" if "k < trailing_zeros64 w" for k
  proof -
    from that l have "k = [0..<64] ! k" by simp
    then have "k = takeWhile ?P [0..<64] ! k"
      using that by (simp add: trailing_zeros64_def takeWhile_nth)
    then have "k \<in> set (takeWhile ?P [0..<64])"
      using that by (metis nth_mem trailing_zeros64_def)
    then show ?thesis by (rule set_takeWhileD [THEN conjunct2])
  qed
qed

lemma bit_low_mask: "k \<le> 63 \<Longrightarrow> bit (low_mask k) j \<longleftrightarrow> j < k"
  by (auto simp add: low_mask_def push_bit_of_1 bit_mask_iff simp flip: mask_eq_exp_minus_1)

text \<open>The bits the word loops look at: word \<open>i\<close> replaced by \<open>w\<close>.\<close>

definition seen_bit :: "bitmap \<Rightarrow> nat \<Rightarrow> 64 word \<Rightarrow> nat \<Rightarrow> bool" where
  "seen_bit b i w j = (if j div 64 = i then bit w (j mod 64) else bm_used b j)"


lemma seen_bit_other [simp]: "j div 64 \<noteq> i \<Longrightarrow> seen_bit b i w j = bm_used b j"
  by (simp add: seen_bit_def)

lemma seen_bit_same: "j < 64 \<Longrightarrow> seen_bit b i w (i * 64 + j) = bit w j"
  by (simp add: seen_bit_def)

lemma div64_cases:
  assumes "i * 64 \<le> j"
  shows "(\<exists>k < 64. j = i * 64 + k) \<or> Suc i * 64 \<le> (j :: nat)"
proof (cases "Suc i * 64 \<le> j")
  case False
  then have "j - i * 64 < 64" "j = i * 64 + (j - i * 64)" using assms by auto
  then show ?thesis by blast
qed simp

lemma seen_bit_next:
  assumes "Suc i * 64 \<le> j"
  shows "seen_bit b (Suc i) (bm_bits b ! Suc i) j = bm_used b j"
    and "seen_bit b i w j = bm_used b j"
  using assms by (auto simp: seen_bit_def bm_used_def)

text \<open>
  \<open>scan_free\<close> returns the lowest clear bit at or after word \<open>i\<close>, or the block count
  when there is none; \<open>scan_used\<close> the lowest set one.
\<close>

lemma scan_free_spec:
  assumes "i < length (bm_bits b)"
  shows "(\<forall>j. i * 64 \<le> j \<and> j < min (scan_free b i w) (64 * length (bm_bits b)) \<longrightarrow> seen_bit b i w j)
     \<and> (scan_free b i w = bm_total b \<and> (\<forall>j. i * 64 \<le> j \<and> j < 64 * length (bm_bits b) \<longrightarrow> seen_bit b i w j)
        \<or> i * 64 \<le> scan_free b i w \<and> scan_free b i w < 64 * length (bm_bits b)
           \<and> \<not> seen_bit b i w (scan_free b i w))"
  using assms
proof (induction b i w rule: scan_free.induct)
  case (1 b i w)
  show ?case
  proof (cases "w = -1")
    case False
    then have nz: "NOT w \<noteq> 0" by (metis bit.compl_zero bit.double_compl)
    note tz = trailing_zeros64_spec[OF nz]
    have bits: "k < 64 \<Longrightarrow> bit (NOT w) k \<longleftrightarrow> \<not> bit w k" for k by (simp add: bit_not_iff)
    have r: "scan_free b i w = i * 64 + trailing_zeros64 (NOT w)"
      using False by (simp add: scan_free.simps[of b i w])
    have lt: "i * 64 + trailing_zeros64 (NOT w) < 64 * length (bm_bits b)"
      using tz(1) "1.prems" by simp
    have low: "seen_bit b i w j" if j: "i * 64 \<le> j" "j < i * 64 + trailing_zeros64 (NOT w)" for j
    proof -
      obtain k where k: "k < 64" "j = i * 64 + k"
        using div64_cases[OF j(1)] j(2) tz(1) by auto
      then show ?thesis using tz(3)[of k] j(2) bits[of k] by (simp add: seen_bit_same)
    qed
    have "\<not> seen_bit b i w (i * 64 + trailing_zeros64 (NOT w))"
      using tz(1,2) bits by (simp add: seen_bit_same)
    then show ?thesis using low lt r by auto
  next
    case True
    have here: "seen_bit b i w j" if "i * 64 \<le> j" "j < Suc i * 64" for j
      using True that div64_cases[OF that(1)] by (auto simp: seen_bit_same)
    show ?thesis
    proof (cases "Suc i \<ge> length (bm_bits b)")
      case last: True
      then have r: "scan_free b i w = bm_total b" using True by (subst scan_free.simps) simp
      have "64 * length (bm_bits b) = Suc i * 64" using last "1.prems" by simp
      then show ?thesis using here r by auto
    next
      case False
      then have r: "scan_free b i w = scan_free b (Suc i) (bm_bits b ! Suc i)"
        using True by (subst scan_free.simps) simp
      have step: "seen_bit b (Suc i) (bm_bits b ! Suc i) j = seen_bit b i w j" if "Suc i * 64 \<le> j" for j
        using that seen_bit_next by simp
      have "seen_bit b i w j" if "i * 64 \<le> j" "Suc i * 64 \<le> j \<Longrightarrow> seen_bit b (Suc i) (bm_bits b ! Suc i) j" for j
        using that here step by (meson not_le)
      then show ?thesis
        using "1.IH"[of] True False r step by (smt (verit) Suc_leI add_leD2 mult_Suc not_less)
    qed
  qed
qed


text \<open>\<open>scan_used\<close> is \<open>scan_free\<close> of the complement, cut at the block count.\<close>

definition complement :: "bitmap \<Rightarrow> bitmap" where
  "complement b = b\<lparr>bm_bits := map (\<lambda>w. NOT w) (bm_bits b)\<rparr>"

lemma scan_used_complement:
  "i < length (bm_bits b) \<Longrightarrow>
   scan_used b i w = min (scan_free (complement b) i (NOT w)) (bm_total b)"
proof (induction b i w rule: scan_used.induct)
  case (1 b i w)
  have nz: "NOT w \<noteq> -1 \<longleftrightarrow> w \<noteq> 0" by (metis bit.compl_zero bit.double_compl)
  show ?case
  proof (cases "w \<noteq> 0 \<or> Suc i \<ge> length (bm_bits b)")
    case True
    then show ?thesis using nz
      by (subst scan_used.simps, subst scan_free.simps) (auto simp: complement_def)
  next
    case False
    then have "scan_used b i w = min (scan_free (complement b) (Suc i) (NOT (bm_bits b ! Suc i))) (bm_total b)"
      using "1.IH" by (subst scan_used.simps) simp
    then show ?thesis using False nz
      by (subst scan_free.simps) (auto simp: complement_def)
  qed
qed

lemma seen_bit_complement:
  "j < 64 * length (bm_bits b) \<Longrightarrow> seen_bit (complement b) i (NOT w) j \<longleftrightarrow> \<not> seen_bit b i w j"
  by (auto simp: seen_bit_def bm_used_def complement_def bit_not_iff less_mult_imp_div_less mult.commute)

section \<open>The invariant and the scans\<close>

text \<open>
  A well-formed bitmap has one bit per block, its padding bits set, and no free block below
  the hint. The totals stay far enough from \<open>2^64\<close> for the sums of the code not to wrap.
\<close>

definition bm_inv :: "bitmap \<Rightarrow> bool" where
  "bm_inv b \<longleftrightarrow>
     length (bm_bits b) = (bm_total b + 63) div 64 \<and>
     bm_total b < 2 ^ 63 \<and>
     (\<forall>j. bm_total b \<le> j \<and> j < 64 * length (bm_bits b) \<longrightarrow> bm_used b j) \<and>
     (\<forall>j. j < bm_hint b \<and> j < bm_total b \<longrightarrow> bm_used b j)"

definition used_blocks :: "bitmap \<Rightarrow> nat set" where
  "used_blocks b = {j. j < bm_total b \<and> bm_used b j}"

text \<open>The bits are right whatever the hint: what \<open>take\<close> and \<open>Free\<close> need in between.\<close>

definition bm_wf :: "bitmap \<Rightarrow> bool" where
  "bm_wf b \<longleftrightarrow>
     length (bm_bits b) = (bm_total b + 63) div 64 \<and>
     bm_total b < 2 ^ 63 \<and>
     (\<forall>j. bm_total b \<le> j \<and> j < 64 * length (bm_bits b) \<longrightarrow> bm_used b j)"

lemma bm_inv_iff:
  "bm_inv b \<longleftrightarrow> bm_wf b \<and> (\<forall>j. j < bm_hint b \<and> j < bm_total b \<longrightarrow> bm_used b j)"
  by (auto simp: bm_inv_def bm_wf_def)

lemma bm_wf_word:
  assumes "bm_wf b" "j < bm_total b"
  shows "j div 64 < length (bm_bits b)" "j < 64 * length (bm_bits b)"
  using assms by (auto simp: bm_wf_def)

lemma firstFree_spec:
  assumes wf: "bm_wf b"
  shows "firstFree b frm \<le> bm_total b"
    and "firstFree b frm < bm_total b \<Longrightarrow> frm \<le> firstFree b frm \<and> \<not> bm_used b (firstFree b frm)"
    and "frm \<le> j \<Longrightarrow> j < firstFree b frm \<Longrightarrow> bm_used b j"
proof -
  let ?r = "firstFree b frm"
  have "?r \<le> bm_total b \<and>
      (?r < bm_total b \<longrightarrow> frm \<le> ?r \<and> \<not> bm_used b ?r) \<and>
      (\<forall>j. frm \<le> j \<and> j < ?r \<longrightarrow> bm_used b j)"
  proof (cases "frm \<ge> bm_total b")
    case True
    then show ?thesis by (auto simp: firstFree_def)
  next
    case False
    let ?i = "frm div 64" and ?k = "frm mod 64"
    let ?w = "bm_bits b ! ?i OR low_mask ?k"
    have i: "?i < length (bm_bits b)" "frm < 64 * length (bm_bits b)"
      using bm_wf_word[OF wf] False by auto
    have r: "?r = scan_free b ?i ?w" using False by (simp add: firstFree_def)
    have seen: "seen_bit b ?i ?w j \<longleftrightarrow> j < frm \<or> bm_used b j" if "?i * 64 \<le> j" for j
    proof (cases "j div 64 = ?i")
      case True
      then have "j mod 64 < ?k \<longleftrightarrow> j < frm" by (metis div_mult_mod_eq nat_add_left_cancel_less)
      then show ?thesis using True by (auto simp: seen_bit_def bm_used_def bit_or_iff bit_low_mask)
    next
      case False
      then have "\<not> j < frm" using that by (metis div_le_mono leI le_antisym less_or_eq_imp_le div_mult_self_is_m zero_less_numeral)
      then show ?thesis using False by simp
    qed
    have fi: "?i * 64 \<le> frm" by simp
    have pad: "j \<ge> bm_total b \<Longrightarrow> j < 64 * length (bm_bits b) \<Longrightarrow> bm_used b j" for j
      using wf by (simp add: bm_wf_def)
    have tot: "bm_total b \<le> 64 * length (bm_bits b)" using wf by (auto simp: bm_wf_def)
    note spec = scan_free_spec[OF i(1), of ?w, folded r]
    from spec show ?thesis
    proof (elim conjE disjE)
      assume *: "?r = bm_total b" "\<forall>j. ?i * 64 \<le> j \<and> j < 64 * length (bm_bits b) \<longrightarrow> seen_bit b ?i ?w j"
      have "bm_used b j" if "frm \<le> j" "j < bm_total b" for j
        using *(2) [rule_format, of j] that seen[of j] fi tot by linarith
      then show ?thesis using *(1) by simp
    next
      assume *: "\<forall>j. ?i * 64 \<le> j \<and> j < min ?r (64 * length (bm_bits b)) \<longrightarrow> seen_bit b ?i ?w j"
        "?i * 64 \<le> ?r" "?r < 64 * length (bm_bits b)" "\<not> seen_bit b ?i ?w ?r"
      then have "frm \<le> ?r" "\<not> bm_used b ?r" using seen by auto
      moreover have "?r < bm_total b" using pad *(3) calculation(2) by (meson leI)
      moreover have "bm_used b j" if "frm \<le> j" "j < ?r" for j
        using that *(1,3) seen[of j] fi by auto
      ultimately show ?thesis by auto
    qed
  qed
  then show "?r \<le> bm_total b" "?r < bm_total b \<Longrightarrow> frm \<le> ?r \<and> \<not> bm_used b ?r"
    "frm \<le> j \<Longrightarrow> j < ?r \<Longrightarrow> bm_used b j" by auto
qed


lemma firstUsed_spec:
  assumes wf: "bm_wf b"
  shows "firstUsed b frm \<le> bm_total b"
    and "firstUsed b frm < bm_total b \<Longrightarrow> frm \<le> firstUsed b frm \<and> bm_used b (firstUsed b frm)"
    and "frm \<le> j \<Longrightarrow> j < firstUsed b frm \<Longrightarrow> \<not> bm_used b j"
    and "frm \<le> bm_total b \<Longrightarrow> frm \<le> firstUsed b frm"
proof -
  let ?r = "firstUsed b frm"
  have "?r \<le> bm_total b \<and>
      (?r < bm_total b \<longrightarrow> frm \<le> ?r \<and> bm_used b ?r) \<and>
      (\<forall>j. frm \<le> j \<and> j < ?r \<longrightarrow> \<not> bm_used b j)"
  proof (cases "frm \<ge> bm_total b")
    case True
    then show ?thesis by (auto simp: firstUsed_def)
  next
    case False
    let ?i = "frm div 64" and ?k = "frm mod 64" and ?c = "complement b"
    obtain w where w: "w = bm_bits b ! ?i AND NOT (low_mask ?k)" by blast
    let ?s = "scan_free ?c ?i (NOT w)"
    have i: "?i < length (bm_bits b)" "frm < 64 * length (bm_bits b)"
      using bm_wf_word[OF wf] False by auto
    have r: "?r = min ?s (bm_total b)"
      using False scan_used_complement[OF i(1)] by (simp add: firstUsed_def w)
    have seen: "seen_bit b ?i w j \<longleftrightarrow> frm \<le> j \<and> bm_used b j" if "?i * 64 \<le> j" for j
    proof (cases "j div 64 = ?i")
      case True
      then have "j mod 64 < ?k \<longleftrightarrow> j < frm" by (metis div_mult_mod_eq nat_add_left_cancel_less)
      then show ?thesis using True by (auto simp: w seen_bit_def bm_used_def bit_and_iff bit_not_iff bit_low_mask not_less)
    next
      case False
      then have "\<not> j < frm" using that by (metis div_le_mono leI le_antisym less_or_eq_imp_le div_mult_self_is_m zero_less_numeral)
      then show ?thesis using False by simp
    qed
    have seenc: "seen_bit ?c ?i (NOT w) j \<longleftrightarrow> j < frm \<or> \<not> bm_used b j"
      if "?i * 64 \<le> j" "j < 64 * length (bm_bits b)" for j
      using seen[OF that(1)] seen_bit_complement[OF that(2)] by auto
    have fi: "?i * 64 \<le> frm" by simp
    have tot: "bm_total b \<le> 64 * length (bm_bits b)" using wf by (auto simp: bm_wf_def)
    have lc: "length (bm_bits ?c) = length (bm_bits b)" "bm_total ?c = bm_total b"
      by (simp_all add: complement_def)
    have ic: "?i < length (bm_bits ?c)" using i lc by simp
    note spec = scan_free_spec[OF ic, of "NOT w", unfolded lc]
    have low: "\<not> bm_used b j" if "frm \<le> j" "j < ?r" for j
    proof -
      have "seen_bit ?c ?i (NOT w) j" using spec that r tot fi by auto
      then show ?thesis using seenc[of j] that r tot fi by auto
    qed
    moreover have "frm \<le> ?r \<and> bm_used b ?r" if "?r < bm_total b"
    proof -
      have s: "?r = ?s" "?s < bm_total b" using that r by auto
      then have "?i * 64 \<le> ?s" "?s < 64 * length (bm_bits b)" "\<not> seen_bit ?c ?i (NOT w) ?s"
        using spec by auto
      then show ?thesis using seenc[of ?s] s by auto
    qed
    ultimately show ?thesis using r by auto
  qed
  then show le: "?r \<le> bm_total b" and lt: "?r < bm_total b \<Longrightarrow> frm \<le> ?r \<and> bm_used b ?r"
    and "frm \<le> j \<Longrightarrow> j < ?r \<Longrightarrow> \<not> bm_used b j" by auto
  show "frm \<le> ?r" if "frm \<le> bm_total b" using le lt that by (cases "?r < bm_total b") auto
qed

section \<open>Marking\<close>

lemma bm_used_mark:
  assumes "i div 64 < length (bm_bits b)"
  shows "bm_used (mark i b) j \<longleftrightarrow> j = i \<or> bm_used b j"
proof (cases "j div 64 = i div 64")
  case True
  then have "j = i \<longleftrightarrow> j mod 64 = i mod 64" by (metis div_mult_mod_eq)
  then show ?thesis using True assms
    by (auto simp: bm_used_def mark_def bit_or_iff bit_push_bit_iff push_bit_of_1 bit_exp_iff)
next
  case False
  then show ?thesis by (auto simp: bm_used_def mark_def)
qed

lemma bm_used_unmark:
  assumes "i div 64 < length (bm_bits b)"
  shows "bm_used (unmark i b) j \<longleftrightarrow> j \<noteq> i \<and> bm_used b j"
proof (cases "j div 64 = i div 64")
  case True
  then have "j = i \<longleftrightarrow> j mod 64 = i mod 64" by (metis div_mult_mod_eq)
  then show ?thesis using True assms
    by (auto simp: bm_used_def unmark_def bit_and_iff bit_not_iff push_bit_of_1 bit_exp_iff)
next
  case False
  then show ?thesis by (auto simp: bm_used_def unmark_def)
qed

lemma mark_frame [simp]:
  "length (bm_bits (mark i b)) = length (bm_bits b)" "bm_total (mark i b) = bm_total b"
  "bm_hint (mark i b) = bm_hint b"
  "length (bm_bits (unmark i b)) = length (bm_bits b)" "bm_total (unmark i b) = bm_total b"
  "bm_hint (unmark i b) = bm_hint b"
  by (simp_all add: mark_def unmark_def)

lemma fold_mark:
  assumes "\<forall>i \<in> set is. i div 64 < length (bm_bits b)"
  shows "(bm_used (fold mark is b) j \<longleftrightarrow> j \<in> set is \<or> bm_used b j)
     \<and> length (bm_bits (fold mark is b)) = length (bm_bits b)
     \<and> bm_total (fold mark is b) = bm_total b \<and> bm_hint (fold mark is b) = bm_hint b"
  using assms by (induction "is" arbitrary: b) (auto simp: bm_used_mark)

lemma fold_unmark:
  assumes "\<forall>i \<in> set is. i div 64 < length (bm_bits b)"
  shows "(bm_used (fold unmark is b) j \<longleftrightarrow> j \<notin> set is \<and> bm_used b j)
     \<and> length (bm_bits (fold unmark is b)) = length (bm_bits b)
     \<and> bm_total (fold unmark is b) = bm_total b \<and> bm_hint (fold unmark is b) = bm_hint b"
  using assms by (induction "is" arbitrary: b) (auto simp: bm_used_unmark)


lemma range_words:
  assumes "bm_wf b" "s + n \<le> bm_total b"
  shows "\<forall>i \<in> set [s ..< s + n]. i div 64 < length (bm_bits b)"
  using assms bm_wf_word(1) by auto

lemma bm_range_u64: "bm_wf b \<Longrightarrow> s + n \<le> bm_total b \<Longrightarrow> u64 (s + n) = s + n"
  by (simp add: bm_wf_def)

lemma bm_take_spec:
  assumes inv: "bm_inv b" and rng: "start + n \<le> bm_total b"
  shows "bm_inv (bm_take b start n)"
    and "used_blocks (bm_take b start n) = used_blocks b \<union> {start ..< start + n}"
    and "bm_total (bm_take b start n) = bm_total b"
proof -
  have wf: "bm_wf b" using inv by (simp add: bm_inv_iff)
  obtain b' where b': "b' = fold mark [start ..< start + n] b" by blast
  note fm = fold_mark[OF range_words[OF wf rng], folded b']
  have wf': "bm_wf b'" using fm wf by (auto simp: bm_wf_def)
  have t: "bm_take b start n = b'\<lparr>bm_hint := firstFree b' (bm_hint b)\<rparr>"
    using bm_range_u64[OF wf rng] fm by (simp add: bm_take_def Let_def b')
  have used: "bm_used (bm_take b start n) j = bm_used b' j" for j
    by (simp add: t bm_used_def)
  have wft: "bm_wf (bm_take b start n)" using wf' by (auto simp: t bm_wf_def bm_used_def)
  have "bm_used b' j" if "j < firstFree b' (bm_hint b)" "j < bm_total b'" for j
  proof (cases "bm_hint b \<le> j")
    case True
    then show ?thesis using firstFree_spec(3)[OF wf'] that by blast
  next
    case False
    then show ?thesis using that fm inv by (auto simp: bm_inv_iff)
  qed
  then have "\<forall>j. j < bm_hint (bm_take b start n) \<and> j < bm_total (bm_take b start n) \<longrightarrow> bm_used (bm_take b start n) j"
    unfolding used by (simp add: t)
  then show "bm_inv (bm_take b start n)" using wft by (simp add: bm_inv_iff)
  show tt: "bm_total (bm_take b start n) = bm_total b" using fm by (simp add: t)
  show "used_blocks (bm_take b start n) = used_blocks b \<union> {start ..< start + n}"
  proof (rule set_eqI)
    fix j
    have "bm_used b' j \<longleftrightarrow> start \<le> j \<and> j < start + n \<or> bm_used b j" using fm by simp
    then show "j \<in> used_blocks (bm_take b start n) \<longleftrightarrow> j \<in> used_blocks b \<union> {start ..< start + n}"
      unfolding used_blocks_def using rng by (simp add: tt used) linarith
  qed
qed

section \<open>First fit\<close>

text \<open>\<open>n\<close> blocks from \<open>s\<close> on are all free and managed.\<close>

definition free_run :: "bitmap \<Rightarrow> nat \<Rightarrow> nat \<Rightarrow> bool" where
  "free_run b s n \<longleftrightarrow> s + n \<le> bm_total b \<and> (\<forall>j. s \<le> j \<and> j < s + n \<longrightarrow> \<not> bm_used b j)"

lemma firstUsed_greater:
  assumes "bm_wf b" "i < bm_total b" "\<not> bm_used b i"
  shows "i < firstUsed b i"
  using firstUsed_spec(2,4)[OF assms(1), of i] assms(2,3)
  by (metis le_neq_implies_less less_imp_le_nat)

lemma bm_search_spec:
  assumes wf: "bm_wf b" and n: "0 < n" and i: "i \<le> bm_total b" "i < bm_total b \<longrightarrow> \<not> bm_used b i"
  shows "(\<exists>s. bm_search b n i = Some (Some s) \<and> i \<le> s \<and> free_run b s n
            \<and> (\<forall>s'. i \<le> s' \<and> s' < s \<longrightarrow> \<not> free_run b s' n))
       \<or> (bm_search b n i = Some None \<and> (\<forall>s'. i \<le> s' \<longrightarrow> \<not> free_run b s' n))"
  using i
proof (induction "bm_total b - i" arbitrary: i rule: less_induct)
  case less
  show ?case
  proof (cases "i < bm_total b")
    case False
    then have "bm_search b n i = Some None" by (subst bm_search.simps) simp
    then show ?thesis using False n by (auto simp: free_run_def)
  next
    case lt: True
    let ?e = "firstUsed b i" and ?j = "firstFree b (firstUsed b i)"
    have e: "i < ?e" "?e \<le> bm_total b"
      using firstUsed_greater[OF wf lt] less.prems lt firstUsed_spec(1)[OF wf] by auto
    have free: "\<not> bm_used b j" if "i \<le> j" "j < ?e" for j using firstUsed_spec(3)[OF wf that] .
    show ?thesis
    proof (cases "?e - i \<ge> n")
      case True
      then have "free_run b i n" using e free by (auto simp: free_run_def)
      moreover have "bm_search b n i = Some (Some i)"
        using lt True by (simp add: bm_search.simps[of b n i])
      ultimately show ?thesis by auto
    next
      case False
      have step: "bm_search b n i = bm_search b n ?j"
        using lt False by (simp add: bm_search.simps[of b n i])
      have j: "?j \<le> bm_total b" "?j < bm_total b \<longrightarrow> \<not> bm_used b ?j" "i < ?j"
        using firstFree_spec(1,2)[OF wf, of ?e] e by (cases "?j < bm_total b"; fastforce)+
      have none: "\<not> free_run b s' n" if "i \<le> s'" "s' < ?j" for s'
      proof (cases "s' < ?e")
        case True
        then have "?e < s' + n" using False that by linarith
        moreover have "?e < bm_total b \<longrightarrow> bm_used b ?e" using firstUsed_spec(2)[OF wf] by blast
        ultimately show ?thesis using True e by (auto simp: free_run_def intro: less_imp_le)
      next
        case False
        then have "bm_used b s'" using firstFree_spec(3)[OF wf, of ?e s'] that by simp
        then show ?thesis using n by (auto simp: free_run_def)
      qed
      have IH: "(\<exists>s. bm_search b n ?j = Some (Some s) \<and> ?j \<le> s \<and> free_run b s n
            \<and> (\<forall>s'. ?j \<le> s' \<and> s' < s \<longrightarrow> \<not> free_run b s' n))
       \<or> (bm_search b n ?j = Some None \<and> (\<forall>s'. ?j \<le> s' \<longrightarrow> \<not> free_run b s' n))"
        using less.hyps[of ?j] j lt by auto
      then show ?thesis unfolding step using none j(3) by (metis less_imp_le_nat not_less order.trans)
    qed
  qed
qed

lemma bm_alloc_spec:
  assumes inv: "bm_inv b" and n: "0 < n"
  shows "(\<exists>s. bm_alloc b n = (Inr s, bm_take b s n) \<and> free_run b s n \<and> (\<forall>s' < s. \<not> free_run b s' n))
       \<or> (bm_alloc b n = (Inl ErrNoSpace, b) \<and> (\<forall>s'. \<not> free_run b s' n))"
proof -
  have wf: "bm_wf b" using inv by (simp add: bm_inv_iff)
  let ?i = "firstFree b (bm_hint b)"
  have i: "?i \<le> bm_total b" "?i < bm_total b \<longrightarrow> \<not> bm_used b ?i"
    using firstFree_spec(1,2)[OF wf] by auto
  have low: "bm_used b j" if "j < ?i" for j
  proof (cases "j < bm_hint b")
    case True
    then show ?thesis using that inv i(1) by (simp add: bm_inv_iff)
  next
    case False
    then show ?thesis using that firstFree_spec(3)[OF wf, of "bm_hint b" j] by simp
  qed
  have none: "\<not> free_run b s' n" if "s' < ?i" for s'
    using low[OF that] n by (auto simp: free_run_def)
  show ?thesis using bm_search_spec[OF wf n i] none n
    by (auto simp: bm_alloc_def) (metis not_less)+
qed

lemma bm_alloc_upto_spec:
  assumes inv: "bm_inv b" and n: "0 < n"
  shows "(\<exists>s got. bm_alloc_upto b n = (Inr (s, got), bm_take b s got) \<and> 0 < got \<and> got \<le> n
            \<and> free_run b s got)
       \<or> (bm_alloc_upto b n = (Inl ErrNoSpace, b) \<and> used_blocks b = {..< bm_total b})"
proof -
  have wf: "bm_wf b" using inv by (simp add: bm_inv_iff)
  let ?i = "firstFree b (bm_hint b)"
  show ?thesis
  proof (cases "?i < bm_total b")
    case True
    then have free: "\<not> bm_used b ?i" using firstFree_spec(2)[OF wf] by blast
    have e: "?i < firstUsed b ?i" "firstUsed b ?i \<le> bm_total b"
      using firstUsed_greater[OF wf True free] firstUsed_spec(1)[OF wf] by auto
    have "free_run b ?i (min (firstUsed b ?i - ?i) n)"
      using e firstUsed_spec(3)[OF wf] by (auto simp: free_run_def)
    then show ?thesis using True e n by (auto simp: bm_alloc_upto_def Let_def)
  next
    case False
    have "bm_used b j" if "j < bm_total b" for j
      using that False firstFree_spec(3)[OF wf, of "bm_hint b" j] inv
      by (cases "j < bm_hint b") (auto simp: bm_inv_iff)
    then show ?thesis using False n by (auto simp: bm_alloc_upto_def Let_def used_blocks_def)
  qed
qed

lemma bm_free_spec:
  assumes inv: "bm_inv b" and rng: "start + n \<le> bm_total b"
  shows "fst (bm_free b start n) = None"
    and "bm_inv (snd (bm_free b start n))"
    and "used_blocks (snd (bm_free b start n)) = used_blocks b - {start ..< start + n}"
    and "bm_total (snd (bm_free b start n)) = bm_total b"
proof -
  have wf: "bm_wf b" using inv by (simp add: bm_inv_iff)
  obtain b' where b': "b' = fold unmark [start ..< start + n] b" by blast
  obtain r where r: "r = snd (bm_free b start n)" by blast
  note fm = fold_unmark[OF range_words[OF wf rng], folded b']
  have f: "fst (bm_free b start n) = None" "r = (if start < bm_hint b then b'\<lparr>bm_hint := start\<rparr> else b')"
    using bm_range_u64[OF wf rng] rng fm by (auto simp: bm_free_def Let_def b' r)
  have used: "bm_used r j = bm_used b' j" for j by (simp add: f bm_used_def)
  have tot: "bm_total r = bm_total b" "length (bm_bits r) = length (bm_bits b)" using fm by (simp_all add: f)
  have hint: "bm_hint r \<le> start \<or> bm_hint r = bm_hint b \<and> bm_hint b \<le> start" "bm_hint r \<le> bm_hint b"
    using fm by (auto simp: f)
  show "fst (bm_free b start n) = None" by (rule f)
  have "bm_used b' j" if "bm_total b \<le> j" "j < 64 * length (bm_bits b)" for j
    using that fm inv rng by (simp add: bm_inv_def)
  moreover have "bm_used b' j" if "j < bm_hint r" "j < bm_total b" for j
    using that fm inv hint by (auto simp: bm_inv_def)
  ultimately show "bm_inv (snd (bm_free b start n))"
    unfolding r[symmetric] using inv used tot by (simp add: bm_inv_def)
  show "used_blocks (snd (bm_free b start n)) = used_blocks b - {start ..< start + n}"
  proof (rule set_eqI)
    fix j
    have "bm_used b' j \<longleftrightarrow> \<not> (start \<le> j \<and> j < start + n) \<and> bm_used b j" using fm by simp
    then show "j \<in> used_blocks (snd (bm_free b start n)) \<longleftrightarrow> j \<in> used_blocks b - {start ..< start + n}"
      unfolding r[symmetric] used_blocks_def by (simp add: tot used) blast
  qed
  show "bm_total (snd (bm_free b start n)) = bm_total b" using tot by (simp add: r)
qed

lemma new_bitmap_spec:
  assumes "tot < 2 ^ 63"
  shows "bm_inv (new_bitmap tot)" "used_blocks (new_bitmap tot) = {}" "bm_total (new_bitmap tot) = tot"
proof -
  let ?b = "\<lparr>bm_bits = replicate ((tot + 63) div 64) 0, bm_total = tot, bm_hint = 0\<rparr>"
  have u: "u64 (tot + 63) = tot + 63" using assms by simp
  have "\<forall>i \<in> set [tot ..< (tot + 63) div 64 * 64]. i div 64 < length (bm_bits ?b)"
    by (auto intro: less_mult_imp_div_less)
  note fm = fold_mark[OF this]
  have n: "new_bitmap tot = fold mark [tot ..< (tot + 63) div 64 * 64] ?b"
    by (simp add: new_bitmap_def u Let_def)
  have free: "j < tot \<Longrightarrow> \<not> bm_used ?b j" for j by (simp add: bm_used_def)
  show "bm_inv (new_bitmap tot)" using fm assms by (auto simp: n bm_inv_def)
  show "used_blocks (new_bitmap tot) = {}" using fm free by (auto simp: n used_blocks_def)
  show "bm_total (new_bitmap tot) = tot" using fm by (simp add: n)
qed


section \<open>Runs of blocks\<close>

definition run_set :: "run list \<Rightarrow> nat set" where
  "run_set rs = (\<Union>r \<in> set rs. run_blocks r)"

text \<open>
  The runs a successful call hands out: non-empty, inside the device, no longer than
  \<open>maxRun\<close>, free before the call and pairwise disjoint.
\<close>

definition good_runs :: "run list \<Rightarrow> nat set \<Rightarrow> nat \<Rightarrow> nat \<Rightarrow> bool" where
  "good_runs rs U tot maxRun \<longleftrightarrow>
     (\<forall>r \<in> set rs. 0 < run_len r \<and> run_start r + run_len r \<le> tot \<and> run_blocks r \<inter> U = {}
        \<and> (maxRun = 0 \<or> run_len r \<le> maxRun))
     \<and> sorted_wrt (\<lambda>r s. run_blocks r \<inter> run_blocks s = {}) rs"

definition total_len :: "run list \<Rightarrow> nat" where
  "total_len rs = sum_list (map run_len rs)"

lemma run_set_simps [simp]:
  "run_set [] = {}" "run_set (rs @ [r]) = run_set rs \<union> run_blocks r"
  "run_set (r # rs) = run_blocks r \<union> run_set rs"
  by (auto simp: run_set_def)

lemma total_len_simps [simp]:
  "total_len [] = 0" "total_len (rs @ [r]) = total_len rs + run_len r"
  "total_len (r # rs) = run_len r + total_len rs"
  by (simp_all add: total_len_def)

lemma good_runs_snoc:
  "good_runs (rs @ [r]) U tot m \<longleftrightarrow>
     good_runs rs U tot m \<and> 0 < run_len r \<and> run_start r + run_len r \<le> tot
     \<and> run_blocks r \<inter> U = {} \<and> (m = 0 \<or> run_len r \<le> m) \<and> run_blocks r \<inter> run_set rs = {}"
  by (auto simp: good_runs_def sorted_wrt_append run_set_def)

lemma good_runs_Cons:
  "good_runs (r # rs) U tot m \<longleftrightarrow>
     good_runs rs U tot m \<and> 0 < run_len r \<and> run_start r + run_len r \<le> tot
     \<and> run_blocks r \<inter> U = {} \<and> (m = 0 \<or> run_len r \<le> m) \<and> run_blocks r \<inter> run_set rs = {}"
  by (auto simp: good_runs_def run_set_def)

lemma card_run_set: "good_runs rs U tot m \<Longrightarrow> finite (run_set rs) \<and> card (run_set rs) = total_len rs"
proof (induction rs)
  case (Cons r rs)
  then have "finite (run_set rs)" "card (run_set rs) = total_len rs"
    "run_blocks r \<inter> run_set rs = {}" "finite (run_blocks r)" "card (run_blocks r) = run_len r"
    by (auto simp: good_runs_Cons run_blocks_def)
  then show ?case by (simp add: card_Un_disjoint)
qed simp

lemma good_runs_free: "good_runs rs U tot m \<Longrightarrow> run_set rs \<subseteq> {..< tot} - U"
  by (auto simp: good_runs_def run_set_def run_blocks_def)

text \<open>The outcome of a step that got blocks: one free run of at most \<open>n\<close>, now used.\<close>

definition one_run_taken ::
  "('a \<Rightarrow> nat set) \<Rightarrow> ('a \<Rightarrow> nat) \<Rightarrow> ('a \<Rightarrow> bool) \<Rightarrow> 'a \<Rightarrow> nat \<Rightarrow> (nat \<times> nat) result \<Rightarrow> 'a \<Rightarrow> bool" where
  "one_run_taken used tot invar a n r a' \<longleftrightarrow>
     (case r of Inl e \<Rightarrow> False
      | Inr (s, got) \<Rightarrow> 0 < got \<and> got \<le> n \<and> invar a' \<and> tot a' = tot a
        \<and> s + got \<le> tot a \<and> {s ..< s + got} \<inter> used a = {} \<and> used a' = used a \<union> {s ..< s + got})"

lemma one_run_taken_mono:
  "one_run_taken used tot invar a n r a' \<Longrightarrow> n \<le> m \<Longrightarrow> one_run_taken used tot invar a m r a'"
  by (simp add: one_run_taken_def split: sum.splits prod.splits)

section \<open>The contract of an allocator\<close>

text \<open>
  What \<open>AllocRuns\<close> and the engines rely on: the used blocks \<open>used\<close> among
  \<open>total\<close>. \<open>Alloc\<close> takes a free run or fails with \<open>ErrNoSpace\<close> because none
  fits; \<open>Free\<close> gives blocks back; \<open>Reserve\<close> takes a fixed region.
\<close>

locale allocator =
  fixes A :: "'a allocator_ops"
    and used :: "'a \<Rightarrow> nat set"
    and total :: "'a \<Rightarrow> nat"
    and invar :: "'a \<Rightarrow> bool"
  assumes used_total: "invar a \<Longrightarrow> used a \<subseteq> {..< total a} \<and> total a < 2 ^ 63"
    and alloc_ok: "invar a \<Longrightarrow> 0 < n \<Longrightarrow> al_alloc A a n = (Inr s, a') \<Longrightarrow>
       invar a' \<and> total a' = total a \<and> s + n \<le> total a \<and> {s ..< s + n} \<inter> used a = {}
       \<and> used a' = used a \<union> {s ..< s + n}"
    and alloc_err: "invar a \<Longrightarrow> 0 < n \<Longrightarrow> al_alloc A a n = (Inl e, a') \<Longrightarrow>
       a' = a \<and> e = ErrNoSpace \<and> (\<forall>s. s + n \<le> total a \<longrightarrow> {s ..< s + n} \<inter> used a \<noteq> {})"
    and free_ok: "invar a \<Longrightarrow> s + n \<le> total a \<Longrightarrow> al_free A a s n = (oe, a') \<Longrightarrow>
       oe = None \<and> invar a' \<and> total a' = total a \<and> used a' = used a - {s ..< s + n}"
    and reserve_ok: "invar a \<Longrightarrow> s + n \<le> total a \<Longrightarrow> al_reserve A a s n = (oe, a') \<Longrightarrow>
       oe = None \<and> invar a' \<and> total a' = total a \<and> used a' = used a \<union> {s ..< s + n}"
begin

lemma one_run_takenI:
  "0 < got \<Longrightarrow> got \<le> n \<Longrightarrow> invar a' \<and> total a' = total a \<and> s + got \<le> total a
     \<and> {s ..< s + got} \<inter> used a = {} \<and> used a' = used a \<union> {s ..< s + got} \<Longrightarrow>
   one_run_taken used total invar a n (Inr (s, got)) a'"
  by (simp add: one_run_taken_def)

lemma probe_halves_spec:
  assumes "invar a" "probe_halves A a want = (r, a')"
  shows "one_run_taken used total invar a want r a'
       \<or> (r = Inl ErrNoSpace \<and> a' = a \<and> (0 < want \<longrightarrow> used a = {..< total a}))"
  using assms
proof (induction want arbitrary: a' rule: less_induct)
  case (less want)
  show ?case
  proof (cases "want = 0")
    case True
    then show ?thesis using less.prems by (simp add: probe_halves.simps[of A a 0])
  next
    case False
    obtain r1 a1 where al: "al_alloc A a want = (r1, a1)" by fastforce
    show ?thesis
    proof (cases r1)
      case (Inr s)
      then have "r = Inr (s, want)" "a' = a1"
        using less.prems(2) al False by (auto simp: probe_halves.simps[of A a want])
      then show ?thesis
        using one_run_takenI[OF _ order_refl alloc_ok[OF less.prems(1) _ al[unfolded Inr]]] False by simp
    next
      case (Inl e)
      then have e: "a1 = a" "e = ErrNoSpace"
        "\<forall>s. s + want \<le> total a \<longrightarrow> {s ..< s + want} \<inter> used a \<noteq> {}"
        using alloc_err[OF less.prems(1) _ al[unfolded Inl]] False by auto
      then have rec: "probe_halves A a (want div 2) = (r, a')"
        using less.prems(2) al False Inl by (simp add: probe_halves.simps[of A a want])
      have full: "used a = {..< total a}" if "want div 2 = 0"
      proof -
        have "want = 1" using that False by simp
        then have "s \<in> used a" if "s < total a" for s using e(3)[rule_format, of s] that by simp
        then show ?thesis using used_total[OF less.prems(1)] by blast
      qed
      have "want div 2 < want" using False by simp
      from less.IH[OF this less.prems(1) rec] show ?thesis
      proof
        assume "one_run_taken used total invar a (want div 2) r a'"
        then show ?thesis by (rule disjI1[OF one_run_taken_mono[OF _ div_le_dividend]])
      next
        assume "r = Inl ErrNoSpace \<and> a' = a \<and> (0 < want div 2 \<longrightarrow> used a = {..< total a})"
        then show ?thesis using full by (cases "want div 2 = 0") simp_all
      qed
    qed
  qed
qed

text \<open>
  The outcome of one step of \<open>AllocRuns\<close>: at least one free block taken, or nothing
  changed and no block free at all.
\<close>

lemma at_most_plain:
  assumes "al_upto A = None" "invar a" "0 < n" "n < 2 ^ 64" "allocAtMost A a n = (r, a')"
  shows "one_run_taken used total invar a n r a'
       \<or> (r = Inl ErrNoSpace \<and> a' = a \<and> used a = {..< total a})"
proof -
  obtain r1 a1 where al: "al_alloc A a n = (r1, a1)" by fastforce
  show ?thesis
  proof (cases r1)
    case (Inr s)
    then have "r = Inr (s, n)" "a' = a1" using assms al by (auto simp: allocAtMost_def)
    then show ?thesis
      using one_run_takenI[OF assms(3) order_refl alloc_ok[OF assms(2,3) al[unfolded Inr]]] by simp
  next
    case (Inl e)
    note e = alloc_err[OF assms(2,3) al[unfolded Inl]]
    then have p: "probe_halves A a (n div 2) = (r, a')"
      using assms(1,5) al Inl by (simp add: allocAtMost_def)
    have full: "used a = {..< total a}" if "n div 2 = 0"
    proof -
      have "n = 1" using that assms(3) by simp
      then have "s \<in> used a" if "s < total a" for s
        using conjunct2[OF conjunct2[OF e], rule_format, of s] that by simp
      then show ?thesis using used_total[OF assms(2)] by blast
    qed
    from probe_halves_spec[OF assms(2) p] show ?thesis
    proof
      assume "one_run_taken used total invar a (n div 2) r a'"
      then show ?thesis by (rule disjI1[OF one_run_taken_mono[OF _ div_le_dividend]])
    next
      assume "r = Inl ErrNoSpace \<and> a' = a \<and> (0 < n div 2 \<longrightarrow> used a = {..< total a})"
      then show ?thesis using full by (cases "n div 2 = 0") simp_all
    qed
  qed
qed

lemma free_runs_spec:
  assumes "invar a" "good_runs rs U (total a) m"
  shows "invar (free_runs A rs a) \<and> total (free_runs A rs a) = total a
     \<and> used (free_runs A rs a) = used a - run_set rs"
  using assms
proof (induction rs arbitrary: a)
  case Nil
  then show ?case by (simp add: free_runs_def)
next
  case (Cons r rs)
  obtain oe a1 where f: "al_free A a (run_start r) (run_len r) = (oe, a1)" by fastforce
  have "run_start r + run_len r \<le> total a" using Cons.prems(2) by (simp add: good_runs_Cons)
  note f1 = free_ok[OF Cons.prems(1) this f]
  have step: "free_runs A (r # rs) a = free_runs A rs a1" using f by (simp add: free_runs_def)
  have "good_runs rs U (total a1) m" using Cons.prems(2) f1 by (simp add: good_runs_Cons)
  then have "invar (free_runs A rs a1) \<and> total (free_runs A rs a1) = total a1
     \<and> used (free_runs A rs a1) = used a1 - run_set rs" using Cons.IH f1 by blast
  then show ?case using f1 by (auto simp: step run_blocks_def)
qed

lemma alloc_runs_loop_spec:
  assumes AM: "\<And>a n r a'. invar a \<Longrightarrow> 0 < n \<Longrightarrow> n < 2 ^ 64 \<Longrightarrow> allocAtMost A a n = (r, a') \<Longrightarrow>
      one_run_taken used total invar a n r a'
       \<or> (r = Inl ErrNoSpace \<and> a' = a \<and> used a = {..< total a})"
    and inv: "invar a" "left < 2 ^ 64"
    and acc: "good_runs runs U (total a) maxRun" "used a = U \<union> run_set runs"
  shows "\<exists>r a'. alloc_runs_loop A maxRun left runs a = Some (r, a') \<and> invar a' \<and> total a' = total a \<and>
     ((\<exists>rs. r = Inr rs \<and> good_runs rs U (total a) maxRun \<and> total_len rs = total_len runs + left
         \<and> used a' = U \<union> run_set rs)
      \<or> (r = Inl ErrNoSpace \<and> used a' = U \<and> card ({..< total a} - U) < total_len runs + left))"
  using inv acc
proof (induction left arbitrary: a runs rule: less_induct)
  case (less left)
  show ?case
  proof (cases "left = 0")
    case True
    then show ?thesis using less.prems by (subst alloc_runs_loop.simps) auto
  next
    case False
    let ?want = "if maxRun > 0 \<and> left > maxRun then maxRun else left"
    have want: "0 < ?want" "?want \<le> left" "maxRun = 0 \<or> ?want \<le> maxRun" using False by auto
    obtain r1 a1 where am: "allocAtMost A a ?want = (r1, a1)" by fastforce
    have "?want < 2 ^ 64" using want less.prems(2) by linarith
    from AM[OF less.prems(1) want(1) this am] show ?thesis
    proof (elim disjE conjE)
      assume "one_run_taken used total invar a ?want r1 a1"
      then obtain s got where ok: "r1 = Inr (s, got)" "0 < got" "got \<le> ?want" "invar a1" "total a1 = total a"
        "s + got \<le> total a" "{s ..< s + got} \<inter> used a = {}" "used a1 = used a \<union> {s ..< s + got}"
        by (simp add: one_run_taken_def split: sum.splits prod.splits)
      let ?r = "\<lparr>run_start = s, run_len = got\<rparr>"
      have sub: "sub64 left got = left - got" using ok(3) want(2) less.prems(2) by simp
      have "alloc_runs_loop A maxRun left runs a = alloc_runs_loop A maxRun (left - got) (runs @ [?r]) a1"
        using False am ok(1) sub by (subst alloc_runs_loop.simps) simp
      moreover have "good_runs (runs @ [?r]) U (total a1) maxRun"
        using less.prems(3,4) ok want by (auto simp: good_runs_snoc run_blocks_def)
      moreover have "used a1 = U \<union> run_set (runs @ [?r])"
        using less.prems(4) ok(8) by (auto simp: run_blocks_def)
      moreover have "left - got < left" "left - got < 2 ^ 64" "total_len (runs @ [?r]) + (left - got) = total_len runs + left"
        using ok want False less.prems(2) by auto
      ultimately show ?thesis using less.IH[of "left - got" a1 "runs @ [?r]"] ok(4,5) by simp
    next
      assume bad: "r1 = Inl ErrNoSpace" "a1 = a" "used a = {..< total a}"
      have "alloc_runs_loop A maxRun left runs a = Some (Inl ErrNoSpace, free_runs A runs a)"
        using False am bad by (subst alloc_runs_loop.simps) simp
      moreover note fr = free_runs_spec[OF less.prems(1,3)]
      moreover have free: "run_set runs \<subseteq> {..< total a} - U" by (rule good_runs_free[OF less.prems(3)])
      moreover have "{..< total a} - U = run_set runs" using bad(3) less.prems(4) free by blast
      then have "card ({..< total a} - U) < total_len runs + left"
        using card_run_set[OF less.prems(3)] False by simp
      moreover have "used (free_runs A runs a) = U" using fr less.prems(4) free by blast
      ultimately show ?thesis by blast
    qed
  qed
qed

end

text \<open>An allocator with \<open>AllocUpTo\<close>, which fails only when no block is free.\<close>

locale run_allocator = allocator +
  fixes upto_op
  assumes has_upto: "al_upto A = Some upto_op"
    and upto_ok: "invar a \<Longrightarrow> 0 < n \<Longrightarrow> upto_op a n = (Inr (s, got), a') \<Longrightarrow>
       0 < got \<and> got \<le> n \<and> invar a' \<and> total a' = total a \<and> s + got \<le> total a
       \<and> {s ..< s + got} \<inter> used a = {} \<and> used a' = used a \<union> {s ..< s + got}"
    and upto_err: "invar a \<Longrightarrow> 0 < n \<Longrightarrow> upto_op a n = (Inl e, a') \<Longrightarrow>
       a' = a \<and> e = ErrNoSpace \<and> used a = {..< total a}"

begin

lemma at_most_upto:
  assumes "invar a" "0 < n" "n < 2 ^ 64" "allocAtMost A a n = (r, a')"
  shows "one_run_taken used total invar a n r a'
       \<or> (r = Inl ErrNoSpace \<and> a' = a \<and> used a = {..< total a})"
proof -
  obtain r1 a1 where al: "al_alloc A a n = (r1, a1)" by fastforce
  show ?thesis
  proof (cases r1)
    case (Inr s)
    then have "r = Inr (s, n)" "a' = a1" using assms al by (auto simp: allocAtMost_def)
    then show ?thesis
      using one_run_takenI[OF assms(2) order_refl alloc_ok[OF assms(1,2) al[unfolded Inr]]] by simp
  next
    case (Inl e)
    note e = alloc_err[OF assms(1,2) al[unfolded Inl]]
    then have up: "upto_op a n = (r, a')"
      using has_upto assms(4) al Inl by (simp add: allocAtMost_def)
    show ?thesis
    proof (cases r)
      case (Inl e')
      then show ?thesis using upto_err[OF assms(1,2) up[unfolded Inl]] by simp
    next
      case (Inr sg)
      obtain s got where sg: "sg = (s, got)" by fastforce
      have "one_run_taken used total invar a n (Inr (s, got)) a'"
        using upto_ok[OF assms(1,2) up[unfolded Inr sg]] by (simp add: one_run_taken_def)
      then show ?thesis unfolding Inr sg by (rule disjI1)
    qed
  qed
qed

text \<open>
  \<open>AllocRuns\<close> returns; it succeeds exactly when enough blocks are free, however
  fragmented; its runs are disjoint free runs of the requested total length, which become used; a
  failure leaves the used blocks as they were.
\<close>

lemma AllocRuns_spec:
  assumes "invar a" "n < 2 ^ 64"
  shows "\<exists>r a'. AllocRuns A a n maxRun = Some (r, a') \<and> invar a' \<and> total a' = total a \<and>
     ((\<exists>rs. r = Inr rs \<and> good_runs rs (used a) (total a) maxRun \<and> total_len rs = n
         \<and> used a' = used a \<union> run_set rs)
      \<or> (r = Inl ErrNoSpace \<and> used a' = used a \<and> card ({..< total a} - used a) < n))"
proof (cases "n = 0")
  case True
  have "good_runs [] (used a) (total a) maxRun" by (simp add: good_runs_def)
  then show ?thesis using True assms by (auto simp: AllocRuns_def)
next
  case False
  have this0: "good_runs [] (used a) (total a) maxRun" by (simp add: good_runs_def)
  have "AllocRuns A a n maxRun = alloc_runs_loop A maxRun n [] a" using False by (simp add: AllocRuns_def)
  moreover have "\<exists>r a'. alloc_runs_loop A maxRun n [] a = Some (r, a') \<and> invar a' \<and> total a' = total a \<and>
     ((\<exists>rs. r = Inr rs \<and> good_runs rs (used a) (total a) maxRun \<and> total_len rs = total_len [] + n
         \<and> used a' = used a \<union> run_set rs)
      \<or> (r = Inl ErrNoSpace \<and> used a' = used a \<and> card ({..< total a} - used a) < total_len [] + n))"
    by (rule alloc_runs_loop_spec[OF _ assms this0]) (use at_most_upto in blast, simp)
  ultimately show ?thesis by (simp only: total_len_simps add_0)
qed

end

interpretation bitmap: run_allocator bitmap_ops used_blocks bm_total bm_inv bm_alloc_upto
proof unfold_locales
  fix b b' :: bitmap and n s got :: nat and e oe
  assume inv: "bm_inv b"
  show "used_blocks b \<subseteq> {..< bm_total b} \<and> bm_total b < 2 ^ 63"
    using inv by (auto simp: used_blocks_def bm_inv_def)
  have free: "free_run b s n \<longleftrightarrow> s + n \<le> bm_total b \<and> {s ..< s + n} \<inter> used_blocks b = {}" for s n
    by (auto simp: free_run_def used_blocks_def)
  note tk = bm_take_spec[OF inv]
  show "bm_inv b' \<and> bm_total b' = bm_total b \<and> s + n \<le> bm_total b \<and> {s ..< s + n} \<inter> used_blocks b = {}
      \<and> used_blocks b' = used_blocks b \<union> {s ..< s + n}"
    if "0 < n" "al_alloc bitmap_ops b n = (Inr s, b')"
    using bm_alloc_spec[OF inv that(1)] that(2) tk by (auto simp: bitmap_ops_def free)
  show "b' = b \<and> e = ErrNoSpace \<and> (\<forall>s. s + n \<le> bm_total b \<longrightarrow> {s ..< s + n} \<inter> used_blocks b \<noteq> {})"
    if "0 < n" "al_alloc bitmap_ops b n = (Inl e, b')"
    using bm_alloc_spec[OF inv that(1)] that(2) by (auto simp: bitmap_ops_def free)
  show "oe = None \<and> bm_inv b' \<and> bm_total b' = bm_total b \<and> used_blocks b' = used_blocks b - {s ..< s + n}"
    if "s + n \<le> bm_total b" "al_free bitmap_ops b s n = (oe, b')"
    using bm_free_spec[OF inv that(1)] that(2) by (simp add: bitmap_ops_def)
  show "oe = None \<and> bm_inv b' \<and> bm_total b' = bm_total b \<and> used_blocks b' = used_blocks b \<union> {s ..< s + n}"
    if "s + n \<le> bm_total b" "al_reserve bitmap_ops b s n = (oe, b')"
    using tk[OF that(1)] that bm_range_u64[of b s n] inv
    by (auto simp: bitmap_ops_def bm_reserve_def bm_inv_iff)
  show "0 < got \<and> got \<le> n \<and> bm_inv b' \<and> bm_total b' = bm_total b \<and> s + got \<le> bm_total b
      \<and> {s ..< s + got} \<inter> used_blocks b = {} \<and> used_blocks b' = used_blocks b \<union> {s ..< s + got}"
    if "0 < n" "bm_alloc_upto b n = (Inr (s, got), b')"
  proof -
    have "b' = bm_take b s got \<and> 0 < got \<and> got \<le> n \<and> free_run b s got"
      using bm_alloc_upto_spec[OF inv that(1)] that(2) by auto
    then show ?thesis using tk[of s got] by (simp add: free)
  qed
  show "b' = b \<and> e = ErrNoSpace \<and> used_blocks b = {..< bm_total b}"
    if "0 < n" "bm_alloc_upto b n = (Inl e, b')"
  proof -
    have "\<not> (\<exists>s got. bm_alloc_upto b n = (Inr (s, got), bm_take b s got))" using that(2) by auto
    then have "bm_alloc_upto b n = (Inl ErrNoSpace, b) \<and> used_blocks b = {..< bm_total b}"
      using bm_alloc_upto_spec[OF inv that(1)] by blast
    then show ?thesis using that(2) by simp
  qed
qed (simp add: bitmap_ops_def)


section \<open>Properties\<close>

text \<open>The calls a client may make, with any 64-bit arguments.\<close>

datatype bm_op = OpAlloc nat | OpUpTo nat | OpFree nat nat | OpReserve nat nat

fun bm_step :: "bitmap \<Rightarrow> bm_op \<Rightarrow> bitmap" where
  "bm_step b (OpAlloc n) = snd (bm_alloc b n)"
| "bm_step b (OpUpTo n) = snd (bm_alloc_upto b n)"
| "bm_step b (OpFree s n) = snd (bm_free b s n)"
| "bm_step b (OpReserve s n) = snd (bm_reserve b s n)"

fun op_64bit :: "bm_op \<Rightarrow> bool" where
  "op_64bit (OpAlloc n) = (n < 2 ^ 64)"
| "op_64bit (OpUpTo n) = (n < 2 ^ 64)"
| "op_64bit (OpFree s n) = (s < 2 ^ 64 \<and> n < 2 ^ 64)"
| "op_64bit (OpReserve s n) = (s < 2 ^ 64 \<and> n < 2 ^ 64)"

lemma wrapped_range:
  assumes "s < 2 ^ 64" "n < 2 ^ 64" "\<not> s + n < 2 ^ 64"
  shows "u64 (s + n) \<le> s"
proof -
  have "(s + n) mod 2 ^ 64 = (s + n - 2 ^ 64) mod 2 ^ 64" using assms by (subst le_mod_geq) auto
  then show ?thesis using assms by (simp add: u64_def)
qed

lemma bm_take_wrapped:
  assumes inv: "bm_inv b" and w: "u64 (s + n) \<le> s"
  shows "bm_inv (bm_take b s n)" "used_blocks (bm_take b s n) = used_blocks b"
    "bm_total (bm_take b s n) = bm_total b"
proof -
  have "bm_take b s n = b\<lparr>bm_hint := firstFree b (bm_hint b)\<rparr>"
    using w by (simp add: bm_take_def Let_def)
  moreover have "bm_take b 0 0 = b\<lparr>bm_hint := firstFree b (bm_hint b)\<rparr>"
    by (simp add: bm_take_def Let_def)
  ultimately have "bm_take b s n = bm_take b 0 0" by simp
  then show "bm_inv (bm_take b s n)" "used_blocks (bm_take b s n) = used_blocks b"
    "bm_total (bm_take b s n) = bm_total b"
    using bm_take_spec[OF inv, of 0 0] by auto
qed

lemma bm_reserve_inv:
  assumes "bm_inv b" "s < 2 ^ 64" "n < 2 ^ 64"
  shows "bm_inv (snd (bm_reserve b s n)) \<and> bm_total (snd (bm_reserve b s n)) = bm_total b"
proof (cases "s + n < 2 ^ 64")
  case True
  then show ?thesis using assms bm_take_spec[OF assms(1), of s n] by (auto simp: bm_reserve_def)
next
  case False
  then show ?thesis using bm_take_wrapped[OF assms(1) wrapped_range] assms by (auto simp: bm_reserve_def)
qed

lemma bm_free_inv:
  assumes "bm_inv b" "s < 2 ^ 64" "n < 2 ^ 64"
  shows "bm_inv (snd (bm_free b s n)) \<and> bm_total (snd (bm_free b s n)) = bm_total b"
proof (cases "s + n < 2 ^ 64")
  case True
  then show ?thesis using assms bm_free_spec[OF assms(1), of s n]
    by (cases "s + n \<le> bm_total b") (auto simp: bm_free_def)
next
  case False
  then have "u64 (s + n) \<le> s" using wrapped_range assms by blast
  then have "snd (bm_free b s n) = b \<or> snd (bm_free b s n) = b\<lparr>bm_hint := s\<rparr> \<and> s < bm_hint b"
    by (auto simp: bm_free_def Let_def split: if_splits)
  then show ?thesis using assms(1) by (auto simp: bm_inv_def bm_used_def)
qed

lemma bm_step_inv:
  assumes "bm_inv b" "op_64bit x"
  shows "bm_inv (bm_step b x) \<and> bm_total (bm_step b x) = bm_total b"
proof (cases x)
  case (OpAlloc n)
  then show ?thesis using bm_alloc_spec[OF assms(1), of n] assms bm_take_spec[OF assms(1)]
    by (cases "n = 0") (auto simp: bm_alloc_def free_run_def)
next
  case (OpUpTo n)
  then show ?thesis using bm_alloc_upto_spec[OF assms(1), of n] assms bm_take_spec[OF assms(1)]
    by (cases "n = 0") (auto simp: bm_alloc_upto_def free_run_def)
qed (use assms bm_free_inv bm_reserve_inv in auto)

lemma bm_run_inv:
  "bm_inv b \<Longrightarrow> \<forall>x \<in> set xs. op_64bit x \<Longrightarrow>
   bm_inv (foldl bm_step b xs) \<and> bm_total (foldl bm_step b xs) = bm_total b"
  by (induction xs arbitrary: b) (auto simp: bm_step_inv)

text \<open>
  C1. The word-at-a-time allocator is first fit: \<open>Alloc(n)\<close> returns the lowest start of
  \<open>n\<close> contiguous free blocks and marks exactly these, and fails with \<open>ErrNoSpace\<close>,
  unchanged, only when no such run exists; in particular its scan always returns.
\<close>

theorem alloc_is_first_fit:
  assumes "bm_inv b" "0 < n"
  shows "fst (bm_alloc b n) =
      (if \<exists>s. free_run b s n then Inr (LEAST s. free_run b s n) else Inl ErrNoSpace)
    \<and> used_blocks (snd (bm_alloc b n)) = used_blocks b \<union>
      (if \<exists>s. free_run b s n then {(LEAST s. free_run b s n) ..< (LEAST s. free_run b s n) + n} else {})"
proof -
  have least: "(LEAST s. free_run b s n) = s" if "free_run b s n" "\<forall>s' < s. \<not> free_run b s' n" for s
    using that by (intro Least_equality) (auto simp: not_less[symmetric])
  from bm_alloc_spec[OF assms] show ?thesis
  proof (elim disjE exE conjE)
    fix s
    assume s: "bm_alloc b n = (Inr s, bm_take b s n)" "free_run b s n" "\<forall>s' < s. \<not> free_run b s' n"
    then have "s + n \<le> bm_total b" by (simp add: free_run_def)
    then show ?thesis using s least bm_take_spec(2)[OF assms(1), of s n] by auto
  next
    assume "bm_alloc b n = (Inl ErrNoSpace, b)" "\<forall>s'. \<not> free_run b s' n"
    then show ?thesis by simp
  qed
qed

theorem alloc_is_first_fit_witness:
  "fst (bm_alloc (new_bitmap 100) 70) =
      (if \<exists>s. free_run (new_bitmap 100) s 70 then Inr (LEAST s. free_run (new_bitmap 100) s 70)
       else Inl ErrNoSpace)"
  using alloc_is_first_fit[OF new_bitmap_spec(1), of 100 70] by simp

text \<open>
  C9. \<open>AllocRuns\<close> over the bitmap always returns. It succeeds exactly when \<open>n\<close>
  blocks are free, however fragmented: the runs are non-empty, pairwise disjoint, were free, add
  up to \<open>n\<close>, respect \<open>maxRun\<close>, and are exactly what becomes used. On failure the
  runs taken so far are released: nothing is reserved.
\<close>

theorem AllocRuns_all_or_nothing:
  assumes "bm_inv b" "n < 2 ^ 64"
  shows "\<exists>r b'. AllocRuns bitmap_ops b n maxRun = Some (r, b') \<and> bm_inv b' \<and>
     (if n \<le> card ({..< bm_total b} - used_blocks b)
      then \<exists>rs. r = Inr rs \<and> good_runs rs (used_blocks b) (bm_total b) maxRun \<and> total_len rs = n
             \<and> used_blocks b' = used_blocks b \<union> run_set rs
      else r = Inl ErrNoSpace \<and> used_blocks b' = used_blocks b)"
proof -
  obtain r b' where run: "AllocRuns bitmap_ops b n maxRun = Some (r, b')" "bm_inv b'"
    and out: "(\<exists>rs. r = Inr rs \<and> good_runs rs (used_blocks b) (bm_total b) maxRun \<and> total_len rs = n
         \<and> used_blocks b' = used_blocks b \<union> run_set rs)
      \<or> (r = Inl ErrNoSpace \<and> used_blocks b' = used_blocks b
         \<and> card ({..< bm_total b} - used_blocks b) < n)"
    using bitmap.AllocRuns_spec[OF assms] by blast
  have enough: "n \<le> card ({..< bm_total b} - used_blocks b)"
    if "good_runs rs (used_blocks b) (bm_total b) maxRun" "total_len rs = n" for rs
    using card_run_set[OF that(1)] good_runs_free[OF that(1)] that(2)
    by (metis card_mono finite_Diff finite_lessThan)
  show ?thesis using run out enough by (intro exI[of _ r] exI[of _ b']) auto
qed

theorem AllocRuns_all_or_nothing_witness:
  "\<exists>r b'. AllocRuns bitmap_ops (new_bitmap 100) 90 32 = Some (r, b') \<and> isOK r"
proof -
  have free: "{..< bm_total (new_bitmap 100)} - used_blocks (new_bitmap 100) = {..<100}"
    using new_bitmap_spec[of 100] by simp
  show ?thesis
    using AllocRuns_all_or_nothing[OF new_bitmap_spec(1), of 100 90 32] unfolding free by auto
qed

text \<open>
  C10. Whatever calls a client makes on a fresh bitmap, with any 64-bit arguments (ranges that
  leave the device or overflow included), the bitmap stays well formed: one bit per block, the
  padding marked, and no free block below the scan hint.
\<close>

theorem bitmap_calls_keep_invariant:
  assumes "tot < 2 ^ 63" "\<forall>x \<in> set xs. op_64bit x"
  shows "bm_inv (foldl bm_step (new_bitmap tot) xs)
    \<and> bm_total (foldl bm_step (new_bitmap tot) xs) = tot"
  using bm_run_inv[OF new_bitmap_spec(1)[OF assms(1)] assms(2)] new_bitmap_spec(3)[OF assms(1)] by simp

theorem bitmap_calls_keep_invariant_witness:
  "bm_inv (foldl bm_step (new_bitmap 100) [OpReserve 0 10, OpAlloc 20, OpFree 5 3, OpFree 99 18446744073709551615])"
  using bitmap_calls_keep_invariant[of 100 "[OpReserve 0 10, OpAlloc 20, OpFree 5 3, OpFree 99 18446744073709551615]"]
  by simp

text \<open>
  The range check of \<open>Reserve\<close> adds at 64 bits: a range whose end overflows to a value
  inside the device is accepted, yet not a single block becomes used.
\<close>

lemma reserve_overflow_is_silent:
  assumes "bm_inv b" "s < 2 ^ 64" "n < 2 ^ 64" "2 ^ 64 \<le> s + n" "s + n - 2 ^ 64 \<le> bm_total b"
  shows "fst (bm_reserve b s n) = None \<and> used_blocks (snd (bm_reserve b s n)) = used_blocks b"
proof -
  have u: "u64 (s + n) = s + n - 2 ^ 64"
    using assms by (simp add: u64_def le_mod_geq)
  moreover have "u64 (s + n) \<le> s" using wrapped_range assms by auto
  ultimately show ?thesis using assms bm_take_wrapped(2)[OF assms(1)] by (simp add: bm_reserve_def)
qed

end
