(* ===== verification/Image.thy ===== *)
theory Image
  imports Prelude Device
begin

text \<open>
  The logical tree (\<open>pkg/tree\<close>) and the editable in-memory image every engine shares
  (\<open>pkg/image\<close>: \<open>mem.go\<close>, \<open>name.go\<close>). Nodes are shared and mutated through
  pointers, so the model keeps an explicit store: a node is an index into a list of nodes, a
  directory entry a name and an index, and every operation takes and returns the store. The
  engines walk a tree; \<open>unfold_tree\<close> reads one off the store, each node carrying its
  index as its identity (the Go pointer).
\<close>

section \<open>Metadata, contents, nodes\<close>

text \<open>\<open>time.Time\<close> in UTC: seconds since the Unix epoch and nanoseconds.\<close>

record gotime =
  gt_sec :: int
  gt_nsec :: nat

definition zero_time :: gotime where
  "zero_time = \<lparr> gt_sec = -62135596800, gt_nsec = 0 \<rparr>"

definition is_zero_time :: "gotime \<Rightarrow> bool" where
  "is_zero_time t \<longleftrightarrow> gt_sec t = -62135596800 \<and> gt_nsec t = 0"

text \<open>\<open>tree.Source\<close>: a size and a \<open>ReadAt\<close>; \<open>tree.Bytes\<close> is one over a slice.\<close>

record source =
  src_size :: int
  src_read_at :: "nat \<Rightarrow> int \<Rightarrow> bytes \<times> error option"

definition bytes_read_at :: "bytes \<Rightarrow> nat \<Rightarrow> int \<Rightarrow> bytes \<times> error option" where
  "bytes_read_at b n off =
     (if off < 0 then ([], Some (Err ''tree: negative offset''))
      else if off \<ge> int (length b) then ([], Some EOF)
      else let data = window b (nat off) n in
        if length data < n then (data, Some EOF) else (data, None))"

definition bytes_source :: "bytes \<Rightarrow> source" where
  "bytes_source b = \<lparr> src_size = int (length b), src_read_at = bytes_read_at b \<rparr>"

text \<open>\<open>fs.FileMode\<close>: permission bits and the type bits of Go's \<open>io/fs\<close>.\<close>

type_synonym filemode = "32 word"

definition ModeDir :: filemode where "ModeDir = 0x80000000"
definition ModeSymlink :: filemode where "ModeSymlink = 0x08000000"
definition ModeDevice :: filemode where "ModeDevice = 0x04000000"
definition ModeNamedPipe :: filemode where "ModeNamedPipe = 0x02000000"
definition ModeSocket :: filemode where "ModeSocket = 0x01000000"
definition ModeSetuid :: filemode where "ModeSetuid = 0x00800000"
definition ModeSetgid :: filemode where "ModeSetgid = 0x00400000"
definition ModeCharDevice :: filemode where "ModeCharDevice = 0x00200000"
definition ModeSticky :: filemode where "ModeSticky = 0x00100000"
definition ModeIrregular :: filemode where "ModeIrregular = 0x00080000"

definition ModeType :: filemode where
  "ModeType = ModeDir OR ModeSymlink OR ModeNamedPipe OR ModeSocket OR ModeDevice
     OR ModeCharDevice OR ModeIrregular"

definition mode_perm :: "filemode \<Rightarrow> filemode" where
  "mode_perm m = m AND 0x1FF"

text \<open>\<open>m&flag != 0\<close>.\<close>

definition has :: "filemode \<Rightarrow> filemode \<Rightarrow> bool" where
  "has m flag \<longleftrightarrow> m AND flag \<noteq> 0"

definition mode_is_dir :: "filemode \<Rightarrow> bool" where
  "mode_is_dir m \<longleftrightarrow> has m ModeDir"

definition mode_is_regular :: "filemode \<Rightarrow> bool" where
  "mode_is_regular m \<longleftrightarrow> m AND ModeType = 0"

lemmas mode_defs = ModeDir_def ModeSymlink_def ModeDevice_def ModeNamedPipe_def ModeSocket_def
  ModeSetuid_def ModeSetgid_def ModeCharDevice_def ModeSticky_def ModeIrregular_def

lemma mode_push_bit:
  "ModeDir = 2 ^ 31" "ModeSymlink = 2 ^ 27" "ModeDevice = 2 ^ 26"
  "ModeNamedPipe = 2 ^ 25" "ModeSocket = 2 ^ 24" "ModeSetuid = 2 ^ 23"
  "ModeSetgid = 2 ^ 22" "ModeCharDevice = 2 ^ 21" "ModeSticky = 2 ^ 20"
  "ModeIrregular = 2 ^ 19"
  by (simp_all add: mode_defs)

lemma has_bit [simp]:
  "has m ModeDir \<longleftrightarrow> bit m 31" "has m ModeSymlink \<longleftrightarrow> bit m 27" "has m ModeDevice \<longleftrightarrow> bit m 26"
  "has m ModeNamedPipe \<longleftrightarrow> bit m 25" "has m ModeSocket \<longleftrightarrow> bit m 24" "has m ModeSetuid \<longleftrightarrow> bit m 23"
  "has m ModeSetgid \<longleftrightarrow> bit m 22" "has m ModeCharDevice \<longleftrightarrow> bit m 21" "has m ModeSticky \<longleftrightarrow> bit m 20"
  "has m ModeIrregular \<longleftrightarrow> bit m 19"
  by (simp_all only: has_def mode_push_bit and_exp_eq_0_iff_not_bit not_not)

lemma has_or [simp]: "has m (a OR b) \<longleftrightarrow> has m a \<or> has m b"
  by (auto simp: has_def bit.conj_disj_distrib bit_eq_iff bit_simps)

lemma bit_ModeType: "bit ModeType n \<longleftrightarrow> n \<in> {19, 21, 24, 25, 26, 27, 31}"
  unfolding ModeType_def mode_push_bit bit_or_iff bit_exp_iff possible_bit_def by auto

text \<open>\<open>tree.Meta\<close>, embedded in \<open>tree.Inode\<close>, embedded in \<open>image.Node\<close>.\<close>

record meta =
  md_mode :: filemode
  md_uid :: nat
  md_gid :: nat
  md_mtime :: gotime
  md_xattrs :: "(string \<times> bytes) list"

record inode = meta +
  in_content :: "source option"
  in_link :: string
  in_rdev :: nat

record node = inode +
  nd_nlink :: int
  nd_children :: "(string \<times> nat) list"

type_synonym ref = nat
type_synonym heap = "node list"

definition new_node :: "meta \<Rightarrow> int \<Rightarrow> node" where
  "new_node m nlink =
     \<lparr> md_mode = md_mode m, md_uid = md_uid m, md_gid = md_gid m, md_mtime = md_mtime m,
       md_xattrs = md_xattrs m, in_content = None, in_link = [], in_rdev = 0,
       nd_nlink = nlink, nd_children = [] \<rparr>"

definition is_dir :: "node \<Rightarrow> bool" where
  "is_dir n \<longleftrightarrow> mode_is_dir (md_mode n)"

section \<open>Names\<close>

definition ErrBadName :: error where
  "ErrBadName = Err ''image: invalid name''"

definition ValidName :: "string \<Rightarrow> error option" where
  "ValidName name =
     (if name = '''' \<or> name = ''.'' \<or> name = ''..'' \<or> CHR ''/'' \<in> set name
      then Some ErrBadName else None)"

definition AddChild :: "heap \<Rightarrow> ref \<Rightarrow> string \<Rightarrow> ref \<Rightarrow> heap result" where
  "AddChild h n name child =
     (case ValidName name of Some e \<Rightarrow> Inl e
      | None \<Rightarrow> Inr (h[n := (h ! n)\<lparr>nd_children := nd_children (h ! n) @ [(name, child)]\<rparr>]))"

section \<open>The editing surface\<close>

text \<open>\<open>now\<close> stands for what the injected \<open>Clock.Now()\<close> returns at the call.\<close>

definition resolveMeta :: "gotime \<Rightarrow> meta \<Rightarrow> meta" where
  "resolveMeta now m = (if is_zero_time (md_mtime m) then m\<lparr>md_mtime := now\<rparr> else m)"

definition NewMem :: "gotime \<Rightarrow> meta \<Rightarrow> heap \<times> ref" where
  "NewMem now rootMeta =
     (let m = resolveMeta now rootMeta in
      ([new_node (m\<lparr>md_mode := (md_mode m AND NOT ModeType) OR ModeDir\<rparr>) 2], 0))"

definition find_child :: "heap \<Rightarrow> ref \<Rightarrow> string \<Rightarrow> ref option" where
  "find_child h d name = map_of (nd_children (h ! d)) name"

definition add_entry :: "heap \<Rightarrow> ref \<Rightarrow> string \<Rightarrow> ref \<Rightarrow> heap" where
  "add_entry h d name r =
     h[d := (h ! d)\<lparr>nd_children := nd_children (h ! d) @ [(name, r)]\<rparr>]"

definition add_nlink :: "heap \<Rightarrow> ref \<Rightarrow> int \<Rightarrow> heap" where
  "add_nlink h r k = h[r := (h ! r)\<lparr>nd_nlink := nd_nlink (h ! r) + k\<rparr>]"

definition newChild :: "gotime \<Rightarrow> heap \<Rightarrow> ref \<Rightarrow> string \<Rightarrow> meta \<Rightarrow> filemode \<Rightarrow> node result" where
  "newChild now h d name m typeBits =
     (case ValidName name of Some e \<Rightarrow> Inl e
      | None \<Rightarrow>
        if find_child h d name \<noteq> None then Inl ErrExist
        else let m' = resolveMeta now m in
          Inr (new_node (m'\<lparr>md_mode := (md_mode m' AND NOT ModeType) OR typeBits\<rparr>) 1))"

definition Mkdir :: "gotime \<Rightarrow> heap \<Rightarrow> ref \<Rightarrow> string \<Rightarrow> meta \<Rightarrow> ref result \<times> heap" where
  "Mkdir now h d name m =
     (case newChild now h d name m ModeDir of Inl e \<Rightarrow> (Inl e, h)
      | Inr n \<Rightarrow>
        let r = length h; h1 = h @ [n\<lparr>nd_nlink := 2\<rparr>] in
        (Inr r, add_entry (add_nlink h1 d 1) d name r))"

definition Create :: "gotime \<Rightarrow> heap \<Rightarrow> ref \<Rightarrow> string \<Rightarrow> source \<Rightarrow> meta \<Rightarrow> ref result \<times> heap" where
  "Create now h d name c m =
     (case newChild now h d name m 0 of Inl e \<Rightarrow> (Inl e, h)
      | Inr n \<Rightarrow>
        let r = length h in
        (Inr r, add_entry (h @ [n\<lparr>in_content := Some c\<rparr>]) d name r))"

definition Symlink :: "gotime \<Rightarrow> heap \<Rightarrow> ref \<Rightarrow> string \<Rightarrow> string \<Rightarrow> meta \<Rightarrow> error option \<times> heap" where
  "Symlink now h d name target m =
     (case newChild now h d name m ModeSymlink of Inl e \<Rightarrow> (Some e, h)
      | Inr n \<Rightarrow> (None, add_entry (h @ [n\<lparr>in_link := target\<rparr>]) d name (length h)))"

definition Mknod :: "gotime \<Rightarrow> heap \<Rightarrow> ref \<Rightarrow> string \<Rightarrow> nat \<Rightarrow> meta \<Rightarrow> error option \<times> heap" where
  "Mknod now h d name rdev m =
     (let t = md_mode m AND ModeType;
          typeBits = (if t AND (ModeDevice OR ModeCharDevice OR ModeNamedPipe OR ModeSocket) = 0
                      then ModeDevice else t) in
      case newChild now h d name m typeBits of Inl e \<Rightarrow> (Some e, h)
      | Inr n \<Rightarrow> (None, add_entry (h @ [n\<lparr>in_rdev := rdev\<rparr>]) d name (length h)))"

text \<open>\<open>target\<close> is a handle \<open>Create\<close> returned; another \<open>File\<close> is \<open>None\<close>.\<close>

definition Link :: "heap \<Rightarrow> ref \<Rightarrow> string \<Rightarrow> ref option \<Rightarrow> error option \<times> heap" where
  "Link h d name target =
     (case ValidName name of Some e \<Rightarrow> (Some e, h)
      | None \<Rightarrow>
        (case target of
           None \<Rightarrow> (Some (Err ''image: link target is not a regular file handle''), h)
         | Some r \<Rightarrow>
             if find_child h d name \<noteq> None then (Some ErrExist, h)
             else (None, add_entry (add_nlink h r 1) d name r)))"

definition Lookup :: "heap \<Rightarrow> ref \<Rightarrow> string \<Rightarrow> (string \<times> ref) result" where
  "Lookup h d name =
     (case find_child h d name of None \<Rightarrow> Inl ErrNotExist | Some r \<Rightarrow> Inr (name, r))"

fun remove_first :: "string \<Rightarrow> (string \<times> 'a) list \<Rightarrow> (string \<times> 'a) list" where
  "remove_first name [] = []"
| "remove_first name (e # es) = (if fst e = name then es else e # remove_first name es)"

definition Remove :: "heap \<Rightarrow> ref \<Rightarrow> string \<Rightarrow> error option \<times> heap" where
  "Remove h d name =
     (case find_child h d name of None \<Rightarrow> (Some ErrNotExist, h)
      | Some r \<Rightarrow>
        if is_dir (h ! r) \<and> nd_children (h ! r) \<noteq> []
        then (Some (Err ''image: directory not empty''), h)
        else
          let h1 = (if is_dir (h ! r) then add_nlink h d (-1) else h);
              h2 = add_nlink h1 r (-1) in
          (None, h2[d := (h2 ! d)\<lparr>nd_children := remove_first name (nd_children (h2 ! d))\<rparr>]))"

text \<open>\<open>Range\<close> stops at the first error of the callback.\<close>

fun range_loop :: "(string \<times> node \<Rightarrow> error option) \<Rightarrow> heap \<Rightarrow> (string \<times> ref) list \<Rightarrow> error option" where
  "range_loop fn h [] = None"
| "range_loop fn h ((name, r) # es) =
     (case fn (name, h ! r) of Some e \<Rightarrow> Some e | None \<Rightarrow> range_loop fn h es)"

definition Range :: "heap \<Rightarrow> ref \<Rightarrow> (string \<times> node \<Rightarrow> error option) \<Rightarrow> error option" where
  "Range h d fn = range_loop fn h (nd_children (h ! d))"

definition SubDir :: "heap \<Rightarrow> ref \<Rightarrow> string \<Rightarrow> ref result" where
  "SubDir h d name =
     (case find_child h d name of None \<Rightarrow> Inl ErrNotExist
      | Some r \<Rightarrow> if \<not> is_dir (h ! r) then Inl (Err ''image: not a directory'') else Inr r)"


section \<open>The tree invariant\<close>

text \<open>How many directory entries name a node, and how many of a directory's entries are
directories.\<close>

definition refs_in :: "ref \<Rightarrow> node \<Rightarrow> nat" where
  "refs_in r n = length (filter (\<lambda>e. snd e = r) (nd_children n))"

definition refcount :: "heap \<Rightarrow> ref \<Rightarrow> nat" where
  "refcount h r = sum_list (map (refs_in r) h)"

definition subdirs :: "heap \<Rightarrow> ref \<Rightarrow> nat" where
  "subdirs h r = length (filter (\<lambda>e. is_dir (h ! snd e)) (nd_children (h ! r)))"

text \<open>
  Every entry has a valid name and an existing node; names are distinct in a directory; only
  directories have entries; a directory's sub-directories were created after it, and a directory
  is named at most once, the root never. Link counts are exact: a file counts its names, a
  directory its name, its \<open>.\<close> and the \<open>..\<close> of each sub-directory, the root one more.
\<close>

definition node_ok :: "heap \<Rightarrow> ref \<Rightarrow> bool" where
  "node_ok h r \<longleftrightarrow>
     (\<forall>(name, c) \<in> set (nd_children (h ! r)).
        ValidName name = None \<and> c < length h \<and> (is_dir (h ! c) \<longrightarrow> r < c)) \<and>
     distinct (map fst (nd_children (h ! r))) \<and>
     (\<not> is_dir (h ! r) \<longrightarrow> nd_children (h ! r) = [])"

definition nlink_ok :: "heap \<Rightarrow> ref \<Rightarrow> ref \<Rightarrow> bool" where
  "nlink_ok h root r \<longleftrightarrow>
     nd_nlink (h ! r) = int (refcount h r) +
       (if is_dir (h ! r) then 1 + int (subdirs h r) + (if r = root then 1 else 0) else 0) \<and>
     (is_dir (h ! r) \<longrightarrow> refcount h r \<le> (if r = root then 0 else 1))"

definition tree_inv :: "heap \<Rightarrow> ref \<Rightarrow> bool" where
  "tree_inv h root \<longleftrightarrow>
     root < length h \<and> is_dir (h ! root) \<and>
     (\<forall>r < length h. node_ok h r \<and> nlink_ok h root r)"

lemma refs_in_upd: "r < length h \<Longrightarrow>
    refcount (h[r := n]) x + refs_in x (h ! r) = refcount h x + refs_in x n"
proof -
  assume r: "r < length h"
  then have "refs_in x (h ! r) \<le> refcount h x"
    unfolding refcount_def by (intro member_le_sum_list) (auto intro!: nth_mem)
  then show ?thesis using r
    by (simp add: refcount_def map_update sum_list_update)
qed

lemma refcount_append [simp]: "refcount (h @ [n]) x = refcount h x + refs_in x n"
  by (simp add: refcount_def)

lemma refs_in_append [simp]:
  "refs_in x (n\<lparr>nd_children := cs @ [(name, r)]\<rparr>) = refs_in x (n\<lparr>nd_children := cs\<rparr>) + (if r = x then 1 else 0)"
  by (simp add: refs_in_def)

lemma refs_in_cong [simp]:
  "refs_in x (n\<lparr>nd_nlink := k\<rparr>) = refs_in x n" "refs_in x (n\<lparr>nd_children := nd_children n\<rparr>) = refs_in x n"
  "refs_in x (n\<lparr>in_content := c\<rparr>) = refs_in x n" "refs_in x (n\<lparr>in_link := l\<rparr>) = refs_in x n"
  "refs_in x (n\<lparr>in_rdev := v\<rparr>) = refs_in x n" "refs_in x (new_node m k) = 0"
  by (simp_all add: refs_in_def new_node_def)

lemma is_dir_upd [simp]:
  "is_dir (n\<lparr>nd_nlink := k\<rparr>) = is_dir n" "is_dir (n\<lparr>nd_children := cs\<rparr>) = is_dir n"
  "is_dir (n\<lparr>in_content := c\<rparr>) = is_dir n" "is_dir (n\<lparr>in_link := l\<rparr>) = is_dir n"
  "is_dir (n\<lparr>in_rdev := v\<rparr>) = is_dir n"
  by (simp_all add: is_dir_def)

lemma refcount_fresh:
  assumes "\<forall>r < length h. node_ok h r"
  shows "refcount h (length h) = 0"
proof -
  have "refs_in (length h) n = 0" if "n \<in> set h" for n
  proof -
    obtain r where r: "r < length h" "h ! r = n" using \<open>n \<in> set h\<close> by (metis in_set_conv_nth)
    have "snd e \<noteq> length h" if "e \<in> set (nd_children n)" for e
      using assms r that by (fastforce simp: node_ok_def)
    then show ?thesis by (simp add: refs_in_def filter_empty_conv)
  qed
  then show ?thesis by (simp add: refcount_def sum_list_eq_0_iff)
qed

text \<open>
  Adding an entry and counting it: the one store transformation behind \<open>Mkdir\<close>,
  \<open>Create\<close>, \<open>Symlink\<close>, \<open>Mknod\<close> and \<open>Link\<close>. \<open>k\<close> is what the
  new entry adds to the directory's own count.
\<close>

lemma append_fresh:
  assumes inv: "tree_inv h root" and n: "nd_children n = []" "nd_nlink n = (if is_dir n then 1 else 0)"
  shows "tree_inv (h @ [n]) root"
proof -
  let ?h = "h @ [n]"
  have ok: "\<forall>r < length h. node_ok h r" using inv by (simp add: tree_inv_def)
  have r0: "refs_in x n = 0" for x using n by (simp add: refs_in_def)
  have "node_ok ?h r \<and> nlink_ok ?h root r" if r: "r < length ?h" for r
  proof (cases "r = length h")
    case True
    have "r \<noteq> root" using True inv by (auto simp: tree_inv_def)
    then show ?thesis using True n refcount_fresh[OF ok] r0
      by (simp add: node_ok_def nlink_ok_def subdirs_def)
  next
    case False
    then have lt: "r < length h" using r by simp
    have nth: "?h ! r = h ! r" using lt by (simp add: nth_append)
    have old: "node_ok h r" "nlink_ok h root r" using inv lt by (auto simp: tree_inv_def)
    have ch: "?h ! snd e = h ! snd e" if "e \<in> set (nd_children (h ! r))" for e
      using old(1) that by (fastforce simp: node_ok_def nth_append)
    have "subdirs ?h r = subdirs h r"
      unfolding subdirs_def nth by (rule arg_cong[where f = length], rule filter_cong) (auto simp: ch)
    then have "nlink_ok ?h root r" using old(2) r0 by (simp add: nlink_ok_def nth)
    moreover have "node_ok ?h r"
      using old(1) ch unfolding node_ok_def nth by (fastforce simp: nth)
    ultimately show ?thesis by blast
  qed
  then show ?thesis using inv by (auto simp: tree_inv_def nth_append)
qed


lemma refcount_sum: "refcount h x = (\<Sum>i < length h. refs_in x (h ! i))"
  by (simp add: refcount_def sum_list_sum_nth atLeast0LessThan)

lemma refcount_changed:
  assumes "length h' = length h" "d < length h"
    and "\<And>r. r < length h \<Longrightarrow> refs_in x (h' ! r) + a r = refs_in x (h ! r) + b r"
    and "\<And>r. r < length h \<Longrightarrow> r \<noteq> d \<Longrightarrow> a r = 0 \<and> b r = 0"
  shows "refcount h' x + a d = refcount h x + b d"
proof -
  have "(\<Sum>i < length h. refs_in x (h' ! i) + a i) = (\<Sum>i < length h. refs_in x (h ! i) + b i)"
    using assms(3) by (intro sum.cong) auto
  moreover have "(\<Sum>i < length h. a i) = a d" "(\<Sum>i < length h. b i) = b d"
    using assms(2,4) by (auto intro!: sum.remove[THEN trans] sum.neutral)
  ultimately show ?thesis by (simp add: refcount_sum assms(1) sum.distrib)
qed

lemma tree_inv_linked:
  assumes inv: "tree_inv h root" and d: "d < length h" "is_dir (h ! d)"
    and name: "ValidName name = None" "name \<notin> fst ` set (nd_children (h ! d))"
    and c: "c < length h" "is_dir (h ! c) \<Longrightarrow> d < c \<and> refcount h c = 0 \<and> c \<noteq> root"
    and len: "length h' = length h"
    and chd: "\<And>r. r < length h \<Longrightarrow> nd_children (h' ! r) =
        nd_children (h ! r) @ (if r = d then [(name, c)] else [])"
    and dirs: "\<And>r. r < length h \<Longrightarrow> is_dir (h' ! r) = is_dir (h ! r)"
    and nl: "\<And>r. r < length h \<Longrightarrow> nd_nlink (h' ! r) =
        nd_nlink (h ! r) + (if r = c then 1 else 0) + (if r = d \<and> is_dir (h ! c) then 1 else 0)"
  shows "tree_inv h' root"
proof -
  have rc: "refcount h' x = refcount h x + (if x = c then 1 else 0)" for x
  proof -
    have "refs_in x (h' ! r) + 0 = refs_in x (h ! r) + (if r = d \<and> x = c then 1 else 0)"
      if "r < length h" for r using chd[OF that] by (auto simp: refs_in_def)
    then show ?thesis
      using refcount_changed[where a = "\<lambda>_. 0" and b = "\<lambda>r. if r = d \<and> x = c then 1 else 0" and d = d and x = x, OF len d(1)]
      by auto
  qed
  have "node_ok h' r \<and> nlink_ok h' root r" if r: "r < length h'" for r
  proof -
    have lt: "r < length h" using r len by simp
    have old: "node_ok h r" "nlink_ok h root r" using inv lt by (auto simp: tree_inv_def)
    have dirc: "is_dir (h' ! snd e) = is_dir (h ! snd e)" if "e \<in> set (nd_children (h ! r))" for e
      using old(1) that dirs by (fastforce simp: node_ok_def)
    have "length (filter (\<lambda>e. is_dir (h' ! snd e)) (nd_children (h ! r))) = subdirs h r"
      unfolding subdirs_def by (rule arg_cong[where f = length], rule filter_cong) (auto simp: dirc)
    then have sd: "subdirs h' r = subdirs h r + (if r = d \<and> is_dir (h ! c) then 1 else 0)"
      unfolding subdirs_def chd[OF lt] using dirs[OF c(1)] by simp
    have "nlink_ok h' root r"
      unfolding nlink_ok_def rc sd nl[OF lt] dirs[OF lt]
      using old(2)[unfolded nlink_ok_def] c(2) d(2) by (auto split: if_splits)
    moreover have "node_ok h' r"
    proof -
      have 1: "\<forall>e \<in> set (nd_children (h' ! r)). ValidName (fst e) = None \<and> snd e < length h' \<and>
          (is_dir (h' ! snd e) \<longrightarrow> r < snd e)"
        using old(1) dirc dirs[OF c(1)] c name(1) len chd[OF lt] by (auto simp: node_ok_def)
      have 2: "distinct (map fst (nd_children (h' ! r)))"
        using old(1) name(2) chd[OF lt] by (auto simp: node_ok_def)
      have 3: "\<not> is_dir (h' ! r) \<longrightarrow> nd_children (h' ! r) = []"
        using old(1) d(2) chd[OF lt] dirs[OF lt] by (auto simp: node_ok_def)
      show ?thesis using 1 2 3 by (auto simp: node_ok_def)
    qed
    ultimately show ?thesis by blast
  qed
  moreover have "root < length h'" "is_dir (h' ! root)" using inv len dirs by (auto simp: tree_inv_def)
  ultimately show ?thesis by (simp add: tree_inv_def)
qed

lemma find_child_Some:
  "find_child h d name = Some c \<Longrightarrow> (name, c) \<in> set (nd_children (h ! d))"
  by (simp add: find_child_def map_of_SomeD)

lemma find_child_None: "find_child h d name = None \<longleftrightarrow> name \<notin> fst ` set (nd_children (h ! d))"
  by (simp add: find_child_def map_of_eq_None_iff)

lemma remove_first_filter:
  "distinct (map fst es) \<Longrightarrow> remove_first name es = filter (\<lambda>e. fst e \<noteq> name) es"
proof (induction es)
  case (Cons e es)
  have "filter (\<lambda>x. fst x \<noteq> name) es = es" if "fst e = name"
    using Cons.prems that by (auto intro!: filter_True simp: rev_image_eqI)
  then show ?case using Cons by auto
qed simp

lemma filter_remove_first:
  assumes "distinct (map fst es)" "(name, c) \<in> set es"
  shows "length (filter P (remove_first name es)) + (if P (name, c) then 1 else 0) = length (filter P es)"
  using assms
proof (induction es)
  case (Cons e es)
  show ?case
  proof (cases "fst e = name")
    case True
    then have "e = (name, c)" using Cons.prems by (cases e) (auto simp: rev_image_eqI)
    then show ?thesis by simp
  next
    case False
    then show ?thesis using Cons by auto
  qed
qed simp

lemma tree_inv_unlinked:
  assumes inv: "tree_inv h root" and d: "d < length h" and c: "(name, c) \<in> set (nd_children (h ! d))"
    and empty: "is_dir (h ! c) \<Longrightarrow> nd_children (h ! c) = []"
    and len: "length h' = length h"
    and chd: "\<And>r. r < length h \<Longrightarrow> nd_children (h' ! r) =
        (if r = d then remove_first name (nd_children (h ! r)) else nd_children (h ! r))"
    and dirs: "\<And>r. r < length h \<Longrightarrow> is_dir (h' ! r) = is_dir (h ! r)"
    and nl: "\<And>r. r < length h \<Longrightarrow> nd_nlink (h' ! r) =
        nd_nlink (h ! r) - (if r = c then 1 else 0) - (if r = d \<and> is_dir (h ! c) then 1 else 0)"
  shows "tree_inv h' root"
proof -
  have okd: "node_ok h d" using inv d by (simp add: tree_inv_def)
  then have dist: "distinct (map fst (nd_children (h ! d)))" by (simp add: node_ok_def)
  have cl: "c < length h" using okd c by (auto simp: node_ok_def)
  have dird: "is_dir (h ! d)" using okd c by (auto simp: node_ok_def)
  have rc: "refcount h' x + (if x = c then 1 else 0) = refcount h x" for x
  proof -
    have "refs_in x (h' ! r) + (if r = d \<and> x = c then 1 else 0) = refs_in x (h ! r) + 0"
      if "r < length h" for r
      using chd[OF that] filter_remove_first[OF dist c, of "\<lambda>e. snd e = x"] by (auto simp: refs_in_def)
    then show ?thesis
      using refcount_changed[where b = "\<lambda>_. 0" and a = "\<lambda>r. if r = d \<and> x = c then 1 else 0" and d = d and x = x, OF len d]
      by auto
  qed
  have "node_ok h' r \<and> nlink_ok h' root r" if r: "r < length h'" for r
  proof -
    have lt: "r < length h" using r len by simp
    have old: "node_ok h r" "nlink_ok h root r" using inv lt by (auto simp: tree_inv_def)
    have sub: "set (nd_children (h' ! r)) \<subseteq> set (nd_children (h ! r))"
      using chd[OF lt] remove_first_filter[OF dist] by auto
    have dirc: "is_dir (h' ! snd e) = is_dir (h ! snd e)" if "e \<in> set (nd_children (h ! r))" for e
      using old(1) that dirs by (fastforce simp: node_ok_def)
    have "length (filter (\<lambda>e. is_dir (h' ! snd e)) (nd_children (h' ! r)))
        = length (filter (\<lambda>e. is_dir (h ! snd e)) (nd_children (h' ! r)))"
      by (intro arg_cong[where f = length] filter_cong) (use sub dirc in blast)+
    then have sd: "subdirs h' r + (if r = d \<and> is_dir (h ! c) then 1 else 0) = subdirs h r"
      unfolding subdirs_def chd[OF lt] using filter_remove_first[OF dist c, of "\<lambda>e. is_dir (h ! snd e)"]
      by auto
    have "nlink_ok h' root r"
      using old(2) rc[of r] sd dird by (auto simp: nlink_ok_def nl[OF lt] dirs[OF lt] split: if_splits)
    moreover have "node_ok h' r"
    proof -
      have 1: "\<forall>e \<in> set (nd_children (h' ! r)). ValidName (fst e) = None \<and> snd e < length h' \<and>
          (is_dir (h' ! snd e) \<longrightarrow> r < snd e)"
        using old(1) dirc sub len by (fastforce simp: node_ok_def)
      have 2: "distinct (map fst (nd_children (h' ! r)))"
        using old(1) chd[OF lt] remove_first_filter[OF dist] by (auto simp: node_ok_def distinct_map_filter)
      have 3: "\<not> is_dir (h' ! r) \<longrightarrow> nd_children (h' ! r) = []"
        using old(1) sub dirs[OF lt] by (auto simp: node_ok_def)
      show ?thesis using 1 2 3 by (auto simp: node_ok_def)
    qed
    ultimately show ?thesis by blast
  qed
  moreover have "root < length h'" "is_dir (h' ! root)" using inv len dirs by (auto simp: tree_inv_def)
  ultimately show ?thesis by (simp add: tree_inv_def)
qed


section \<open>Every operation keeps the invariant\<close>

lemma newChild_Inr:
  assumes "newChild now h d name m tb = Inr n"
  shows "ValidName name = None" "name \<notin> fst ` set (nd_children (h ! d))"
    "nd_children n = []" "nd_nlink n = 1"
    "md_mode n = (md_mode (resolveMeta now m) AND NOT ModeType) OR tb"
  using assms by (auto simp: newChild_def new_node_def find_child_None Let_def split: option.splits if_splits)

lemma is_dir_typed: "is_dir n \<longleftrightarrow> bit (md_mode n) 31"
  by (simp add: is_dir_def mode_is_dir_def)

lemma newChild_is_dir:
  "newChild now h d name m tb = Inr n \<Longrightarrow> is_dir n \<longleftrightarrow> bit tb 31"
  using newChild_Inr(5) by (fastforce simp: is_dir_typed bit_or_iff bit_and_iff bit_not_iff bit_ModeType)

text \<open>A fresh non-directory under an existing directory: \<open>Create\<close>, \<open>Symlink\<close>, \<open>Mknod\<close>.\<close>

lemma add_fresh_file:
  assumes inv: "tree_inv h root" and d: "d < length h" "is_dir (h ! d)"
    and name: "ValidName name = None" "name \<notin> fst ` set (nd_children (h ! d))"
    and n: "nd_children n = []" "nd_nlink n = 1" "\<not> is_dir n"
  shows "tree_inv (add_entry (h @ [n]) d name (length h)) root"
proof -
  let ?n = "n\<lparr>nd_nlink := 0\<rparr>"
  have inv1: "tree_inv (h @ [?n]) root" by (rule append_fresh[OF inv]) (use n in auto)
  show ?thesis
    by (rule tree_inv_linked[OF inv1, of d name "length h"])
      (use d name n in \<open>auto simp: add_entry_def nth_append nth_list_update\<close>)
qed

lemma add_fresh_dir:
  assumes inv: "tree_inv h root" and d: "d < length h" "is_dir (h ! d)"
    and name: "ValidName name = None" "name \<notin> fst ` set (nd_children (h ! d))"
    and n: "nd_children n = []" "is_dir n"
  shows "tree_inv (add_entry (add_nlink (h @ [n\<lparr>nd_nlink := 2\<rparr>]) d 1) d name (length h)) root"
proof -
  let ?n = "n\<lparr>nd_nlink := 1\<rparr>"
  have inv1: "tree_inv (h @ [?n]) root" by (rule append_fresh[OF inv]) (use n in auto)
  have "\<forall>r < length h. node_ok h r" using inv by (simp add: tree_inv_def)
  then have fresh: "refcount h (length h) = 0" by (rule refcount_fresh)
  have "root \<noteq> length h" using inv by (auto simp: tree_inv_def)
  then show ?thesis
    by (intro tree_inv_linked[OF inv1, of d name "length h"])
      (use d name n fresh in \<open>auto simp: add_entry_def add_nlink_def nth_append nth_list_update refs_in_def\<close>)
qed

lemma Mkdir_inv:
  assumes "tree_inv h root" "d < length h" "is_dir (h ! d)" "Mkdir now h d name m = (r, h')"
  shows "tree_inv h' root"
proof (cases "newChild now h d name m ModeDir")
  case (Inl e)
  then show ?thesis using assms by (simp add: Mkdir_def)
next
  case (Inr n)
  have "is_dir n" using newChild_is_dir[OF Inr] by (simp add: mode_push_bit bit_exp_iff)
  then show ?thesis
    using add_fresh_dir[OF assms(1-3) newChild_Inr(1-3)[OF Inr]] assms(4) Inr
    by (auto simp: Mkdir_def Let_def)
qed

lemma Create_inv:
  assumes "tree_inv h root" "d < length h" "is_dir (h ! d)" "Create now h d name c m = (r, h')"
  shows "tree_inv h' root"
proof (cases "newChild now h d name m 0")
  case (Inl e)
  then show ?thesis using assms by (simp add: Create_def)
next
  case (Inr n)
  have "\<not> is_dir n" using newChild_is_dir[OF Inr] by simp
  then show ?thesis
    using add_fresh_file[OF assms(1-3) newChild_Inr(1,2)[OF Inr], of "n\<lparr>in_content := Some c\<rparr>"]
      newChild_Inr(3,4)[OF Inr] assms(4) Inr by (auto simp: Create_def Let_def)
qed

lemma Symlink_inv:
  assumes "tree_inv h root" "d < length h" "is_dir (h ! d)" "Symlink now h d name t m = (r, h')"
  shows "tree_inv h' root"
proof (cases "newChild now h d name m ModeSymlink")
  case (Inl e)
  then show ?thesis using assms by (simp add: Symlink_def)
next
  case (Inr n)
  have "\<not> is_dir n" using newChild_is_dir[OF Inr] by (simp add: mode_push_bit bit_exp_iff)
  then show ?thesis
    using add_fresh_file[OF assms(1-3) newChild_Inr(1,2)[OF Inr], of "n\<lparr>in_link := t\<rparr>"]
      newChild_Inr(3,4)[OF Inr] assms(4) Inr by (auto simp: Symlink_def Let_def)
qed

lemma Mknod_inv:
  assumes "tree_inv h root" "d < length h" "is_dir (h ! d)" "Mknod now h d name v m = (r, h')"
    and mode: "\<not> has (md_mode m) ModeDir"
  shows "tree_inv h' root"
proof -
  let ?t = "md_mode m AND ModeType"
  let ?tb = "if ?t AND (ModeDevice OR ModeCharDevice OR ModeNamedPipe OR ModeSocket) = 0
    then ModeDevice else ?t"
  have nb: "\<not> bit ?tb 31" using mode by (auto simp: bit_and_iff mode_push_bit(3) bit_exp_iff)
  show ?thesis
  proof (cases "newChild now h d name m ?tb")
    case (Inl e)
    then show ?thesis using assms by (simp add: Mknod_def Let_def)
  next
    case (Inr n)
    have "\<not> is_dir n" using newChild_is_dir[OF Inr] nb by simp
    then have "tree_inv (add_entry (h @ [n\<lparr>in_rdev := v\<rparr>]) d name (length h)) root"
      using add_fresh_file[OF assms(1-3) newChild_Inr(1,2)[OF Inr], of "n\<lparr>in_rdev := v\<rparr>"]
        newChild_Inr(3,4)[OF Inr] by simp
    moreover have "h' = add_entry (h @ [n\<lparr>in_rdev := v\<rparr>]) d name (length h)"
      using assms(4) Inr by (simp only: Mknod_def Let_def sum.case) simp
    ultimately show ?thesis by simp
  qed
qed

lemma Link_inv:
  assumes inv: "tree_inv h root" and d: "d < length h" "is_dir (h ! d)"
    and t: "case target of None \<Rightarrow> True | Some c \<Rightarrow> c < length h \<and> \<not> is_dir (h ! c)"
    and l: "Link h d name target = (r, h')"
  shows "tree_inv h' root"
proof (cases "ValidName name = None \<and> target \<noteq> None \<and> find_child h d name = None")
  case False
  then have "h' = h" using l by (auto simp: Link_def split: option.splits if_splits)
  then show ?thesis using inv by simp
next
  case True
  then obtain c where c: "target = Some c" by auto
  then have "h' = add_entry (add_nlink h c 1) d name c" using True l by (auto simp: Link_def)
  moreover have "c \<noteq> d" using t c d by auto
  ultimately show ?thesis
    using True t c d
    by (intro tree_inv_linked[OF inv, of d name c])
      (auto simp: find_child_None add_entry_def add_nlink_def nth_list_update)
qed

lemma Remove_inv:
  assumes inv: "tree_inv h root" and d: "d < length h" and rm: "Remove h d name = (r, h')"
  shows "tree_inv h' root"
proof (cases "find_child h d name")
  case None
  then show ?thesis using rm inv by (simp add: Remove_def)
next
  case (Some c)
  note mem = find_child_Some[OF Some]
  have ok: "node_ok h d" using inv d by (simp add: tree_inv_def)
  have cl: "c < length h" using ok mem by (auto simp: node_ok_def)
  show ?thesis
  proof (cases "is_dir (h ! c) \<and> nd_children (h ! c) \<noteq> []")
    case True
    then show ?thesis using rm inv Some by (simp add: Remove_def)
  next
    case False
    have h': "h' = (let h1 = (if is_dir (h ! c) then add_nlink h d (-1) else h); h2 = add_nlink h1 c (-1) in
        h2[d := (h2 ! d)\<lparr>nd_children := remove_first name (nd_children (h2 ! d))\<rparr>])"
      using rm Some False by (auto simp: Remove_def Let_def)
    have ne: "c \<noteq> d" using False mem ok by (auto simp: node_ok_def)
    show ?thesis
      by (rule tree_inv_unlinked[OF inv d mem])
        (use False ne d cl in \<open>auto simp: h' Let_def add_nlink_def nth_list_update\<close>)
  qed
qed


section \<open>Reachable images\<close>

text \<open>
  The states a client can reach through the editing surface. A directory handle is a directory of
  the store, a \<open>Link\<close> target a handle \<open>Create\<close> returned (not a directory); the
  clock may give any time at each call.
\<close>

datatype img_op =
    OMkdir ref string meta
  | OCreate ref string source meta
  | OSymlink ref string string meta
  | OMknod ref string nat meta
  | OLink ref string ref
  | ORemove ref string

fun img_step :: "gotime \<Rightarrow> heap \<Rightarrow> img_op \<Rightarrow> heap" where
  "img_step now h (OMkdir d name m) = snd (Mkdir now h d name m)"
| "img_step now h (OCreate d name c m) = snd (Create now h d name c m)"
| "img_step now h (OSymlink d name t m) = snd (Symlink now h d name t m)"
| "img_step now h (OMknod d name v m) = snd (Mknod now h d name v m)"
| "img_step now h (OLink d name r) = snd (Link h d name (Some r))"
| "img_step now h (ORemove d name) = snd (Remove h d name)"

definition dir_handle :: "heap \<Rightarrow> ref \<Rightarrow> bool" where
  "dir_handle h d \<longleftrightarrow> d < length h \<and> is_dir (h ! d)"

definition file_handle :: "heap \<Rightarrow> ref \<Rightarrow> bool" where
  "file_handle h r \<longleftrightarrow> r < length h \<and> \<not> is_dir (h ! r)"

fun op_ok :: "heap \<Rightarrow> img_op \<Rightarrow> bool" where
  "op_ok h (OMkdir d name m) = dir_handle h d"
| "op_ok h (OCreate d name c m) = dir_handle h d"
| "op_ok h (OSymlink d name t m) = dir_handle h d"
| "op_ok h (OMknod d name v m) = (dir_handle h d \<and> \<not> has (md_mode m) ModeDir)"
| "op_ok h (OLink d name r) = (dir_handle h d \<and> file_handle h r)"
| "op_ok h (ORemove d name) = dir_handle h d"

inductive reachable_image :: "heap \<Rightarrow> bool" where
  new: "reachable_image (fst (NewMem now m))"
| edit: "reachable_image h \<Longrightarrow> op_ok h x \<Longrightarrow> reachable_image (img_step now h x)"

inductive_cases reachable_imageE: "reachable_image h"

lemma img_step_inv:
  assumes "tree_inv h root" "op_ok h x"
  shows "tree_inv (img_step now h x) root"
  using assms
  by (cases x)
    (auto simp: dir_handle_def file_handle_def
      intro: Mkdir_inv[OF _ _ _ surjective_pairing] Create_inv[OF _ _ _ surjective_pairing]
        Symlink_inv[OF _ _ _ surjective_pairing] Mknod_inv[OF _ _ _ surjective_pairing]
        Link_inv[OF _ _ _ _ surjective_pairing] Remove_inv[OF _ _ surjective_pairing])

lemma NewMem_inv: "tree_inv (fst (NewMem now m)) (snd (NewMem now m))"
  by (simp add: NewMem_def Let_def tree_inv_def node_ok_def nlink_ok_def new_node_def is_dir_typed
      bit_or_iff refcount_def refs_in_def subdirs_def mode_push_bit bit_exp_iff)

lemma reachable_inv: "reachable_image h \<Longrightarrow> tree_inv h 0"
proof (induction rule: reachable_image.induct)
  case (new now m)
  then show ?case using NewMem_inv[of now m] by (simp add: NewMem_def Let_def)
next
  case (edit h x now)
  then show ?case by (blast intro: img_step_inv)
qed

section \<open>The tree the engines walk\<close>

datatype tnode = TNode (tn_ref: ref) (tn_node: node) (tn_kids: "(string \<times> tnode) list")

fun unfold_tree :: "nat \<Rightarrow> heap \<Rightarrow> ref \<Rightarrow> tnode option" where
  "unfold_tree 0 h r = None"
| "unfold_tree (Suc fuel) h r =
     (case those (map (\<lambda>e. unfold_tree fuel h (snd e)) (nd_children (h ! r))) of
        None \<Rightarrow> None
      | Some ts \<Rightarrow> Some (TNode r (h ! r) (zip (map fst (nd_children (h ! r))) ts)))"

lemma those_Some: "\<forall>x \<in> set xs. \<exists>y. f x = Some y \<Longrightarrow> \<exists>ys. those (map f xs) = Some ys \<and> length ys = length xs"
  by (induction xs) auto

lemma unfold_tree_total:
  assumes "tree_inv h root" "r < length h" "if is_dir (h ! r) then length h < fuel + r else 0 < fuel"
  shows "\<exists>t. unfold_tree fuel h r = Some t"
  using assms(2,3)
proof (induction fuel arbitrary: r)
  case 0
  then show ?case by (auto split: if_splits)
next
  case (Suc fuel)
  have ok: "node_ok h r" using assms(1) Suc.prems by (simp add: tree_inv_def)
  have "\<exists>t. unfold_tree fuel h (snd e) = Some t" if e: "e \<in> set (nd_children (h ! r))" for e
  proof -
    have c: "snd e < length h" "is_dir (h ! snd e) \<longrightarrow> r < snd e" "is_dir (h ! r)"
      using ok e by (fastforce simp: node_ok_def)+
    then show ?thesis using Suc by (intro Suc.IH) auto
  qed
  from those_Some[OF ballI[OF this], of "nd_children (h ! r)" "\<lambda>e. e"] show ?case
    by (auto split: option.splits)
qed

text \<open>The size of a list of entries, for recursions over the children of a node.\<close>

definition kids_weight :: "(string \<times> tnode) list \<Rightarrow> nat" where
  "kids_weight kids = sum_list (map (\<lambda>e. size (snd e) + 1) kids)"

lemma kids_weight_simps [simp]:
  "kids_weight [] = 0" "kids_weight (e # es) = size (snd e) + 1 + kids_weight es"
  "kids_weight (sort_by_name es) = kids_weight es"
  by (simp_all add: kids_weight_def)

lemma kids_weight_less: "kids_weight kids < size (TNode r n kids)"
proof -
  have "size_list (\<lambda>p. size_prod (\<lambda>_. 0) size p) kids = sum_list (map (\<lambda>e. size (snd e) + 2) kids)"
    by (induction kids) (auto simp: size_prod_simp split_beta)
  moreover have "kids_weight kids \<le> sum_list (map (\<lambda>e. size (snd e) + 2) kids)"
    unfolding kids_weight_def by (rule sum_list_mono) simp
  ultimately show ?thesis by (simp add: less_Suc_eq_le)
qed

text \<open>Every name in a tree is a valid one, and names are distinct in each directory.\<close>

fun names_ok :: "tnode \<Rightarrow> bool" where
  "names_ok (TNode r n kids) \<longleftrightarrow>
     list_all (\<lambda>e. ValidName (fst e) = None) kids \<and> distinct (map fst kids)
     \<and> list_all (\<lambda>e. names_ok (snd e)) kids"

text \<open>The same over a store: valid and distinct names in every node.\<close>

definition entries_ok :: "node \<Rightarrow> bool" where
  "entries_ok n \<longleftrightarrow> (\<forall>e \<in> set (nd_children n). ValidName (fst e) = None) \<and> distinct (map fst (nd_children n))"

definition heap_names_ok :: "heap \<Rightarrow> bool" where
  "heap_names_ok h \<longleftrightarrow> (\<forall>n \<in> set h. entries_ok n)"

lemma heap_names_update: "heap_names_ok h \<Longrightarrow> (r < length h \<Longrightarrow> entries_ok n) \<Longrightarrow> heap_names_ok (h[r := n])"
  by (cases "r < length h") (auto simp: heap_names_ok_def list_update_beyond dest: set_update_subset_insert[THEN subsetD])

lemma heap_names_append: "heap_names_ok h \<Longrightarrow> entries_ok n \<Longrightarrow> heap_names_ok (h @ [n])"
  by (auto simp: heap_names_ok_def)

lemma heap_names_nth: "heap_names_ok h \<Longrightarrow> r < length h \<Longrightarrow> entries_ok (h ! r)"
  by (simp add: heap_names_ok_def)

lemma those_nth: "those xs = Some ys \<Longrightarrow> length ys = length xs \<and> (\<forall>i < length xs. xs ! i = Some (ys ! i))"
proof (induction xs arbitrary: ys)
  case (Cons x xs)
  then obtain y zs where "x = Some y" "those xs = Some zs" "ys = y # zs" by (auto split: option.splits)
  then show ?case using Cons.IH by (auto simp: nth_Cons split: nat.splits)
qed simp

lemma unfold_tree_names:
  assumes "tree_inv h root" "r < length h" "unfold_tree fuel h r = Some t"
  shows "names_ok t"
  using assms(2,3)
proof (induction fuel arbitrary: r t)
  case (Suc fuel)
  have ok: "node_ok h r" using assms(1) Suc.prems by (simp add: tree_inv_def)
  let ?es = "nd_children (h ! r)"
  obtain ts where ts: "those (map (\<lambda>e. unfold_tree fuel h (snd e)) ?es) = Some ts"
    and t: "t = TNode r (h ! r) (zip (map fst ?es) ts)"
    using Suc.prems(2) by (auto split: option.splits)
  have len: "length ts = length ?es" using those_nth[OF ts] by simp
  have kid: "names_ok (ts ! i)" if "i < length ts" for i
  proof -
    have "unfold_tree fuel h (snd (?es ! i)) = Some (ts ! i)" using those_nth[OF ts] that len by simp
    moreover have "snd (?es ! i) < length h" using ok that len nth_mem[of i ?es]
      by (cases "?es ! i") (auto simp: node_ok_def)
    ultimately show ?thesis using Suc.IH by blast
  qed
  have "\<forall>e \<in> set ?es. ValidName (fst e) = None" "distinct (map fst ?es)" using ok by (auto simp: node_ok_def)
  then show ?case unfolding t
    using kid len nth_mem[of _ ?es] by (auto simp: list_all_length set_zip)
qed simp

section \<open>Properties\<close>

text \<open>
  C3. Whatever edits are made through \<open>Mkdir\<close>, \<open>Create\<close>, \<open>Symlink\<close>,
  \<open>Mknod\<close>, \<open>Link\<close> and \<open>Remove\<close>, the image stays a tree an engine can
  lay out: names valid and distinct, only directories with entries, no directory cycle, and every
  link count exactly what the entries say (what \<open>fsck\<close> recounts).
\<close>

theorem edits_keep_tree_and_link_counts:
  assumes "reachable_image h"
  shows "tree_inv h 0"
  using assms by (rule reachable_inv)

definition sample_meta :: meta where
  "sample_meta = \<lparr> md_mode = 0x1ED, md_uid = 0, md_gid = 0, md_mtime = zero_time, md_xattrs = [] \<rparr>"

definition sample_image :: heap where
  "sample_image =
     (let now = \<lparr> gt_sec = 1700000000, gt_nsec = 0 \<rparr> in
      img_step now (img_step now (fst (NewMem now sample_meta)) (OMkdir 0 ''etc'' sample_meta))
        (OCreate 0 ''init'' (bytes_source []) sample_meta))"

lemma sample_image_reachable: "reachable_image sample_image"
  unfolding sample_image_def Let_def
  by (intro reachable_image.intros)
    (simp_all add: dir_handle_def NewMem_def Let_def new_node_def is_dir_typed bit_or_iff mode_push_bit
      bit_exp_iff Mkdir_def newChild_def ValidName_def find_child_def add_entry_def add_nlink_def
      resolveMeta_def sample_meta_def)

theorem edits_keep_tree_and_link_counts_witness: "tree_inv sample_image 0"
  by (rule edits_keep_tree_and_link_counts[OF sample_image_reachable])

text \<open>
  C12. The recursion every engine performs over an edited image ends: the tree below the root
  unfolds within as many levels as there are nodes, and all its names are valid path components.
\<close>

theorem edited_image_unfolds:
  assumes "reachable_image h"
  shows "\<exists>t. unfold_tree (Suc (length h)) h 0 = Some t \<and> names_ok t"
proof -
  have inv: "tree_inv h 0" using assms by (rule reachable_inv)
  then have "0 < length h" by (simp add: tree_inv_def)
  moreover have "if is_dir (h ! 0) then length h < Suc (length h) + 0 else 0 < Suc (length h)" by simp
  ultimately obtain t where "unfold_tree (Suc (length h)) h 0 = Some t"
    using unfold_tree_total[OF inv] by blast
  then show ?thesis using unfold_tree_names[OF inv \<open>0 < length h\<close>] by blast
qed

theorem edited_image_unfolds_witness:
  "\<exists>t. unfold_tree (Suc (length sample_image)) sample_image 0 = Some t \<and> names_ok t"
  by (rule edited_image_unfolds[OF sample_image_reachable])

text \<open>
  C13. \<open>Create\<close> refuses an invalid name with \<open>ErrBadName\<close> and an existing one with
  \<open>ErrExist\<close>, leaving the image alone. Otherwise it adds one node, new to the image: a regular
  file with the given contents, one link, and the permissions, owner, attributes and time asked for, the
  time being the clock's when none is given. The directory gains the name, which looks up to the
  node, as its last entry, and no link; every other node is as it was.
\<close>

theorem create_behaves:
  assumes d: "dir_handle h d"
  shows "case Create now h d name c m of
      (Inl e, h') \<Rightarrow> h' = h \<and> (if ValidName name \<noteq> None then e = ErrBadName
        else e = ErrExist \<and> Lookup h d name \<noteq> Inl ErrNotExist)
    | (Inr r, h') \<Rightarrow> ValidName name = None \<and> Lookup h d name = Inl ErrNotExist
        \<and> Lookup h' d name = Inr (name, r) \<and> (\<forall>x. x \<noteq> name \<longrightarrow> Lookup h' d x = Lookup h d x)
        \<and> r = length h \<and> length h' = length h + 1
        \<and> (\<forall>k < length h. h' ! k = (if k = d then (h ! d)\<lparr>nd_children := nd_children (h ! d) @ [(name, r)]\<rparr> else h ! k))
        \<and> h' ! r = \<lparr> md_mode = md_mode m AND NOT ModeType, md_uid = md_uid m, md_gid = md_gid m,
             md_mtime = (if is_zero_time (md_mtime m) then now else md_mtime m), md_xattrs = md_xattrs m,
             in_content = Some c, in_link = [], in_rdev = 0, nd_nlink = 1, nd_children = [] \<rparr>
        \<and> mode_is_regular (md_mode (h' ! r))"
proof (cases "newChild now h d name m 0")
  case (Inl e)
  then show ?thesis
    by (auto simp: Create_def newChild_def Lookup_def ValidName_def Let_def split: option.splits if_splits)
next
  case n: (Inr n)
  note nc = newChild_Inr[OF n]
  have dl: "d < length h" using d by (simp add: dir_handle_def)
  obtain h' where c: "Create now h d name c m = (Inr (length h), h')"
    and h': "h' = add_entry (h @ [n\<lparr>in_content := Some c\<rparr>]) d name (length h)"
    using n by (auto simp: Create_def Let_def)
  have ch: "nd_children (h' ! d) = nd_children (h ! d) @ [(name, length h)]"
    "h' ! length h = n\<lparr>in_content := Some c\<rparr>" "length h' = length h + 1"
    using dl by (auto simp: h' add_entry_def nth_append)
  have frame: "\<forall>k < length h. h' ! k = (if k = d then (h ! d)\<lparr>nd_children := nd_children (h ! d) @ [(name, length h)]\<rparr> else h ! k)"
    using dl by (auto simp: h' add_entry_def nth_append nth_list_update)
  have new: "map_of (nd_children (h ! d)) name = None" using nc(2) by (simp add: map_of_eq_None_iff)
  then have look: "find_child h' d x = (if x = name then Some (length h) else find_child h d x)" for x
    using ch by (auto simp: find_child_def map_add_def split: option.splits)
  have reg: "mode_is_regular (md_mode (h' ! length h))"
    using nc(5) by (simp add: ch mode_is_regular_def and.assoc)
  have "h' ! length h = \<lparr> md_mode = md_mode m AND NOT ModeType, md_uid = md_uid m, md_gid = md_gid m,
       md_mtime = (if is_zero_time (md_mtime m) then now else md_mtime m), md_xattrs = md_xattrs m,
       in_content = Some c, in_link = [], in_rdev = 0, nd_nlink = 1, nd_children = [] \<rparr>"
    using n unfolding ch(2)
    by (auto simp: newChild_def new_node_def resolveMeta_def Let_def split: option.splits if_splits)
  then show ?thesis unfolding c
    using look ch(1,3) nc new frame reg by (auto simp: Lookup_def find_child_def)
qed

theorem create_behaves_witness:
  "case Create zero_time sample_image 0 ''motd'' (bytes_source [104, 105]) sample_meta of
      (Inl e, h') \<Rightarrow> h' = sample_image \<and> (if ValidName ''motd'' \<noteq> None then e = ErrBadName
        else e = ErrExist \<and> Lookup sample_image 0 ''motd'' \<noteq> Inl ErrNotExist)
    | (Inr r, h') \<Rightarrow> ValidName ''motd'' = None \<and> Lookup sample_image 0 ''motd'' = Inl ErrNotExist
        \<and> Lookup h' 0 ''motd'' = Inr (''motd'', r)
        \<and> (\<forall>x. x \<noteq> ''motd'' \<longrightarrow> Lookup h' 0 x = Lookup sample_image 0 x)
        \<and> r = length sample_image \<and> length h' = length sample_image + 1
        \<and> (\<forall>k < length sample_image. h' ! k = (if k = 0
             then (sample_image ! 0)\<lparr>nd_children := nd_children (sample_image ! 0) @ [(''motd'', r)]\<rparr> else sample_image ! k))
        \<and> h' ! r = \<lparr> md_mode = md_mode sample_meta AND NOT ModeType, md_uid = md_uid sample_meta, md_gid = md_gid sample_meta,
             md_mtime = (if is_zero_time (md_mtime sample_meta) then zero_time else md_mtime sample_meta),
             md_xattrs = md_xattrs sample_meta, in_content = Some (bytes_source [104, 105]), in_link = [], in_rdev = 0,
             nd_nlink = 1, nd_children = [] \<rparr>
        \<and> mode_is_regular (md_mode (h' ! r))"
  by (rule create_behaves)
    (simp add: sample_image_def dir_handle_def NewMem_def Let_def new_node_def is_dir_typed bit_or_iff mode_push_bit
      bit_exp_iff Mkdir_def Create_def newChild_def ValidName_def find_child_def add_entry_def add_nlink_def
      resolveMeta_def sample_meta_def)

end
