(* ===== verification/Qcow2.thy ===== *)
theory Qcow2
  imports Prelude Device
begin

text \<open>
  The QCOW2 container (\<open>pkg/qcow2\<close>): a device whose clusters are allocated on first
  non-zero write in a host file, with the L1/L2 and refcount metadata written by \<open>Finalize\<close>;
  and the reader that maps it back. The host file is an argument (the interface \<open>File\<close>);
  the locale \<open>growing_file\<close> states what the writer relies on, and the host file of
  \<open>Device\<close> provides it.
\<close>

section \<open>Constants and header\<close>

definition clusterBits :: nat where "clusterBits = 16"
definition clusterSize :: nat where "clusterSize = 65536"
definition headerLen :: nat where "headerLen = 112"
definition l2Entries :: nat where "l2Entries = clusterSize div 8"
definition refcountsPerCl :: nat where "refcountsPerCl = clusterSize div 2"

definition qcow_magic :: nat where "qcow_magic = 0x514649fb"
definition flagCopied :: "64 word" where "flagCopied = push_bit 63 1"
definition flagCompressed :: "64 word" where "flagCompressed = push_bit 62 1"
definition flagZero :: "64 word" where "flagZero = 1"
definition offsetMask :: "64 word" where "offsetMask = 0x00fffffffffffe00"

lemmas qcow_consts = clusterSize_def l2Entries_def refcountsPerCl_def headerLen_def clusterBits_def

text \<open>\<open>ceilDiv\<close> on \<open>int64\<close>: the sum wraps, the division truncates towards zero.\<close>

definition ceilDiv :: "int \<Rightarrow> int \<Rightarrow> int" where
  "ceilDiv a b = go_div (i64 (a + b - 1)) b"

record qheader =
  qh_version :: nat
  qh_clusterBits :: nat
  qh_size :: nat
  qh_l1Size :: nat
  qh_l1TableOffset :: nat
  qh_refTableOffset :: nat
  qh_refTableClusters :: nat
  qh_refcountOrder :: nat

definition qh_marshal :: "qheader \<Rightarrow> bytes" where
  "qh_marshal h =
     (let b = zeros clusterSize;
          b = put_be 4 0 qcow_magic b;
          b = put_be 4 4 (qh_version h) b;
          b = put_be 4 20 (qh_clusterBits h) b;
          b = put_be 8 24 (qh_size h) b;
          b = put_be 4 36 (qh_l1Size h) b;
          b = put_be 8 40 (qh_l1TableOffset h) b;
          b = put_be 8 48 (qh_refTableOffset h) b;
          b = put_be 4 56 (qh_refTableClusters h) b;
          b = put_be 4 96 (qh_refcountOrder h) b
      in put_be 4 100 headerLen b)"

definition parseHeader :: "bytes \<Rightarrow> qheader result" where
  "parseHeader b =
     (if length b < headerLen then Inl (Err ''qcow2: short header'')
      else if get_be 4 b 0 \<noteq> qcow_magic then Inl (Err ''qcow2: bad magic'')
      else let ver = get_be 4 b 4; cb = get_be 4 b 20 in
        if ver \<noteq> 2 \<and> ver \<noteq> 3 then Inl (Err ''qcow2: unsupported version'')
        else if cb < 9 \<or> cb > 21 then Inl (Err ''qcow2: implausible cluster_bits'')
        else Inr \<lparr> qh_version = ver, qh_clusterBits = cb, qh_size = get_be 8 b 24,
          qh_l1Size = get_be 4 b 36, qh_l1TableOffset = get_be 8 b 40,
          qh_refTableOffset = get_be 8 b 48, qh_refTableClusters = get_be 4 b 56,
          qh_refcountOrder = (if ver = 3 then get_be 4 b 96 else 4) \<rparr>)"

section \<open>The writer\<close>

text \<open>The host file interface: \<open>io.ReaderAt\<close>, \<open>io.WriterAt\<close> and \<open>Truncate\<close>.\<close>

record 'f host_if =
  hf_read_at :: "'f \<Rightarrow> nat \<Rightarrow> int \<Rightarrow> bytes \<times> error option"
  hf_write_at :: "'f \<Rightarrow> bytes \<Rightarrow> int \<Rightarrow> (nat \<times> error option) \<times> 'f"
  hf_truncate :: "'f \<Rightarrow> int \<Rightarrow> error option \<times> 'f"

text \<open>A read into a fresh buffer that tolerates \<open>io.EOF\<close>.\<close>

definition hf_read_full :: "'f host_if \<Rightarrow> 'f \<Rightarrow> nat \<Rightarrow> int \<Rightarrow> bytes result" where
  "hf_read_full F f n off =
     (case hf_read_at F f n off of
        (d, None) \<Rightarrow> Inr (buf_of n d)
      | (d, Some EOF) \<Rightarrow> Inr (buf_of n d)
      | (d, Some e) \<Rightarrow> Inl e)"

text \<open>
  \<open>l2map\<close> is a Go map from guest to host clusters; the model keeps its bindings in a list
  (keys are only ever added when absent).
\<close>

record 'f qwriter =
  qw_f :: 'f
  qw_size :: int
  qw_l1Size :: int
  qw_l2map :: "(nat \<times> nat) list"
  qw_nextHost :: nat
  qw_finalized :: bool

definition NewWriter :: "'f \<Rightarrow> int \<Rightarrow> 'f qwriter result" where
  "NewWriter f virtualSize =
     (if virtualSize \<le> 0 then Inl (Err ''qcow2: virtual size must be positive'')
      else Inr \<lparr> qw_f = f, qw_size = virtualSize,
        qw_l1Size = ceilDiv virtualSize (int clusterSize * int l2Entries),
        qw_l2map = [], qw_nextHost = 1, qw_finalized = False \<rparr>)"

definition allZero :: "bytes \<Rightarrow> bool" where
  "allZero b \<longleftrightarrow> list_all (\<lambda>c. c = 0) b"

text \<open>The loop of \<open>WriteAt\<close>; \<open>written\<close> counts the bytes consumed.\<close>

function qw_write_loop ::
  "'f host_if \<Rightarrow> 'f qwriter \<Rightarrow> nat \<Rightarrow> bytes \<Rightarrow> nat \<Rightarrow> (nat \<times> error option) \<times> 'f qwriter" where
  "qw_write_loop F w written p off =
     (if p = [] then ((written, None), w)
      else let gc = off div clusterSize; inCl = off mod clusterSize;
          n = min (clusterSize - inCl) (length p); chunk = take n p in
        case map_of (qw_l2map w) gc of
          None \<Rightarrow>
            if allZero chunk then qw_write_loop F w (written + length chunk) (drop n p) (off + n)
            else let host = qw_nextHost w;
                w1 = w\<lparr>qw_nextHost := host + 1, qw_l2map := (gc, host) # qw_l2map w\<rparr> in
              (case hf_write_at F (qw_f w1) chunk (int (host * clusterSize + inCl)) of
                 ((k, Some e), f') \<Rightarrow> ((written, Some e), w1\<lparr>qw_f := f'\<rparr>)
               | ((k, None), f') \<Rightarrow>
                   qw_write_loop F (w1\<lparr>qw_f := f'\<rparr>) (written + length chunk) (drop n p) (off + n))
        | Some host \<Rightarrow>
            (case hf_write_at F (qw_f w) chunk (int (host * clusterSize + inCl)) of
               ((k, Some e), f') \<Rightarrow> ((written, Some e), w\<lparr>qw_f := f'\<rparr>)
             | ((k, None), f') \<Rightarrow>
                 qw_write_loop F (w\<lparr>qw_f := f'\<rparr>) (written + length chunk) (drop n p) (off + n)))"
  by pat_completeness auto
termination
  by (relation "measure (\<lambda>(F, w, written, p, off). length p)") (auto simp: clusterSize_def)

declare qw_write_loop.simps [simp del]

definition qw_write_at ::
  "'f host_if \<Rightarrow> 'f qwriter \<Rightarrow> bytes \<Rightarrow> int \<Rightarrow> (nat \<times> error option) \<times> 'f qwriter" where
  "qw_write_at F w p off =
     (if off < 0 \<or> i64 (off + int (length p)) > qw_size w
      then ((0, Some (Err ''qcow2: write out of range'')), w)
      else qw_write_loop F w 0 p (nat off))"

text \<open>
  The loop of \<open>ReadAt\<close> over the \<open>rem\<close> bytes left from \<open>at\<close>: it returns the bytes
  it filled (\<open>p\<close> is zeroed beforehand) and the error.
\<close>

function qw_read_loop :: "'f host_if \<Rightarrow> 'f qwriter \<Rightarrow> nat \<Rightarrow> nat \<Rightarrow> bytes \<times> error option" where
  "qw_read_loop F w left at =
     (if left = 0 then ([], None)
      else if int at \<ge> qw_size w then ([], Some EOF)
      else let inCl = at mod clusterSize; span = min (clusterSize - inCl) left;
          r = (case map_of (qw_l2map w) (at div clusterSize) of
                 None \<Rightarrow> Inr (zeros span)
               | Some host \<Rightarrow> hf_read_full F (qw_f w) span (int (host * clusterSize + inCl))) in
        (case r of Inl e \<Rightarrow> ([], Some e)
         | Inr d \<Rightarrow> (let (rest, e) = qw_read_loop F w (left - span) (at + span) in (d @ rest, e))))"
  by pat_completeness auto
termination
  by (relation "measure (\<lambda>(F, w, left, at). left)") (auto simp: clusterSize_def)

declare qw_read_loop.simps [simp del]

definition qw_read_at :: "'f host_if \<Rightarrow> 'f qwriter \<Rightarrow> nat \<Rightarrow> int \<Rightarrow> bytes \<times> error option" where
  "qw_read_at F w n off =
     (if off < 0 then ([], Some (Err ''qcow2: negative offset''))
      else if off \<ge> qw_size w then ([], Some EOF)
      else qw_read_loop F w n (nat off))"

definition qw_ops :: "'f host_if \<Rightarrow> 'f qwriter device_ops" where
  "qw_ops F = \<lparr> dev_size = qw_size, dev_read_at = qw_read_at F, dev_write_at = qw_write_at F \<rparr>"

section \<open>Finalize\<close>

text \<open>\<open>writeTable\<close>: the entries big-endian at \<open>off\<close>.\<close>

definition table_bytes :: "64 word list \<Rightarrow> bytes" where
  "table_bytes es = concat (map (\<lambda>e. be_bytes 8 (unat e)) es)"

definition writeTable :: "'f host_if \<Rightarrow> 'f qwriter \<Rightarrow> 64 word list \<Rightarrow> nat \<Rightarrow> error option \<times> 'f qwriter" where
  "writeTable F w es off =
     (case hf_write_at F (qw_f w) (table_bytes es) (int off) of
        ((k, e), f') \<Rightarrow> (e, w\<lparr>qw_f := f'\<rparr>))"

text \<open>The L2 table of slot \<open>idx\<close>, and the populated slots in increasing order.\<close>

definition l2_table :: "(nat \<times> nat) list \<Rightarrow> nat \<Rightarrow> 64 word list" where
  "l2_table m idx =
     fold (\<lambda>(gc, host) l2.
         if gc div l2Entries = idx
         then l2[gc mod l2Entries := word_of_nat (host * clusterSize) OR flagCopied] else l2)
       m (replicate l2Entries 0)"

definition l1_slots :: "(nat \<times> nat) list \<Rightarrow> nat list" where
  "l1_slots m = sort (remdups (map (\<lambda>e. fst e div l2Entries) m))"

text \<open>The loop of \<open>writeL2Tables\<close>; an index outside \<open>l1\<close> would panic.\<close>

fun l2_loop ::
  "'f host_if \<Rightarrow> 'f qwriter \<Rightarrow> 64 word list \<Rightarrow> nat list \<Rightarrow> (64 word list) result \<times> 'f qwriter" where
  "l2_loop F w l1 [] = (Inr l1, w)"
| "l2_loop F w l1 (idx # idxs) =
     (let off = qw_nextHost w * clusterSize in
      case writeTable F (w\<lparr>qw_nextHost := qw_nextHost w + 1\<rparr>) (l2_table (qw_l2map w) idx) off of
        (Some e, w') \<Rightarrow> (Inl e, w')
      | (None, w') \<Rightarrow>
          if idx \<ge> length l1 then (Inl (Panic ''index out of range''), w')
          else l2_loop F w' (l1[idx := word_of_nat off OR flagCopied]) idxs)"

definition writeL2Tables :: "'f host_if \<Rightarrow> 'f qwriter \<Rightarrow> 64 word list \<Rightarrow> (64 word list) result \<times> 'f qwriter" where
  "writeL2Tables F w l1 = l2_loop F w l1 (l1_slots (qw_l2map w))"

text \<open>
  The loop that sizes the refcount blocks and table, which count themselves; \<open>None\<close> would be
  a loop that never returns.
\<close>

partial_function (option) refcount_loop :: "nat \<Rightarrow> nat \<Rightarrow> nat \<Rightarrow> (nat \<times> nat) option" where
  "refcount_loop used rbCount rtClusters =
     (let nrb = ceil_div (used + rtClusters + rbCount) refcountsPerCl;
          nrt = ceil_div (nrb * 8) clusterSize in
      if nrb = rbCount \<and> nrt = rtClusters then Some (rbCount, rtClusters)
      else refcount_loop used nrb nrt)"

definition refcount_blocks :: "nat \<Rightarrow> nat \<Rightarrow> bytes result" where
  "refcount_blocks rbCount tot =
     (if tot * 2 > rbCount * clusterSize then Inl (Panic ''fslice bounds out of range'')
      else Inr (fold (\<lambda>c b. put_be 2 (c * 2) 1 b) [0 ..< tot] (zeros (rbCount * clusterSize))))"

definition refcount_table :: "nat \<Rightarrow> nat \<Rightarrow> nat \<Rightarrow> bytes result" where
  "refcount_table rtClusters rbCount rbOff =
     (if rbCount * 8 > rtClusters * clusterSize then Inl (Panic ''fslice bounds out of range'')
      else Inr (fold (\<lambda>b t. put_be 8 (b * 8) (rbOff + b * clusterSize) t) [0 ..< rbCount]
        (zeros (rtClusters * clusterSize))))"

definition writeRefcounts :: "'f host_if \<Rightarrow> 'f qwriter \<Rightarrow> (nat \<times> nat) result \<times> 'f qwriter" where
  "writeRefcounts F w =
     (case refcount_loop (qw_nextHost w) 1 1 of
        None \<Rightarrow> (Inl (Panic ''does not return''), w)
      | Some (rbCount, rtClusters) \<Rightarrow>
          let rtOff = qw_nextHost w * clusterSize;
              rbOff = (qw_nextHost w + rtClusters) * clusterSize;
              w = w\<lparr>qw_nextHost := qw_nextHost w + rtClusters + rbCount\<rparr> in
          (case refcount_blocks rbCount (qw_nextHost w) of Inl e \<Rightarrow> (Inl e, w)
           | Inr blocks \<Rightarrow>
             (case hf_write_at F (qw_f w) blocks (int rbOff) of
                ((k, Some e), f') \<Rightarrow> (Inl e, w\<lparr>qw_f := f'\<rparr>)
              | ((k, None), f') \<Rightarrow>
                (let w = w\<lparr>qw_f := f'\<rparr> in
                 case refcount_table rtClusters rbCount rbOff of Inl e \<Rightarrow> (Inl e, w)
                 | Inr table \<Rightarrow>
                   (case hf_write_at F (qw_f w) table (int rtOff) of
                      ((k, Some e), f') \<Rightarrow> (Inl e, w\<lparr>qw_f := f'\<rparr>)
                    | ((k, None), f') \<Rightarrow> (Inr (rtOff, rtClusters), w\<lparr>qw_f := f'\<rparr>))))))"

definition Finalize :: "'f host_if \<Rightarrow> 'f qwriter \<Rightarrow> error option \<times> 'f qwriter" where
  "Finalize F w =
     (if qw_finalized w then (Some (Err ''qcow2: already finalized''), w)
      else let w = w\<lparr>qw_finalized := True\<rparr> in
        if qw_l1Size w < 0 then (Some (Panic ''makeslice: len out of range''), w)
        else (case writeL2Tables F w (replicate (nat (qw_l1Size w)) 0) of
          (Inl e, w) \<Rightarrow> (Some e, w)
        | (Inr l1, w) \<Rightarrow>
          (let l1Off = qw_nextHost w * clusterSize;
               w = w\<lparr>qw_nextHost := qw_nextHost w + ceil_div (nat (qw_l1Size w) * 8) clusterSize\<rparr> in
           case writeTable F w l1 l1Off of
             (Some e, w) \<Rightarrow> (Some e, w)
           | (None, w) \<Rightarrow>
             (case writeRefcounts F w of
                (Inl e, w) \<Rightarrow> (Some e, w)
              | (Inr (refTableOff, refTableClusters), w) \<Rightarrow>
                (let h = \<lparr> qh_version = 3, qh_clusterBits = clusterBits, qh_size = u64_of_int (qw_size w),
                       qh_l1Size = u32_of_int (qw_l1Size w), qh_l1TableOffset = l1Off,
                       qh_refTableOffset = refTableOff, qh_refTableClusters = u32 refTableClusters,
                       qh_refcountOrder = 4 \<rparr> in
                 case hf_write_at F (qw_f w) (qh_marshal h) 0 of
                   ((k, Some e), f') \<Rightarrow> (Some e, w\<lparr>qw_f := f'\<rparr>)
                 | ((k, None), f') \<Rightarrow>
                   (case hf_truncate F f' (int (qw_nextHost w * clusterSize)) of
                      (e, f'') \<Rightarrow> (e, w\<lparr>qw_f := f''\<rparr>)))))))"

section \<open>The reader\<close>

record 'f qreader =
  qr_f :: 'f
  qr_size :: int
  qr_clusterSize :: nat
  qr_l2Entries :: nat
  qr_l1 :: "64 word list"
  qr_l2cache :: "(nat \<times> 64 word list) list"

definition IsQcow2 :: "bytes \<Rightarrow> bool" where
  "IsQcow2 b \<longleftrightarrow> length b \<ge> 4 \<and> get_be 4 b 0 = qcow_magic"

text \<open>\<open>be.Uint64(raw[i*8:])\<close> for the first \<open>n\<close> entries.\<close>

definition decode_table :: "nat \<Rightarrow> bytes \<Rightarrow> 64 word list" where
  "decode_table n raw = map (\<lambda>i. word_of_nat (get_be 8 raw (i * 8))) [0 ..< n]"

definition qr_open :: "'f host_if \<Rightarrow> 'f \<Rightarrow> 'f qreader result" where
  "qr_open F f =
     bindE (hf_read_full F f headerLen 0) (\<lambda>head.
     bindE (parseHeader head) (\<lambda>h.
     bindE (hf_read_full F f (qh_l1Size h * 8) (i64 (int (qh_l1TableOffset h)))) (\<lambda>raw.
     let cs = 2 ^ qh_clusterBits h in
     Inr \<lparr> qr_f = f, qr_size = i64 (int (qh_size h)), qr_clusterSize = cs, qr_l2Entries = cs div 8,
       qr_l1 = decode_table (qh_l1Size h) raw, qr_l2cache = [] \<rparr>)))"

definition qr_l2table ::
  "'f host_if \<Rightarrow> 'f qreader \<Rightarrow> nat \<Rightarrow> nat \<Rightarrow> (64 word list) result \<times> 'f qreader" where
  "qr_l2table F r l1idx off =
     (case map_of (qr_l2cache r) l1idx of
        Some t \<Rightarrow> (Inr t, r)
      | None \<Rightarrow>
          (case hf_read_full F (qr_f r) (qr_clusterSize r) (int off) of
             Inl e \<Rightarrow> (Inl e, r)
           | Inr raw \<Rightarrow>
               (let t = decode_table (qr_l2Entries r) raw in
                (Inr t, r\<lparr>qr_l2cache := (l1idx, t) # qr_l2cache r\<rparr>))))"

text \<open>\<open>hostOffset\<close>: \<open>None\<close> is the \<open>-1\<close> of an unallocated cluster.\<close>

definition hostOffset :: "'f host_if \<Rightarrow> 'f qreader \<Rightarrow> nat \<Rightarrow> (nat option) result \<times> 'f qreader" where
  "hostOffset F r gc =
     (let l1idx = gc div qr_l2Entries r in
      if l1idx \<ge> length (qr_l1 r) then (Inr None, r)
      else let l1e = qr_l1 r ! l1idx in
        if l1e AND offsetMask = 0 then (Inr None, r)
        else (case qr_l2table F r l1idx (unat (l1e AND offsetMask)) of
          (Inl e, r) \<Rightarrow> (Inl e, r)
        | (Inr l2, r) \<Rightarrow>
            (let l2e = l2 ! (gc mod qr_l2Entries r) in
             if l2e AND flagCompressed \<noteq> 0
             then (Inl (Err ''qcow2: compressed clusters are not supported''), r)
             else if l2e AND flagZero \<noteq> 0 \<or> l2e AND offsetMask = 0 then (Inr None, r)
             else (Inr (Some (unat (l2e AND offsetMask))), r))))"

function qr_read_loop ::
  "'f host_if \<Rightarrow> 'f qreader \<Rightarrow> nat \<Rightarrow> nat \<Rightarrow> (bytes \<times> error option) \<times> 'f qreader" where
  "qr_read_loop F r left at =
     (if left = 0 then (([], None), r)
      else if int at \<ge> qr_size r then (([], Some EOF), r)
      else if qr_clusterSize r = 0 then (([], Some (Panic ''integer divide by zero'')), r)
      else let inCl = at mod qr_clusterSize r; span = min (qr_clusterSize r - inCl) left in
        case hostOffset F r (at div qr_clusterSize r) of
          (Inl e, r) \<Rightarrow> (([], Some e), r)
        | (Inr host, r) \<Rightarrow>
            (case (case host of None \<Rightarrow> Inr (zeros span)
                   | Some h \<Rightarrow> hf_read_full F (qr_f r) span (int (h + inCl))) of
               Inl e \<Rightarrow> (([], Some e), r)
             | Inr d \<Rightarrow>
                 (let ((rest, e), r) = qr_read_loop F r (left - span) (at + span) in ((d @ rest, e), r))))"
  by pat_completeness auto
termination
  by (relation "measure (\<lambda>(F, r, left, at). left)") auto

declare qr_read_loop.simps [simp del]

definition qr_read_at :: "'f host_if \<Rightarrow> 'f qreader \<Rightarrow> nat \<Rightarrow> int \<Rightarrow> (bytes \<times> error option) \<times> 'f qreader" where
  "qr_read_at F r n off =
     (if off < 0 then (([], Some (Err ''qcow2: negative offset'')), r)
      else if off \<ge> qr_size r then (([], Some EOF), r)
      else qr_read_loop F r n (nat off))"

definition qr_write_at :: "'f qreader \<Rightarrow> bytes \<Rightarrow> int \<Rightarrow> (nat \<times> error option) \<times> 'f qreader" where
  "qr_write_at r p off = ((0, Some (Err ''qcow2: image opened read-only'')), r)"

section \<open>What the writer relies on\<close>

text \<open>
  A host file that grows: its contents are a byte at every offset (zero where nothing was
  written), a write overlays it, \<open>Truncate\<close> clears the tail.
\<close>

definition overlay :: "(nat \<Rightarrow> byte) \<Rightarrow> nat \<Rightarrow> bytes \<Rightarrow> nat \<Rightarrow> byte" where
  "overlay g off p = (\<lambda>i. if off \<le> i \<and> i < off + length p then p ! (i - off) else g i)"

definition fslice :: "(nat \<Rightarrow> byte) \<Rightarrow> nat \<Rightarrow> nat \<Rightarrow> bytes" where
  "fslice g off n = map g [off ..< off + n]"

lemma length_fslice [simp]: "length (fslice g off n) = n"
  by (simp add: fslice_def)

lemma fslice_overlay_same: "n = length p \<Longrightarrow> fslice (overlay g off p) off n = p"
  by (auto simp: fslice_def overlay_def intro!: nth_equalityI)

lemma fslice_overlay_other: "o' + n \<le> off \<or> off + length p \<le> o' \<Longrightarrow> fslice (overlay g off p) o' n = fslice g o' n"
  by (auto simp: fslice_def overlay_def)

lemma fslice_cong: "(\<And>i. off \<le> i \<Longrightarrow> i < off + n \<Longrightarrow> g i = g' i) \<Longrightarrow> fslice g off n = fslice g' off n"
  by (simp add: fslice_def)

lemma nth_fslice: "i < n \<Longrightarrow> fslice g off n ! i = g (off + i)"
  by (simp add: fslice_def)

lemma fslice_append: "fslice g off (a + b) = fslice g off a @ fslice g (off + a) b"
  using upt_add_eq_append[of off "off + a" b] by (simp add: fslice_def add.assoc)

lemma overlay_nil [simp]: "overlay g off [] = g"
  by (rule ext) (auto simp: overlay_def)

lemma overlay_adjacent: "overlay (overlay g off p) (off + length p) q = overlay g off (p @ q)"
  by (auto simp: overlay_def nth_append fun_eq_iff)

locale growing_file =
  fixes F :: "'f host_if"
    and fbyte :: "'f \<Rightarrow> nat \<Rightarrow> byte"
  assumes f_read: "off + n < 2 ^ 62 \<Longrightarrow> hf_read_full F f n (int off) = Inr (fslice (fbyte f) off n)"
    and f_write: "off + length p < 2 ^ 62 \<Longrightarrow>
      \<exists>f'. hf_write_at F f p (int off) = ((length p, None), f') \<and> fbyte f' = overlay (fbyte f) off p"
    and f_truncate: "sz < 2 ^ 62 \<Longrightarrow>
      \<exists>f'. hf_truncate F f (int sz) = (None, f') \<and> fbyte f' = (\<lambda>i. if i < sz then fbyte f i else 0)"

text \<open>The host file of \<open>Device\<close> (an \<open>*os.File\<close>) provides it.\<close>

definition host_ops :: "bytes host_if" where
  "host_ops = \<lparr> hf_read_at = host_read_at, hf_write_at = host_write_at, hf_truncate = host_truncate \<rparr>"

definition host_byte :: "bytes \<Rightarrow> nat \<Rightarrow> byte" where
  "host_byte f i = (if i < length f then f ! i else 0)"

interpretation hostf: growing_file host_ops host_byte
proof unfold_locales
  fix f p :: bytes and off n sz :: nat
  have "buf_of n (window f off n) = fslice (host_byte f) off n"
    by (rule nth_equalityI)
      (auto simp: buf_of_def window_def fslice_def host_byte_def nth_append zeros_def min_def)
  then show "hf_read_full host_ops f n (int off) = Inr (fslice (host_byte f) off n)"
    by (auto simp: hf_read_full_def host_ops_def host_read_at_def Let_def window_def fslice_def)
  show "\<exists>f'. hf_write_at host_ops f p (int off) = ((length p, None), f')
      \<and> host_byte f' = overlay (host_byte f) off p"
    by (auto simp: host_ops_def host_write_at_def Let_def fun_eq_iff host_byte_def overlay_def nth_blit
        nth_append zeros_def)
  show "\<exists>f'. hf_truncate host_ops f (int sz) = (None, f')
      \<and> host_byte f' = (\<lambda>i. if i < sz then host_byte f i else 0)"
    by (auto simp: host_ops_def host_truncate_def host_byte_def fun_eq_iff nth_append zeros_def min_def)
qed

section \<open>The writer as a device\<close>

text \<open>The byte of the virtual disk at \<open>v\<close>, and the whole disk.\<close>

definition guest_byte :: "(nat \<Rightarrow> byte) \<Rightarrow> (nat \<times> nat) list \<Rightarrow> nat \<Rightarrow> byte" where
  "guest_byte g m v =
     (case map_of m (v div clusterSize) of None \<Rightarrow> 0
      | Some host \<Rightarrow> g (host * clusterSize + v mod clusterSize))"

text \<open>
  The mapping: guest clusters once each, host clusters distinct and numbered from 1 in order of
  allocation, everything past them in the host file still zero, and a disk of at most a pebibyte
  (so that no host offset reaches the flag bits of an entry).
\<close>

definition map_ok :: "(nat \<times> nat) list \<Rightarrow> nat \<Rightarrow> nat \<Rightarrow> bool" where
  "map_ok m next sz \<longleftrightarrow> distinct (map fst m) \<and> distinct (map snd m)
     \<and> (\<forall>(gc, host) \<in> set m. gc * clusterSize < sz \<and> 1 \<le> host \<and> host < next)
     \<and> next = 1 + length m"

definition qw_inv :: "('f \<Rightarrow> nat \<Rightarrow> byte) \<Rightarrow> 'f qwriter \<Rightarrow> bool" where
  "qw_inv fb w \<longleftrightarrow> 0 < qw_size w \<and> qw_size w \<le> 2 ^ 50
     \<and> qw_l1Size w = int (ceil_div (nat (qw_size w)) (clusterSize * l2Entries))
     \<and> map_ok (qw_l2map w) (qw_nextHost w) (nat (qw_size w))
     \<and> (\<forall>i \<ge> qw_nextHost w * clusterSize. fb (qw_f w) i = 0)
     \<and> (\<forall>v \<ge> nat (qw_size w). guest_byte (fb (qw_f w)) (qw_l2map w) v = 0)"

definition qw_view :: "('f \<Rightarrow> nat \<Rightarrow> byte) \<Rightarrow> 'f qwriter \<Rightarrow> bytes" where
  "qw_view fb w = fslice (guest_byte (fb (qw_f w)) (qw_l2map w)) 0 (nat (qw_size w))"

lemma map_ok_length:
  assumes "map_ok m next sz" "sz \<le> 2 ^ 50"
  shows "next \<le> 2 ^ 34 + 1"
proof -
  have "fst ` set m \<subseteq> {..< 2 ^ 34}"
    using assms by (fastforce simp: map_ok_def clusterSize_def)
  then have "card (fst ` set m) \<le> 2 ^ 34"
    using card_mono[of "{..< (2::nat) ^ 34}"] by fastforce
  moreover have "card (fst ` set m) = length m"
    using assms by (metis map_ok_def distinct_card list.set_map length_map)
  ultimately show ?thesis using assms by (simp add: map_ok_def)
qed

lemma guest_byte_overlay_mapped:
  assumes d: "distinct (map snd m)" "map_of m gc = Some host"
    and p: "off div clusterSize = gc" "off mod clusterSize + length p \<le> clusterSize"
  shows "guest_byte (overlay g (host * clusterSize + off mod clusterSize) p) m
       = overlay (guest_byte g m) off p"
proof
  fix v
  have cs: "0 < clusterSize" by (simp add: clusterSize_def)
  have off: "off = gc * clusterSize + off mod clusterSize" using p div_mult_mod_eq[of off clusterSize] by simp
  show "guest_byte (overlay g (host * clusterSize + off mod clusterSize) p) m v
       = overlay (guest_byte g m) off p v"
  proof (cases "v div clusterSize = gc")
    case True
    then have v: "v = gc * clusterSize + v mod clusterSize" using div_mult_mod_eq[of v clusterSize] by simp
    then have "off \<le> v \<longleftrightarrow> off mod clusterSize \<le> v mod clusterSize"
      "v < off + length p \<longleftrightarrow> v mod clusterSize < off mod clusterSize + length p"
      "v - off = v mod clusterSize - off mod clusterSize"
      using off by linarith+
    then show ?thesis using True d by (simp add: guest_byte_def overlay_def)
  next
    case False
    have nin: "\<not> (off \<le> v \<and> v < off + length p)"
    proof
      assume "off \<le> v \<and> v < off + length p"
      then have "gc * clusterSize \<le> v" "v < gc * clusterSize + clusterSize" using off p by linarith+
      then have "v div clusterSize = gc"
        by (intro div_nat_eqI) (simp_all add: mult.commute)
      then show False using False by simp
    qed
    show ?thesis
    proof (cases "map_of m (v div clusterSize)")
      case None
      then show ?thesis using nin by (auto simp: guest_byte_def overlay_def)
    next
      case (Some h)
      have "h \<noteq> host"
      proof
        assume "h = host"
        then have "(v div clusterSize, host) \<in> set m" "(gc, host) \<in> set m"
          using Some d by (auto dest: map_of_SomeD)
        then show False using d(1) False by (metis distinct_map inj_onD prod.inject snd_conv)
      qed
      have "v mod clusterSize < clusterSize" using cs by simp
      then have "\<not> (host * clusterSize + off mod clusterSize \<le> h * clusterSize + v mod clusterSize
          \<and> h * clusterSize + v mod clusterSize < host * clusterSize + off mod clusterSize + length p)"
        using \<open>h \<noteq> host\<close> p(2) by (cases "h < host") (auto simp: clusterSize_def)
      then show ?thesis using Some nin by (auto simp: guest_byte_def overlay_def)
    qed
  qed
qed


lemma guest_byte_alloc:
  assumes "map_of m gc = None" "\<forall>i \<ge> next * clusterSize. g i = 0"
  shows "guest_byte g ((gc, next) # m) = guest_byte g m"
  using assms by (auto simp: guest_byte_def fun_eq_iff)

lemma map_ok_alloc:
  assumes "map_ok m next sz" "map_of m gc = None" "gc * clusterSize < sz"
  shows "map_ok ((gc, next) # m) (Suc next) sz"
proof -
  have "next \<notin> snd ` set m" "gc \<notin> fst ` set m"
    using assms by (auto simp: map_ok_def map_of_eq_None_iff)
  then show ?thesis using assms by (fastforce simp: map_ok_def)
qed

lemma guest_byte_overlay_zero:
  assumes "list_all (\<lambda>c. c = 0) p" "map_of m gc = None"
    and "off div clusterSize = gc" "off mod clusterSize + length p \<le> clusterSize"
  shows "overlay (guest_byte g m) off p = guest_byte g m"
proof
  fix v
  have "guest_byte g m v = 0" if "off \<le> v" "v < off + length p"
  proof -
    have "off = gc * clusterSize + off mod clusterSize"
      using assms div_mult_mod_eq[of off clusterSize] by simp
    then have "v div clusterSize = gc"
      using that assms by (intro div_nat_eqI) (auto simp: mult.commute)
    then show ?thesis using assms by (simp add: guest_byte_def)
  qed
  then show "overlay (guest_byte g m) off p v = guest_byte g m v"
    using assms(1) by (auto simp: overlay_def list_all_length)
qed

context growing_file
begin

lemma write_chunk:
  assumes inv: "qw_inv fbyte w" and m: "map_of (qw_l2map w) (off div clusterSize) = Some host"
    and p: "off mod clusterSize + length p \<le> clusterSize" "off + length p \<le> nat (qw_size w)"
  shows "\<exists>f'. hf_write_at F (qw_f w) p (int (host * clusterSize + off mod clusterSize)) = ((length p, None), f')
    \<and> qw_inv fbyte (w\<lparr>qw_f := f'\<rparr>)
    \<and> guest_byte (fbyte f') (qw_l2map w) = overlay (guest_byte (fbyte (qw_f w)) (qw_l2map w)) off p"
proof -
  have mk: "map_ok (qw_l2map w) (qw_nextHost w) (nat (qw_size w))" and sz: "nat (qw_size w) \<le> 2 ^ 50"
    using inv by (auto simp: qw_inv_def)
  have h: "host < qw_nextHost w" using mk m by (auto simp: map_ok_def dest!: map_of_SomeD)
  have "qw_nextHost w \<le> 2 ^ 34 + 1" using map_ok_length[OF mk sz] .
  then have "host * clusterSize + off mod clusterSize + length p < 2 ^ 62"
    using h p by (simp add: clusterSize_def)
  then obtain f' where f': "hf_write_at F (qw_f w) p (int (host * clusterSize + off mod clusterSize)) = ((length p, None), f')"
    "fbyte f' = overlay (fbyte (qw_f w)) (host * clusterSize + off mod clusterSize) p"
    using f_write by blast
  have g: "guest_byte (fbyte f') (qw_l2map w) = overlay (guest_byte (fbyte (qw_f w)) (qw_l2map w)) off p"
    unfolding f'(2) using mk m p by (intro guest_byte_overlay_mapped) (auto simp: map_ok_def)
  have "Suc host * clusterSize \<le> qw_nextHost w * clusterSize" using h by (intro mult_le_mono1) simp
  then have "fbyte f' i = 0" if "qw_nextHost w * clusterSize \<le> i" for i
    using inv that p unfolding f'(2) by (auto simp: overlay_def qw_inv_def)
  moreover have "guest_byte (fbyte f') (qw_l2map w) v = 0" if "nat (qw_size w) \<le> v" for v
    using inv that p unfolding g by (auto simp: overlay_def qw_inv_def)
  ultimately have "qw_inv fbyte (w\<lparr>qw_f := f'\<rparr>)" using inv by (simp add: qw_inv_def)
  then show ?thesis using f' g by blast
qed

lemma write_loop:
  assumes "qw_inv fbyte w" "off + length p \<le> nat (qw_size w)"
  shows "\<exists>w'. qw_write_loop F w k p off = ((k + length p, None), w') \<and> qw_inv fbyte w'
    \<and> qw_size w' = qw_size w \<and> qw_finalized w' = qw_finalized w
    \<and> guest_byte (fbyte (qw_f w')) (qw_l2map w') = overlay (guest_byte (fbyte (qw_f w)) (qw_l2map w)) off p"
  using assms
proof (induction "length p" arbitrary: w p off k rule: less_induct)
  case less
  let ?cs = clusterSize
  show ?case
  proof (cases "p = []")
    case True
    with less.prems show ?thesis by (simp add: qw_write_loop.simps)
  next
    case False
    let ?n = "min (?cs - off mod ?cs) (length p)"
    let ?c = "take ?n p" and ?r = "drop ?n p"
    have cs: "off mod ?cs < ?cs" by (simp add: clusterSize_def)
    then have n: "0 < ?n" "length ?c = ?n" "length ?r < length p" "off mod ?cs + length ?c \<le> ?cs"
      "off + length ?c \<le> nat (qw_size w)" "k + length ?c + length ?r = k + length p"
      using False less.prems by auto
    have split: "overlay (overlay g off ?c) (off + ?n) ?r = overlay g off p" for g
      using overlay_adjacent[of g off ?c ?r] n(2) by simp
    have gc: "off div ?cs * ?cs < nat (qw_size w)"
    proof -
      have "0 < length p" using False by simp
      then show ?thesis using less.prems div_times_less_eq_dividend[of off ?cs] by linarith
    qed
    have rest: ?thesis if v: "qw_inv fbyte v" "qw_size v = qw_size w" "qw_finalized v = qw_finalized w"
        and g: "guest_byte (fbyte (qw_f v)) (qw_l2map v)
          = overlay (guest_byte (fbyte (qw_f w)) (qw_l2map w)) off ?c"
        and step: "qw_write_loop F w k p off = qw_write_loop F v (k + length ?c) ?r (off + ?n)" for v
    proof -
      have "off + ?n + length ?r \<le> nat (qw_size v)" using v n less.prems by simp
      from less.hyps[OF n(3) v(1) this, of "k + length ?c"] show ?thesis
        unfolding step using v g split n(6) by auto
    qed
    show ?thesis
    proof (cases "map_of (qw_l2map w) (off div ?cs)")
      case (Some host)
      from write_chunk[OF less.prems(1) Some n(4,5)] obtain f' where
        f': "hf_write_at F (qw_f w) ?c (int (host * ?cs + off mod ?cs)) = ((length ?c, None), f')"
        "qw_inv fbyte (w\<lparr>qw_f := f'\<rparr>)"
        "guest_byte (fbyte f') (qw_l2map w) = overlay (guest_byte (fbyte (qw_f w)) (qw_l2map w)) off ?c"
        by blast
      show ?thesis
        by (rule rest[OF f'(2)]) (simp_all add: f' Some False qw_write_loop.simps[of F w k p off] Let_def del: length_take of_nat_add of_nat_mult)
    next
      case None
      show ?thesis
      proof (cases "allZero ?c")
        case True
        have ov: "overlay (guest_byte (fbyte (qw_f w)) (qw_l2map w)) off ?c = guest_byte (fbyte (qw_f w)) (qw_l2map w)"
          using True None n(4) unfolding allZero_def by (rule guest_byte_overlay_zero[OF _ _ refl])
        show ?thesis
          by (rule rest[OF less.prems(1) refl refl ov[symmetric]])
            (simp only: True None False qw_write_loop.simps[of F w k p off] Let_def if_False if_True option.case)
      next
        case nz: False
        let ?w1 = "w\<lparr>qw_nextHost := qw_nextHost w + 1, qw_l2map := (off div ?cs, qw_nextHost w) # qw_l2map w\<rparr>"
        have z: "\<forall>i \<ge> qw_nextHost w * ?cs. fbyte (qw_f w) i = 0" using less.prems by (simp add: qw_inv_def)
        note ga = guest_byte_alloc[OF None z]
        have "qw_inv fbyte ?w1"
          using less.prems(1) None gc map_ok_alloc[OF _ None gc]
          by (auto simp: qw_inv_def ga)
        from write_chunk[OF this _ n(4), of "qw_nextHost w"] n(5) obtain f' where
          f': "hf_write_at F (qw_f w) ?c (int (qw_nextHost w * ?cs + off mod ?cs)) = ((length ?c, None), f')"
          "qw_inv fbyte (?w1\<lparr>qw_f := f'\<rparr>)"
          "guest_byte (fbyte f') (qw_l2map ?w1) = overlay (guest_byte (fbyte (qw_f w)) (qw_l2map w)) off ?c"
          by (auto simp: ga)
        show ?thesis
          by (rule rest[OF f'(2)])
            (use f'(3) in \<open>simp_all add: f'(1) None nz False qw_write_loop.simps[of F w k p off] Let_def del: length_take of_nat_add of_nat_mult\<close>)
      qed
    qed
  qed
qed


text \<open>\<open>ReadAt\<close>: the bytes of the virtual disk, zeros past its end.\<close>

lemma hf_read_cluster:
  assumes inv: "qw_inv fbyte w" and m: "map_of (qw_l2map w) (at div clusterSize) = Some host"
    and n: "at mod clusterSize + n \<le> clusterSize"
  shows "hf_read_full F (qw_f w) n (int (host * clusterSize + at mod clusterSize))
     = Inr (fslice (guest_byte (fbyte (qw_f w)) (qw_l2map w)) at n)"
proof -
  have mk: "map_ok (qw_l2map w) (qw_nextHost w) (nat (qw_size w))" and sz: "nat (qw_size w) \<le> 2 ^ 50"
    using inv by (auto simp: qw_inv_def)
  have "host < qw_nextHost w" using mk m by (auto simp: map_ok_def dest!: map_of_SomeD)
  moreover have "qw_nextHost w \<le> 2 ^ 34 + 1" using map_ok_length[OF mk sz] .
  ultimately have "host * clusterSize + at mod clusterSize + n < 2 ^ 62"
    using n by (simp add: clusterSize_def)
  moreover have "fslice (fbyte (qw_f w)) (host * clusterSize + at mod clusterSize) n
     = fslice (guest_byte (fbyte (qw_f w)) (qw_l2map w)) at n"
  proof (rule nth_equalityI)
    fix i assume "i < length (fslice (fbyte (qw_f w)) (host * clusterSize + at mod clusterSize) n)"
    then have i: "i < n" by simp
    have "at mod clusterSize + i < clusterSize" using i n by simp
    note div_mod_offset[OF this]
    then show "fslice (fbyte (qw_f w)) (host * clusterSize + at mod clusterSize) n ! i
        = fslice (guest_byte (fbyte (qw_f w)) (qw_l2map w)) at n ! i"
      using m i by (simp add: nth_fslice guest_byte_def add.assoc)
  qed simp
  ultimately show ?thesis using f_read by (simp del: of_nat_add of_nat_mult)
qed

lemma read_loop:
  assumes "qw_inv fbyte w"
  shows "\<exists>d e. qw_read_loop F w left at = (d, e) \<and> (e = None \<or> e = Some EOF) \<and> length d \<le> left
    \<and> buf_of left d = fslice (guest_byte (fbyte (qw_f w)) (qw_l2map w)) at left
    \<and> (at + left \<le> nat (qw_size w) \<longrightarrow> e = None)"
proof (induction left arbitrary: at rule: less_induct)
  case (less left)
  let ?g = "guest_byte (fbyte (qw_f w)) (qw_l2map w)"
  consider (zero) "left = 0" | (eof) "0 < left" "qw_size w \<le> int at" | (more) "0 < left" "int at < qw_size w"
    by linarith
  then show ?case
  proof cases
    case zero
    then show ?thesis by (simp add: qw_read_loop.simps buf_of_def fslice_def)
  next
    case eof
    have "?g i = 0" if "at \<le> i" for i
      using assms that eof by (auto simp: qw_inv_def)
    then have "fslice ?g at left = zeros left"
      by (auto simp: fslice_def zeros_def intro!: nth_equalityI)
    then show ?thesis using eof by (simp add: qw_read_loop.simps[of F w left] buf_of_def)
  next
    case more
    let ?n = "min (clusterSize - at mod clusterSize) left"
    have cs: "at mod clusterSize < clusterSize" by (simp add: clusterSize_def)
    then have n: "0 < ?n" "?n \<le> left" "at mod clusterSize + ?n \<le> clusterSize" using more by auto
    have rd: "(case map_of (qw_l2map w) (at div clusterSize) of None \<Rightarrow> Inr (zeros ?n)
        | Some host \<Rightarrow> hf_read_full F (qw_f w) ?n (int (host * clusterSize + at mod clusterSize)))
        = Inr (fslice ?g at ?n)"
    proof (cases "map_of (qw_l2map w) (at div clusterSize)")
      case None
      have "?g (at + i) = 0" if "i < ?n" for i
        using div_mod_offset[of at clusterSize i] that n None by (simp add: guest_byte_def)
      then have "fslice ?g at ?n = zeros ?n"
        by (auto simp: fslice_def zeros_def intro!: nth_equalityI)
      then show ?thesis using None by simp
    next
      case (Some host)
      then show ?thesis using hf_read_cluster[OF assms Some n(3)] by simp
    qed
    have "left - ?n < left" using n more by linarith
    from less.IH[OF this, of "at + ?n"] obtain d e where
      d: "qw_read_loop F w (left - ?n) (at + ?n) = (d, e)" "e = None \<or> e = Some EOF" "length d \<le> left - ?n"
        "buf_of (left - ?n) d = fslice ?g (at + ?n) (left - ?n)"
        "at + ?n + (left - ?n) \<le> nat (qw_size w) \<longrightarrow> e = None" by blast
    have "qw_read_loop F w left at = (fslice ?g at ?n @ d, e)"
      using more rd d(1) by (simp only: qw_read_loop.simps[of F w left at] Let_def) simp
    moreover have "buf_of left (fslice ?g at ?n @ d) = fslice ?g at left"
      using d(3,4) n fslice_append[of ?g at ?n "left - ?n"] by (simp add: buf_of_def)
    ultimately show ?thesis using d n by (auto simp del: min_less_iff_conj)
  qed
qed

lemma writer_device: "bounded_device (qw_ops F) (qw_view fbyte) (qw_inv fbyte)"
proof unfold_locales
  fix w :: "'f qwriter" and off n p
  assume inv: "qw_inv fbyte w"
  then have sz: "0 < qw_size w" "qw_size w \<le> 2 ^ 50" by (auto simp: qw_inv_def)
  show "dev_size (qw_ops F) w = int (length (qw_view fbyte w))"
    using sz by (simp add: qw_ops_def qw_view_def)
  show "length (qw_view fbyte w) < 2 ^ 63" using sz by (simp add: qw_view_def)
  show "read_full (qw_ops F) w n off = Inr (buf_of n (window (qw_view fbyte w) (nat off) n))"
    if off: "0 \<le> off" "off \<le> dev_size (qw_ops F) w" "off + int n < 2 ^ 63"
  proof -
    let ?g = "guest_byte (fbyte (qw_f w)) (qw_l2map w)"
    have tail: "?g i = 0" if "nat (qw_size w) \<le> i" for i using inv that by (auto simp: qw_inv_def)
    have v: "buf_of n (window (qw_view fbyte w) (nat off) n) = fslice ?g (nat off) n"
      using tail by (intro nth_equalityI)
        (auto simp: buf_of_def window_def qw_view_def fslice_def nth_append zeros_def min_def
          intro!: nth_replicate diff_less_mono)
    show ?thesis
    proof (cases "off = qw_size w")
      case True
      then show ?thesis using v sz off
        by (simp add: read_full_def qw_ops_def qw_read_at_def qw_view_def window_def)
    next
      case False
      obtain d e where d: "qw_read_loop F w n (nat off) = (d, e)" "e = None \<or> e = Some EOF"
        "buf_of n d = fslice ?g (nat off) n" using read_loop[OF inv, of n "nat off"] by blast
      then show ?thesis using v off False
        by (auto simp: read_full_def qw_ops_def qw_read_at_def)
    qed
  qed
  show "\<exists>w'. dev_write_at (qw_ops F) w p off = ((length p, None), w') \<and> qw_inv fbyte w'
      \<and> qw_view fbyte w' = blit (qw_view fbyte w) (nat off) p"
    if off: "0 \<le> off" "off + int (length p) \<le> dev_size (qw_ops F) w"
  proof -
    have le: "nat off + length p \<le> nat (qw_size w)" using off by (simp add: qw_ops_def)
    from write_loop[OF inv this, of 0] obtain w' where
      w': "qw_write_loop F w 0 p (nat off) = ((length p, None), w')" "qw_inv fbyte w'" "qw_size w' = qw_size w"
        "guest_byte (fbyte (qw_f w')) (qw_l2map w')
          = overlay (guest_byte (fbyte (qw_f w)) (qw_l2map w)) (nat off) p" by auto
    have "i64 (off + int (length p)) = off + int (length p)" using off sz by (simp add: qw_ops_def)
    then have "dev_write_at (qw_ops F) w p off = ((length p, None), w')"
      using off w' by (simp add: qw_ops_def qw_write_at_def)
    moreover have "qw_view fbyte w' = blit (qw_view fbyte w) (nat off) p"
      using le w'(3,4) by (intro nth_equalityI) (auto simp: qw_view_def nth_blit nth_fslice overlay_def)
    ultimately show ?thesis using w' by blast
  qed
  show "\<exists>e. dev_write_at (qw_ops F) w p off = ((0, Some e), w)"
    if "off < 0 \<or> off + int (length p) > dev_size (qw_ops F) w" "off + int (length p) < 2 ^ 63"
    using that by (cases "off < 0") (auto simp: qw_ops_def qw_write_at_def)
qed

end

interpretation qcow2: bounded_device "qw_ops host_ops" "qw_view host_byte" "qw_inv host_byte"
  by (rule hostf.writer_device)


section \<open>Header and tables round trip\<close>

lemma length_qh_marshal [simp]: "length (qh_marshal h) = clusterSize"
  by (simp add: qh_marshal_def clusterSize_def)

lemma qh_marshal_fields:
  "get_be 4 (qh_marshal h) 0 = qcow_magic" "get_be 4 (qh_marshal h) 4 = qh_version h mod 256 ^ 4"
  "get_be 4 (qh_marshal h) 20 = qh_clusterBits h mod 256 ^ 4" "get_be 8 (qh_marshal h) 24 = qh_size h mod 256 ^ 8"
  "get_be 4 (qh_marshal h) 36 = qh_l1Size h mod 256 ^ 4"
  "get_be 8 (qh_marshal h) 40 = qh_l1TableOffset h mod 256 ^ 8"
  "get_be 8 (qh_marshal h) 48 = qh_refTableOffset h mod 256 ^ 8"
  "get_be 4 (qh_marshal h) 56 = qh_refTableClusters h mod 256 ^ 4"
  "get_be 4 (qh_marshal h) 96 = qh_refcountOrder h mod 256 ^ 4"
  by (simp_all add: qh_marshal_def Let_def get_put_be get_put_be_other clusterSize_def qcow_magic_def)

definition qh_wf :: "qheader \<Rightarrow> bool" where
  "qh_wf h \<longleftrightarrow> qh_version h = 3 \<and> 9 \<le> qh_clusterBits h \<and> qh_clusterBits h \<le> 21 \<and> qh_size h < 2 ^ 64
     \<and> qh_l1Size h < 2 ^ 32 \<and> qh_l1TableOffset h < 2 ^ 64 \<and> qh_refTableOffset h < 2 ^ 64
     \<and> qh_refTableClusters h < 2 ^ 32 \<and> qh_refcountOrder h < 2 ^ 32"

lemma parse_marshal:
  assumes "qh_wf h" "headerLen \<le> n" "n \<le> clusterSize"
  shows "parseHeader (window (qh_marshal h) 0 n) = Inr h"
proof -
  have "get_be w (window (qh_marshal h) 0 n) off = get_be w (qh_marshal h) off" if "off + w \<le> n" for w off
    using that by (simp add: get_be_def window_window)
  then show ?thesis
    using assms by (simp add: parseHeader_def Let_def qh_marshal_fields headerLen_def qh_wf_def clusterSize_def)
qed

lemma length_table_bytes [simp]: "length (table_bytes es) = length es * 8"
  by (induction es) (auto simp: table_bytes_def)

lemma window_table_bytes:
  "i < length es \<Longrightarrow> window (table_bytes es) (i * 8) 8 = be_bytes 8 (unat (es ! i))"
proof (induction es arbitrary: i)
  case (Cons e es)
  then show ?case
  proof (cases i)
    case 0
    then show ?thesis by (simp add: table_bytes_def window_def)
  next
    case (Suc j)
    then have "window (table_bytes (e # es)) (i * 8) 8 = window (table_bytes es) (j * 8) 8"
      by (simp add: table_bytes_def window_append_right)
    then show ?thesis using Cons Suc by simp
  qed
qed simp

lemma decode_table_bytes: "n = length es \<Longrightarrow> decode_table n (table_bytes es) = es"
proof (rule nth_equalityI)
  fix i assume n: "n = length es" and "i < length (decode_table n (table_bytes es))"
  then have i: "i < length es" by (simp add: decode_table_def)
  have "unat (es ! i) < 2 ^ 64" using unsigned_less[of "es ! i"] by simp
  then show "decode_table n (table_bytes es) ! i = es ! i"
    using i n by (simp add: decode_table_def get_be_def window_table_bytes)
qed (simp add: decode_table_def)

section \<open>Entries\<close>

definition entry :: "nat \<Rightarrow> 64 word" where
  "entry host = word_of_nat (host * clusterSize) OR flagCopied"

lemma bit_offsetMask: "bit offsetMask n \<longleftrightarrow> 9 \<le> n \<and> n < 56"
proof -
  have "offsetMask = push_bit 9 (mask 47)" by (simp add: offsetMask_def mask_eq_exp_minus_1 push_bit_eq_mult)
  then have "bit offsetMask n = bit (push_bit 9 (mask 47) :: 64 word) n" by (rule arg_cong)
  also have "\<dots> \<longleftrightarrow> 9 \<le> n \<and> n < 56"
    unfolding bit_push_bit_iff bit_mask_iff by auto
  finally show ?thesis .
qed

lemma bit_host_offset:
  assumes "host < 2 ^ 40"
  shows "bit (word_of_nat (host * clusterSize) :: 64 word) n \<Longrightarrow> 16 \<le> n \<and> n < 56"
proof -
  assume b: "bit (word_of_nat (host * clusterSize) :: 64 word) n"
  then have "bit (host * clusterSize) n" by (simp add: bit_of_nat_iff del: of_nat_mult)
  then have odd: "odd (host * clusterSize div 2 ^ n)" by (simp add: bit_iff_odd)
  have "16 \<le> n"
  proof (rule ccontr)
    assume "\<not> 16 \<le> n"
    then obtain k where k: "16 = n + Suc k" by (metis add_Suc_right less_imp_Suc_add not_le)
    have "clusterSize = 2 ^ (n + Suc k)" unfolding k[symmetric] by (simp add: clusterSize_def)
    then have "clusterSize = 2 ^ n * (2 * 2 ^ k)" by (simp add: power_add)
    then have "host * clusterSize = 2 ^ n * (2 * (host * 2 ^ k))" by (simp only: ac_simps)
    then have "host * clusterSize div 2 ^ n = 2 * (host * 2 ^ k)"
      by (simp only: nonzero_mult_div_cancel_left[of "(2::nat) ^ n"] power_not_zero) simp
    then show False using odd by simp
  qed
  moreover have "n < 56"
  proof (rule ccontr)
    assume "\<not> n < 56"
    then have "(2::nat) ^ 56 \<le> 2 ^ n" by (intro power_increasing) auto
    moreover have "host * clusterSize < 2 ^ 56" using assms by (simp add: clusterSize_def)
    ultimately have "host * clusterSize < 2 ^ n" by linarith
    then show False using odd by simp
  qed
  ultimately show ?thesis by simp
qed

lemma bit_flags:
  "bit flagCopied n \<longleftrightarrow> n = 63" "bit flagCompressed n \<longleftrightarrow> n = 62" "bit flagZero n \<longleftrightarrow> n = 0"
  by (auto simp: flagCopied_def flagCompressed_def flagZero_def bit_push_bit_iff bit_1_iff possible_bit_def
      simp del: push_bit_numeral push_bit_of_1 push_bit_numeral_minus_1)

lemma bit_entry: "bit (entry host) n \<longleftrightarrow> bit (word_of_nat (host * clusterSize) :: 64 word) n \<or> n = 63"
  by (simp only: entry_def bit_or_iff bit_flags)

lemma entry_mask:
  assumes "host < 2 ^ 40"
  shows "entry host AND offsetMask = word_of_nat (host * clusterSize)"
proof (rule bit_eqI)
  fix n
  have "n \<noteq> 63 \<or> \<not> bit offsetMask n" by (auto simp: bit_offsetMask)
  then show "bit (entry host AND offsetMask) n = bit (word_of_nat (host * clusterSize) :: 64 word) n"
    using bit_host_offset[OF assms, of n]
    by (cases "bit (word_of_nat (host * clusterSize) :: 64 word) n")
      (simp_all only: bit_and_iff bit_entry bit_offsetMask, simp_all)
qed

lemma entry_flags:
  assumes "host < 2 ^ 40"
  shows "entry host AND flagCompressed = 0" "entry host AND flagZero = 0"
proof -
  have "\<not> bit (entry host) 62" "\<not> bit (entry host) 0"
    using bit_host_offset[OF assms, of 62] bit_host_offset[OF assms, of 0] by (auto simp: bit_entry simp del: of_nat_mult)
  then show "entry host AND flagCompressed = 0" "entry host AND flagZero = 0"
    by (auto intro!: bit_eqI simp add: bit_and_iff bit_flags)
qed

lemma unat_host_offset: "host < 2 ^ 40 \<Longrightarrow> unat (word_of_nat (host * clusterSize) :: 64 word) = host * clusterSize"
  by (simp add: unat_of_nat clusterSize_def del: of_nat_mult)

lemma host_offset_0: "host < 2 ^ 40 \<Longrightarrow> word_of_nat (host * clusterSize) = (0 :: 64 word) \<longleftrightarrow> host = 0"
  using unat_host_offset[of host] by (auto simp: clusterSize_def dest: arg_cong[of _ _ unat])

text \<open>The entries of an L2 table are those of the map.\<close>

lemma l2_fold_nth:
  assumes "distinct (map fst m)" "j < l2Entries" "length l2 = l2Entries"
  shows "fold (\<lambda>(gc, host) l2. if gc div l2Entries = idx
        then l2[gc mod l2Entries := word_of_nat (host * clusterSize) OR flagCopied] else l2) m l2 ! j
     = (case map_of m (idx * l2Entries + j) of None \<Rightarrow> l2 ! j | Some host \<Rightarrow> entry host)"
  using assms
proof (induction m arbitrary: l2)
  case (Cons e m)
  obtain gc host where e: "e = (gc, host)" by fastforce
  have gc: "gc div l2Entries = idx \<and> gc mod l2Entries = j \<longleftrightarrow> gc = idx * l2Entries + j"
    using Cons.prems(2) div_mult_mod_eq[of gc l2Entries] by auto
  have "gc = idx * l2Entries + j \<Longrightarrow> map_of m (idx * l2Entries + j) = None"
    using Cons.prems(1) e by (auto simp: map_of_eq_None_iff)
  with Cons gc e show ?case by (auto simp: nth_list_update entry_def split: option.splits)
qed simp

lemma length_l2_fold:
  "length (fold (\<lambda>(gc, host) l2. if gc div l2Entries = idx
        then l2[gc mod l2Entries := word_of_nat (host * clusterSize) OR flagCopied] else l2) m l2) = length l2"
  by (induction m arbitrary: l2) auto

lemma length_l2_table [simp]: "length (l2_table m idx) = l2Entries"
  by (simp add: l2_table_def length_l2_fold)

lemma l2_table_nth:
  "distinct (map fst m) \<Longrightarrow> j < l2Entries \<Longrightarrow> l2_table m idx ! j
    = (case map_of m (idx * l2Entries + j) of None \<Rightarrow> 0 | Some host \<Rightarrow> entry host)"
  unfolding l2_table_def by (subst l2_fold_nth) (auto split: option.splits)


section \<open>The refcount loop settles\<close>

definition ref_blocks :: "nat \<Rightarrow> nat \<Rightarrow> nat \<Rightarrow> nat" where
  "ref_blocks used rb rt = ceil_div (used + rt + rb) refcountsPerCl"

definition ref_tables :: "nat \<Rightarrow> nat" where
  "ref_tables nrb = ceil_div (nrb * 8) clusterSize"

lemma ref_sum_bound:
  assumes "1 \<le> used" "rb + rt \<le> used + 2"
  shows "ref_blocks used rb rt + ref_tables (ref_blocks used rb rt) \<le> used + 2"
proof -
  let ?n = "ref_blocks used rb rt"
  have "?n \<le> ceil_div (2 * used + 2) refcountsPerCl"
    unfolding ref_blocks_def using assms by (intro ceil_div_mono) simp
  also have "\<dots> = (2 * used + 32769) div 32768" by (simp add: ceil_div_def qcow_consts)
  finally have n: "?n \<le> (2 * used + 32769) div 32768" .
  have "ref_tables ?n = (?n * 8 + 65535) div 65536" by (simp add: ref_tables_def ceil_div_def qcow_consts)
  then show ?thesis using n assms(1) by linarith
qed

lemma refcount_loop_settles:
  assumes "1 \<le> used" "rb + rt \<le> used + 2" "rb \<le> ref_blocks used rb rt" "rt \<le> ref_tables (ref_blocks used rb rt)"
  shows "\<exists>rb' rt'. refcount_loop used rb rt = Some (rb', rt') \<and> rb' = ref_blocks used rb' rt'
    \<and> rt' = ref_tables rb' \<and> rb \<le> rb' \<and> rt \<le> rt' \<and> rb' + rt' \<le> used + 2"
  using assms(2-4)
proof (induction "used + 2 - (rb + rt)" arbitrary: rb rt rule: less_induct)
  case less
  let ?b = "ref_blocks used rb rt"
  let ?t = "ref_tables ?b"
  have eq: "refcount_loop used rb rt = (if ?b = rb \<and> ?t = rt then Some (rb, rt) else refcount_loop used ?b ?t)"
    by (subst refcount_loop.simps) (auto simp: Let_def ref_blocks_def ref_tables_def)
  show ?case
  proof (cases "?b = rb \<and> ?t = rt")
    case True
    then have "?b = rb" "?t = rt" by auto
    then have "refcount_loop used rb rt = Some (rb, rt) \<and> rb = ref_blocks used rb rt \<and> rt = ref_tables rb"
      using eq by metis
    then show ?thesis using less.prems by blast
  next
    case False
    have sum: "?b + ?t \<le> used + 2" by (rule ref_sum_bound[OF assms(1) less.prems(1)])
    have b: "?b \<le> ref_blocks used ?b ?t"
      using less.prems by (subst (1 2) ref_blocks_def) (intro ceil_div_mono, simp)
    then have t: "?t \<le> ref_tables (ref_blocks used ?b ?t)"
      by (subst (1 2) ref_tables_def) (intro ceil_div_mono, simp)
    have "rb + rt < ?b + ?t" using False less.prems by linarith
    then have "used + 2 - (?b + ?t) < used + 2 - (rb + rt)" using sum by linarith
    from less.hyps[OF this sum b t] obtain rb' rt' where
      "refcount_loop used ?b ?t = Some (rb', rt')" "rb' = ref_blocks used rb' rt'" "rt' = ref_tables rb'"
      "?b \<le> rb'" "?t \<le> rt'" "rb' + rt' \<le> used + 2" by blast
    then show ?thesis using eq False less.prems by (metis le_trans)
  qed
qed

lemma refcount_loop_ok:
  assumes "1 \<le> used"
  shows "\<exists>rb rt. refcount_loop used 1 1 = Some (rb, rt) \<and> used + rt + rb \<le> rb * refcountsPerCl
    \<and> rb * 8 \<le> rt * clusterSize \<and> rb + rt \<le> used + 2 \<and> rt * clusterSize < rb * 8 + clusterSize"
proof -
  have 1: "1 \<le> ceil_div x b" if "0 < x" "0 < b" for x b
    using that ceil_div_le_iff[of b x 0] by (cases "ceil_div x b") auto
  have b: "1 \<le> ref_blocks used 1 1" unfolding ref_blocks_def by (rule 1) (auto simp: qcow_consts)
  then have t: "1 \<le> ref_tables (ref_blocks used 1 1)" unfolding ref_tables_def by (intro 1) (auto simp: qcow_consts)
  obtain rb rt where r: "refcount_loop used 1 1 = Some (rb, rt)" "rb = ref_blocks used rb rt"
    "rt = ref_tables rb" "1 \<le> rb" "rb + rt \<le> used + 2"
    using refcount_loop_settles[OF assms _ b t] assms by auto
  have "rt * clusterSize < rb * 8 + clusterSize"
    unfolding r(3) ref_tables_def using r(4) by (intro ceil_div_mult_less) (auto simp: qcow_consts)
  moreover have "used + rt + rb \<le> ref_blocks used rb rt * refcountsPerCl" "rb * 8 \<le> ref_tables rb * clusterSize"
    unfolding ref_blocks_def ref_tables_def by (rule ceil_div_mult_ge, simp add: qcow_consts)+
  ultimately show ?thesis using r by metis
qed

lemma length_refcount_fold: "tot * w \<le> length b \<Longrightarrow> length (fold (\<lambda>c b. put_be w (c * w) (v c) b) [0 ..< tot] b) = length b"
  by (induction tot arbitrary: b) auto

lemma refcount_blocks_ok:
  "tot \<le> rb * refcountsPerCl \<Longrightarrow> \<exists>b. refcount_blocks rb tot = Inr b \<and> length b = rb * clusterSize"
  using length_refcount_fold[of tot 2 "zeros (rb * clusterSize)" "\<lambda>c. 1"]
  by (auto simp: refcount_blocks_def qcow_consts)

lemma refcount_table_ok:
  "rb * 8 \<le> rt * clusterSize \<Longrightarrow> \<exists>b. refcount_table rt rb off = Inr b \<and> length b = rt * clusterSize"
  using length_refcount_fold[of rb 8 "zeros (rt * clusterSize)"]
  by (auto simp: refcount_table_def)

section \<open>Finalize\<close>

lemma set_l1_slots: "set (l1_slots m) = (\<lambda>e. fst e div l2Entries) ` set m"
  by (simp add: l1_slots_def)

lemma length_l1_slots: "length (l1_slots m) \<le> length m"
  using length_remdups_leq[of "map (\<lambda>e. fst e div l2Entries) m"] by (simp add: l1_slots_def)

lemma slot_bound:
  assumes "map_ok m next sz" "idx \<in> set (l1_slots m)"
  shows "idx < ceil_div sz (clusterSize * l2Entries)"
proof -
  obtain gc where gc: "gc * clusterSize < sz" "idx = gc div l2Entries"
    using assms by (auto simp: set_l1_slots map_ok_def)
  have "idx * (clusterSize * l2Entries) = (gc div l2Entries * l2Entries) * clusterSize"
    using gc by (simp add: ac_simps)
  also have "\<dots> \<le> gc * clusterSize" by (intro mult_le_mono1 div_times_less_eq_dividend)
  finally have "idx * (clusterSize * l2Entries) < sz" using gc(1) by (rule le_less_trans)
  then have "\<not> ceil_div sz (clusterSize * l2Entries) \<le> idx"
    by (subst ceil_div_le_iff) (auto simp: qcow_consts)
  then show ?thesis by simp
qed

text \<open>What the host file holds once the L2 table of every slot in \<open>idxs\<close> is written.\<close>

definition l2_written :: "(nat \<Rightarrow> byte) \<Rightarrow> (nat \<times> nat) list \<Rightarrow> 64 word list \<Rightarrow> nat \<Rightarrow> nat \<Rightarrow> nat \<Rightarrow> bool" where
  "l2_written g m l1 lo hi idx \<longleftrightarrow> (\<exists>k. lo \<le> k \<and> k < hi \<and> l1 ! idx = entry k
     \<and> fslice g (k * clusterSize) clusterSize = table_bytes (l2_table m idx))"

lemma l2_written_mono:
  assumes "l2_written g m l1 lo hi idx" "lo' \<le> lo" "hi \<le> hi'" "l1' ! idx = l1 ! idx"
    and "\<And>i. lo * clusterSize \<le> i \<Longrightarrow> i < hi * clusterSize \<Longrightarrow> g' i = g i"
  shows "l2_written g' m l1' lo' hi' idx"
proof -
  obtain k where k: "lo \<le> k" "k < hi" "l1 ! idx = entry k"
    "fslice g (k * clusterSize) clusterSize = table_bytes (l2_table m idx)"
    using assms by (auto simp: l2_written_def)
  have "lo * clusterSize \<le> k * clusterSize" using k by (intro mult_le_mono1)
  moreover have "Suc k * clusterSize \<le> hi * clusterSize" using k by (intro mult_le_mono1) simp
  ultimately have "lo * clusterSize \<le> i \<and> i < hi * clusterSize"
    if "k * clusterSize \<le> i" "i < k * clusterSize + clusterSize" for i
    using that unfolding mult_Suc by linarith
  then have "fslice g' (k * clusterSize) clusterSize = fslice g (k * clusterSize) clusterSize"
    by (intro fslice_cong assms(5)) blast+
  then show ?thesis unfolding l2_written_def using k assms(2-4) by (intro exI[of _ k]) auto
qed


text \<open>
  What a finalized image holds: the header in cluster 0, the data clusters as they were, the L1
  table, and the L2 table of every populated slot.
\<close>

definition image_layout :: "(nat \<Rightarrow> byte) \<Rightarrow> (nat \<Rightarrow> byte) \<Rightarrow> (nat \<times> nat) list \<Rightarrow> qheader \<Rightarrow> 64 word list \<Rightarrow> bool" where
  "image_layout g0 g m h l1 \<longleftrightarrow>
     fslice g 0 clusterSize = qh_marshal h \<and> qh_wf h \<and> qh_clusterBits h = clusterBits
   \<and> length l1 = qh_l1Size h \<and> qh_l1TableOffset h < 2 ^ 56
   \<and> fslice g (qh_l1TableOffset h) (length l1 * 8) = table_bytes l1
   \<and> (\<forall>(gc, host) \<in> set m. \<forall>i < clusterSize. g (host * clusterSize + i) = g0 (host * clusterSize + i))
   \<and> (\<forall>idx < length l1. if idx \<in> set (l1_slots m)
        then l2_written g m l1 1 (2 ^ 40) idx else l1 ! idx = 0)
   \<and> (\<forall>idx \<in> set (l1_slots m). idx < length l1)"

lemma qw_swap: "w\<lparr>qw_nextHost := n, qw_f := f\<rparr> = w\<lparr>qw_f := f, qw_nextHost := n\<rparr>"
  by (cases w) simp

context growing_file
begin

lemma write_table_at:
  assumes "off + length es * 8 < 2 ^ 62"
  shows "\<exists>f'. writeTable F w es off = (None, w\<lparr>qw_f := f'\<rparr>)
    \<and> fbyte f' = overlay (fbyte (qw_f w)) off (table_bytes es)"
proof -
  have "off + length (table_bytes es) < 2 ^ 62" using assms by simp
  from f_write[OF this, of "qw_f w"] show ?thesis by (auto simp: writeTable_def)
qed

lemma l2_loop_ok:
  assumes "distinct idxs" "\<forall>idx \<in> set idxs. idx < length l1" "(qw_nextHost w + length idxs) * clusterSize < 2 ^ 62"
  shows "\<exists>l1' f'. l2_loop F w l1 idxs
        = (Inr l1', w\<lparr>qw_f := f', qw_nextHost := qw_nextHost w + length idxs\<rparr>)
     \<and> length l1' = length l1
     \<and> (\<forall>i < qw_nextHost w * clusterSize. fbyte f' i = fbyte (qw_f w) i)
     \<and> (\<forall>i. i \<notin> set idxs \<longrightarrow> l1' ! i = l1 ! i)
     \<and> (\<forall>i \<in> set idxs. l2_written (fbyte f') (qw_l2map w) l1' (qw_nextHost w) (qw_nextHost w + length idxs) i)"
  using assms
proof (induction idxs arbitrary: w l1)
  case Nil
  then show ?case by (auto intro!: exI[of _ "qw_f w"])
next
  case (Cons idx idxs)
  let ?n = "qw_nextHost w" and ?m = "qw_l2map w"
  have le: "?n * clusterSize + length (l2_table ?m idx) * 8 \<le> (?n + length (idx # idxs)) * clusterSize"
    by (simp add: qcow_consts)
  then have "?n * clusterSize + length (l2_table ?m idx) * 8 < 2 ^ 62" using Cons.prems(3) by (rule le_less_trans)
  from write_table_at[OF this, of "w\<lparr>qw_nextHost := ?n + 1\<rparr>"] obtain f1 where
    w1: "writeTable F (w\<lparr>qw_nextHost := ?n + 1\<rparr>) (l2_table ?m idx) (?n * clusterSize)
      = (None, w\<lparr>qw_f := f1, qw_nextHost := ?n + 1\<rparr>)"
    "fbyte f1 = overlay (fbyte (qw_f w)) (?n * clusterSize) (table_bytes (l2_table ?m idx))"
    by (auto simp: qw_swap)
  let ?w = "w\<lparr>qw_f := f1, qw_nextHost := ?n + 1\<rparr>" and ?l1 = "l1[idx := entry ?n]"
  have "distinct idxs" "\<forall>i \<in> set idxs. i < length ?l1" "(qw_nextHost ?w + length idxs) * clusterSize < 2 ^ 62"
    using Cons.prems by auto
  from Cons.IH[OF this] obtain l1' f' where
    r: "l2_loop F ?w ?l1 idxs = (Inr l1', ?w\<lparr>qw_f := f', qw_nextHost := ?n + 1 + length idxs\<rparr>)"
    "length l1' = length l1" "\<forall>i < (?n + 1) * clusterSize. fbyte f' i = fbyte f1 i"
    "\<forall>i. i \<notin> set idxs \<longrightarrow> l1' ! i = ?l1 ! i"
    "\<forall>i \<in> set idxs. l2_written (fbyte f') ?m l1' (?n + 1) (?n + 1 + length idxs) i"
    by auto
  have eq: "l2_loop F w l1 (idx # idxs) = (Inr l1', w\<lparr>qw_f := f', qw_nextHost := ?n + length (idx # idxs)\<rparr>)"
    using w1(1) r(1) Cons.prems(2) by (simp add: Let_def entry_def)
  have tb: "length (table_bytes (l2_table ?m idx)) = clusterSize" by (simp add: qcow_consts)
  have "fslice (fbyte f1) (?n * clusterSize) clusterSize = table_bytes (l2_table ?m idx)"
    unfolding w1(2) using tb by (intro fslice_overlay_same) simp
  moreover have "fslice (fbyte f') (?n * clusterSize) clusterSize = fslice (fbyte f1) (?n * clusterSize) clusterSize"
    using r(3) by (intro fslice_cong) auto
  moreover have "l1' ! idx = entry ?n" using r(4) Cons.prems by auto
  ultimately have here: "l2_written (fbyte f') ?m l1' ?n (?n + length (idx # idxs)) idx"
    unfolding l2_written_def by (intro exI[of _ ?n]) auto
  have there: "l2_written (fbyte f') ?m l1' ?n (?n + length (idx # idxs)) i" if "i \<in> set idxs" for i
    using r(5) that by (intro l2_written_mono[OF bspec[OF r(5) that]]) auto
  have "fbyte f' i = fbyte (qw_f w) i" if "i < ?n * clusterSize" for i
  proof -
    have "fbyte f' i = fbyte f1 i" using r(3) that by auto
    then show ?thesis using that unfolding w1(2) by (simp add: overlay_def)
  qed
  moreover have "l1' ! i = l1 ! i" if "i \<notin> set (idx # idxs)" for i using r(4) that by auto
  ultimately show ?case using eq r(2) here there by auto
qed

lemma write_refcounts_ok:
  assumes n: "1 \<le> qw_nextHost w" "qw_nextHost w \<le> 2 ^ 37"
  shows "\<exists>rt rb f'. writeRefcounts F w = (Inr (qw_nextHost w * clusterSize, rt),
        w\<lparr>qw_f := f', qw_nextHost := qw_nextHost w + rt + rb\<rparr>)
     \<and> rb + rt \<le> qw_nextHost w + 2 \<and> rt < 2 ^ 32
     \<and> (\<forall>i < qw_nextHost w * clusterSize. fbyte f' i = fbyte (qw_f w) i)"
proof -
  let ?n = "qw_nextHost w"
  obtain rb rt where r: "refcount_loop ?n 1 1 = Some (rb, rt)" "?n + rt + rb \<le> rb * refcountsPerCl"
    "rb * 8 \<le> rt * clusterSize" "rb + rt \<le> ?n + 2" "rt * clusterSize < rb * 8 + clusterSize"
    using refcount_loop_ok[OF n(1)] by blast
  have rt: "rt < 2 ^ 32" using r(4,5) n(2) by (simp add: clusterSize_def)
  let ?rb = "(?n + rt) * clusterSize" and ?rt = "?n * clusterSize"
  obtain blocks where b: "refcount_blocks rb (?n + rt + rb) = Inr blocks" "length blocks = rb * clusterSize"
    using refcount_blocks_ok[OF r(2)] by blast
  obtain table where t: "refcount_table rt rb ?rb = Inr table" "length table = rt * clusterSize"
    using refcount_table_ok[OF r(3)] by blast
  have le: "?rb + length blocks < 2 ^ 62" "?rt + length table < 2 ^ 62"
    using n r(4) b(2) t(2) by (auto simp: clusterSize_def algebra_simps)
  obtain f1 where f1: "hf_write_at F (qw_f w) blocks (int ?rb) = ((length blocks, None), f1)"
    "fbyte f1 = overlay (fbyte (qw_f w)) ?rb blocks" using f_write[OF le(1)] by blast
  obtain f2 where f2: "hf_write_at F f1 table (int ?rt) = ((length table, None), f2)"
    "fbyte f2 = overlay (fbyte f1) ?rt table" using f_write[OF le(2)] by blast
  have "writeRefcounts F w = (Inr (?rt, rt), w\<lparr>qw_f := f2, qw_nextHost := ?n + rt + rb\<rparr>)"
    using r(1) b(1) t(1) f1(1) f2(1) by (simp add: writeRefcounts_def Let_def del: of_nat_mult of_nat_add)
  moreover have "fbyte f2 i = fbyte (qw_f w) i" if "i < ?rt" for i
    using that unfolding f1(2) f2(2) by (auto simp: overlay_def algebra_simps)
  ultimately show ?thesis using r(4) rt by blast
qed

lemma Finalize_ok:
  assumes inv: "qw_inv fbyte w" and nf: "\<not> qw_finalized w"
  shows "\<exists>w' h l1. Finalize F w = (None, w') \<and> qh_size h = nat (qw_size w)
     \<and> qh_l1Size h = ceil_div (nat (qw_size w)) (clusterSize * l2Entries)
     \<and> image_layout (fbyte (qw_f w)) (fbyte (qw_f w')) (qw_l2map w) h l1"
proof -
  let ?n = "qw_nextHost w" and ?m = "qw_l2map w" and ?s = "l1_slots (qw_l2map w)" and ?g = "fbyte (qw_f w)"
  let ?L = "ceil_div (nat (qw_size w)) (clusterSize * l2Entries)" and ?cs = clusterSize
  have mk: "map_ok ?m ?n (nat (qw_size w))" and sz: "0 < qw_size w" "nat (qw_size w) \<le> 2 ^ 50"
    and l1: "qw_l1Size w = int ?L" using inv by (auto simp: qw_inv_def)
  have n: "1 \<le> ?n" "?n \<le> 2 ^ 34 + 1" "length ?s \<le> ?n"
    using map_ok_length[OF mk sz(2)] mk length_l1_slots[of ?m] by (auto simp: map_ok_def)
  have L: "?L \<le> 2 ^ 21"
    using sz(2) by (subst ceil_div_le_iff) (auto simp: qcow_consts)
  have slots: "\<forall>idx \<in> set ?s. idx < ?L" using slot_bound[OF mk] by blast
  let ?n1 = "?n + length ?s"
  let ?n2 = "?n1 + ceil_div (?L * 8) ?cs"
  have c: "ceil_div (?L * 8) ?cs \<le> ?L" by (subst ceil_div_le_iff) (auto simp: qcow_consts)
  have n2: "1 \<le> ?n2" "?n2 \<le> 2 ^ 36" using n c L by auto
  have "distinct ?s" by (simp add: l1_slots_def)
  moreover have "(qw_nextHost (w\<lparr>qw_finalized := True\<rparr>) + length ?s) * ?cs < 2 ^ 62"
    using n by (simp add: clusterSize_def)
  ultimately obtain l1' f1 where W1: "writeL2Tables F (w\<lparr>qw_finalized := True\<rparr>) (replicate ?L 0)
      = (Inr l1', w\<lparr>qw_finalized := True, qw_f := f1, qw_nextHost := ?n1\<rparr>)"
    "length l1' = ?L" "\<forall>i < ?n * ?cs. fbyte f1 i = ?g i" "\<forall>i. i \<notin> set ?s \<longrightarrow> l1' ! i = replicate ?L 0 ! i"
    "\<forall>i \<in> set ?s. l2_written (fbyte f1) ?m l1' ?n ?n1 i"
    using l2_loop_ok[of ?s "replicate ?L 0" "w\<lparr>qw_finalized := True\<rparr>"] slots
    unfolding writeL2Tables_def by auto
  have "?n1 * ?cs + length l1' * 8 < 2 ^ 62" using n L W1(2) by (simp add: clusterSize_def)
  then obtain f2 where W2: "writeTable F (w\<lparr>qw_finalized := True, qw_f := f1, qw_nextHost := ?n2\<rparr>) l1' (?n1 * ?cs)
      = (None, w\<lparr>qw_finalized := True, qw_f := f2, qw_nextHost := ?n2\<rparr>)"
    "fbyte f2 = overlay (fbyte f1) (?n1 * ?cs) (table_bytes l1')"
    using write_table_at[of "?n1 * ?cs" l1' "w\<lparr>qw_finalized := True, qw_f := f1, qw_nextHost := ?n2\<rparr>"]
    by (auto simp: qw_swap)
  obtain rt rb f3 where W3: "writeRefcounts F (w\<lparr>qw_finalized := True, qw_f := f2, qw_nextHost := ?n2\<rparr>)
      = (Inr (?n2 * ?cs, rt), w\<lparr>qw_finalized := True, qw_f := f3, qw_nextHost := ?n2 + rt + rb\<rparr>)"
    "rb + rt \<le> ?n2 + 2" "rt < 2 ^ 32" "\<forall>i < ?n2 * ?cs. fbyte f3 i = fbyte f2 i"
    using write_refcounts_ok[of "w\<lparr>qw_finalized := True, qw_f := f2, qw_nextHost := ?n2\<rparr>"] n2
    by (auto simp: qw_swap)
  let ?n3 = "?n2 + rt + rb"
  obtain h where h: "h = \<lparr> qh_version = 3, qh_clusterBits = clusterBits, qh_size = nat (qw_size w),
      qh_l1Size = ?L, qh_l1TableOffset = ?n1 * ?cs, qh_refTableOffset = ?n2 * ?cs,
      qh_refTableClusters = rt, qh_refcountOrder = 4 \<rparr>" by blast
  have h64: "u64_of_int (qw_size w) = nat (qw_size w)" "u32_of_int (int ?L) = ?L" "u32 rt = rt"
    using sz L W3(3) by (auto simp: u32_of_int_def)
  have "length (qh_marshal h) < 2 ^ 62" by (simp add: clusterSize_def)
  then obtain f4 where f4: "hf_write_at F f3 (qh_marshal h) 0 = ((?cs, None), f4)"
    "fbyte f4 = overlay (fbyte f3) 0 (qh_marshal h)"
    using f_write[of 0 "qh_marshal h" f3] by auto
  have "?n3 * ?cs < 2 ^ 62" using n2 W3(2) by (simp add: clusterSize_def)
  then obtain f5 where f5: "hf_truncate F f4 (int (?n3 * ?cs)) = (None, f5)"
    "fbyte f5 = (\<lambda>i. if i < ?n3 * ?cs then fbyte f4 i else 0)"
    using f_truncate by blast
  obtain W where W: "W = w\<lparr>qw_finalized := True, qw_f := f5, qw_nextHost := ?n3\<rparr>" by blast
  have "Finalize F w = (None, W)"
    using nf l1 W1(1) W2(1) W3(1) f4(1) f5(1) h h64
    by (simp add: Finalize_def Let_def qw_swap W del: of_nat_mult of_nat_add)
  moreover have "image_layout ?g (fbyte f5) ?m h l1'"
  proof -
    have le: "?n \<le> ?n1" "?n1 \<le> ?n2" "?n2 \<le> ?n3" by simp_all
    have lec: "?n * ?cs \<le> ?n1 * ?cs" "?n1 * ?cs \<le> ?n2 * ?cs" "?n2 * ?cs \<le> ?n3 * ?cs" "?cs \<le> ?n * ?cs"
      using mult_le_mono1[OF le(1)] mult_le_mono1[OF le(2)] mult_le_mono1[OF le(3)]
        mult_le_mono1[OF n(1)] by simp_all
    have g2: "fbyte f5 i = fbyte f2 i" if "?cs \<le> i" "i < ?n2 * ?cs" for i
      using that W3(4) less_le_trans[OF that(2) lec(3)] by (simp only: f5(2) f4(2)) (simp add: overlay_def)
    have g1: "fbyte f5 i = fbyte f1 i" if "?cs \<le> i" "i < ?n1 * ?cs" for i
      using g2[OF that(1) less_le_trans[OF that(2) lec(2)]] that by (simp only: W2(2)) (simp add: overlay_def)
    have g0: "fbyte f5 i = ?g i" if "?cs \<le> i" "i < ?n * ?cs" for i
      using g1[OF that(1) less_le_trans[OF that(2) lec(1)]] that W1(3) by simp
    have "fslice (fbyte f5) 0 ?cs = fslice (overlay (fbyte f3) 0 (qh_marshal h)) 0 ?cs"
    proof (rule fslice_cong)
      have "?cs \<le> ?n3 * ?cs" using lec by (meson order.trans)
      then have "i < ?n3 * ?cs" if "i < 0 + ?cs" for i using that by (simp only: add_0)
      then show "fbyte f5 i = overlay (fbyte f3) 0 (qh_marshal h) i" if "i < 0 + ?cs" for i
        using that by (simp only: f5(2) f4(2) if_True)
    qed
    then have hdr: "fslice (fbyte f5) 0 ?cs = qh_marshal h" by (simp add: fslice_overlay_same)
    have tl: "?L * 8 \<le> ceil_div (?L * 8) ?cs * ?cs" by (rule ceil_div_mult_ge) (simp add: clusterSize_def)
    have "fslice (fbyte f5) (?n1 * ?cs) (length l1' * 8) = fslice (fbyte f2) (?n1 * ?cs) (length l1' * 8)"
    proof (rule fslice_cong)
      have lo: "?cs \<le> ?n1 * ?cs" using lec by (meson order.trans)
      have "?n2 * ?cs = ?n1 * ?cs + ceil_div (?L * 8) ?cs * ?cs" by (rule add_mult_distrib)
      then have hi: "?n1 * ?cs + length l1' * 8 \<le> ?n2 * ?cs" by (simp only: W1(2) add_le_cancel_left tl)
      show "fbyte f5 i = fbyte f2 i" if "?n1 * ?cs \<le> i" "i < ?n1 * ?cs + length l1' * 8" for i
        by (rule g2[OF order.trans[OF lo that(1)] less_le_trans[OF that(2) hi]])
    qed
    then have tab: "fslice (fbyte f5) (?n1 * ?cs) (length l1' * 8) = table_bytes l1'"
      unfolding W2(2) by (simp add: fslice_overlay_same)
    have data: "\<forall>(gc, host) \<in> set ?m. \<forall>i < ?cs. fbyte f5 (host * ?cs + i) = ?g (host * ?cs + i)"
    proof safe
      fix gc host i assume "(gc, host) \<in> set ?m" and i: "i < ?cs"
      then have h: "1 \<le> host" "Suc host \<le> ?n" using mk by (auto simp: map_ok_def)
      note lo = mult_le_mono1[OF h(1), of ?cs] and hi = mult_le_mono1[OF h(2), of ?cs]
      have b: "host * ?cs + i < Suc host * ?cs" using i unfolding mult_Suc by linarith
      have a: "?cs \<le> host * ?cs + i" using lo unfolding mult_1 by linarith
      show "fbyte f5 (host * ?cs + i) = ?g (host * ?cs + i)" by (rule g0[OF a less_le_trans[OF b hi]])
    qed
    have tables: "l2_written (fbyte f5) ?m l1' 1 (2 ^ 40) i" if "i \<in> set ?s" for i
    proof (rule l2_written_mono[OF bspec[OF W1(5) that]])
      show "fbyte f5 j = fbyte f1 j" if "?n * ?cs \<le> j" "j < ?n1 * ?cs" for j
        by (rule g1[OF order.trans[OF lec(4) that(1)] that(2)])
    qed (use n in auto)
    have rest: "l1' ! i = 0" if "i < ?L" "i \<notin> set ?s" for i using W1(4) that by simp
    have "qh_wf h" using sz L W3(2,3) n n2 by (auto simp: h qh_wf_def clusterBits_def clusterSize_def)
    moreover have "?n1 * ?cs < 2 ^ 56" using n by (simp add: clusterSize_def)
    ultimately show ?thesis
      using hdr tab data tables rest W1(2) slots by (simp add: image_layout_def h)
  qed
  ultimately show ?thesis using h W by (intro exI[of _ W] exI[of _ h] exI[of _ l1']) simp
qed

end

section \<open>Reading a finalized image back\<close>

text \<open>A reader open on an image with the given layout; its cache holds tables of the image.\<close>

definition qr_inv :: "'f \<Rightarrow> (nat \<times> nat) list \<Rightarrow> nat \<Rightarrow> 64 word list \<Rightarrow> 'f qreader \<Rightarrow> bool" where
  "qr_inv f m sz l1 r \<longleftrightarrow> qr_f r = f \<and> qr_size r = int sz \<and> qr_clusterSize r = clusterSize
     \<and> qr_l2Entries r = l2Entries \<and> qr_l1 r = l1
     \<and> (\<forall>(i, t) \<in> set (qr_l2cache r). t = l2_table m i)"

context growing_file
begin

lemma qr_open_ok:
  assumes "image_layout g0 (fbyte f) m h l1" "qh_size h = sz" "sz \<le> 2 ^ 50"
  shows "\<exists>r. qr_open F f = Inr r \<and> qr_inv f m sz l1 r"
proof -
  have lay: "fslice (fbyte f) 0 clusterSize = qh_marshal h" "qh_wf h" "qh_clusterBits h = clusterBits"
    "length l1 = qh_l1Size h" "qh_l1TableOffset h < 2 ^ 56"
    "fslice (fbyte f) (qh_l1TableOffset h) (length l1 * 8) = table_bytes l1"
    using assms(1) by (auto simp: image_layout_def)
  have "fslice (fbyte f) 0 headerLen = window (fslice (fbyte f) 0 clusterSize) 0 headerLen"
    by (simp add: fslice_def window_def take_map qcow_consts)
  then have "hf_read_full F f headerLen 0 = Inr (window (qh_marshal h) 0 headerLen)"
    using f_read[of 0 headerLen f] lay(1) by (simp add: headerLen_def)
  moreover have "parseHeader (window (qh_marshal h) 0 headerLen) = Inr h"
    using lay(2) by (intro parse_marshal) (auto simp: qcow_consts)
  moreover have "hf_read_full F f (qh_l1Size h * 8) (i64 (int (qh_l1TableOffset h))) = Inr (table_bytes l1)"
    using f_read[of "qh_l1TableOffset h" "qh_l1Size h * 8" f] lay by (simp add: qh_wf_def)
  ultimately show ?thesis
    using lay assms by (simp add: qr_open_def Let_def decode_table_bytes qr_inv_def clusterBits_def qcow_consts)
qed

lemma l2table_ok:
  assumes "qr_inv f m sz l1 r" "fslice (fbyte f) off clusterSize = table_bytes (l2_table m idx)"
    and "off + clusterSize < 2 ^ 62"
  shows "\<exists>r'. qr_l2table F r idx off = (Inr (l2_table m idx), r') \<and> qr_inv f m sz l1 r'"
proof (cases "map_of (qr_l2cache r) idx")
  case (Some t)
  then have "t = l2_table m idx" using assms(1) by (auto simp: qr_inv_def dest!: map_of_SomeD)
  then show ?thesis using Some assms(1) by (simp add: qr_l2table_def)
next
  case None
  have "hf_read_full F (qr_f r) clusterSize (int off) = Inr (table_bytes (l2_table m idx))"
    using f_read[OF assms(3), of f] assms(1,2) by (simp add: qr_inv_def)
  then show ?thesis using None assms(1)
    by (auto simp: qr_l2table_def qr_inv_def Let_def decode_table_bytes)
qed

lemma hostOffset_ok:
  assumes inv: "qr_inv f m sz l1 r" and lay: "image_layout g0 (fbyte f) m h l1"
    and mk: "map_ok m next sz" "sz \<le> 2 ^ 50"
  shows "\<exists>r'. hostOffset F r gc = (Inr (map_option (\<lambda>host. host * clusterSize) (map_of m gc)), r')
    \<and> qr_inv f m sz l1 r'"
proof -
  let ?i = "gc div l2Entries"
  have r: "qr_l1 r = l1" "qr_l2Entries r = l2Entries" using inv by (auto simp: qr_inv_def)
  have unalloc: "map_of m gc = None" if "?i \<notin> set (l1_slots m)"
    using that by (force simp: map_of_eq_None_iff set_l1_slots)
  show ?thesis
  proof (cases "?i \<in> set (l1_slots m)")
    case False
    then have "?i < length l1 \<Longrightarrow> l1 ! ?i = 0" using lay by (auto simp: image_layout_def)
    then have "hostOffset F r gc = (Inr None, r)" using r by (auto simp: hostOffset_def Let_def)
    then show ?thesis using unalloc[OF False] inv by auto
  next
    case True
    then have len: "?i < length l1" and "l2_written (fbyte f) m l1 1 (2 ^ 40) ?i"
      using lay by (auto simp: image_layout_def)
    then obtain k where k: "1 \<le> k" "k < 2 ^ 40" "l1 ! ?i = entry k"
      "fslice (fbyte f) (k * clusterSize) clusterSize = table_bytes (l2_table m ?i)"
      by (auto simp: l2_written_def)
    have "k * clusterSize + clusterSize < 2 ^ 62" using k by (simp add: clusterSize_def)
    from l2table_ok[OF inv k(4) this] obtain r' where
      r': "qr_l2table F r ?i (k * clusterSize) = (Inr (l2_table m ?i), r')" "qr_inv f m sz l1 r'" by blast
    have "gc mod l2Entries < l2Entries" by (simp add: qcow_consts)
    then have e: "l2_table m ?i ! (gc mod l2Entries) = (case map_of m gc of None \<Rightarrow> 0 | Some host \<Rightarrow> entry host)"
      using l2_table_nth[of m "gc mod l2Entries" ?i] mk by (simp add: map_ok_def)
    have host: "1 \<le> host \<and> host < 2 ^ 40" if "map_of m gc = Some host" for host
    proof -
      have "1 \<le> host" "host < next" using that mk by (auto simp: map_ok_def dest!: map_of_SomeD)
      then show ?thesis using map_ok_length[OF mk] by simp
    qed
    have mask: "entry k AND offsetMask \<noteq> 0" "unat (entry k AND offsetMask) = k * clusterSize"
      using k by (simp_all only: entry_mask unat_host_offset host_offset_0)
    have e': "qr_l2Entries r' = l2Entries" using r'(2) by (simp add: qr_inv_def)
    have "hostOffset F r gc = (Inr (map_option (\<lambda>host. host * clusterSize) (map_of m gc)), r')"
    proof (cases "map_of m gc")
      case None
      then show ?thesis using r' r len k(3) mask e e'
        by (simp add: hostOffset_def Let_def)
    next
      case (Some host)
      then have "entry host AND offsetMask \<noteq> 0" "unat (entry host AND offsetMask) = host * clusterSize"
        "entry host AND flagCompressed = 0" "entry host AND flagZero = 0"
        using host[OF Some] by (simp_all only: entry_mask unat_host_offset host_offset_0 entry_flags) simp_all
      then show ?thesis using r' r len k(3) mask e e' Some
        by (simp add: hostOffset_def Let_def)
    qed
    then show ?thesis using r' by blast
  qed
qed

lemma reader_loop:
  assumes lay: "image_layout g0 (fbyte f) m h l1" and mk: "map_ok m next sz" "sz \<le> 2 ^ 50"
    and "qr_inv f m sz l1 r" "at + left \<le> sz"
  shows "\<exists>r'. qr_read_loop F r left at = ((fslice (guest_byte g0 m) at left, None), r') \<and> qr_inv f m sz l1 r'"
  using assms(4,5)
proof (induction left arbitrary: at r rule: less_induct)
  case (less left)
  show ?case
  proof (cases "left = 0")
    case True
    then show ?thesis using less.prems by (simp add: qr_read_loop.simps fslice_def)
  next
    case False
    let ?n = "min (clusterSize - at mod clusterSize) left" and ?g = "guest_byte g0 m"
    have rf: "qr_f r = f" "qr_size r = int sz" "qr_clusterSize r = clusterSize"
      using less.prems by (auto simp: qr_inv_def)
    have "at mod clusterSize < clusterSize" by (simp add: clusterSize_def)
    then have n: "0 < ?n" "?n \<le> left" "at mod clusterSize + ?n \<le> clusterSize" using False by auto
    from hostOffset_ok[OF less.prems(1) lay mk] obtain r1 where
      r1: "hostOffset F r (at div clusterSize)
        = (Inr (map_option (\<lambda>host. host * clusterSize) (map_of m (at div clusterSize))), r1)" "qr_inv f m sz l1 r1"
      by blast
    have rf1: "qr_f r1 = f" using r1(2) by (simp add: qr_inv_def)
    have rd: "(case map_option (\<lambda>host. host * clusterSize) (map_of m (at div clusterSize)) of None \<Rightarrow> Inr (zeros ?n)
        | Some hh \<Rightarrow> hf_read_full F f ?n (int (hh + at mod clusterSize))) = Inr (fslice ?g at ?n)"
    proof (cases "map_of m (at div clusterSize)")
      case None
      have "?g (at + i) = 0" if "i < ?n" for i
        using div_mod_offset[of at clusterSize i] that n None by (simp add: guest_byte_def)
      then have "fslice ?g at ?n = zeros ?n" by (auto simp: fslice_def zeros_def intro!: nth_equalityI)
      then show ?thesis using None by simp
    next
      case (Some host)
      then have m: "(at div clusterSize, host) \<in> set m" by (rule map_of_SomeD)
      then have "host < next" using mk by (auto simp: map_ok_def)
      then have le: "host * clusterSize + at mod clusterSize + ?n < 2 ^ 62"
        using map_ok_length[OF mk] n(3) by (simp add: clusterSize_def)
      have data: "fbyte f (host * clusterSize + i) = g0 (host * clusterSize + i)" if "i < clusterSize" for i
        using lay m that by (auto simp: image_layout_def)
      have "fslice (fbyte f) (host * clusterSize + at mod clusterSize) ?n = fslice ?g at ?n"
      proof (rule nth_equalityI)
        fix i assume "i < length (fslice (fbyte f) (host * clusterSize + at mod clusterSize) ?n)"
        then have i: "i < ?n" by simp
        then have lt: "at mod clusterSize + i < clusterSize" using n(3) by linarith
        note div_mod_offset[OF lt]
        then show "fslice (fbyte f) (host * clusterSize + at mod clusterSize) ?n ! i = fslice ?g at ?n ! i"
          using Some i data[OF lt] by (simp add: nth_fslice guest_byte_def add.assoc)
      qed simp
      then show ?thesis using Some f_read[OF le, of f] by (simp del: of_nat_add of_nat_mult)
    qed
    have "left - ?n < left" "at + ?n + (left - ?n) \<le> sz" using n False less.prems(2) by linarith+
    from less.IH[OF this(1) r1(2) this(2)] obtain r2 where
      r2: "qr_read_loop F r1 (left - ?n) (at + ?n) = ((fslice ?g (at + ?n) (left - ?n), None), r2)" "qr_inv f m sz l1 r2"
      by blast
    have "\<not> int sz \<le> int at" "clusterSize \<noteq> 0" using False less.prems(2) by (auto simp: clusterSize_def)
    then have "qr_read_loop F r left at = ((fslice ?g at ?n @ fslice ?g (at + ?n) (left - ?n), None), r2)"
      by (simp only: qr_read_loop.simps[of F r left at] Let_def rf r1(1) rf1 rd r2(1) prod.case sum.case
          if_False False not_False_eq_True)
    then show ?thesis using r2(2) fslice_append[of ?g at ?n "left - ?n"] n(2) by simp
  qed
qed

end


section \<open>Properties\<close>

text \<open>A sequence of writes against the device, and the disk it describes.\<close>

definition run_writes :: "'f host_if \<Rightarrow> (bytes \<times> nat) list \<Rightarrow> 'f qwriter \<Rightarrow> 'f qwriter" where
  "run_writes F ws w = fold (\<lambda>(p, off) w. snd (qw_write_at F w p (int off))) ws w"

definition disk_after :: "nat \<Rightarrow> (bytes \<times> nat) list \<Rightarrow> bytes" where
  "disk_after sz ws = fold (\<lambda>(p, off) d. if off + length p \<le> sz then blit d off p else d) ws (zeros sz)"

lemma run_writes_view:
  assumes "qw_inv host_byte w" "nat (qw_size w) = sz" "qw_view host_byte w = d"
    and "list_all (\<lambda>(p, off). off + length p < 2 ^ 63) ws"
  shows "qw_inv host_byte (run_writes host_ops ws w) \<and> nat (qw_size (run_writes host_ops ws w)) = sz
    \<and> qw_finalized (run_writes host_ops ws w) = qw_finalized w
    \<and> qw_view host_byte (run_writes host_ops ws w)
      = fold (\<lambda>(p, off) d. if off + length p \<le> sz then blit d off p else d) ws d"
  using assms
proof (induction ws arbitrary: w d)
  case Nil
  then show ?case by (simp add: run_writes_def)
next
  case (Cons e ws)
  obtain p off where e: "e = (p, off)" by fastforce
  have sz: "0 < qw_size w" using Cons.prems by (simp add: qw_inv_def)
  obtain w' where w': "qw_write_at host_ops w p (int off) = ((fst (fst (qw_write_at host_ops w p (int off))),
      snd (fst (qw_write_at host_ops w p (int off)))), w')" "qw_inv host_byte w'" "nat (qw_size w') = sz"
    "qw_view host_byte w' = (if off + length p \<le> sz then blit d off p else d)" "qw_finalized w' = qw_finalized w"
  proof (cases "off + length p \<le> sz")
    case True
    then have le: "off + length p \<le> nat (qw_size w)" using Cons.prems by simp
    from hostf.write_loop[OF Cons.prems(1) le, of 0] obtain w1 where
      w1: "qw_write_loop host_ops w 0 p off = ((length p, None), w1)" "qw_inv host_byte w1" "qw_size w1 = qw_size w"
        "qw_finalized w1 = qw_finalized w" by auto
    have io: "0 \<le> int off" "int off + int (length p) \<le> dev_size (qw_ops host_ops) w"
      using True Cons.prems sz by (auto simp: qw_ops_def)
    from qcow2.write_view[OF Cons.prems(1) io] obtain w2 where
      "qw_write_at host_ops w p (int off) = ((length p, None), w2)"
      "qw_view host_byte w2 = blit (qw_view host_byte w) off p" by (auto simp: qw_ops_def)
    moreover have "qw_write_at host_ops w p (int off) = ((length p, None), w1)"
      using True Cons.prems sz e w1 by (simp add: qw_write_at_def)
    ultimately show ?thesis using that[of w1] True w1 Cons.prems by auto
  next
    case False
    then have "dev_size (qw_ops host_ops) w < int off + int (length p)"
      using Cons.prems(2) sz by (simp add: qw_ops_def)
    then have "\<exists>e. qw_write_at host_ops w p (int off) = ((0, Some e), w)"
      using Cons.prems e sz by (simp add: qw_write_at_def qw_ops_def)
    then show ?thesis using that[of w] False Cons.prems by auto
  qed
  have "run_writes host_ops (e # ws) w = run_writes host_ops ws w'"
    using w'(1) e by (simp add: run_writes_def) (metis snd_conv)
  then show ?case using Cons.IH[OF w'(2,3,4)] Cons.prems(4) e w'(5) by simp
qed

lemma new_writer_ok:
  assumes "0 < sz" "sz \<le> 2 ^ 50"
  shows "\<exists>w. NewWriter [] (int sz) = Inr w \<and> qw_inv host_byte w \<and> qw_size w = int sz
    \<and> qw_view host_byte w = zeros sz \<and> \<not> qw_finalized w"
proof -
  have "ceilDiv (int sz) (int clusterSize * int l2Entries) = int (ceil_div sz (clusterSize * l2Entries))"
    using assms by (simp add: ceilDiv_def ceil_div_def Let_def qcow_consts zdiv_int)
  moreover have "fslice (\<lambda>v. 0) 0 sz = zeros sz" by (auto simp: fslice_def zeros_def intro!: nth_equalityI)
  moreover have "guest_byte (host_byte []) [] = (\<lambda>v. 0)" by (simp add: guest_byte_def fun_eq_iff)
  ultimately show ?thesis
    using assms by (auto simp: NewWriter_def qw_inv_def map_ok_def qw_view_def host_byte_def)
qed

text \<open>
  C4. A QCOW2 writer over an empty host file behaves as a zeroed disk of its virtual size: after
  any sequence of writes, in range or refused, every read inside the disk returns what a flat
  buffer with the same writes holds, whatever clusters were or were not allocated.
\<close>

theorem writer_is_a_flat_disk:
  assumes sz: "0 < sz" "sz \<le> 2 ^ 50" and w: "NewWriter [] (int sz) = Inr w"
    and ws: "list_all (\<lambda>(p, off). off + length p < 2 ^ 63) ws" and n: "off + n \<le> sz"
  shows "read_full (qw_ops host_ops) (run_writes host_ops ws w) n (int off)
       = Inr (window (disk_after sz ws) off n)"
proof -
  obtain w0 where w0: "NewWriter [] (int sz) = Inr w0" "qw_inv host_byte w0" "qw_size w0 = int sz"
    "qw_view host_byte w0 = zeros sz" using new_writer_ok[OF sz] by blast
  then have "w0 = w" using w by simp
  with w0 have v: "qw_inv host_byte (run_writes host_ops ws w)"
    "nat (qw_size (run_writes host_ops ws w)) = sz"
    "qw_view host_byte (run_writes host_ops ws w) = disk_after sz ws"
    using run_writes_view[OF w0(2) _ w0(4) ws, of sz] by (auto simp: disk_after_def)
  have "off + n \<le> length (qw_view host_byte (run_writes host_ops ws w))" using v(2) n by (simp add: qw_view_def)
  from qcow2.read_inside[OF v(1) this] show ?thesis using v(3) by simp
qed

text \<open>
  C2. Finalizing that writer succeeds (the refcount sizing loop settles, no index leaves a table)
  and the result opens as a QCOW2 image of the same size whose reader returns, for every read
  inside the disk, what was written: L1/L2 mapping, entry flags and header included.
\<close>

theorem finalized_image_reads_back:
  assumes sz: "0 < sz" "sz \<le> 2 ^ 50" and w: "NewWriter [] (int sz) = Inr w"
    and ws: "list_all (\<lambda>(p, off). off + length p < 2 ^ 63) ws" and n: "off + n \<le> sz" "0 < n"
  shows "\<exists>w' r. Finalize host_ops (run_writes host_ops ws w) = (None, w') \<and> qr_open host_ops (qw_f w') = Inr r
    \<and> qr_size r = int sz \<and> fst (qr_read_at host_ops r n (int off)) = (window (disk_after sz ws) off n, None)"
proof -
  let ?v = "run_writes host_ops ws w"
  obtain w0 where w0: "NewWriter [] (int sz) = Inr w0" "qw_inv host_byte w0" "qw_size w0 = int sz"
    "qw_view host_byte w0 = zeros sz" "\<not> qw_finalized w0" using new_writer_ok[OF sz] by blast
  then have "w0 = w" using w by simp
  with w0 have v: "qw_inv host_byte ?v" "nat (qw_size ?v) = sz" "\<not> qw_finalized ?v"
    "qw_view host_byte ?v = disk_after sz ws"
    using run_writes_view[OF w0(2) _ w0(4) ws, of sz] by (auto simp: disk_after_def)
  from hostf.Finalize_ok[OF v(1,3)] obtain w' h l1 where
    fin: "Finalize host_ops ?v = (None, w')" "qh_size h = sz"
      "image_layout (host_byte (qw_f ?v)) (host_byte (qw_f w')) (qw_l2map ?v) h l1" using v(2) by auto
  from hostf.qr_open_ok[OF fin(3,2) sz(2)] obtain r where
    r: "qr_open host_ops (qw_f w') = Inr r" "qr_inv (qw_f w') (qw_l2map ?v) sz l1 r" by blast
  have mk: "map_ok (qw_l2map ?v) (qw_nextHost ?v) sz" using v by (auto simp: qw_inv_def)
  from hostf.reader_loop[OF fin(3) mk sz(2) r(2) n(1)] obtain r' where
    "qr_read_loop host_ops r n off = ((fslice (guest_byte (host_byte (qw_f ?v)) (qw_l2map ?v)) off n, None), r')"
    by blast
  moreover have "fslice (guest_byte (host_byte (qw_f ?v)) (qw_l2map ?v)) off n = window (disk_after sz ws) off n"
    using n(1) v(2) by (intro nth_equalityI) (auto simp: nth_window nth_fslice qw_view_def simp flip: v(4))
  moreover have "qr_size r = int sz" using r(2) by (simp add: qr_inv_def)
  ultimately show ?thesis using fin(1) r(1) n by (auto simp: qr_read_at_def)
qed

definition sample_writes :: "(bytes \<times> nat) list" where
  "sample_writes = [([1, 2, 3], 0), ([7, 8], 65535), ([9], 1000000), ([0, 0], 20)]"

lemma sample_writes_ok:
  "list_all (\<lambda>(p, off). off + length p < 2 ^ 63) sample_writes"
  "\<exists>w. NewWriter ([] :: bytes) (int 200000) = Inr w"
  by (simp_all add: sample_writes_def NewWriter_def)

theorem writer_is_a_flat_disk_witness:
  "\<exists>w. NewWriter [] (int 200000) = Inr w
    \<and> read_full (qw_ops host_ops) (run_writes host_ops sample_writes w) 3 (int 65534)
     = Inr (window (disk_after 200000 sample_writes) 65534 3)"
proof -
  obtain w where w: "NewWriter ([] :: bytes) (int 200000) = Inr w" using sample_writes_ok(2) by blast
  show ?thesis using writer_is_a_flat_disk[OF _ _ w sample_writes_ok(1), of 65534 3] w by simp
qed

theorem finalized_image_reads_back_witness:
  "\<exists>w w' r. NewWriter [] (int 200000) = Inr w
    \<and> Finalize host_ops (run_writes host_ops sample_writes w) = (None, w') \<and> qr_open host_ops (qw_f w') = Inr r
    \<and> qr_size r = int 200000
    \<and> fst (qr_read_at host_ops r 3 (int 65534)) = (window (disk_after 200000 sample_writes) 65534 3, None)"
proof -
  obtain w where w: "NewWriter ([] :: bytes) (int 200000) = Inr w" using sample_writes_ok(2) by blast
  show ?thesis using finalized_image_reads_back[OF _ _ w sample_writes_ok(1), of 65534 3] w by auto
qed


text \<open>
  C14. The loop that sizes the refcount structures ends for any number of clusters, and what it
  settles on is enough: the blocks have a 16-bit counter for every cluster of the image, the blocks
  and the table themselves included, and the counter of each is 1.
\<close>

theorem refcounts_cover_image:
  assumes "1 \<le> used"
  shows "\<exists>rb rt b. refcount_loop used 1 1 = Some (rb, rt) \<and> rb * 8 \<le> rt * clusterSize
    \<and> refcount_blocks rb (used + rt + rb) = Inr b \<and> length b = rb * clusterSize
    \<and> (\<forall>c < used + rt + rb. get_be 2 b (c * 2) = 1)"
proof -
  obtain rb rt where r: "refcount_loop used 1 1 = Some (rb, rt)" "used + rt + rb \<le> rb * refcountsPerCl"
    "rb * 8 \<le> rt * clusterSize" using refcount_loop_ok[OF assms] by blast
  obtain b where b: "refcount_blocks rb (used + rt + rb) = Inr b" "length b = rb * clusterSize"
    using refcount_blocks_ok[OF r(2)] by blast
  have ones: "\<forall>c < tot. get_be 2 (fold (\<lambda>c b. put_be 2 (c * 2) 1 b) [0 ..< tot] z) (c * 2) = 1"
    if "tot * 2 \<le> length z" for tot z
    using that
  proof (induction tot)
    case (Suc tot)
    have len: "length (fold (\<lambda>c b. put_be 2 (c * 2) 1 b) [0 ..< tot] z) = length z"
      using length_refcount_fold[of tot 2 z "\<lambda>c. 1"] Suc.prems by simp
    then show ?case using Suc by (auto simp: less_Suc_eq get_put_be get_put_be_other)
  qed simp
  have "b = fold (\<lambda>c b. put_be 2 (c * 2) 1 b) [0 ..< used + rt + rb] (zeros (rb * clusterSize))"
    using b(1) by (auto simp: refcount_blocks_def split: if_splits)
  then show ?thesis using r b ones[of "used + rt + rb" "zeros (rb * clusterSize)"]
    by (auto simp: qcow_consts)
qed

theorem refcounts_cover_image_witness:
  "\<exists>rb rt b. refcount_loop 40000 1 1 = Some (rb, rt) \<and> rb * 8 \<le> rt * clusterSize
    \<and> refcount_blocks rb (40000 + rt + rb) = Inr b \<and> length b = rb * clusterSize
    \<and> (\<forall>c < 40000 + rt + rb. get_be 2 b (c * 2) = 1)"
  by (rule refcounts_cover_image) simp

end
