(* ===== verification/Cpio.thy ===== *)
theory Cpio
  imports Prelude Device Image
begin

text \<open>
  The cpio "newc" engine (\<open>pkg/cpio\<close>): the 110-byte ASCII header, the mode conversion, the
  writer that streams a tree into an archive and the reader that rebuilds a tree from one. The
  writer works on the unfolded tree (a node's index is its identity), the reader builds nodes in a
  store, as the Go code does through pointers.
\<close>

section \<open>Header\<close>

definition magicNewc :: string where "magicNewc = ''070701''"
definition magicCRC :: string where "magicCRC = ''070702''"
definition headerSize :: nat where "headerSize = 110"
definition trailerName :: string where "trailerName = ''TRAILER!!!''"
definition padTo :: nat where "padTo = 512"

definition nAlign :: "nat \<Rightarrow> nat" where
  "nAlign namesize = (namesize + 1) div 4 * 4 + 2"

definition align4 :: "nat \<Rightarrow> nat" where
  "align4 v = (v + 3) div 4 * 4"

record chdr =
  c_ino :: nat
  c_mode :: nat
  c_uid :: nat
  c_gid :: nat
  c_nlink :: nat
  c_mtime :: int
  c_filesize :: nat
  c_devmajor :: nat
  c_devminor :: nat
  c_rdevmajor :: nat
  c_rdevminor :: nat
  c_namesize :: nat

text \<open>\<open>strconv.FormatUint(v, 16)\<close> and \<open>strconv.ParseUint(s, 16, 32)\<close>.\<close>

definition hex_digit :: "nat \<Rightarrow> char" where
  "hex_digit d = (''0123456789abcdef'' ! d)"

fun format_hex :: "nat \<Rightarrow> string" where
  "format_hex v = (if v < 16 then [hex_digit v] else format_hex (v div 16) @ [hex_digit (v mod 16)])"

declare format_hex.simps [simp del]

definition hex_value :: "char \<Rightarrow> nat option" where
  "hex_value c =
     (let n = of_char c :: nat in
      if 48 \<le> n \<and> n \<le> 57 then Some (n - 48)
      else if 97 \<le> n \<and> n \<le> 102 then Some (n - 87)
      else if 65 \<le> n \<and> n \<le> 70 then Some (n - 55)
      else None)"

fun parse_hex_acc :: "nat \<Rightarrow> string \<Rightarrow> nat option" where
  "parse_hex_acc acc [] = Some acc"
| "parse_hex_acc acc (c # cs) =
     (case hex_value c of None \<Rightarrow> None | Some d \<Rightarrow> parse_hex_acc (acc * 16 + d) cs)"

definition parse_hex32 :: "string \<Rightarrow> nat option" where
  "parse_hex32 s =
     (if s = [] then None
      else case parse_hex_acc 0 s of None \<Rightarrow> None
        | Some v \<Rightarrow> if v < 2 ^ 32 then Some v else None)"

definition appendHex8 :: "bytes \<Rightarrow> nat \<Rightarrow> bytes" where
  "appendHex8 b v =
     (let s = format_hex v in b @ bytes_of (replicate (8 - length s) (CHR ''0'') @ s))"

definition chdr_fields :: "chdr \<Rightarrow> nat list" where
  "chdr_fields h =
     [c_ino h, c_mode h, c_uid h, c_gid h, c_nlink h, u32_of_int (c_mtime h), c_filesize h,
      c_devmajor h, c_devminor h, c_rdevmajor h, c_rdevminor h, c_namesize h, 0]"

definition c_marshal :: "chdr \<Rightarrow> bytes" where
  "c_marshal h = foldl appendHex8 (bytes_of magicNewc) (chdr_fields h)"

text \<open>The field loop of \<open>parseHeader\<close>, the field at index \<open>i\<close> next.\<close>

fun parse_fields :: "bytes \<Rightarrow> nat list \<Rightarrow> (nat list) result" where
  "parse_fields b [] = Inr []"
| "parse_fields b (i # is) =
     (case parse_hex32 (string_of (window b (6 + i * 8) 8)) of
        None \<Rightarrow> Inl (Err ''cpio: bad header field'')
      | Some v \<Rightarrow> bindE (parse_fields b is) (\<lambda>vs. Inr (v # vs)))"

text \<open>\<open>Inr None\<close> is the unrecognised magic of the Go result \<open>(hdr{}, false, nil)\<close>.\<close>

definition c_parseHeader :: "bytes \<Rightarrow> (chdr option) result" where
  "c_parseHeader b =
     (if length b < headerSize then Inl (Err ''cpio: short header'')
      else let magic = string_of (window b 0 6) in
        if magic \<noteq> magicNewc \<and> magic \<noteq> magicCRC then Inr None
        else bindE (parse_fields b [0 ..< 13]) (\<lambda>f.
          Inr (Some \<lparr> c_ino = f ! 0, c_mode = f ! 1, c_uid = f ! 2, c_gid = f ! 3, c_nlink = f ! 4,
            c_mtime = int (f ! 5), c_filesize = f ! 6, c_devmajor = f ! 7, c_devminor = f ! 8,
            c_rdevmajor = f ! 9, c_rdevminor = f ! 10, c_namesize = f ! 11 \<rparr>)))"

section \<open>Modes\<close>

definition sIFMT :: "32 word" where "sIFMT = 0xF000"
definition sIFSOCK :: "32 word" where "sIFSOCK = 0xC000"
definition sIFLNK :: "32 word" where "sIFLNK = 0xA000"
definition sIFREG :: "32 word" where "sIFREG = 0x8000"
definition sIFBLK :: "32 word" where "sIFBLK = 0x6000"
definition sIFDIR :: "32 word" where "sIFDIR = 0x4000"
definition sIFCHR :: "32 word" where "sIFCHR = 0x2000"
definition sIFIFO :: "32 word" where "sIFIFO = 0x1000"
definition sISUID :: "32 word" where "sISUID = 0x800"
definition sISGID :: "32 word" where "sISGID = 0x400"
definition sISVTX :: "32 word" where "sISVTX = 0x200"

lemmas unix_mode_defs = sIFMT_def sIFSOCK_def sIFLNK_def sIFREG_def sIFBLK_def sIFDIR_def sIFCHR_def
  sIFIFO_def sISUID_def sISGID_def sISVTX_def

definition modeToUnix :: "filemode \<Rightarrow> 32 word" where
  "modeToUnix m =
     (let v = mode_perm m;
          v = (if has m ModeSetuid then v OR sISUID else v);
          v = (if has m ModeSetgid then v OR sISGID else v);
          v = (if has m ModeSticky then v OR sISVTX else v) in
      if has m ModeDir then v OR sIFDIR
      else if has m ModeSymlink then v OR sIFLNK
      else if has m ModeCharDevice then v OR sIFCHR
      else if has m ModeDevice then v OR sIFBLK
      else if has m ModeNamedPipe then v OR sIFIFO
      else if has m ModeSocket then v OR sIFSOCK
      else v OR sIFREG)"

definition modeFromUnix :: "32 word \<Rightarrow> filemode" where
  "modeFromUnix v =
     (let m = v AND 0x1FF;
          m = (if v AND sISUID \<noteq> 0 then m OR ModeSetuid else m);
          m = (if v AND sISGID \<noteq> 0 then m OR ModeSetgid else m);
          m = (if v AND sISVTX \<noteq> 0 then m OR ModeSticky else m);
          t = v AND sIFMT in
      if t = sIFDIR then m OR ModeDir
      else if t = sIFLNK then m OR ModeSymlink
      else if t = sIFCHR then m OR (ModeCharDevice OR ModeDevice)
      else if t = sIFBLK then m OR ModeDevice
      else if t = sIFIFO then m OR ModeNamedPipe
      else if t = sIFSOCK then m OR ModeSocket
      else m)"

section \<open>Writer\<close>

record 'd cwriter =
  cw_dev :: 'd
  cw_pos :: nat
  cw_err :: "error option"

definition newCwriter :: "'d \<Rightarrow> 'd cwriter" where
  "newCwriter d = \<lparr> cw_dev = d, cw_pos = 0, cw_err = None \<rparr>"

text \<open>\<open>write\<close> is a no-op once an error is recorded.\<close>

definition cw_write :: "'d device_ops \<Rightarrow> bytes \<Rightarrow> 'd cwriter \<Rightarrow> 'd cwriter" where
  "cw_write D p w =
     (if cw_err w \<noteq> None then w
      else case write_all D (cw_dev w) p (int (cw_pos w)) of
        (Some e, d) \<Rightarrow> w\<lparr>cw_dev := d, cw_err := Some e\<rparr>
      | (None, d) \<Rightarrow> w\<lparr>cw_dev := d, cw_pos := cw_pos w + length p\<rparr>)"

definition writePad :: "'d device_ops \<Rightarrow> nat \<Rightarrow> 'd cwriter \<Rightarrow> 'd cwriter" where
  "writePad D n w = (if 0 < n then cw_write D (zeros n) w else w)"

definition pad4 :: "'d device_ops \<Rightarrow> 'd cwriter \<Rightarrow> 'd cwriter" where
  "pad4 D w = (let r = cw_pos w mod 4 in if r \<noteq> 0 then writePad D (4 - r) w else w)"

definition padArchive :: "'d device_ops \<Rightarrow> 'd cwriter \<Rightarrow> 'd cwriter" where
  "padArchive D w = (let r = cw_pos w mod padTo in if r \<noteq> 0 then writePad D (padTo - r) w else w)"

definition writeName :: "'d device_ops \<Rightarrow> string \<Rightarrow> 'd cwriter \<Rightarrow> 'd cwriter" where
  "writeName D path w =
     (let name = bytes_of path @ [0] in
      writePad D (nAlign (length name) - length name) (cw_write D name w))"

text \<open>\<open>streamContent\<close> reads 64 KiB at a time; a short read without an error is followed up.\<close>

function stream_loop :: "'d device_ops \<Rightarrow> source \<Rightarrow> nat \<Rightarrow> nat \<Rightarrow> 'd cwriter \<Rightarrow> 'd cwriter" where
  "stream_loop D src sz off w =
     (if off \<ge> sz then w
      else let (data, err) = src_read_at src (min 65536 (sz - off)) (int off);
               w' = (if 0 < length data then cw_write D data w else w) in
        if err \<noteq> None \<and> err \<noteq> Some EOF then w'\<lparr>cw_err := err\<rparr>
        else if length data = 0 then w'
        else stream_loop D src sz (off + length data) w')"
  by pat_completeness auto
termination
  by (relation "measure (\<lambda>(D, src, sz, off, w). sz - off)") (auto intro!: diff_less_mono2)

declare stream_loop.simps [simp del]

definition is_reg_node :: "node \<Rightarrow> bool" where
  "is_reg_node n \<longleftrightarrow> \<not> is_dir n
     \<and> md_mode n AND (ModeSymlink OR ModeDevice OR ModeCharDevice OR ModeNamedPipe OR ModeSocket) = 0"

text \<open>The header and the inline body \<open>writeEntry\<close> computes.\<close>

definition entry_size :: "node \<Rightarrow> bool \<Rightarrow> nat" where
  "entry_size n withBody =
     (if has (md_mode n) ModeSymlink then u32 (length (in_link n))
      else if is_reg_node n \<and> withBody then
        (case in_content n of None \<Rightarrow> 0 | Some c \<Rightarrow> u32_of_int (src_size c))
      else 0)"

definition entry_hdr :: "gotime \<Rightarrow> string \<Rightarrow> node \<Rightarrow> nat \<Rightarrow> nat \<Rightarrow> bool \<Rightarrow> chdr" where
  "entry_hdr now path n ino nlink withBody =
     (let mt = (if is_zero_time (md_mtime n) then now else md_mtime n);
          isdev = md_mode n AND (ModeDevice OR ModeCharDevice) \<noteq> 0 in
      \<lparr> c_ino = ino, c_mode = unat (modeToUnix (md_mode n)), c_uid = md_uid n, c_gid = md_gid n,
        c_nlink = (if is_dir n then u32_of_int (nd_nlink n) else nlink), c_mtime = gt_sec mt,
        c_filesize = entry_size n withBody, c_devmajor = 0, c_devminor = 0,
        c_rdevmajor = (if isdev then u32 (in_rdev n div 256) else 0),
        c_rdevminor = (if isdev then in_rdev n mod 256 else 0),
        c_namesize = u32 (length path + 1) \<rparr>)"

definition writeEntry ::
  "'d device_ops \<Rightarrow> gotime \<Rightarrow> string \<Rightarrow> node \<Rightarrow> nat \<Rightarrow> nat \<Rightarrow> bool \<Rightarrow> 'd cwriter \<Rightarrow> 'd cwriter" where
  "writeEntry D now path n ino nlink withBody w =
     (let h = entry_hdr now path n ino nlink withBody;
          w = writeName D path (cw_write D (c_marshal h) w) in
      if has (md_mode n) ModeSymlink then pad4 D (cw_write D (bytes_of (in_link n)) w)
      else if is_reg_node n \<and> withBody then
        (case in_content n of None \<Rightarrow> w
         | Some c \<Rightarrow> pad4 D (stream_loop D c (c_filesize h) 0 w))
      else w)"

definition trailer_hdr :: chdr where
  "trailer_hdr = \<lparr> c_ino = 0, c_mode = 0, c_uid = 0, c_gid = 0, c_nlink = 1, c_mtime = 0, c_filesize = 0,
     c_devmajor = 0, c_devminor = 0, c_rdevmajor = 0, c_rdevminor = 0,
     c_namesize = length trailerName + 1 \<rparr>"

definition writeTrailer :: "'d device_ops \<Rightarrow> 'd cwriter \<Rightarrow> 'd cwriter" where
  "writeTrailer D w = writeName D trailerName (cw_write D (c_marshal trailer_hdr) w)"

text \<open>\<open>collect\<close>: the pre-order walk, children by name, the root left out.\<close>

function collect :: "tnode \<Rightarrow> string \<Rightarrow> (string \<times> tnode) list" where
  "collect (TNode r n kids) prefix =
     concat (map (\<lambda>(name, t).
       let path = (if prefix = '''' then name else prefix @ ''/'' @ name) in
       (path, t) # (if is_dir (tn_node t) then collect t path else []))
     (sort_by_name kids))"
  by pat_completeness auto
termination
proof (relation "measure (\<lambda>(t, p). size t)")
  fix r n kids prefix name t path and e :: "string \<times> tnode"
  assume "e \<in> set (sort_by_name kids)" and e: "(name, t) = e"
  then have "(name, t) \<in> set kids" by simp
  then show "((t, path), TNode r n kids, prefix) \<in> measure (\<lambda>(t, p). size t)"
    by (auto dest!: size_list_estimation'[OF _ order.refl, of _ _ "\<lambda>p. size_prod (\<lambda>_. 0) size p"] simp: less_Suc_eq_le)
qed auto

text \<open>
  The numbering pass of \<open>writeArchive\<close>: an inode number per node in order of first
  appearance, how often each node appears, and the index of its last appearance.
\<close>

record links =
  lk_ino :: "ref \<Rightarrow> nat option"
  lk_occ :: "ref \<Rightarrow> nat"
  lk_last :: "ref \<Rightarrow> nat"
  lk_next :: nat

definition number_entry :: "nat \<times> ref \<Rightarrow> links \<Rightarrow> links" where
  "number_entry = (\<lambda>(i, r) k.
     let k = (if lk_ino k r = None then k\<lparr>lk_ino := (lk_ino k)(r \<mapsto> lk_next k), lk_next := lk_next k + 1\<rparr> else k) in
     k\<lparr>lk_occ := (lk_occ k)(r := lk_occ k r + 1), lk_last := (lk_last k)(r := i)\<rparr>)"

definition number_entries :: "ref list \<Rightarrow> links" where
  "number_entries rs =
     fold number_entry (List.enumerate 0 rs)
       \<lparr>lk_ino = (\<lambda>r. None), lk_occ = (\<lambda>r. 0), lk_last = (\<lambda>r. 0), lk_next = 1\<rparr>"

definition write_member ::
  "'d device_ops \<Rightarrow> gotime \<Rightarrow> links \<Rightarrow> nat \<times> (string \<times> tnode) \<Rightarrow> 'd cwriter \<Rightarrow> 'd cwriter" where
  "write_member D now k = (\<lambda>(i, (path, t)) w.
     writeEntry D now path (tn_node t) (u32 (the (lk_ino k (tn_ref t)))) (u32 (lk_occ k (tn_ref t)))
       (lk_last k (tn_ref t) = i) w)"

definition writeArchive :: "'d device_ops \<Rightarrow> gotime \<Rightarrow> tnode \<Rightarrow> 'd cwriter \<Rightarrow> 'd cwriter" where
  "writeArchive D now root w =
     (let entries = collect root '''';
          k = number_entries (map (\<lambda>e. tn_ref (snd e)) entries) in
      padArchive D (writeTrailer D (fold (write_member D now k) (List.enumerate 0 entries) w)))"

definition cpio_Finalize :: "'d device_ops \<Rightarrow> gotime \<Rightarrow> tnode \<Rightarrow> 'd \<Rightarrow> error option \<times> 'd" where
  "cpio_Finalize D now root d =
     (let w = writeArchive D now root (newCwriter d) in (cw_err w, cw_dev w))"

section \<open>Reader\<close>

definition trimNUL :: "bytes \<Rightarrow> string" where
  "trimNUL b = string_of (takeWhile (\<lambda>c. c \<noteq> 0) b)"

definition splitPath :: "string \<Rightarrow> string list" where
  "splitPath p = filter (\<lambda>c. c \<noteq> '''' \<and> c \<noteq> ''.'') (split_char (CHR ''/'') p)"

text \<open>\<open>cpioFile\<close>: the body of a member, read lazily from the archive.\<close>

definition cpioFile_read_at :: "'d device_ops \<Rightarrow> 'd \<Rightarrow> nat \<Rightarrow> nat \<Rightarrow> nat \<Rightarrow> int \<Rightarrow> bytes \<times> error option" where
  "cpioFile_read_at D d foff fsize n off =
     (if off < 0 then ([], Some (Err ''cpio: negative offset''))
      else if off \<ge> int fsize then ([], Some EOF)
      else let left = nat (int fsize - off) in
        if n > left then
          (case dev_read_at D d left (int foff + off) of
             (data, None) \<Rightarrow> (data, Some EOF)
           | (data, Some e) \<Rightarrow> (data, Some e))
        else dev_read_at D d n (int foff + off))"

definition cpioFile :: "'d device_ops \<Rightarrow> 'd \<Rightarrow> nat \<Rightarrow> nat \<Rightarrow> source" where
  "cpioFile D d foff fsize = \<lparr> src_size = int fsize, src_read_at = cpioFile_read_at D d foff fsize \<rparr>"

text \<open>Nodes the reader makes: a placeholder directory, and the root.\<close>

definition placeholder_dir :: node where
  "placeholder_dir = new_node \<lparr> md_mode = ModeDir OR 0x1ED, md_uid = 0, md_gid = 0, md_mtime = zero_time,
     md_xattrs = [] \<rparr> 2"

text \<open>\<open>childDir\<close>: whatever node the name already has is returned, a directory or not.\<close>

definition childDir :: "heap \<Rightarrow> ref \<Rightarrow> string \<Rightarrow> heap \<times> ref" where
  "childDir h d c =
     (case map_of (nd_children (h ! d)) c of
        Some r \<Rightarrow> (h, r)
      | None \<Rightarrow> (add_entry (h @ [placeholder_dir]) d c (length h), length h))"

text \<open>Overwriting the target of the first entry of a name.\<close>

fun set_entry :: "string \<Rightarrow> 'a \<Rightarrow> (string \<times> 'a) list \<Rightarrow> (string \<times> 'a) list" where
  "set_entry name r [] = []"
| "set_entry name r (e # es) = (if fst e = name then (name, r) # es else e # set_entry name r es)"

definition check_names :: "string list \<Rightarrow> error option" where
  "check_names comps = (case filter (\<lambda>c. ValidName c \<noteq> None) comps of [] \<Rightarrow> None | c # cs \<Rightarrow> ValidName c)"

definition cpio_link :: "heap \<Rightarrow> ref \<Rightarrow> string list \<Rightarrow> ref \<Rightarrow> heap result" where
  "cpio_link h root comps r =
     (case check_names comps of Some e \<Rightarrow> Inl e
      | None \<Rightarrow>
        let (h, d) = fold (\<lambda>c (h, d). childDir h d c) (butlast comps) (h, root); leaf = last comps in
        (case map_of (nd_children (h ! d)) leaf of
           None \<Rightarrow> AddChild h d leaf r
         | Some old \<Rightarrow>
             if is_dir (h ! r) \<and> is_dir (h ! old)
             then Inr (h[old := (h ! old)\<lparr>md_mode := md_mode (h ! r), md_uid := md_uid (h ! r),
               md_gid := md_gid (h ! r), md_mtime := md_mtime (h ! r), md_xattrs := md_xattrs (h ! r),
               nd_nlink := nd_nlink (h ! r)\<rparr>])
             else Inr (h[d := (h ! d)\<lparr>nd_children := set_entry leaf r (nd_children (h ! d))\<rparr>])))"

text \<open>The node of a header and its body, before it is linked.\<close>

definition entry_node :: "'d device_ops \<Rightarrow> 'd \<Rightarrow> chdr \<Rightarrow> nat \<Rightarrow> node result" where
  "entry_node D d ch bodyStart =
     (let mode = modeFromUnix (word_of_nat (c_mode ch));
          n = new_node \<lparr> md_mode = mode, md_uid = c_uid ch, md_gid = c_gid ch,
                md_mtime = \<lparr> gt_sec = c_mtime ch, gt_nsec = 0 \<rparr>, md_xattrs = [] \<rparr> (int (c_nlink ch)) in
      if mode_is_dir mode then Inr n
      else if has mode ModeSymlink then
        bindE (read_full D d (c_filesize ch) (int bodyStart)) (\<lambda>buf. Inr (n\<lparr>in_link := string_of buf\<rparr>))
      else if mode AND (ModeDevice OR ModeCharDevice) \<noteq> 0 then
        Inr (n\<lparr>in_rdev := c_rdevmajor ch * 256 OR c_rdevminor ch\<rparr>)
      else Inr (n\<lparr>in_content := Some (if 0 < c_filesize ch then cpioFile D d bodyStart (c_filesize ch)
                 else bytes_source [])\<rparr>))"

text \<open>\<open>addEntry\<close>; \<open>inoMap\<close> maps an inode number to the node its first link made.\<close>

definition addEntry ::
  "'d device_ops \<Rightarrow> 'd \<Rightarrow> chdr \<Rightarrow> string \<Rightarrow> nat \<Rightarrow> heap \<times> (nat \<times> ref) list \<Rightarrow> (heap \<times> (nat \<times> ref) list) result" where
  "addEntry D d ch name bodyStart = (\<lambda>(h, inoMap).
     let comps = splitPath name in
     if comps = [] then Inr (h, inoMap)
     else
       let mode = modeFromUnix (word_of_nat (c_mode ch));
           isReg = mode_is_regular mode in
       (case (if isReg \<and> c_nlink ch \<ge> 2 then map_of inoMap (c_ino ch) else None) of
          Some r \<Rightarrow>
            let h = (if 0 < c_filesize ch
                     then h[r := (h ! r)\<lparr>in_content := Some (cpioFile D d bodyStart (c_filesize ch))\<rparr>] else h) in
            bindE (cpio_link h 0 comps r) (\<lambda>h. Inr (h, inoMap))
        | None \<Rightarrow>
            bindE (entry_node D d ch bodyStart) (\<lambda>n.
            let inoMap = (if isReg \<and> c_nlink ch \<ge> 2 then (c_ino ch, length h) # inoMap else inoMap) in
            bindE (cpio_link (h @ [n]) 0 comps (length h)) (\<lambda>h. Inr (h, inoMap)))))"

text \<open>The loop of \<open>read\<close>; \<open>None\<close> would be a loop that never returns.\<close>

partial_function (option) cread_loop ::
  "'d device_ops \<Rightarrow> 'd \<Rightarrow> nat \<Rightarrow> heap \<times> (nat \<times> ref) list \<Rightarrow> (heap result) option" where
  "cread_loop D d pos st =
     (case read_full D d headerSize (int pos) of
        Inl e \<Rightarrow> Some (Inl e)
      | Inr head \<Rightarrow>
        (case c_parseHeader head of
           Inl e \<Rightarrow> Some (Inl e)
         | Inr None \<Rightarrow> Some (Inl (Err ''cpio: bad or missing newc magic''))
         | Inr (Some ch) \<Rightarrow>
           (case read_full D d (c_namesize ch) (int (pos + headerSize)) of
              Inl e \<Rightarrow> Some (Inl e)
            | Inr nameBuf \<Rightarrow>
              (let name = trimNUL nameBuf in
               if name = trailerName then Some (Inr (fst st))
               else let bodyStart = pos + headerSize + nAlign (c_namesize ch) in
                 (case addEntry D d ch name bodyStart st of
                    Inl e \<Rightarrow> Some (Inl e)
                  | Inr st' \<Rightarrow> cread_loop D d (align4 (bodyStart + c_filesize ch)) st')))))"

definition cpio_Open :: "'d device_ops \<Rightarrow> 'd \<Rightarrow> (heap result) option" where
  "cpio_Open D d = cread_loop D d 0 ([placeholder_dir], [])"

section \<open>Header round trip\<close>

lemma hex_value_digit: "d < 16 \<Longrightarrow> hex_value (hex_digit d) = Some d"
proof -
  have "\<forall>d \<in> {..< 16}. hex_value (hex_digit d) = Some d"
    by (simp add: lessThan_nat_numeral lessThan_Suc hex_value_def hex_digit_def)
  then show "d < 16 \<Longrightarrow> ?thesis" by simp
qed

lemma parse_hex_acc_append:
  "parse_hex_acc acc (s @ t) = (case parse_hex_acc acc s of None \<Rightarrow> None | Some a \<Rightarrow> parse_hex_acc a t)"
  by (induction s arbitrary: acc) (auto split: option.splits)

lemma parse_format_hex: "parse_hex_acc 0 (format_hex v) = Some v"
proof (induction v rule: format_hex.induct)
  case (1 v)
  then show ?case
    by (subst format_hex.simps) (auto simp: parse_hex_acc_append hex_value_digit)
qed

lemma length_format_hex: "0 < k \<Longrightarrow> v < 16 ^ k \<Longrightarrow> length (format_hex v) \<le> k"
proof (induction k arbitrary: v)
  case (Suc k)
  show ?case
  proof (cases "v < 16")
    case True
    then show ?thesis by (simp add: format_hex.simps)
  next
    case False
    then have "0 < k" using Suc.prems by (cases k) auto
    moreover have "v div 16 < 16 ^ k" using Suc.prems by (simp add: less_mult_imp_div_less mult.commute)
    ultimately show ?thesis using Suc.IH False by (subst format_hex.simps) simp
  qed
qed simp

lemma parse_leading_zeros: "parse_hex_acc 0 (replicate k (CHR ''0'') @ s) = parse_hex_acc 0 s"
  by (induction k) (auto simp: hex_value_def)

definition hex8 :: "nat \<Rightarrow> bytes" where
  "hex8 v = bytes_of (replicate (8 - length (format_hex v)) (CHR ''0'') @ format_hex v)"

lemma hex8_ok:
  assumes "v < 2 ^ 32"
  shows "length (hex8 v) = 8" "parse_hex32 (string_of (hex8 v)) = Some v"
proof -
  have len: "length (format_hex v) \<le> 8" using assms by (intro length_format_hex) auto
  then show "length (hex8 v) = 8" by (simp add: hex8_def)
  have "format_hex v \<noteq> []" by (subst format_hex.simps) auto
  then show "parse_hex32 (string_of (hex8 v)) = Some v"
    using assms by (simp add: parse_hex32_def hex8_def parse_leading_zeros parse_format_hex del: bytes_of_append)
qed

lemma foldl_appendHex8: "foldl appendHex8 b vs = b @ concat (map hex8 vs)"
  by (induction vs arbitrary: b) (auto simp: appendHex8_def hex8_def Let_def)

lemma parse_fields_ok:
  assumes "\<forall>v \<in> set vs. v < 2 ^ 32" "\<forall>i \<in> set is. i < length vs" "length pre = 6"
  shows "parse_fields (pre @ concat (map hex8 vs)) is = Inr (map (\<lambda>i. vs ! i) is)"
  using assms(2)
proof (induction "is")
  case (Cons i "is")
  then have i: "i < length vs" by simp
  have "window (pre @ concat (map hex8 vs)) (6 + i * 8) 8 = window (concat (map hex8 vs)) (i * 8) 8"
    using assms(3) by (simp add: window_append_right)
  also have "\<dots> = hex8 (vs ! i)"
    using i assms(1) by (subst window_concat) (auto simp: hex8_ok)
  finally have "window (pre @ concat (map hex8 vs)) (6 + i * 8) 8 = hex8 (vs ! i)" .
  moreover have "vs ! i < 2 ^ 32" using i assms(1) nth_mem by blast
  ultimately show ?case using Cons by (simp add: hex8_ok)
qed simp

text \<open>Fields that fit their eight digits; a time the 32-bit field can hold.\<close>

definition chdr_ok :: "chdr \<Rightarrow> bool" where
  "chdr_ok h \<longleftrightarrow> list_all (\<lambda>v. v < 2 ^ 32) (chdr_fields h) \<and> 0 \<le> c_mtime h \<and> c_mtime h < 2 ^ 32"

lemma length_c_marshal: "list_all (\<lambda>v. v < 2 ^ 32) (chdr_fields h) \<Longrightarrow> length (c_marshal h) = headerSize"
proof -
  assume f: "list_all (\<lambda>v. v < 2 ^ 32) (chdr_fields h)"
  have "length (concat (map hex8 vs)) = 8 * length vs" if "list_all (\<lambda>v. v < 2 ^ 32) vs" for vs
    using that by (induction vs) (auto simp: hex8_ok)
  from this[OF f] have "length (concat (map hex8 (chdr_fields h))) = 104" by (simp add: chdr_fields_def)
  then show ?thesis unfolding c_marshal_def foldl_appendHex8 by (simp add: magicNewc_def headerSize_def)
qed

lemma marshal_parse:
  assumes "chdr_ok h"
  shows "c_parseHeader (c_marshal h) = Inr (Some h)"
proof -
  have f: "\<forall>v \<in> set (chdr_fields h). v < 2 ^ 32" using assms by (simp add: chdr_ok_def list_all_iff)
  have len: "length (c_marshal h) = headerSize" using assms by (simp add: length_c_marshal chdr_ok_def)
  have m: "c_marshal h = bytes_of magicNewc @ concat (map hex8 (chdr_fields h))"
    by (simp add: c_marshal_def foldl_appendHex8)
  have magic: "string_of (window (c_marshal h) 0 6) = magicNewc"
    by (simp add: m window_def magicNewc_def string_of_bytes_of del: bytes_of_append)
  have "parse_fields (c_marshal h) [0 ..< 13] = Inr (map (\<lambda>i. chdr_fields h ! i) [0 ..< 13])"
    unfolding m using f by (intro parse_fields_ok) (auto simp: chdr_fields_def magicNewc_def)
  moreover have "int (u32_of_int (c_mtime h)) = c_mtime h" using assms by (simp add: chdr_ok_def u32_of_int_def)
  ultimately show ?thesis using len magic
    by (simp add: c_parseHeader_def Let_def chdr_fields_def)
qed

section \<open>Mode round trip\<close>

text \<open>The modes a Unix \<open>st_mode\<close> can carry: one known file type, permissions, the three flags.\<close>

definition unix_types :: "filemode list" where
  "unix_types = [0, ModeDir, ModeSymlink, ModeDevice, ModeDevice OR ModeCharDevice, ModeNamedPipe, ModeSocket]"

definition unix_mode :: "filemode \<Rightarrow> bool" where
  "unix_mode m \<longleftrightarrow> (\<exists>t \<in> set unix_types. m AND NOT (0x1FF OR ModeSetuid OR ModeSetgid OR ModeSticky) = t)"

lemma mode_split:
  assumes "m AND NOT (0x1FF OR ModeSetuid OR ModeSetgid OR ModeSticky) = t"
  shows "m = ((mode_perm m OR (if has m ModeSetuid then ModeSetuid else 0))
    OR (if has m ModeSetgid then ModeSetgid else 0)) OR (if has m ModeSticky then ModeSticky else 0) OR t"
proof -
  have one: "m AND 2 ^ k = (if bit m k then 2 ^ k else 0)" if "k < 32" for k
    using that by (intro bit_eqI) (auto simp: bit_and_iff bit_exp_iff)
  have "m = (m AND 0x1FF) OR (m AND 2 ^ 23) OR (m AND 2 ^ 22) OR (m AND 2 ^ 20)
      OR (m AND NOT (0x1FF OR 2 ^ 23 OR 2 ^ 22 OR 2 ^ 20))"
    by (intro bit_eqI) (auto simp only: bit_and_iff bit_or_iff bit_not_iff)
  then have "m = (m AND 0x1FF) OR (if bit m 23 then 2 ^ 23 else 0) OR (if bit m 22 then 2 ^ 22 else 0)
      OR (if bit m 20 then 2 ^ 20 else 0) OR t"
    using assms by (simp only: one mode_push_bit)
  then show ?thesis unfolding has_bit unfolding mode_perm_def mode_push_bit by (simp only: or.assoc)
qed

definition flag :: "bool \<Rightarrow> 32 word \<Rightarrow> 32 word" where
  "flag b k = (if b then k else 0)"

lemma flag_simps: "flag b k AND x = flag b (k AND x)" "flag b 0 = 0" "flag True k = k" "flag False k = 0"
  "flag b k = 0 \<longleftrightarrow> \<not> b \<or> k = 0" "(if b then v OR k else v) = v OR flag b k"
  by (simp_all add: flag_def)

lemma perm_and:
  "mode_perm m AND 0x1FF = mode_perm m" "mode_perm m AND 0xF000 = 0" "mode_perm m AND 0x800 = 0"
  "mode_perm m AND 0x400 = 0" "mode_perm m AND 0x200 = 0"
  by (simp_all add: mode_perm_def and.assoc)

lemma bit_perm_flags: "bit (0x1FF OR ModeSetuid OR ModeSetgid OR ModeSticky) n \<longleftrightarrow> n < 9 \<or> n \<in> {23, 22, 20}"
proof -
  have "(0x1FF :: filemode) = mask 9" by (simp add: mask_eq_exp_minus_1)
  then show ?thesis
    by (simp only: mode_push_bit bit_or_iff bit_mask_iff bit_exp_iff possible_bit_def) auto
qed

lemma mode_bits:
  "bit ModeDir n \<longleftrightarrow> n = 31" "bit ModeSymlink n \<longleftrightarrow> n = 27" "bit ModeDevice n \<longleftrightarrow> n = 26"
  "bit ModeCharDevice n \<longleftrightarrow> n = 21" "bit ModeNamedPipe n \<longleftrightarrow> n = 25" "bit ModeSocket n \<longleftrightarrow> n = 24"
  by (auto simp only: mode_push_bit bit_exp_iff possible_bit_word) simp_all

lemma mode_round_trip:
  assumes "unix_mode m"
  shows "modeFromUnix (modeToUnix m) = m"
proof -
  obtain t where t: "t \<in> set unix_types" "m AND NOT (0x1FF OR ModeSetuid OR ModeSetgid OR ModeSticky) = t"
    using assms by (auto simp: unix_mode_def)
  note split = mode_split[OF t(2)]
  have hb: "bit m n \<longleftrightarrow> bit t n" if "n \<in> {31, 27, 26, 21, 25, 24}" for n
    using that unfolding t(2)[symmetric] by (auto simp only: bit_and_iff bit_not_iff bit_perm_flags) auto
  have flags: "has m ModeSetuid \<longleftrightarrow> bit m 23" "has m ModeSetgid \<longleftrightarrow> bit m 22" "has m ModeSticky \<longleftrightarrow> bit m 20"
    by simp_all
  note tbits = hb[of 31] hb[of 27] hb[of 26] hb[of 21] hb[of 25] hb[of 24]
  consider "t = 0" | "t = ModeDir" | "t = ModeSymlink" | "t = ModeDevice" | "t = ModeDevice OR ModeCharDevice"
    | "t = ModeNamedPipe" | "t = ModeSocket" using t(1) by (auto simp: unix_types_def)
  then obtain ty where ty: "modeToUnix m = mode_perm m OR flag (bit m 23) 0x800 OR flag (bit m 22) 0x400
      OR flag (bit m 20) 0x200 OR ty"
    "(ty, t) \<in> {(sIFREG, 0), (sIFDIR, ModeDir), (sIFLNK, ModeSymlink), (sIFBLK, ModeDevice),
      (sIFCHR, ModeDevice OR ModeCharDevice), (sIFIFO, ModeNamedPipe), (sIFSOCK, ModeSocket)}"
  proof cases
    case 1
    then show ?thesis using that[of sIFREG] tbits
      by (simp add: modeToUnix_def Let_def flag_simps(6) sISUID_def sISGID_def sISVTX_def or.assoc)
  next
    case 2
    then show ?thesis using that[of sIFDIR] tbits
      by (simp add: modeToUnix_def Let_def flag_simps(6) sISUID_def sISGID_def sISVTX_def or.assoc mode_bits)
  next
    case 3
    then show ?thesis using that[of sIFLNK] tbits
      by (simp add: modeToUnix_def Let_def flag_simps(6) sISUID_def sISGID_def sISVTX_def or.assoc mode_bits)
  next
    case 4
    then show ?thesis using that[of sIFBLK] tbits
      by (simp add: modeToUnix_def Let_def flag_simps(6) sISUID_def sISGID_def sISVTX_def or.assoc mode_bits)
  next
    case 5
    then show ?thesis using that[of sIFCHR] tbits
      by (simp add: modeToUnix_def Let_def flag_simps(6) sISUID_def sISGID_def sISVTX_def or.assoc mode_bits bit_or_iff)
  next
    case 6
    then show ?thesis using that[of sIFIFO] tbits
      by (simp add: modeToUnix_def Let_def flag_simps(6) sISUID_def sISGID_def sISVTX_def or.assoc mode_bits)
  next
    case 7
    then show ?thesis using that[of sIFSOCK] tbits
      by (simp add: modeToUnix_def Let_def flag_simps(6) sISUID_def sISGID_def sISVTX_def or.assoc mode_bits)
  qed
  have m: "m = mode_perm m OR flag (bit m 23) ModeSetuid OR flag (bit m 22) ModeSetgid
      OR flag (bit m 20) ModeSticky OR t"
    using split by (simp only: flags flag_def or.assoc)
  have "modeToUnix m AND 0x1FF = mode_perm m \<and> modeToUnix m AND 0x800 = flag (bit m 23) 0x800
      \<and> modeToUnix m AND 0x400 = flag (bit m 22) 0x400 \<and> modeToUnix m AND 0x200 = flag (bit m 20) 0x200
      \<and> modeToUnix m AND 0xF000 = ty"
    unfolding ty(1) using ty(2)
    by (auto simp: bit.conj_disj_distrib2 perm_and flag_simps unix_mode_defs)
  then have "modeFromUnix (modeToUnix m) = mode_perm m OR flag (bit m 23) ModeSetuid OR flag (bit m 22) ModeSetgid
      OR flag (bit m 20) ModeSticky OR t"
    using ty(2) by (auto simp: modeFromUnix_def Let_def flag_simps unix_mode_defs or.assoc or.commute or.left_commute)
  then show ?thesis by (simp only: m[symmetric])
qed

section \<open>The archive as bytes\<close>

text \<open>One member as it lies in the archive: header, name region, body and its padding.\<close>

definition name_region :: "string \<Rightarrow> bytes" where
  "name_region path = bytes_of path @ [0] @ zeros (nAlign (length path + 1) - (length path + 1))"

definition pad_to :: "nat \<Rightarrow> nat \<Rightarrow> bytes" where
  "pad_to k n = (if n mod k = 0 then [] else zeros (k - n mod k))"

definition member_bytes :: "chdr \<Rightarrow> string \<Rightarrow> bytes \<Rightarrow> bytes" where
  "member_bytes h path body = c_marshal h @ name_region path @ body @ pad_to 4 (length body)"

text \<open>A source that delivers \<open>data\<close>, in pieces of any size.\<close>

definition source_ok :: "source \<Rightarrow> bytes \<Rightarrow> bool" where
  "source_ok c data \<longleftrightarrow> src_size c = int (length data)
     \<and> (\<forall>n off. 0 < n \<longrightarrow> off < length data \<longrightarrow>
         (\<exists>d e. src_read_at c n (int off) = (d, e) \<and> d \<noteq> [] \<and> length d \<le> n
           \<and> (e = None \<or> e = Some EOF) \<and> d = window data off (length d)))"

lemma bytes_source_ok: "source_ok (bytes_source b) b"
  unfolding source_ok_def
proof (intro conjI allI impI)
  fix n off :: nat assume "0 < n" "off < length b"
  then have w: "window b off n \<noteq> []" "length (window b off n) \<le> n"
    "window b off (length (window b off n)) = window b off n"
    by (auto simp: window_def min_def)
  show "\<exists>d e. src_read_at (bytes_source b) n (int off) = (d, e) \<and> d \<noteq> [] \<and> length d \<le> n
      \<and> (e = None \<or> e = Some EOF) \<and> d = window b off (length d)"
    using w \<open>off < length b\<close> by (auto simp: bytes_source_def bytes_read_at_def Let_def)
qed (simp add: bytes_source_def)

definition member_body :: "node \<Rightarrow> bool \<Rightarrow> bytes \<Rightarrow> bool" where
  "member_body n withBody body \<longleftrightarrow> length body < 2 ^ 32
     \<and> (if has (md_mode n) ModeSymlink then body = bytes_of (in_link n)
        else if is_reg_node n \<and> withBody then
          (case in_content n of None \<Rightarrow> body = [] | Some c \<Rightarrow> source_ok c body)
        else body = [])"

lemma entry_size_body: "member_body n wb body \<Longrightarrow> entry_size n wb = length body"
  by (auto simp: member_body_def entry_size_def source_ok_def u32_of_int_def split: option.splits if_splits)

lemma nAlign_props: "n \<le> nAlign n" "(headerSize + nAlign n) mod 4 = 0"
proof -
  have "n \<le> (n + 1) div 4 * 4 + 2" by presburger
  then show "n \<le> nAlign n" by (simp add: nAlign_def)
  have "(112 + x * 4) mod 4 = 0" for x :: nat by presburger
  then show "(headerSize + nAlign n) mod 4 = 0"
    by (simp add: nAlign_def headerSize_def add.commute)
qed

lemma length_name_region: "length (name_region path) = nAlign (length path + 1)"
  using nAlign_props(1)[of "length path + 1"] by (simp add: name_region_def)

lemma pad_to_aligned: "0 < k \<Longrightarrow> (n + length (pad_to k n)) mod k = 0"
proof -
  assume k: "0 < k"
  show ?thesis
  proof (cases "n mod k = 0")
    case False
    have "n + (k - n mod k) = n div k * k + k"
      using mod_less_divisor[OF k, of n] div_mult_mod_eq[of n k] by linarith
    then show ?thesis using False by (simp add: pad_to_def)
  qed (simp add: pad_to_def)
qed

text \<open>
  A sequential writer on a device that meets the contract: everything written so far is the front
  of the device.
\<close>

definition wrote :: "('d \<Rightarrow> bytes) \<Rightarrow> ('d \<Rightarrow> bool) \<Rightarrow> nat \<Rightarrow> 'd cwriter \<Rightarrow> bytes \<Rightarrow> bool" where
  "wrote view invar sz w bs \<longleftrightarrow> invar (cw_dev w) \<and> length (view (cw_dev w)) = sz \<and> cw_err w = None
     \<and> cw_pos w = length bs \<and> length bs \<le> sz \<and> take (length bs) (view (cw_dev w)) = bs"

context block_device
begin

lemma wrote_write:
  assumes "wrote view invar sz w bs" "length bs + length p \<le> sz"
  shows "wrote view invar sz (cw_write D p w) (bs @ p)"
proof -
  have w: "invar (cw_dev w)" "cw_pos w + length p \<le> length (view (cw_dev w))"
    using assms by (auto simp: wrote_def)
  obtain d' where d': "write_all D (cw_dev w) p (int (cw_pos w)) = (None, d')" "invar d'"
    "view d' = blit (view (cw_dev w)) (cw_pos w) p" using write_inside[OF w] by blast
  then show ?thesis using assms
    by (auto simp: wrote_def cw_write_def blit_def)
qed

lemma wrote_pad:
  "wrote view invar sz w bs \<Longrightarrow> length bs + n \<le> sz \<Longrightarrow> wrote view invar sz (writePad D n w) (bs @ zeros n)"
  using wrote_write[of sz w bs "zeros n"] by (auto simp: writePad_def)

lemma wrote_pad4:
  assumes "wrote view invar sz w bs" "length bs mod 4 = n mod 4" "length bs + length (pad_to 4 n) \<le> sz"
  shows "wrote view invar sz (pad4 D w) (bs @ pad_to 4 n)"
proof -
  have "cw_pos w = length bs" using assms by (simp add: wrote_def)
  then show ?thesis using assms wrote_pad[OF assms(1), of "4 - n mod 4"]
    by (auto simp: pad4_def pad_to_def Let_def)
qed

lemma wrote_padArchive:
  assumes "wrote view invar sz w bs" "length bs + length (pad_to padTo (length bs)) \<le> sz"
  shows "wrote view invar sz (padArchive D w) (bs @ pad_to padTo (length bs))"
proof -
  have "cw_pos w = length bs" using assms by (simp add: wrote_def)
  then show ?thesis using assms wrote_pad[OF assms(1), of "padTo - length bs mod padTo"]
    by (auto simp: padArchive_def pad_to_def Let_def)
qed

lemma wrote_name:
  assumes "wrote view invar sz w bs" "length bs + length (name_region path) \<le> sz"
  shows "wrote view invar sz (writeName D path w) (bs @ name_region path)"
proof -
  let ?p = "bytes_of path @ [0]"
  have len: "length ?p = length path + 1" by simp
  have "length bs + length ?p \<le> sz"
    using assms(2) nAlign_props(1)[of "length path + 1"] by (simp add: length_name_region)
  from wrote_pad[OF wrote_write[OF assms(1) this], of "nAlign (length ?p) - length ?p"] assms(2)
  show ?thesis by (simp add: writeName_def Let_def name_region_def)
qed

lemma wrote_stream:
  assumes "source_ok c data" "sz' = length data" "off \<le> sz'" "wrote view invar sz w bs"
    and "length bs + (sz' - off) \<le> sz"
  shows "wrote view invar sz (stream_loop D c sz' off w) (bs @ drop off data)"
  using assms(3-5)
proof (induction "sz' - off" arbitrary: off w bs rule: less_induct)
  case less
  show ?case
  proof (cases "off < sz'")
    case False
    then show ?thesis using less.prems assms(2) by (simp add: stream_loop.simps)
  next
    case True
    let ?n = "min 65536 (sz' - off)"
    have "0 < ?n" "off < length data" using True assms(2) by auto
    then obtain d e where d: "src_read_at c ?n (int off) = (d, e)" "d \<noteq> []" "length d \<le> ?n"
      "e = None \<or> e = Some EOF" "d = window data off (length d)"
      using assms(1) unfolding source_ok_def by meson
    have eq: "drop off data = d @ drop (off + length d) data"
      using d(5) by (metis append_take_drop_id drop_drop add.commute window_def)
    have fit: "length bs + length d \<le> sz" "length (bs @ d) + (sz' - (off + length d)) \<le> sz"
      "off + length d \<le> sz'" "sz' - (off + length d) < sz' - off"
      using less.prems(3) d(2,3) True by (auto simp: diff_less_mono2)
    have w: "wrote view invar sz (cw_write D d w) (bs @ d)" by (rule wrote_write[OF less.prems(2) fit(1)])
    have "stream_loop D c sz' off w = stream_loop D c sz' (off + length d) (cw_write D d w)"
      using True d by (subst stream_loop.simps) (auto simp: Let_def)
    then show ?thesis using less.hyps[OF fit(4,3) w fit(2)] eq by simp
  qed
qed

end

context block_device
begin

lemma wrote_entry:
  assumes body: "member_body n wb body" and h: "h = entry_hdr now path n ino nlink wb" "chdr_ok h"
    and w: "wrote view invar sz w bs" "4 dvd length bs"
    and fit: "length bs + length (member_bytes h path body) \<le> sz"
  shows "wrote view invar sz (writeEntry D now path n ino nlink wb w) (bs @ member_bytes h path body)"
proof -
  let ?w = "writeName D path (cw_write D (c_marshal h) w)" and ?bs = "bs @ c_marshal h @ name_region path"
  have len: "length (c_marshal h) = headerSize" using h(2) by (simp add: length_c_marshal chdr_ok_def)
  have fits: "length bs + length (c_marshal h) \<le> sz"
    "length (bs @ c_marshal h) + length (name_region path) \<le> sz"
    "length ?bs + length body \<le> sz" "length ?bs + length body + length (pad_to 4 (length body)) \<le> sz"
    using fit by (auto simp: member_bytes_def)
  have w2: "wrote view invar sz ?w ?bs"
    using wrote_name[OF wrote_write[OF w(1) fits(1)] fits(2)] by simp
  have "(headerSize + nAlign (length path + 1)) mod 4 = 0" by (rule nAlign_props)
  then have al: "length ?bs mod 4 = 0"
    using w(2) by (simp add: len length_name_region mod_add_left_eq dvd_eq_mod_eq_0 mod_add_eq[symmetric, of "length bs"])
  have sz: "c_filesize h = length body" using entry_size_body[OF body] by (simp add: h(1) entry_hdr_def Let_def)
  have pad: "wrote view invar sz (pad4 D v) (?bs @ body @ pad_to 4 (length body))"
    if v: "wrote view invar sz v (?bs @ body)" for v
  proof -
    have "(length ?bs + length body) mod 4 = (length ?bs mod 4 + length body) mod 4" by (rule mod_add_left_eq[symmetric])
    then have "length (?bs @ body) mod 4 = length body mod 4" using al by (simp only: length_append add_0)
    moreover have "length (?bs @ body) + length (pad_to 4 (length body)) \<le> sz" using fits(4) by simp
    ultimately show ?thesis using wrote_pad4[OF v] by simp
  qed
  have same: "bs @ member_bytes h path body = ?bs @ body @ pad_to 4 (length body)" by (simp add: member_bytes_def)
  have none: "wrote view invar sz ?w (bs @ member_bytes h path body)" if "body = []"
    using w2 that unfolding same by (simp add: pad_to_def)
  have eq: "writeEntry D now path n ino nlink wb w =
     (if has (md_mode n) ModeSymlink then pad4 D (cw_write D (bytes_of (in_link n)) ?w)
      else if is_reg_node n \<and> wb then
        (case in_content n of None \<Rightarrow> ?w | Some c \<Rightarrow> pad4 D (stream_loop D c (length body) 0 ?w))
      else ?w)"
    unfolding writeEntry_def Let_def h(1)[symmetric] sz by (rule refl)
  show ?thesis
  proof (cases "has (md_mode n) ModeSymlink")
    case True
    then have "body = bytes_of (in_link n)" using body by (simp add: member_body_def)
    then show ?thesis using True pad[OF wrote_write[OF w2 fits(3)]] unfolding eq same by simp
  next
    case ns: False
    show ?thesis
    proof (cases "is_reg_node n \<and> wb \<and> in_content n \<noteq> None")
      case True
      then obtain c where c: "in_content n = Some c" "source_ok c body"
        using body ns by (auto simp: member_body_def)
      have "wrote view invar sz (stream_loop D c (length body) 0 ?w) (?bs @ drop 0 body)"
        using fits(3) by (intro wrote_stream[OF c(2) refl _ w2]) auto
      then have "wrote view invar sz (stream_loop D c (length body) 0 ?w) (?bs @ body)" by simp
      from pad[OF this] show ?thesis using True c ns unfolding eq same by simp
    next
      case False
      then have "body = []" using body ns by (auto simp: member_body_def split: option.splits if_splits)
      then show ?thesis using none False ns unfolding eq by auto
    qed
  qed
qed

end

text \<open>The members of the archive of a tree, in order, and the whole archive.\<close>

type_synonym member = "chdr \<times> string \<times> bytes"

definition archive_plan :: "tnode \<Rightarrow> (string \<times> node \<times> nat \<times> nat \<times> bool) list" where
  "archive_plan root =
     (let entries = collect root '''';
          k = number_entries (map (\<lambda>e. tn_ref (snd e)) entries) in
      map (\<lambda>(i, (path, t)). (path, tn_node t, u32 (the (lk_ino k (tn_ref t))), u32 (lk_occ k (tn_ref t)),
          lk_last k (tn_ref t) = i))
        (List.enumerate 0 entries))"

definition member_for :: "gotime \<Rightarrow> string \<times> node \<times> nat \<times> nat \<times> bool \<Rightarrow> member \<Rightarrow> bool" where
  "member_for now = (\<lambda>(path, n, ino, nlink, wb) (h, path', body).
     path' = path \<and> h = entry_hdr now path n ino nlink wb \<and> member_body n wb body)"

text \<open>
  What a member must be for the format to carry it: header fields of 32 bits, a path without NUL
  that is not the trailer's name.
\<close>

definition member_ok :: "member \<Rightarrow> bool" where
  "member_ok = (\<lambda>(h, path, body). chdr_ok h \<and> c_namesize h = length path + 1 \<and> c_filesize h = length body
     \<and> (CHR 0x00) \<notin> set path \<and> path \<noteq> trailerName)"

definition members_bytes :: "member list \<Rightarrow> bytes" where
  "members_bytes ms = concat (map (\<lambda>(h, path, body). member_bytes h path body) ms)"

definition archive_bytes :: "member list \<Rightarrow> bytes" where
  "archive_bytes ms =
     (let b = members_bytes ms @ c_marshal trailer_hdr @ name_region trailerName in
      b @ pad_to padTo (length b))"

lemma chdr_ok_trailer: "chdr_ok trailer_hdr"
  by (simp add: chdr_ok_def chdr_fields_def trailer_hdr_def trailerName_def u32_of_int_def)

lemma length_member: "chdr_ok h \<Longrightarrow> 4 dvd length (member_bytes h path body)"
proof -
  assume h: "chdr_ok h"
  have "4 dvd length body + length (pad_to 4 (length body))"
    using pad_to_aligned[of 4 "length body"] unfolding dvd_eq_mod_eq_0 by simp
  moreover have "4 dvd headerSize + nAlign (length path + 1)"
    unfolding dvd_eq_mod_eq_0 by (rule nAlign_props)
  ultimately have "4 dvd (headerSize + nAlign (length path + 1)) + (length body + length (pad_to 4 (length body)))"
    by (rule dvd_add[rotated])
  moreover have "length (member_bytes h path body)
    = (headerSize + nAlign (length path + 1)) + (length body + length (pad_to 4 (length body)))"
    using h by (simp add: member_bytes_def length_c_marshal chdr_ok_def length_name_region)
  ultimately show ?thesis by simp
qed

lemma write_members_plan:
  "fold (write_member D now k) (List.enumerate 0 entries) w
   = fold (\<lambda>(path, n, ino, nlink, wb). writeEntry D now path n ino nlink wb)
       (map (\<lambda>(i, (path, t)). (path, tn_node t, u32 (the (lk_ino k (tn_ref t))), u32 (lk_occ k (tn_ref t)),
          lk_last k (tn_ref t) = i)) (List.enumerate 0 entries)) w"
  unfolding fold_map by (rule fold_cong) (auto simp: write_member_def)

context block_device
begin

lemma wrote_members:
  assumes "list_all2 (member_for now) plan ms" "list_all (\<lambda>m. chdr_ok (fst m)) ms"
    and "wrote view invar sz w bs" "4 dvd length bs" "length bs + length (members_bytes ms) \<le> sz"
  shows "wrote view invar sz
      (fold (\<lambda>(path, n, ino, nlink, wb). writeEntry D now path n ino nlink wb) plan w) (bs @ members_bytes ms)
    \<and> 4 dvd length (bs @ members_bytes ms)"
  using assms
proof (induction plan ms arbitrary: w bs rule: list_all2_induct)
  case Nil
  then show ?case by (simp add: members_bytes_def)
next
  case (Cons p plan m ms)
  obtain path n ino nlink wb h body where pm: "p = (path, n, ino, nlink, wb)" "m = (h, path, body)"
    "h = entry_hdr now path n ino nlink wb" "member_body n wb body"
    using Cons.hyps(1) by (auto simp: member_for_def)
  have h: "chdr_ok h" and rest: "list_all (\<lambda>m. chdr_ok (fst m)) ms" using Cons.prems(1) pm(2) by simp_all
  have fit: "length bs + length (member_bytes h path body) \<le> sz"
    "length (bs @ member_bytes h path body) + length (members_bytes ms) \<le> sz"
    using Cons.prems(4) pm by (auto simp: members_bytes_def)
  have al: "4 dvd length (bs @ member_bytes h path body)" using Cons.prems(3) length_member[OF h] by simp
  from wrote_entry[OF pm(4,3) h Cons.prems(2,3) fit(1)]
  have w: "wrote view invar sz (writeEntry D now path n ino nlink wb w) (bs @ member_bytes h path body)" .
  from Cons.IH[OF rest w al fit(2)] show ?case using pm by (simp add: members_bytes_def)
qed

lemma archive_written:
  assumes plan: "list_all2 (member_for now) (archive_plan root) ms" "list_all (\<lambda>m. chdr_ok (fst m)) ms"
    and d: "invar d" "length (view d) = sz" "length (archive_bytes ms) \<le> sz"
  shows "\<exists>d'. cpio_Finalize D now root d = (None, d') \<and> invar d' \<and> length (view d') = sz
    \<and> take (length (archive_bytes ms)) (view d') = archive_bytes ms"
proof -
  let ?w = "fold (\<lambda>(path, n, ino, nlink, wb). writeEntry D now path n ino nlink wb) (archive_plan root) (newCwriter d)"
  let ?b = "members_bytes ms @ c_marshal trailer_hdr @ name_region trailerName"
  have fit: "length (members_bytes ms) + length (c_marshal trailer_hdr) \<le> sz"
    "length (members_bytes ms @ c_marshal trailer_hdr) + length (name_region trailerName) \<le> sz"
    "length ?b + length (pad_to padTo (length ?b)) \<le> sz" "length [] + length (members_bytes ms) \<le> sz"
    using d(3) by (auto simp: archive_bytes_def Let_def)
  have "wrote view invar sz (newCwriter d) []" using d by (simp add: wrote_def newCwriter_def)
  from wrote_members[OF plan this _ fit(4)] have "wrote view invar sz ?w (members_bytes ms)" by simp
  from wrote_name[OF wrote_write[OF this fit(1)] fit(2)]
  have "wrote view invar sz (writeTrailer D ?w) ?b" by (simp add: writeTrailer_def)
  from wrote_padArchive[OF this fit(3)]
  have "wrote view invar sz (writeArchive D now root (newCwriter d)) (archive_bytes ms)"
    unfolding writeArchive_def Let_def write_members_plan by (simp add: archive_plan_def archive_bytes_def Let_def)
  then show ?thesis by (auto simp: wrote_def cpio_Finalize_def Let_def)
qed

end

section \<open>Reading an archive back\<close>

text \<open>What the reader makes of a list of members whose first one starts at \<open>pos\<close>.\<close>

fun add_members ::
  "'d device_ops \<Rightarrow> 'd \<Rightarrow> nat \<Rightarrow> heap \<times> (nat \<times> ref) list \<Rightarrow> member list \<Rightarrow> heap result" where
  "add_members D d pos st [] = Inr (fst st)"
| "add_members D d pos st ((h, path, body) # ms) =
     (case addEntry D d h path (pos + headerSize + nAlign (length path + 1)) st of
        Inl e \<Rightarrow> Inl e
      | Inr st' \<Rightarrow> add_members D d (pos + length (member_bytes h path body)) st' ms)"

lemma align4_add: "4 dvd x \<Longrightarrow> align4 (x + n) = x + n + length (pad_to 4 n)"
proof -
  assume "4 dvd x"
  then obtain k where x: "x = 4 * k" by blast
  have "(4 * k + n + 3) div 4 * 4 = 4 * k + (n + 3) div 4 * 4" by presburger
  moreover have "(n + 3) div 4 * 4 = n + length (pad_to 4 n)"
    by (simp add: pad_to_def) presburger
  ultimately show ?thesis by (simp add: align4_def x)
qed

lemma trimNUL_name: "(CHR 0x00) \<notin> set path \<Longrightarrow> trimNUL (bytes_of path @ 0 # xs) = path"
proof -
  assume a: "(CHR 0x00) \<notin> set path"
  have nz: "(of_char c :: byte) \<noteq> 0" if "c \<noteq> CHR 0x00" for c
  proof
    assume "(of_char c :: byte) = 0"
    then have "unat (of_char c :: byte) = 0" by (simp only: unat_0)
    then have "(of_char c :: nat) = 0" by (simp only: unat_of_char)
    moreover have "(of_char (CHR 0x00) :: nat) = 0" by simp
    ultimately have "(of_char c :: nat) = of_char (CHR 0x00)" by (simp only:)
    then show False using that by (simp only: of_char_eq_iff)
  qed
  have "takeWhile (\<lambda>c. c \<noteq> 0) (bytes_of path @ 0 # xs) = bytes_of path"
  proof (subst takeWhile_append2)
    show "x \<noteq> 0" if x: "x \<in> set (bytes_of path)" for x
    proof -
      obtain c where "c \<in> set path" "x = of_char c" using x unfolding bytes_of_def set_map by blast
      then show ?thesis using a nz by metis
    qed
  qed simp
  then show ?thesis by (simp add: trimNUL_def)
qed

context block_device
begin

lemma cread_member:
  assumes d: "invar d" "pre @ member_bytes h path body @ rest = view d" and pos: "pos = length pre" "4 dvd pos"
    and ok: "chdr_ok h" "c_namesize h = length path + 1" "c_filesize h = length body" "(CHR 0x00) \<notin> set path"
  shows "cread_loop D d pos st =
     (if path = trailerName then Some (Inr (fst st))
      else (case addEntry D d h path (pos + headerSize + nAlign (length path + 1)) st of
          Inl e \<Rightarrow> Some (Inl e)
        | Inr st' \<Rightarrow> cread_loop D d (pos + length (member_bytes h path body)) st'))"
proof -
  let ?np = "nAlign (length path + 1)"
  have len: "length (c_marshal h) = headerSize" "length (name_region path) = ?np"
    using ok(1) by (auto simp: length_c_marshal chdr_ok_def length_name_region)
  have tot: "length (view d) = pos + headerSize + ?np + length body + length (pad_to 4 (length body)) + length rest"
    using len pos(1) by (simp add: member_bytes_def flip: d(2))
  have "read_full D d headerSize (int pos) = Inr (window (view d) pos headerSize)"
    using tot by (intro read_inside[OF d(1)]) simp
  also have "window (view d) pos headerSize = c_marshal h"
    using len pos(1) by (simp add: window_def member_bytes_def flip: d(2))
  finally have hdr: "read_full D d headerSize (int pos) = Inr (c_marshal h)" .
  have "read_full D d (length path + 1) (int (pos + headerSize)) = Inr (window (view d) (pos + headerSize) (length path + 1))"
    using tot nAlign_props(1)[of "length path + 1"] by (intro read_inside[OF d(1)]) simp
  also have "window (view d) (pos + headerSize) (length path + 1) = bytes_of path @ [0]"
    using len pos(1) by (simp add: window_def member_bytes_def name_region_def flip: d(2))
  finally have nm: "read_full D d (length path + 1) (int (pos + headerSize)) = Inr (bytes_of path @ [0])" .
  have "4 dvd headerSize + ?np" unfolding dvd_eq_mod_eq_0 by (rule nAlign_props)
  then have "4 dvd pos + (headerSize + ?np)" using pos(2) by (rule dvd_add[rotated])
  from align4_add[OF this, of "length body"]
  have nxt: "align4 (pos + headerSize + ?np + length body) = pos + length (member_bytes h path body)"
    using len by (simp add: member_bytes_def add.assoc)
  show ?thesis
    using hdr nm marshal_parse[OF ok(1)] trimNUL_name[OF ok(4), of "[]"] nxt ok(2,3)
    by (subst cread_loop.simps) (simp add: Let_def split: sum.splits del: of_nat_add)
qed

lemma cread_members:
  assumes "invar d" "pre @ members_bytes ms @ member_bytes trailer_hdr trailerName [] @ rest = view d"
    and "pos = length pre" "4 dvd pos" "list_all member_ok ms"
  shows "cread_loop D d pos st = Some (add_members D d pos st ms)"
  using assms(2-5)
proof (induction ms arbitrary: pre pos st)
  case Nil
  then have "pre @ member_bytes trailer_hdr trailerName [] @ rest = view d" by (simp add: members_bytes_def)
  from cread_member[OF assms(1) this Nil.prems(2,3) chdr_ok_trailer, of st]
  show ?case by (simp add: trailer_hdr_def trailerName_def)
next
  case (Cons m ms)
  obtain h path body where m: "m = (h, path, body)" by (cases m) auto
  have ok: "chdr_ok h" "c_namesize h = length path + 1" "c_filesize h = length body"
    "(CHR 0x00) \<notin> set path" "path \<noteq> trailerName" "list_all member_ok ms"
    using Cons.prems(4) m by (auto simp: member_ok_def)
  let ?rest = "members_bytes ms @ member_bytes trailer_hdr trailerName [] @ rest"
  let ?pre = "pre @ member_bytes h path body"
  have v: "pre @ member_bytes h path body @ ?rest = view d"
    using Cons.prems(1) m by (simp add: members_bytes_def)
  have v2: "?pre @ ?rest = view d" using v by simp
  have al: "4 dvd pos + length (member_bytes h path body)" using Cons.prems(3) length_member[OF ok(1)] by simp
  from cread_member[OF assms(1) v Cons.prems(2,3) ok(1-4), of st] ok(5) m
    Cons.IH[OF v2 _ al ok(6)] Cons.prems(2)
  show ?case by (simp split: sum.splits)
qed

end

section \<open>The reader ends, and cannot be led outside the tree\<close>

lemma align4_ge: "x \<le> align4 x"
  unfolding align4_def by presburger

lemma cread_past_end:
  assumes "length m \<le> pos"
  shows "cread_loop mem_ops m pos st = Some (Inl (Err ''cpio: bad or missing newc magic''))"
proof -
  have "window m pos headerSize = []" using assms by (simp add: window_def)
  then have "read_full mem_ops m headerSize (int pos) = Inr (zeros headerSize)"
    using mem_read_full[of "int pos" m headerSize] by (simp add: buf_of_def)
  moreover have "c_parseHeader (zeros headerSize) = Inr None"
    by (simp add: c_parseHeader_def window_def headerSize_def zeros_def string_of_def magicNewc_def magicCRC_def
        Let_def numeral_eq_Suc)
  ultimately show ?thesis by (subst cread_loop.simps) simp
qed

lemma cread_total: "\<exists>r. cread_loop mem_ops m pos st = Some r"
proof (induction "length m - pos" arbitrary: pos st rule: less_induct)
  case less
  show ?case
  proof (cases "length m \<le> pos")
    case True
    then show ?thesis using cread_past_end by blast
  next
    case False
    have rd: "\<exists>b. read_full mem_ops m n (int p) = Inr b" for n p
      using mem_read_full[of "int p" m n] by simp
    obtain head where head: "read_full mem_ops m headerSize (int pos) = Inr head" using rd by blast
    show ?thesis
    proof (cases "c_parseHeader head")
      case (Inl e)
      then show ?thesis using head by (subst cread_loop.simps) simp
    next
      case (Inr o')
      show ?thesis
      proof (cases o')
        case None
        then show ?thesis using Inr head by (subst cread_loop.simps) simp
      next
        case (Some h)
        obtain nb where nb: "read_full mem_ops m (c_namesize h) (int (pos + headerSize)) = Inr nb" using rd by blast
        let ?b = "pos + headerSize + nAlign (c_namesize h)"
        have "pos < align4 (?b + c_filesize h)"
          using align4_ge[of "?b + c_filesize h"] by (simp add: headerSize_def)
        then have lt: "length m - align4 (?b + c_filesize h) < length m - pos" using False by linarith
        have IH: "\<exists>r. cread_loop mem_ops m (align4 (?b + c_filesize h)) st' = Some r" for st'
          using less.hyps[OF lt] by blast
        show ?thesis
        proof (cases "trimNUL nb = trailerName")
          case True
          then show ?thesis using head Inr Some nb
            by (subst cread_loop.simps) (simp del: of_nat_add)
        next
          case nt: False
          show ?thesis
          proof (cases "addEntry mem_ops m h (trimNUL nb) ?b st")
            case (Inl e)
            then show ?thesis using nt head \<open>c_parseHeader head = Inr o'\<close> Some nb
              by (subst cread_loop.simps) (simp del: of_nat_add)
          next
            case inr: (Inr st')
            then show ?thesis using IH[of st'] nt head \<open>c_parseHeader head = Inr o'\<close> Some nb
              by (subst cread_loop.simps) (simp del: of_nat_add)
          qed
        qed
      qed
    qed
  qed
qed

lemma map_of_None_fst: "map_of xs k = None \<longleftrightarrow> k \<notin> set (map fst xs)"
  by (simp add: map_of_eq_None_iff)

lemma childDir_names:
  assumes "heap_names_ok h" "ValidName c = None" "childDir h d c = (h', r)"
  shows "heap_names_ok h'"
proof (cases "map_of (nd_children (h ! d)) c")
  case None
  have p: "entries_ok placeholder_dir" by (simp add: entries_ok_def placeholder_dir_def new_node_def)
  have "c \<notin> set (map fst (nd_children (h ! d)))" using None by (simp add: map_of_None_fst del: set_map)
  then have add: "entries_ok (n\<lparr>nd_children := nd_children n @ [(c, k)]\<rparr>)"
    if "entries_ok n" "c \<notin> set (map fst (nd_children n))" for n k
    using that assms(2) by (auto simp: entries_ok_def)
  have "h' = add_entry (h @ [placeholder_dir]) d c (length h)" using assms(3) None by (auto simp: childDir_def)
  moreover have "heap_names_ok (add_entry (h @ [placeholder_dir]) d c (length h))"
    unfolding add_entry_def
  proof (rule heap_names_update[OF heap_names_append[OF assms(1) p]])
    assume d: "d < length (h @ [placeholder_dir])"
    have e: "entries_ok ((h @ [placeholder_dir]) ! d)"
      by (rule heap_names_nth[OF heap_names_append[OF assms(1) p] d])
    have "c \<notin> set (map fst (nd_children ((h @ [placeholder_dir]) ! d)))"
      using None d by (cases "d < length h") (auto simp: nth_append map_of_eq_None_iff placeholder_dir_def new_node_def less_Suc_eq)
    then show "entries_ok (((h @ [placeholder_dir]) ! d)\<lparr>nd_children := nd_children ((h @ [placeholder_dir]) ! d) @ [(c, length h)]\<rparr>)"
      by (rule add[OF e])
  qed
  ultimately show ?thesis by simp
qed (use assms in \<open>auto simp: childDir_def\<close>)

lemma childDirs_names:
  "heap_names_ok h \<Longrightarrow> \<forall>c \<in> set cs. ValidName c = None \<Longrightarrow>
    fold (\<lambda>c (h, d). childDir h d c) cs (h, d) = (h', r) \<Longrightarrow> heap_names_ok h'"
proof (induction cs arbitrary: h d)
  case (Cons c cs)
  obtain h1 r1 where c: "childDir h d c = (h1, r1)" by fastforce
  then have "heap_names_ok h1" using childDir_names Cons.prems by auto
  then show ?case using Cons c by auto
qed simp

lemma check_names_ok: "check_names comps = None \<longleftrightarrow> (\<forall>c \<in> set comps. ValidName c = None)"
proof (cases "filter (\<lambda>c. ValidName c \<noteq> None) comps")
  case Nil
  then show ?thesis by (auto simp: check_names_def filter_empty_conv)
next
  case (Cons c cs)
  then have "c \<in> set (filter (\<lambda>c. ValidName c \<noteq> None) comps)" by simp
  then have "c \<in> set comps" "ValidName c \<noteq> None" by auto
  then show ?thesis using Cons by (auto simp: check_names_def)
qed

lemma fst_set_entry: "map fst (set_entry name r es) = map fst es"
  by (induction es) auto

lemma set_set_entry: "fst ` set (set_entry name r es) = fst ` set es"
  using fst_set_entry[of name r es] by (metis set_map)

lemma entries_ok_names: "map fst (nd_children n') = map fst (nd_children n) \<Longrightarrow> entries_ok n' \<longleftrightarrow> entries_ok n"
proof -
  assume a: "map fst (nd_children n') = map fst (nd_children n)"
  then have "fst ` set (nd_children n') = fst ` set (nd_children n)" by (metis set_map)
  then have "(\<forall>e \<in> set (nd_children n'). ValidName (fst e) = None) \<longleftrightarrow> (\<forall>e \<in> set (nd_children n). ValidName (fst e) = None)"
    by (metis (mono_tags, lifting) image_iff)
  then show ?thesis using a by (simp add: entries_ok_def)
qed

lemma cpio_link_names:
  assumes "heap_names_ok h" "comps \<noteq> []" "cpio_link h root comps r = Inr h'"
  shows "heap_names_ok h'"
proof -
  have v: "\<forall>c \<in> set comps. ValidName c = None"
    using assms(3) check_names_ok[of comps] by (auto simp: cpio_link_def split: option.splits)
  then have vb: "\<forall>c \<in> set (butlast comps). ValidName c = None" "ValidName (last comps) = None"
    using assms(2) by (auto dest: in_set_butlastD)
  obtain h1 d where f: "fold (\<lambda>c (h, d). childDir h d c) (butlast comps) (h, root) = (h1, d)" by fastforce
  have h1: "heap_names_ok h1" by (rule childDirs_names[OF assms(1) vb(1) f])
  have chk: "check_names comps = None" using v check_names_ok by blast
  show ?thesis
  proof (cases "map_of (nd_children (h1 ! d)) (last comps)")
    case None
    then have "h' = h1[d := (h1 ! d)\<lparr>nd_children := nd_children (h1 ! d) @ [(last comps, r)]\<rparr>]"
      using assms(3) f vb(2) chk by (simp add: cpio_link_def Let_def AddChild_def)
    moreover have "last comps \<notin> fst ` set (nd_children (h1 ! d))" using None by (simp add: map_of_eq_None_iff)
    ultimately show ?thesis
      using heap_names_nth[OF h1] vb(2) by (auto intro!: heap_names_update[OF h1] simp: entries_ok_def)
  next
    case (Some old)
    then consider "h' = h1[old := (h1 ! old)\<lparr>md_mode := md_mode (h1 ! r), md_uid := md_uid (h1 ! r),
               md_gid := md_gid (h1 ! r), md_mtime := md_mtime (h1 ! r), md_xattrs := md_xattrs (h1 ! r),
               nd_nlink := nd_nlink (h1 ! r)\<rparr>]"
      | "h' = h1[d := (h1 ! d)\<lparr>nd_children := set_entry (last comps) r (nd_children (h1 ! d))\<rparr>]"
      using assms(3) f chk by (auto simp: cpio_link_def Let_def split: if_splits)
    then show ?thesis
    proof cases
      case 1
      then show ?thesis using heap_names_nth[OF h1]
        by (auto intro!: heap_names_update[OF h1] simp: entries_ok_def)
    next
      case 2
      have "entries_ok ((h1 ! d)\<lparr>nd_children := set_entry (last comps) r (nd_children (h1 ! d))\<rparr>)"
        if "d < length h1"
        using heap_names_nth[OF h1 that] by (subst entries_ok_names[of _ "h1 ! d"]) (simp_all add: fst_set_entry)
      then show ?thesis unfolding 2 by (rule heap_names_update[OF h1])
    qed
  qed
qed

lemma entry_node_names: "entry_node D d ch b = Inr n \<Longrightarrow> entries_ok n"
  by (auto simp: entry_node_def Let_def bindE_Inr_iff new_node_def entries_ok_def split: if_splits)

lemma heap_names_content: "heap_names_ok h \<Longrightarrow> heap_names_ok (h[r := (h ! r)\<lparr>in_content := c\<rparr>])"
  by (intro heap_names_update) (auto simp: heap_names_ok_def entries_ok_def)

lemma addEntry_names:
  assumes "heap_names_ok h" "addEntry D d ch name b (h, im) = Inr (h', im')"
  shows "heap_names_ok h'"
proof (cases "splitPath name = []")
  case True
  then show ?thesis using assms by (simp add: addEntry_def)
next
  case False
  let ?k = "if mode_is_regular (modeFromUnix (word_of_nat (c_mode ch))) \<and> c_nlink ch \<ge> 2
    then map_of im (c_ino ch) else None"
  show ?thesis
  proof (cases ?k)
    case (Some r)
    then have "cpio_link (if 0 < c_filesize ch then h[r := (h ! r)\<lparr>in_content := Some (cpioFile D d b (c_filesize ch))\<rparr>] else h)
        0 (splitPath name) r = Inr h'"
      using assms(2) False by (auto simp: addEntry_def Let_def bindE_Inr_iff simp del: of_nat_add split: if_splits)
    then show ?thesis
      using heap_names_content[OF assms(1)] assms(1) False by (auto intro: cpio_link_names split: if_splits)
  next
    case None
    then obtain n where n: "entry_node D d ch b = Inr n" "cpio_link (h @ [n]) 0 (splitPath name) (length h) = Inr h'"
      using assms(2) False by (auto simp: addEntry_def Let_def bindE_Inr_iff)
    then show ?thesis
      using heap_names_append[OF assms(1) entry_node_names[OF n(1)]] False by (auto intro: cpio_link_names)
  qed
qed

lemma cread_names:
  assumes "cread_loop D d pos st = Some r"
  shows "heap_names_ok (fst st) \<longrightarrow> (\<forall>h. r = Inr h \<longrightarrow> heap_names_ok h)"
proof (rule cread_loop.raw_induct[of "\<lambda>D d pos st r. heap_names_ok (fst st) \<longrightarrow> (\<forall>h. r = Inr h \<longrightarrow> heap_names_ok h)"
      D d pos st r], goal_cases)
  case prems: (1 loop D d pos st r)
  show ?case
  proof (intro impI allI)
    fix h assume st: "heap_names_ok (fst st)" and r: "r = Inr h"
    from prems(2)[unfolded r Let_def] obtain head ch nb where
      e: "read_full D d headerSize (int pos) = Inr head" "c_parseHeader head = Inr (Some ch)"
        "read_full D d (c_namesize ch) (int (pos + headerSize)) = Inr nb"
        "(if trimNUL nb = trailerName then Some (Inr (fst st))
         else case addEntry D d ch (trimNUL nb) (pos + headerSize + nAlign (c_namesize ch)) st of
             Inl e \<Rightarrow> Some (Inl e)
           | Inr st' \<Rightarrow> loop D d (align4 (pos + headerSize + nAlign (c_namesize ch) + c_filesize ch)) st') = Some (Inr h)"
      by (auto simp: Let_def split: sum.splits option.splits)
    show "heap_names_ok h"
    proof (cases "trimNUL nb = trailerName")
      case True
      then show ?thesis using e st by simp
    next
      case False
      then obtain h' im' where a: "addEntry D d ch (trimNUL nb) (pos + headerSize + nAlign (c_namesize ch)) (fst st, snd st) = Inr (h', im')"
        "loop D d (align4 (pos + headerSize + nAlign (c_namesize ch) + c_filesize ch)) (h', im') = Some (Inr h)"
        using e(4) by (auto split: sum.splits)
      from addEntry_names[OF st a(1)] prems(1)[OF a(2)] show ?thesis by simp
    qed
  qed
qed (use assms in simp)

section \<open>Properties\<close>

text \<open>
  A header whose fields fit eight hexadecimal digits is 110 bytes long and parses back to
  itself, field by field.
\<close>

lemma cpio_header_round_trip:
  assumes "chdr_ok h"
  shows "length (c_marshal h) = headerSize \<and> c_parseHeader (c_marshal h @ rest) = Inr (Some h)"
proof -
  have len: "length (c_marshal h) = headerSize" using assms by (simp add: length_c_marshal chdr_ok_def)
  have w: "window (c_marshal h @ rest) off n = window (c_marshal h) off n" if "off + n \<le> headerSize" for off n
    using that len by (simp add: window_append_left)
  have f: "parse_fields (c_marshal h @ rest) is = parse_fields (c_marshal h) is" if "\<forall>i \<in> set is. i < 13" for "is"
    using that
  proof (induction "is")
    case (Cons i "is")
    have "6 + i * 8 + 8 \<le> headerSize" using Cons.prems by (simp add: headerSize_def)
    then show ?case using Cons w by (simp split: option.split)
  qed simp
  have "c_parseHeader (c_marshal h @ rest) = c_parseHeader (c_marshal h)"
    using len w[of 0 6] f[of "[0 ..< 13]"] by (simp add: c_parseHeader_def headerSize_def Let_def)
  then show ?thesis using len marshal_parse[OF assms] by simp
qed

text \<open>
  The Unix mode conversion loses nothing: every mode made of permissions, the set-id and
  sticky flags and one file type comes back as it was.
\<close>

lemma cpio_modes_round_trip:
  assumes "unix_mode m"
  shows "modeFromUnix (modeToUnix m) = m"
  using assms by (rule mode_round_trip)

text \<open>
  C40. An archive, however corrupt, can neither hang the reader nor lead it outside the tree:
  opening any device content returns, and every name in a tree it yields is a valid path component,
  distinct in its directory.
\<close>

theorem cpio_open_returns_and_is_contained:
  "case cpio_Open mem_ops m of None \<Rightarrow> False | Some (Inl e) \<Rightarrow> True | Some (Inr h) \<Rightarrow> heap_names_ok h"
proof -
  obtain r where r: "cpio_Open mem_ops m = Some r" using cread_total unfolding cpio_Open_def by blast
  have "heap_names_ok [placeholder_dir]"
    by (simp add: heap_names_ok_def entries_ok_def placeholder_dir_def new_node_def)
  then show ?thesis using r cread_names[of mem_ops m 0 "([placeholder_dir], [])" r] unfolding cpio_Open_def
    by (auto split: sum.splits)
qed

text \<open>
  C15. The archive the writer makes of a tree is read back member by member: on a device that is
  large enough \<open>Finalize\<close> succeeds, and the reader sees exactly the headers and paths the
  writer emitted, each member's body lying where the reader looks for it.
\<close>

theorem cpio_archive_reads_back:
  assumes plan: "list_all2 (member_for now) (archive_plan root) ms" and ok: "list_all member_ok ms"
    and fit: "length (archive_bytes ms) \<le> n" "n < 2 ^ 63"
  shows "\<exists>d. cpio_Finalize mem_ops now root (mem_new n) = (None, d)
    \<and> cpio_Open mem_ops d = Some (add_members mem_ops d 0 ([placeholder_dir], []) ms)
    \<and> (\<forall>i < length ms. case ms ! i of (h, path, body) \<Rightarrow>
        window d (length (members_bytes (take i ms)) + headerSize + nAlign (length path + 1)) (c_filesize h) = body)"
proof -
  have hdrs: "list_all (\<lambda>m. chdr_ok (fst m)) ms" using ok by (auto simp: list_all_iff member_ok_def)
  have inv: "mem_invar (mem_new n)" using fit by (simp add: mem_invar_def mem_new_def)
  obtain d where d: "cpio_Finalize mem_ops now root (mem_new n) = (None, d)" "mem_invar d"
    "take (length (archive_bytes ms)) d = archive_bytes ms"
    using mem.archive_written[OF plan hdrs inv _ fit(1)] by (auto simp: mem_new_def)
  let ?t = "member_bytes trailer_hdr trailerName []"
  let ?b = "members_bytes ms @ c_marshal trailer_hdr @ name_region trailerName"
  have "archive_bytes ms = members_bytes ms @ ?t @ pad_to padTo (length ?b)"
    by (simp add: archive_bytes_def Let_def member_bytes_def pad_to_def)
  then have v: "members_bytes ms @ ?t @ pad_to padTo (length ?b) @ drop (length (archive_bytes ms)) d = d"
    using d(3) append_take_drop_id[of "length (archive_bytes ms)" d] by (metis append.assoc)
  have "cpio_Open mem_ops d = Some (add_members mem_ops d 0 ([placeholder_dir], []) ms)"
    unfolding cpio_Open_def by (rule mem.cread_members[OF d(2), of "[]"]) (use v ok in simp_all)
  moreover have "window d (length (members_bytes (take i ms)) + headerSize + nAlign (length path + 1)) (c_filesize h) = body"
    if i: "i < length ms" "ms ! i = (h, path, body)" for i h path body
  proof -
    have m: "member_ok (h, path, body)" using ok i by (metis list_all_length)
    have "members_bytes ms = members_bytes (take i ms) @ member_bytes h path body @ members_bytes (drop (Suc i) ms)"
      using id_take_nth_drop[OF i(1)] i(2)
      by (metis (no_types, lifting) members_bytes_def concat_append map_append list.simps(9) concat.simps(2) case_prod_conv)
    then obtain rest where "d = members_bytes (take i ms) @ (c_marshal h @ name_region path) @ body @ rest"
      using v by (metis (no_types, opaque_lifting) member_bytes_def append.assoc)
    moreover have "length (c_marshal h @ name_region path) = headerSize + nAlign (length path + 1)" "c_filesize h = length body"
      using m by (auto simp: member_ok_def length_c_marshal chdr_ok_def length_name_region)
    ultimately show ?thesis by (simp add: window_def)
  qed
  ultimately show ?thesis using d(1) by (auto split: prod.splits)
qed

lemma length_member_bytes:
  "chdr_ok h \<Longrightarrow> length (member_bytes h path body)
     = headerSize + nAlign (length path + 1) + length body + length (pad_to 4 (length body))"
  by (simp add: member_bytes_def length_c_marshal chdr_ok_def length_name_region)

lemma entry_hdr_ok:
  assumes "md_uid n < 2 ^ 32" "md_gid n < 2 ^ 32" "ino < 2 ^ 32" "nlink < 2 ^ 32"
    and "let t = (if is_zero_time (md_mtime n) then now else md_mtime n) in 0 \<le> gt_sec t \<and> gt_sec t < 2 ^ 32"
  shows "chdr_ok (entry_hdr now path n ino nlink wb)"
proof -
  have "unat (modeToUnix (md_mode n)) < 2 ^ 32" using unsigned_less[of "modeToUnix (md_mode n)"] by simp
  moreover have "u32_of_int x < 2 ^ 32" for x by (simp add: u32_of_int_def nat_less_iff)
  moreover have "u32 x < 2 ^ 32" for x by simp
  moreover have "entry_size n wb < 2 ^ 32"
    using calculation by (simp add: entry_size_def split: option.split)
  ultimately show ?thesis using assms
    by (auto simp: chdr_ok_def chdr_fields_def entry_hdr_def Let_def)
qed

definition sample_file :: node where
  "sample_file = (new_node sample_meta 1)\<lparr>in_content := Some (bytes_source [104, 105])\<rparr>"

definition sample_tree :: tnode where
  "sample_tree = TNode 0 placeholder_dir [(''init'', TNode 1 sample_file [])]"

definition sample_now :: gotime where
  "sample_now = \<lparr> gt_sec = 1700000000, gt_nsec = 0 \<rparr>"

definition sample_members :: "member list" where
  "sample_members = [(entry_hdr sample_now ''init'' sample_file 1 1 True, ''init'', [104, 105])]"

lemma sample_file_props: "\<not> is_dir sample_file" "is_reg_node sample_file" "\<not> has (md_mode sample_file) ModeSymlink"
  "in_content sample_file = Some (bytes_source [104, 105])"
  by (simp_all add: sample_file_def new_node_def sample_meta_def is_dir_def mode_is_dir_def has_def mode_defs is_reg_node_def)

lemma sample_hdr_ok: "chdr_ok (entry_hdr sample_now ''init'' sample_file 1 1 True)"
  by (rule entry_hdr_ok)
    (simp_all add: sample_file_def new_node_def sample_meta_def is_zero_time_def zero_time_def sample_now_def)

lemma sample_plan: "archive_plan sample_tree = [(''init'', sample_file, 1, 1, True)]"
  by (simp add: archive_plan_def sample_tree_def sort_by_name_def sample_file_props number_entries_def
      number_entry_def Let_def)

theorem cpio_archive_reads_back_witness:
  "\<exists>d. cpio_Finalize mem_ops sample_now sample_tree (mem_new 1024) = (None, d)
    \<and> cpio_Open mem_ops d = Some (add_members mem_ops d 0 ([placeholder_dir], []) sample_members)
    \<and> (\<forall>i < length sample_members. case sample_members ! i of (h, path, body) \<Rightarrow>
        window d (length (members_bytes (take i sample_members)) + headerSize + nAlign (length path + 1)) (c_filesize h) = body)"
proof (rule cpio_archive_reads_back)
  have b: "member_body sample_file True [104, 105]"
    using sample_file_props bytes_source_ok[of "[104, 105]"] by (simp add: member_body_def)
  show "list_all2 (member_for sample_now) (archive_plan sample_tree) sample_members"
    using b by (simp add: sample_plan sample_members_def member_for_def)
  have "c_namesize (entry_hdr sample_now ''init'' sample_file 1 1 True) = 5"
    by (simp add: entry_hdr_def Let_def)
  moreover have "c_filesize (entry_hdr sample_now ''init'' sample_file 1 1 True) = 2"
    using entry_size_body[OF b] by (simp add: entry_hdr_def Let_def)
  ultimately show "list_all member_ok sample_members"
    using sample_hdr_ok by (simp add: sample_members_def member_ok_def trailerName_def)
  have "length (c_marshal trailer_hdr) = 110"
    using chdr_ok_trailer by (simp add: length_c_marshal chdr_ok_def headerSize_def)
  then show "length (archive_bytes sample_members) \<le> 1024"
    using sample_hdr_ok
    by (simp add: archive_bytes_def Let_def members_bytes_def sample_members_def length_member_bytes
        length_name_region nAlign_def headerSize_def trailerName_def pad_to_def padTo_def)
qed simp

text \<open>
  \<open>childDir\<close> does not check what it descends into: an archive that names \<open>a\<close> as
  a file and later \<open>a/b\<close> is accepted, and leaves a node that is no directory with an entry,
  which every engine then silently drops.
\<close>

lemma cpio_file_used_as_directory:
  assumes entry: "map_of (nd_children (h ! 0)) a = Some f" "f < length h" "\<not> is_dir (h ! f)" "nd_children (h ! f) = []"
    and names: "ValidName a = None" "ValidName b = None" and r: "r < length h"
  shows "\<exists>h'. cpio_link h 0 [a, b] r = Inr h' \<and> \<not> is_dir (h' ! f) \<and> nd_children (h' ! f) = [(b, r)]"
  using assms by (simp add: cpio_link_def check_names_def childDir_def AddChild_def is_dir_def)

definition file_image :: heap where
  "file_image = [placeholder_dir\<lparr>nd_children := [(''a'', 1)]\<rparr>, sample_file]"

end
