(* ===== verification/Partition.thy ===== *)
theory Partition
  imports Prelude Codec Device
begin

text \<open>
  GPT and MBR partition tables (\<open>pkg/partition\<close>). Sector numbers are \<open>uint64\<close> and
  wrap, sizes are \<open>int64\<close>. A partition's \<open>Section\<close> is the offset and the size given
  to \<open>device.NewSection\<close>; the disk GUID is what the injected UUID source returns.
\<close>

section \<open>Constants and types\<close>

definition sectorSize :: nat where "sectorSize = 512"
definition entryCount :: nat where "entryCount = 128"
definition entrySize :: nat where "entrySize = 128"
definition entryArraySecs :: nat where "entryArraySecs = entryCount * entrySize div sectorSize"
definition primaryHdrLBA :: nat where "primaryHdrLBA = 1"
definition entryArrayLBA :: nat where "entryArrayLBA = 2"
definition firstUsableLBA :: nat where "firstUsableLBA = 2 + entryArraySecs"
definition alignSectors :: nat where "alignSectors = 2048"

lemmas part_consts = sectorSize_def entryCount_def entrySize_def entryArraySecs_def primaryHdrLBA_def
  entryArrayLBA_def firstUsableLBA_def alignSectors_def

record mbr_spec =
  ms_type :: byte
  ms_size :: int
  ms_boot :: bool

record gpt_spec =
  gs_type :: bytes
  gs_name :: string
  gs_size :: int

record partition =
  pt_name :: string
  pt_start :: nat
  pt_end :: nat
  pt_off :: int
  pt_size :: int

definition errNoSpecs :: error where "errNoSpecs = Err ''partition: no partitions specified''"
definition errFillNotLast :: error where
  "errFillNotLast = Err ''partition: only the last partition may fill remaining space''"
definition errTooSmall :: error where
  "errTooSmall = Err ''partition: disk too small for the requested layout''"
definition errTooManyPrimaries :: error where
  "errTooManyPrimaries = Err ''partition: MBR supports at most 4 primary partitions''"
definition errSectorMultiple :: error where
  "errSectorMultiple = Err ''partition: device size must be a multiple of 512''"

definition align :: "nat \<Rightarrow> nat \<Rightarrow> nat" where
  "align lba to = u64 (sub64 (u64 (lba + to)) 1 div to * to)"

text \<open>\<open>uint64((size + sectorSize - 1) / sectorSize)\<close>.\<close>

definition sectors_of :: "int \<Rightarrow> nat" where
  "sectors_of sz = u64_of_int (go_div (i64 (sz + int sectorSize - 1)) (int sectorSize))"

text \<open>\<open>int64(lba) * sectorSize\<close>.\<close>

definition byte_off :: "nat \<Rightarrow> int" where
  "byte_off lba = i64 (i64 (int lba) * int sectorSize)"

section \<open>MBR\<close>

definition mbrName :: "byte \<Rightarrow> string" where
  "mbrName t = (if t = 0xEF then ''esp'' else if t = 0x0C then ''fat32''
     else if t = 0x82 then ''swap'' else ''linux'')"

text \<open>\<open>writeMBREntry(b[base:], \<dots>)\<close>.\<close>

definition writeMBREntry :: "nat \<Rightarrow> mbr_spec \<Rightarrow> nat \<Rightarrow> nat \<Rightarrow> bytes \<Rightarrow> bytes" where
  "writeMBREntry base s startLBA count b =
     (let b = (if ms_boot s then blit b base [0x80] else b);
          b = blit b (base + 1) [0xFE, 0xFF, 0xFF];
          b = blit b (base + 4) [ms_type s];
          b = blit b (base + 5) [0xFE, 0xFF, 0xFF];
          b = put_le 4 (base + 8) (u32 startLBA) b
      in put_le 4 (base + 12) (u32 count) b)"

fun mbr_loop :: "nat \<Rightarrow> nat \<Rightarrow> nat \<Rightarrow> bytes \<Rightarrow> mbr_spec list \<Rightarrow> (partition list \<times> bytes) result" where
  "mbr_loop total_lba i cur b [] = Inr ([], b)"
| "mbr_loop total_lba i cur b (s # ss) =
     (if ms_size s = 0 \<and> ss \<noteq> [] then Inl errFillNotLast
      else let start = cur;
          count = (if ms_size s = 0 then sub64 total_lba cur else sectors_of (ms_size s)) in
        if ms_size s \<noteq> 0 \<and> u64 (start + count) > total_lba then Inl errTooSmall
        else let b = writeMBREntry (446 + i * 16) s start count b;
            p = \<lparr> pt_name = mbrName (ms_type s), pt_start = start, pt_end = sub64 (u64 (start + count)) 1,
                  pt_off = byte_off start, pt_size = byte_off count \<rparr> in
          bindE (mbr_loop total_lba (i + 1) (align (u64 (start + count)) alignSectors) b ss)
            (\<lambda>(ps, b). Inr (p # ps, b)))"

definition FormatMBR :: "'d device_ops \<Rightarrow> 'd \<Rightarrow> mbr_spec list \<Rightarrow> (partition list) result \<times> 'd" where
  "FormatMBR D d specs =
     (if specs = [] then (Inl errNoSpecs, d)
      else if length specs > 4 then (Inl errTooManyPrimaries, d)
      else if dev_size D d mod int sectorSize \<noteq> 0 then (Inl errSectorMultiple, d)
      else let total_lba = u64_of_int (dev_size D d) div sectorSize in
        if total_lba < alignSectors + alignSectors then (Inl errTooSmall, d)
        else (case mbr_loop total_lba 0 alignSectors (zeros sectorSize) specs of
          Inl e \<Rightarrow> (Inl e, d)
        | Inr (ps, b) \<Rightarrow>
            (case write_all D d (blit b 510 [0x55, 0xAA]) 0 of
               (Some e, d') \<Rightarrow> (Inl e, d')
             | (None, d') \<Rightarrow> (Inr ps, d'))))"

section \<open>GPT\<close>

definition deriveGUID :: "bytes \<Rightarrow> nat \<Rightarrow> bytes" where
  "deriveGUID base index =
     (let g = base[15 := base ! 15 XOR word_of_nat index] in
      g[14 := g ! 14 XOR word_of_nat (index div 256)])"

text \<open>\<open>buildEntry(b[base:], \<dots>)\<close>; the name is cut to 36 UTF-16 units.\<close>

definition buildEntry :: "nat \<Rightarrow> bytes \<Rightarrow> bytes \<Rightarrow> nat \<Rightarrow> nat \<Rightarrow> string \<Rightarrow> bytes \<Rightarrow> bytes" where
  "buildEntry base typ unique firstLBA lastLBA name b =
     (let b = blit b base typ;
          b = blit b (base + 16) unique;
          b = put_le 8 (base + 32) firstLBA b;
          b = put_le 8 (base + 40) lastLBA b
      in blit b (base + 56) (concat (map (le_bytes 2) (take 36 (utf16_encode (runes name))))))"

definition buildHeader ::
  "nat \<Rightarrow> nat \<Rightarrow> nat \<Rightarrow> nat \<Rightarrow> nat \<Rightarrow> bytes \<Rightarrow> 32 word \<Rightarrow> bytes" where
  "buildHeader currentLBA backupLBA firstUsable lastUsable arrayLBA diskGUID entriesCRC =
     (let b = zeros sectorSize;
          b = blit b 0 (bytes_of ''EFI PART'');
          b = put_le 4 8 0x00010000 b;
          b = put_le 4 12 92 b;
          b = put_le 8 24 currentLBA b;
          b = put_le 8 32 backupLBA b;
          b = put_le 8 40 firstUsable b;
          b = put_le 8 48 lastUsable b;
          b = blit b 56 diskGUID;
          b = put_le 8 72 arrayLBA b;
          b = put_le 4 80 entryCount b;
          b = put_le 4 84 entrySize b;
          b = put_le 4 88 (unat entriesCRC) b;
          b = put_le 4 16 0 b
      in put_le 4 16 (unat (crc32_ieee (take 92 b))) b)"

definition protective_mbr :: "nat \<Rightarrow> bytes" where
  "protective_mbr total_lba =
     (let b = zeros sectorSize;
          b = blit b 446 [0x00, 0x00, 0x02, 0x00, 0xEE, 0xFF, 0xFF, 0xFF];
          b = put_le 4 (446 + 8) 1 b;
          sz = min (sub64 total_lba 1) 0xFFFFFFFF;
          b = put_le 4 (446 + 12) sz b
      in blit b 510 [0x55, 0xAA])"

definition writeProtectiveMBR :: "'d device_ops \<Rightarrow> 'd \<Rightarrow> nat \<Rightarrow> error option \<times> 'd" where
  "writeProtectiveMBR D d total_lba = write_all D d (protective_mbr total_lba) 0"

text \<open>The loop that assigns sector ranges.\<close>

fun gpt_ranges :: "nat \<Rightarrow> nat \<Rightarrow> gpt_spec list \<Rightarrow> (nat \<times> nat) list result" where
  "gpt_ranges lastUsable cur [] = Inr []"
| "gpt_ranges lastUsable cur (s # ss) =
     (if gs_size s = 0 then
        (if ss \<noteq> [] then Inl errFillNotLast
         else if cur > lastUsable then Inl errTooSmall
         else Inr [(cur, lastUsable)])
      else let fin = sub64 (u64 (cur + sectors_of (gs_size s))) 1 in
        if fin > lastUsable then Inl errTooSmall
        else bindE (gpt_ranges lastUsable (align (u64 (fin + 1)) alignSectors) ss)
          (\<lambda>rs. Inr ((cur, fin) # rs)))"

text \<open>
  The entry array and the partitions. \<open>entries[i*entrySize:]\<close> is empty or out of range
  from the 129th specification on, and the writes of \<open>buildEntry\<close> panic.
\<close>

fun gpt_entries :: "bytes \<Rightarrow> nat \<Rightarrow> (gpt_spec \<times> nat \<times> nat) list \<Rightarrow> bytes \<Rightarrow> bytes result" where
  "gpt_entries guid i [] b = Inr b"
| "gpt_entries guid i ((s, lo, hi) # rs) b =
     (if i \<ge> entryCount then Inl (Panic ''index out of range'')
      else gpt_entries guid (i + 1) rs
        (buildEntry (i * entrySize) (gs_type s) (deriveGUID guid (i + 1)) lo hi (gs_name s) b))"

definition gpt_partition :: "gpt_spec \<times> nat \<times> nat \<Rightarrow> partition" where
  "gpt_partition = (\<lambda>(s, lo, hi).
     \<lparr> pt_name = gs_name s, pt_start = lo, pt_end = hi, pt_off = byte_off lo,
       pt_size = byte_off (u64 (sub64 hi lo + 1)) \<rparr>)"

text \<open>A sequence of writes that stops at the first error.\<close>

fun write_seq :: "'d device_ops \<Rightarrow> 'd \<Rightarrow> (bytes \<times> int) list \<Rightarrow> error option \<times> 'd" where
  "write_seq D d [] = (None, d)"
| "write_seq D d ((p, off) # ws) =
     (case write_all D d p off of (Some e, d') \<Rightarrow> (Some e, d') | (None, d') \<Rightarrow> write_seq D d' ws)"

definition FormatGPT ::
  "'d device_ops \<Rightarrow> 'd \<Rightarrow> bytes \<Rightarrow> gpt_spec list \<Rightarrow> (partition list) result \<times> 'd" where
  "FormatGPT D d diskGUID specs =
     (if specs = [] then (Inl errNoSpecs, d)
      else if dev_size D d mod int sectorSize \<noteq> 0 then (Inl errSectorMultiple, d)
      else let total_lba = u64_of_int (dev_size D d) div sectorSize in
        if total_lba < firstUsableLBA + entryArraySecs + alignSectors then (Inl errTooSmall, d)
        else let lastUsable = total_lba - 1 - entryArraySecs - 1 in
        (case gpt_ranges lastUsable (align firstUsableLBA alignSectors) specs of
           Inl e \<Rightarrow> (Inl e, d)
         | Inr rs \<Rightarrow>
           (case gpt_entries diskGUID 0 (zip specs rs) (zeros (entryCount * entrySize)) of
              Inl e \<Rightarrow> (Inl e, d)
            | Inr entries \<Rightarrow>
              (let crc = crc32_ieee entries;
                   backupArrayLBA = total_lba - 1 - entryArraySecs;
                   primary = buildHeader primaryHdrLBA (total_lba - 1) firstUsableLBA lastUsable entryArrayLBA diskGUID crc;
                   backup = buildHeader (total_lba - 1) primaryHdrLBA firstUsableLBA lastUsable backupArrayLBA diskGUID crc in
               case write_seq D d
                 [(protective_mbr total_lba, 0), (entries, int (entryArrayLBA * sectorSize)),
                  (primary, int (primaryHdrLBA * sectorSize)), (entries, byte_off backupArrayLBA),
                  (backup, byte_off (total_lba - 1))] of
                 (Some e, d') \<Rightarrow> (Inl e, d')
               | (None, d') \<Rightarrow> (Inr (map gpt_partition (zip specs rs)), d')))))"

section \<open>Sector arithmetic\<close>

lemma sectors_of_small:
  assumes "0 < sz" "sz \<le> 2 ^ 60"
  shows "1 \<le> sectors_of sz" "sz \<le> int (sectors_of sz) * 512" "sectors_of sz \<le> 2 ^ 52"
proof -
  have "sectors_of sz = nat ((sz + 511) div 512)"
    using assms by (simp add: sectors_of_def sectorSize_def)
  then show "1 \<le> sectors_of sz" "sz \<le> int (sectors_of sz) * 512" "sectors_of sz \<le> 2 ^ 52"
    using assms by (auto simp: pos_imp_zdiv_nonneg_iff le_nat_iff)
qed

lemma align_small:
  assumes "x < 2 ^ 62"
  shows "x \<le> align x 2048" "align x 2048 < x + 2048" "2048 dvd align x 2048"
proof -
  have "align x 2048 = (x + 2047) div 2048 * 2048"
    using assms by (simp add: align_def)
  then show "x \<le> align x 2048" "align x 2048 < x + 2048" "2048 dvd align x 2048"
    using div_mult_mod_eq[of "x + 2047" 2048] mod_less_divisor[of 2048 "x + 2047"] by auto
qed

lemma byte_off_small: "lba < 2 ^ 54 \<Longrightarrow> byte_off lba = int (lba * 512)"
  by (simp add: byte_off_def sectorSize_def)

text \<open>Ranges in increasing order inside \<open>[lo, hi]\<close>, aligned, none empty.\<close>

fun ranges_ok :: "nat \<Rightarrow> nat \<Rightarrow> (nat \<times> nat) list \<Rightarrow> bool" where
  "ranges_ok lo hi [] = True"
| "ranges_ok lo hi ((a, b) # rs) \<longleftrightarrow> lo \<le> a \<and> alignSectors dvd a \<and> a \<le> b \<and> b \<le> hi \<and> ranges_ok (b + 1) hi rs"

lemma ranges_ok_weaken: "ranges_ok lo hi rs \<Longrightarrow> lo' \<le> lo \<Longrightarrow> ranges_ok lo' hi rs"
  by (cases rs rule: list.exhaust) auto

lemma ranges_ok_bounds: "ranges_ok lo hi rs \<Longrightarrow> (a, b) \<in> set rs \<Longrightarrow> lo \<le> a \<and> a \<le> b \<and> b \<le> hi \<and> alignSectors dvd a"
  by (induction lo hi rs rule: ranges_ok.induct) fastforce+

lemma ranges_ok_disjoint:
  "ranges_ok lo hi rs \<Longrightarrow> i < j \<Longrightarrow> j < length rs \<Longrightarrow> snd (rs ! i) < fst (rs ! j)"
proof (induction lo hi rs arbitrary: i j rule: ranges_ok.induct)
  case (2 lo hi a b rs)
  then obtain j' where j: "j = Suc j'" "j' < length rs" by (cases j) auto
  show ?case
  proof (cases i)
    case 0
    have "rs ! j' \<in> set rs" using j by simp
    then have "b + 1 \<le> fst (rs ! j')"
      using ranges_ok_bounds[of "b + 1" hi rs "fst (rs ! j')" "snd (rs ! j')"] "2.prems"(1) by simp
    then show ?thesis using 0 j by simp
  next
    case (Suc i')
    then show ?thesis using 2 j by simp
  qed
qed simp

text \<open>A range holds the requested size; a size of 0 asks for what is left.\<close>

lemma gpt_ranges_ok:
  assumes "gpt_ranges lst cur specs = Inr rs" "list_all (\<lambda>s. 0 \<le> gs_size s \<and> gs_size s \<le> 2 ^ 60) specs"
    and "alignSectors dvd cur" "cur < 2 ^ 58" "lst < 2 ^ 55"
  shows "length rs = length specs \<and> ranges_ok cur lst rs
    \<and> list_all2 (\<lambda>s (a, b). gs_size s \<le> int (b - a + 1) * 512) specs rs"
  using assms
proof (induction lst cur specs arbitrary: rs rule: gpt_ranges.induct)
  case (2 lst cur s ss)
  show ?case
  proof (cases "gs_size s = 0")
    case True
    then show ?thesis using 2 by (auto split: if_splits)
  next
    case False
    let ?n = "sectors_of (gs_size s)"
    let ?fin = "sub64 (u64 (cur + ?n)) 1"
    have n: "1 \<le> ?n" "gs_size s \<le> int ?n * 512" "?n \<le> 2 ^ 52"
      using sectors_of_small[of "gs_size s"] 2(3) False by auto
    have fin: "?fin = cur + ?n - 1" using n 2(5) by simp
    obtain rs' where rs': "gpt_ranges lst (align (u64 (?fin + 1)) alignSectors) ss = Inr rs'" "rs = (cur, ?fin) # rs'"
      and le: "?fin \<le> lst" using 2(2) False by (auto simp: Let_def bindE_Inr_iff split: if_splits)
    have f1: "u64 (?fin + 1) = cur + ?n" using fin n 2(5) by simp
    have al: "cur + ?n \<le> align (cur + ?n) 2048" "align (cur + ?n) 2048 < cur + ?n + 2048" "2048 dvd align (cur + ?n) 2048"
      using align_small[of "cur + ?n"] n 2(5) by auto
    have "align (cur + ?n) 2048 < 2 ^ 58" using al(2) le fin n(1) 2(6) by simp
    then have "length rs' = length ss \<and> ranges_ok (align (cur + ?n) 2048) lst rs'
        \<and> list_all2 (\<lambda>s (a, b). gs_size s \<le> int (b - a + 1) * 512) ss rs'"
      using 2(1)[OF False refl _ rs'(1), unfolded f1 alignSectors_def] 2(3,6) al(3) le by simp
    moreover from this have "ranges_ok (?fin + 1) lst rs'"
      using ranges_ok_weaken al(1) fin n(1) by (metis le_add_diff_inverse2 le_trans add_leD2 nat_add_left_cancel_le)
    ultimately show ?thesis using rs'(2) fin n le 2(4) by simp
  qed
qed simp

section \<open>The table on disk\<close>

lemma length_protective [simp]: "length (protective_mbr t) = 512"
  by (simp add: protective_mbr_def Let_def sectorSize_def)

lemma length_buildHeader [simp]: "length guid = 16 \<Longrightarrow> length (buildHeader c b f l a guid crc) = 512"
  by (simp add: buildHeader_def Let_def sectorSize_def entryCount_def entrySize_def sized[where n = 512]
    del: length_put_le length_blit)

lemma length_name_units: "length (concat (map (le_bytes 2) (take 36 us))) \<le> 72"
proof -
  have "length (concat (map (le_bytes 2) vs)) = 2 * length vs" for vs by (induction vs) auto
  then show ?thesis by simp
qed

lemma length_buildEntry:
  assumes "length typ = 16" "length u = 16" "base + 128 \<le> length b"
  shows "length (buildEntry base typ u lo hi name b) = length b"
  using assms length_name_units[of "utf16_encode (runes name)"]
  by (simp add: buildEntry_def Let_def)

lemma length_deriveGUID [simp]: "length (deriveGUID g i) = length g"
  by (simp add: deriveGUID_def Let_def)

text \<open>An entry of the array: type, identity, first and last sector, no attributes, the name cut to 36 units.\<close>

definition gpt_entry_ok :: "bytes \<Rightarrow> bytes \<Rightarrow> bytes \<Rightarrow> nat \<Rightarrow> nat \<Rightarrow> string \<Rightarrow> bool" where
  "gpt_entry_ok e typ unique lo hi name \<longleftrightarrow> length e = 128 \<and> window e 0 16 = typ \<and> window e 16 16 = unique
     \<and> get_le 8 e 32 = lo \<and> get_le 8 e 40 = hi \<and> window e 48 8 = zeros 8
     \<and> window e 56 72 = buf_of 72 (concat (map (le_bytes 2) (take 36 (utf16_encode (runes name)))))"

text \<open>A short string in a zeroed field is the string padded.\<close>

lemma window_blit_pad:
  assumes "off + m \<le> length xs" "length p \<le> m" "window xs (off + length p) (m - length p) = zeros (m - length p)"
  shows "window (blit xs off p) off m = buf_of m p"
proof -
  have "window (blit xs off p) off m = p @ take (m - length p) (drop (off + length p) xs)"
    using assms(1,2) by (simp add: window_def blit_def)
  then show ?thesis using assms(2,3) by (simp add: window_def buf_of_def)
qed

lemma buildEntry_other:
  assumes "length typ = 16" "length u = 16" "base + 128 \<le> length b" "o' + n \<le> base \<or> base + 128 \<le> o'" "o' + n \<le> length b"
  shows "window (buildEntry base typ u lo hi name b) o' n = window b o' n"
proof -
  obtain us where us: "us = concat (map (le_bytes 2) (take 36 (utf16_encode (runes name))))" "length us \<le> 72"
    using length_name_units by blast
  show ?thesis
    using assms(4)
  proof
    assume "o' + n \<le> base"
    then show ?thesis using assms(1-3,5) us(2) unfolding buildEntry_def Let_def us(1)[symmetric]
      by (simp add: sized[where n = "length b"] del: length_put_le length_blit window_blit_same)
  next
    assume "base + 128 \<le> o'"
    then show ?thesis using assms(1-3,5) us(2) unfolding buildEntry_def Let_def us(1)[symmetric]
      by (simp add: sized[where n = "length b"] del: length_put_le length_blit window_blit_same)
  qed
qed

lemma buildEntry_ok:
  assumes "length typ = 16" "length u = 16" "base + 128 \<le> length b" "window b base 128 = zeros 128" "lo < 2 ^ 64" "hi < 2 ^ 64"
  shows "gpt_entry_ok (window (buildEntry base typ u lo hi name b) base 128) typ u lo hi name"
proof -
  let ?us = "concat (map (le_bytes 2) (take 36 (utf16_encode (runes name))))" and ?n = "length b"
  let ?c = "put_le 8 (base + 40) hi (put_le 8 (base + 32) lo (blit (blit b base typ) (base + 16) u))"
  let ?b = "buildEntry base typ u lo hi name b"
  have eq: "?b = blit ?c (base + 56) ?us" by (simp add: buildEntry_def Let_def)
  have us: "length ?us \<le> 72" by (rule length_name_units)
  have z: "window b (base + k) m = zeros m" if "k + m \<le> 128" for k m
  proof -
    have "window b (base + k) m = window (window b base 128) k m" using that by (simp add: window_window min_absorb1)
    also have "\<dots> = zeros m" unfolding assms(4) using that by (simp add: window_def zeros_def)
    finally show ?thesis .
  qed
  have len: "length ?c = ?n" using assms(1-3) by simp
  have w: "window (window ?b base 128) k m = window ?b (base + k) m" if "k + m \<le> 128" for k m
    using that by (simp add: window_window min_absorb1)
  note S = sized[where n = "length b"]
  have "window ?b base 16 = typ" "window ?b (base + 16) 16 = u" "get_le 8 ?b (base + 32) = lo" "get_le 8 ?b (base + 40) = hi"
    "window ?b (base + 48) 8 = zeros 8"
    unfolding eq using assms(1-3,5,6) us z[of 48 8]
    by (simp_all add: S del: length_put_le length_blit window_blit_same)
  moreover have "window ?b (base + 56) 72 = buf_of 72 ?us"
    unfolding eq
  proof (rule window_blit_pad)
    have "window ?c (base + 56 + length ?us) (72 - length ?us) = window b (base + (56 + length ?us)) (72 - length ?us)"
      using assms(1-3) us by (simp add: S add.assoc del: length_put_le length_blit window_blit_same)
    then show "window ?c (base + 56 + length ?us) (72 - length ?us) = zeros (72 - length ?us)" using z us by simp
  qed (use len assms(3) us in simp_all)
  moreover have "length (window ?b base 128) = 128" using assms(1-3) by (simp add: length_buildEntry)
  ultimately show ?thesis unfolding gpt_entry_ok_def get_le_def using w[of 0 16] by (simp add: w)
qed

lemma gpt_entries_ok:
  assumes "length guid = 16" "list_all (\<lambda>(s, lo, hi). length (gs_type s) = 16 \<and> lo < 2 ^ 64 \<and> hi < 2 ^ 64) rs"
    "i + length rs \<le> entryCount" and "length b = entryCount * entrySize"
    and "\<And>k. i \<le> k \<Longrightarrow> k < 128 \<Longrightarrow> window b (k * 128) 128 = zeros 128"
  shows "\<exists>b'. gpt_entries guid i rs b = Inr b' \<and> length b' = entryCount * entrySize
    \<and> (\<forall>k < length rs. case rs ! k of (s, lo, hi) \<Rightarrow>
         gpt_entry_ok (window b' ((i + k) * 128) 128) (gs_type s) (deriveGUID guid (i + k + 1)) lo hi (gs_name s))
    \<and> (\<forall>k < 128. k < i \<or> i + length rs \<le> k \<longrightarrow> window b' (k * 128) 128 = window b (k * 128) 128)"
  using assms
proof (induction guid i rs b rule: gpt_entries.induct)
  case (2 guid i s lo hi rs b)
  let ?b = "buildEntry (i * entrySize) (gs_type s) (deriveGUID guid (i + 1)) lo hi (gs_name s) b"
  have es: "entrySize = 128" "entryCount * entrySize = 16384" "i < 128" using 2(4) by (simp_all add: part_consts)
  have fit: "i * 128 + 128 \<le> length b" using es(3) 2(5) by (simp add: es(2))
  have t: "length (gs_type s) = 16" "length (deriveGUID guid (i + 1)) = 16" using 2(2,3) by simp_all
  have len: "length ?b = entryCount * entrySize" using length_buildEntry[OF t fit] 2(5) es(1) by simp
  have other: "window ?b (k * 128) 128 = window b (k * 128) 128" if "k \<noteq> i" "k < 128" for k
  proof -
    have "k * 128 + 128 \<le> i * 128 \<or> i * 128 + 128 \<le> k * 128" using that(1) by linarith
    moreover have "k * 128 + 128 \<le> length b" using that(2) 2(5) by (simp add: es(2))
    ultimately show ?thesis using buildEntry_other[OF t fit] es(1) by simp
  qed
  have this_one: "gpt_entry_ok (window ?b (i * 128) 128) (gs_type s) (deriveGUID guid (i + 1)) lo hi (gs_name s)"
    using buildEntry_ok[OF t fit _ , of lo hi "gs_name s"] 2(3) 2(6)[of i] es by simp
  have "\<not> i \<ge> entryCount" using 2(4) by simp
  from 2(1)[OF this 2(2)] 2(3,4) len other 2(6)
  obtain b' where b': "gpt_entries guid (i + 1) rs ?b = Inr b'" "length b' = entryCount * entrySize"
    "\<forall>k < length rs. case rs ! k of (s, lo, hi) \<Rightarrow>
         gpt_entry_ok (window b' ((i + 1 + k) * 128) 128) (gs_type s) (deriveGUID guid (i + 1 + k + 1)) lo hi (gs_name s)"
    "\<forall>k < 128. k < i + 1 \<or> i + 1 + length rs \<le> k \<longrightarrow> window b' (k * 128) 128 = window ?b (k * 128) 128" by auto
  have "case ((s, lo, hi) # rs) ! k of (s, lo, hi) \<Rightarrow>
         gpt_entry_ok (window b' ((i + k) * 128) 128) (gs_type s) (deriveGUID guid (i + k + 1)) lo hi (gs_name s)"
    if "k < length ((s, lo, hi) # rs)" for k
  proof (cases k)
    case 0
    then show ?thesis using b'(4) es(3) this_one by simp
  next
    case (Suc k')
    then show ?thesis using b'(3) that by simp
  qed
  then show ?case using b' other \<open>\<not> i \<ge> entryCount\<close> by auto
qed simp

text \<open>What a reader of the table checks of a header.\<close>

definition gpt_header_ok :: "bytes \<Rightarrow> bytes \<Rightarrow> nat \<Rightarrow> nat \<Rightarrow> nat \<Rightarrow> nat \<Rightarrow> 32 word \<Rightarrow> bool" where
  "gpt_header_ok h guid self other arr lst crc \<longleftrightarrow> length h = 512 \<and> window h 0 8 = bytes_of ''EFI PART''
     \<and> get_le 4 h 8 = 0x10000 \<and> get_le 4 h 20 = 0 \<and> window h 56 16 = guid
     \<and> get_le 4 h 12 = 92 \<and> get_le 4 h 16 = unat (crc32_ieee (put_le 4 16 0 (take 92 h)))
     \<and> get_le 8 h 24 = self \<and> get_le 8 h 32 = other \<and> get_le 8 h 40 = 34 \<and> get_le 8 h 48 = lst
     \<and> get_le 8 h 72 = arr \<and> get_le 4 h 80 = 128 \<and> get_le 4 h 84 = 128 \<and> get_le 4 h 88 = unat crc"

lemma buildHeader_ok:
  assumes "length guid = 16" "self < 2 ^ 64" "other < 2 ^ 64" "lst < 2 ^ 64" "arr < 2 ^ 64"
  shows "gpt_header_ok (buildHeader self other firstUsableLBA lst arr guid crc) guid self other arr lst crc"
proof -
  obtain b0 where b0: "buildHeader self other firstUsableLBA lst arr guid crc
      = put_le 4 16 (unat (crc32_ieee (take 92 (put_le 4 16 0 b0)))) (put_le 4 16 0 b0)"
    "length b0 = 512" "window b0 0 8 = bytes_of ''EFI PART''" "get_le 4 b0 12 = 92"
    "get_le 8 b0 24 = self" "get_le 8 b0 32 = other" "get_le 8 b0 40 = 34" "get_le 8 b0 48 = lst"
    "get_le 8 b0 72 = arr" "get_le 4 b0 80 = 128" "get_le 4 b0 84 = 128" "get_le 4 b0 88 = unat crc"
    "get_le 4 b0 8 = 0x10000" "get_le 4 b0 20 = 0" "window b0 56 16 = guid"
  proof (rule that)
    let ?b = "let b = blit (zeros sectorSize) 0 (bytes_of ''EFI PART'');
          b = put_le 8 48 lst (put_le 8 40 firstUsableLBA (put_le 8 32 other (put_le 8 24 self (put_le 4 12 92 (put_le 4 8 0x00010000 b)))));
          b = blit b 56 guid
      in put_le 4 88 (unat crc) (put_le 4 84 entrySize (put_le 4 80 entryCount (put_le 8 72 arr b)))"
    show "buildHeader self other firstUsableLBA lst arr guid crc
      = put_le 4 16 (unat (crc32_ieee (take 92 (put_le 4 16 0 ?b)))) (put_le 4 16 0 ?b)"
      by (simp add: buildHeader_def Let_def)
    have z20: "get_le 4 (zeros 512) 20 = 0" by (simp add: get_le_def window_def zeros_def numeral_eq_Suc)
    have "unat crc < 2 ^ 32" using unsigned_less[of crc] by simp
    then show "length ?b = 512" "window ?b 0 8 = bytes_of ''EFI PART''" "get_le 4 ?b 12 = 92"
      "get_le 8 ?b 24 = self" "get_le 8 ?b 32 = other" "get_le 8 ?b 40 = 34" "get_le 8 ?b 48 = lst"
      "get_le 8 ?b 72 = arr" "get_le 4 ?b 80 = 128" "get_le 4 ?b 84 = 128" "get_le 4 ?b 88 = unat crc"
      "get_le 4 ?b 8 = 0x10000" "get_le 4 ?b 20 = 0" "window ?b 56 16 = guid"
      using assms z20 unfolding Let_def part_consts
      by (simp_all add: sized[where n = 512] del: length_put_le length_blit window_blit_same)
  qed
  let ?c = "unat (crc32_ieee (take 92 (put_le 4 16 0 b0)))"
  have c: "?c < 2 ^ 32" using unsigned_less[of "crc32_ieee (take 92 (put_le 4 16 0 b0))"] by simp
  have "put_le 4 16 0 (take 92 (put_le 4 16 ?c (put_le 4 16 0 b0))) = take 92 (put_le 4 16 0 b0)"
  proof -
    have t: "put_le 4 16 v (take 92 b) = take 92 (put_le 4 16 v b)" if "length b = 512" for v b
      using that by (simp add: put_le_def blit_def take_drop min_def)
    show ?thesis using b0(2) by (simp add: t put_put_le)
  qed
  then show ?thesis using b0 c
    by (simp add: gpt_header_ok_def b0(1) sized[where n = 512])
qed

context block_device
begin

lemma write_seq_ok:
  assumes "invar d" "list_all (\<lambda>(p, off). 0 \<le> off \<and> off + int (length p) \<le> int (length (view d))) ws"
  shows "\<exists>d'. write_seq D d ws = (None, d') \<and> invar d'
    \<and> view d' = foldl (\<lambda>v (p, off). blit v (nat off) p) (view d) ws"
  using assms
proof (induction ws arbitrary: d)
  case (Cons w ws)
  obtain p off where w: "w = (p, off)" by fastforce
  have in_range: "0 \<le> off" "nat off + length p \<le> length (view d)" using Cons.prems(2) w by auto
  from write_inside[OF Cons.prems(1) this(2)] in_range(1) obtain d1 where
    d1: "write_all D d p off = (None, d1)" "invar d1" "view d1 = blit (view d) (nat off) p" by auto
  have "length (view d1) = length (view d)" using d1(3) in_range(2) by simp
  then show ?case using Cons.IH[OF d1(2)] Cons.prems(2) d1 w by simp
qed simp

end

text \<open>A protective MBR: one partition of type \<open>0xEE\<close> over the disk, and nothing else.\<close>

definition protective_ok :: "bytes \<Rightarrow> nat \<Rightarrow> bool" where
  "protective_ok b t \<longleftrightarrow> length b = 512 \<and> window b 0 446 = zeros 446 \<and> b ! 446 = 0 \<and> b ! 450 = 0xEE
     \<and> get_le 4 b 454 = 1 \<and> get_le 4 b 458 = min (t - 1) 0xFFFFFFFF \<and> window b 462 48 = zeros 48 \<and> window b 510 2 = [0x55, 0xAA]"

lemma protective_mbr_ok:
  assumes "1 \<le> t" "t < 2 ^ 64"
  shows "protective_ok (protective_mbr t) t"
proof -
  have "(int t - 1) mod 2 ^ 64 = int t - 1" using assms by (intro mod_pos_pos_trivial) auto
  then have sub: "sub64 t 1 = t - 1" "sub64 t (Suc 0) = t - Suc 0" using assms by (simp_all add: sub64_def nat_diff_distrib)
  note S = sized[where n = 512]
  let ?b = "protective_mbr t"
  have "window ?b 446 8 = [0x00, 0x00, 0x02, 0x00, 0xEE, 0xFF, 0xFF, 0xFF]"
    by (simp add: protective_mbr_def Let_def sectorSize_def S del: length_put_le length_blit window_blit_same)
  then have "b ! 446 = window b 446 8 ! 0 \<and> b ! 450 = window b 446 8 ! 4" if "b = ?b" for b
    using nth_window[of 446 8 b 0] nth_window[of 446 8 b 4] that by simp
  then have n: "?b ! 446 = 0" "?b ! 450 = 0xEE"
    using \<open>window ?b 446 8 = _\<close> by simp_all
  have z: "window (zeros 512) a k = zeros k" if "a + k \<le> 512" for a k using that by (simp add: window_def zeros_def)
  have w: "window ?b 0 446 = zeros 446" "window ?b 462 48 = zeros 48" "window ?b 510 2 = [0x55, 0xAA]"
    "get_le 4 ?b 454 = 1" "get_le 4 ?b 458 = min (t - 1) 0xFFFFFFFF mod 256 ^ 4"
    by (simp_all add: protective_mbr_def Let_def sectorSize_def sub S z del: length_put_le length_blit window_blit_same)
  have "min (t - 1) 0xFFFFFFFF mod 256 ^ 4 = min (t - 1) 0xFFFFFFFF" by (rule mod_less) simp
  then show ?thesis using n w by (simp add: protective_ok_def)
qed

definition gpt_specs_ok :: "gpt_spec list \<Rightarrow> bool" where
  "gpt_specs_ok specs \<longleftrightarrow> length specs \<le> entryCount
     \<and> list_all (\<lambda>s. length (gs_type s) = 16 \<and> 0 \<le> gs_size s \<and> gs_size s \<le> 2 ^ 60) specs"

text \<open>What formatting has put on a disk of \<open>t\<close> sectors.\<close>

definition gpt_written :: "bytes \<Rightarrow> bytes \<Rightarrow> nat \<Rightarrow> bytes \<Rightarrow> bytes \<Rightarrow> bool" where
  "gpt_written m m' t guid entries \<longleftrightarrow> length m' = length m \<and> length entries = 16384
   \<and> protective_ok (window m' 0 512) t \<and> window m' 1024 16384 = entries
   \<and> gpt_header_ok (window m' 512 512) guid 1 (t - 1) 2 (t - 34) (crc32_ieee entries)
   \<and> window m' ((t - 33) * 512) 16384 = entries
   \<and> gpt_header_ok (window m' ((t - 1) * 512) 512) guid (t - 1) 1 (t - 33) (t - 34) (crc32_ieee entries)
   \<and> (\<forall>off n. 17408 \<le> off \<longrightarrow> off + n \<le> (t - 33) * 512 \<longrightarrow> window m' off n = window m off n)"

lemma gpt_ranges_fits:
  assumes "gpt_ranges (t - 34) (align firstUsableLBA alignSectors) specs = Inr rs" "gpt_specs_ok specs" "t < 2 ^ 55"
  shows "length rs = length specs" "ranges_ok 2048 (t - 34) rs"
    "list_all2 (\<lambda>s (a, b). gs_size s \<le> int (b - a + 1) * 512) specs rs"
proof -
  have "align firstUsableLBA alignSectors = 2048" by (simp add: align_def part_consts)
  moreover have "list_all (\<lambda>s. 0 \<le> gs_size s \<and> gs_size s \<le> 2 ^ 60) specs"
    using assms(2) by (auto simp: gpt_specs_ok_def list_all_iff)
  ultimately show "length rs = length specs" "ranges_ok 2048 (t - 34) rs"
    "list_all2 (\<lambda>s (a, b). gs_size s \<le> int (b - a + 1) * 512) specs rs"
    using gpt_ranges_ok[of "t - 34" 2048 specs rs] assms(1,3) by (auto simp: alignSectors_def)
qed

lemma five_writes:
  assumes m': "m' = blit (blit (blit (blit (blit m 0 p) 1024 es) 512 h1) a es) z h2"
    and len: "length p = 512" "length es = 16384" "length h1 = 512" "length h2 = 512"
    and pos: "17408 \<le> a" "a + 16384 \<le> z" "z + 512 \<le> length m"
  shows "length m' = length m" "window m' 0 512 = p" "window m' 1024 16384 = es" "window m' 512 512 = h1"
    "window m' a 16384 = es" "window m' z 512 = h2"
    "\<forall>off n. 17408 \<le> off \<longrightarrow> off + n \<le> a \<longrightarrow> window m' off n = window m off n"
  unfolding m' using len pos
  by (simp_all add: sized[where n = "length m"] del: length_blit window_blit_same)

lemma FormatGPT_mem:
  assumes m: "length m < 2 ^ 63" and g: "length guid = 16" and specs: "gpt_specs_ok specs"
  shows "case FormatGPT mem_ops m guid specs of
      (Inl e, m') \<Rightarrow> m' = m \<and> (specs = [] \<or> length m mod 512 \<noteq> 0 \<or> length m div 512 < 2114
        \<or> gpt_ranges (length m div 512 - 34) (align firstUsableLBA alignSectors) specs = Inl e)
    | (Inr ps, m') \<Rightarrow> (\<exists>rs entries. gpt_ranges (length m div 512 - 34) (align firstUsableLBA alignSectors) specs = Inr rs
        \<and> gpt_entries guid 0 (zip specs rs) (zeros 16384) = Inr entries
        \<and> (\<forall>k < length specs. gpt_entry_ok (window entries (k * 128) 128) (gs_type (specs ! k)) (deriveGUID guid (k + 1))
             (fst (rs ! k)) (snd (rs ! k)) (gs_name (specs ! k)))
        \<and> (\<forall>k < 128. length specs \<le> k \<longrightarrow> window entries (k * 128) 128 = zeros 128)
        \<and> ps = map gpt_partition (zip specs rs) \<and> 512 dvd length m \<and> 2114 \<le> length m div 512
        \<and> gpt_written m m' (length m div 512) guid entries)"
proof -
  let ?t = "length m div 512"
  have c: "primaryHdrLBA = 1" "entryArrayLBA = 2" "firstUsableLBA = 34" "entryArraySecs = 32" "sectorSize = 512"
    "alignSectors = 2048" "entryCount * entrySize = 16384" by (simp_all add: part_consts)
  have t55: "?t < 2 ^ 54" using m by simp
  have sz: "u64_of_int (dev_size mem_ops m) = length m" "(dev_size mem_ops m mod int 512 \<noteq> 0) = (length m mod 512 \<noteq> 0)"
    using m by (simp_all add: mem_size_def u64_of_int_def zmod_int[symmetric, of _ 512, simplified])
  consider (no) e where "FormatGPT mem_ops m guid specs = (Inl e, m)"
        "specs = [] \<or> length m mod 512 \<noteq> 0 \<or> ?t < 2114
          \<or> gpt_ranges (?t - 34) (align firstUsableLBA alignSectors) specs = Inl e"
    | (yes) rs where "specs \<noteq> []" "length m mod 512 = 0" "2114 \<le> ?t"
        "gpt_ranges (?t - 34) (align firstUsableLBA alignSectors) specs = Inr rs"
  proof (cases "specs = [] \<or> length m mod 512 \<noteq> 0 \<or> ?t < 2114")
    case True
    then have "\<exists>e. FormatGPT mem_ops m guid specs = (Inl e, m)"
      unfolding FormatGPT_def Let_def c sz by auto
    then show ?thesis using True no by blast
  next
    case False
    show ?thesis
    proof (cases "gpt_ranges (?t - 34) (align firstUsableLBA alignSectors) specs")
      case (Inl e)
      then have "FormatGPT mem_ops m guid specs = (Inl e, m)"
        using False unfolding FormatGPT_def Let_def c sz by simp
      then show ?thesis using Inl no by blast
    next
      case (Inr rs)
      then show ?thesis using False yes by auto
    qed
  qed
  then show ?thesis
  proof cases
    case no
    then show ?thesis by simp
  next
    case yes
    note r = gpt_ranges_fits[OF yes(4) specs less_trans[OF t55]]
    have rb: "\<forall>(a, b) \<in> set rs. a < 2 ^ 64 \<and> b < 2 ^ 64" using ranges_ok_bounds[OF r(2)] t55 by fastforce
    have "list_all (\<lambda>(s, lo, hi). length (gs_type s) = 16 \<and> lo < 2 ^ 64 \<and> hi < 2 ^ 64) (zip specs rs)"
      using specs rb by (fastforce simp: gpt_specs_ok_def list_all_iff dest: set_zip_leftD set_zip_rightD)
    moreover have "0 + length (zip specs rs) \<le> entryCount" using specs by (auto simp: gpt_specs_ok_def min_def)
    moreover have z: "window (zeros 16384) (k * 128) 128 = zeros 128" if "k < 128" for k
      using that by (simp add: window_def zeros_def)
    ultimately obtain entries where
      entries: "gpt_entries guid 0 (zip specs rs) (zeros 16384) = Inr entries" "length entries = 16384"
      and ent: "\<forall>k < length (zip specs rs). case zip specs rs ! k of (s, lo, hi) \<Rightarrow>
         gpt_entry_ok (window entries ((0 + k) * 128) 128) (gs_type s) (deriveGUID guid (0 + k + 1)) lo hi (gs_name s)"
        "\<forall>k < 128. k < 0 \<or> 0 + length (zip specs rs) \<le> k \<longrightarrow> window entries (k * 128) 128 = window (zeros 16384) (k * 128) 128"
      using gpt_entries_ok[OF g, of "zip specs rs" 0 "zeros 16384"] by (auto simp: c)
    have ent': "\<forall>k < length specs. gpt_entry_ok (window entries (k * 128) 128) (gs_type (specs ! k)) (deriveGUID guid (k + 1))
             (fst (rs ! k)) (snd (rs ! k)) (gs_name (specs ! k))"
        "\<forall>k < 128. length specs \<le> k \<longrightarrow> window entries (k * 128) 128 = zeros 128"
      using ent r(1) z by (auto simp: split_beta)
    let ?crc = "crc32_ieee entries"
    let ?h1 = "buildHeader 1 (?t - 1) firstUsableLBA (?t - 34) 2 guid ?crc"
    let ?h2 = "buildHeader (?t - 1) 1 firstUsableLBA (?t - 34) (?t - 33) guid ?crc"
    let ?ws = "[(protective_mbr ?t, 0), (entries, int (2 * 512)), (?h1, int (1 * 512)),
      (entries, byte_off (?t - 33)), (?h2, byte_off (?t - 1))]"
    have dv: "length m = ?t * 512" using yes(2) div_mult_mod_eq[of "length m" 512] by simp
    have lt: "(?t - 33) * 512 + 16384 \<le> length m" "(?t - 1) * 512 + 512 \<le> length m" "17408 \<le> (?t - 33) * 512"
      "(?t - 33) * 512 + 16384 \<le> (?t - 1) * 512"
      using dv yes(3) by linarith+
    have bo: "byte_off (?t - 33) = int ((?t - 33) * 512)" "byte_off (?t - 1) = int ((?t - 1) * 512)"
      using byte_off_small[of "?t - 33"] byte_off_small[of "?t - 1"] t55 by simp_all
    have len: "length ?h1 = 512" "length ?h2 = 512" using g by auto
    have rng: "list_all (\<lambda>(p, off). 0 \<le> off \<and> off + int (length p) \<le> int (length m)) ?ws"
      using lt len entries(2) yes(3) dv unfolding bo by simp
    have inv: "mem_invar m" using m by (simp add: mem_invar_def)
    from mem.write_seq_ok[OF inv rng] obtain m' where
      m': "write_seq mem_ops m ?ws = (None, m')" "m' = foldl (\<lambda>v (p, off). blit v (nat off) p) m ?ws" by auto
    have eq: "m' = blit (blit (blit (blit (blit m 0 (protective_mbr ?t)) 1024 entries) 512 ?h1)
        ((?t - 33) * 512) entries) ((?t - 1) * 512) ?h2"
      unfolding m'(2) bo by (simp add: nat_mult_distrib)
    note w = five_writes[OF eq length_protective entries(2) len lt(3,4,2)]
    have "gpt_header_ok ?h1 guid 1 (?t - 1) 2 (?t - 34) ?crc" "gpt_header_ok ?h2 guid (?t - 1) 1 (?t - 33) (?t - 34) ?crc"
      using t55 by (auto intro!: buildHeader_ok[OF g])
    moreover have "protective_ok (protective_mbr ?t) ?t" using yes(3) t55 by (intro protective_mbr_ok) simp_all
    ultimately have wr: "gpt_written m m' ?t guid entries"
      unfolding gpt_written_def using w entries(2) by (simp only: simp_thms)
    have "FormatGPT mem_ops m guid specs = (Inr (map gpt_partition (zip specs rs)), m')"
      using yes entries(1) m'(1) unfolding FormatGPT_def Let_def c sz by simp
    then show ?thesis using wr entries(1) ent' yes(2-4) by auto
  qed
qed

section \<open>Properties\<close>

lemma gpt_partition_small:
  assumes "0 < a" "a \<le> b" "b < 2 ^ 54"
  shows "gpt_partition (s, a, b) = \<lparr> pt_name = gs_name s, pt_start = a, pt_end = b,
    pt_off = int (a * 512), pt_size = int ((b - a + 1) * 512) \<rparr>"
  using assms byte_off_small[of a] byte_off_small[of "b - a + 1"] by (simp add: gpt_partition_def)

text \<open>
  C16. When \<open>FormatGPT\<close> succeeds, the partitions it hands out, one per specification, are
  aligned to 1 MiB, not empty, at least as large as asked, in increasing order without overlap, and
  keep clear of the tables at both ends of the disk; and not a byte of them was written.
\<close>

theorem gpt_partitions_are_sound:
  assumes m: "length m < 2 ^ 63" "length guid = 16" "gpt_specs_ok specs"
    and ok: "FormatGPT mem_ops m guid specs = (Inr ps, m')"
  shows "length ps = length specs \<and> list_all2 (\<lambda>s p. gs_size s \<le> pt_size p) specs ps
    \<and> (\<forall>p \<in> set ps. 1048576 dvd pt_off p \<and> 0 < pt_off p \<and> 0 < pt_size p
        \<and> pt_off p + pt_size p \<le> int (length m) - 33 * 512
        \<and> window m' (nat (pt_off p)) (nat (pt_size p)) = window m (nat (pt_off p)) (nat (pt_size p)))
    \<and> (\<forall>i j. i < j \<longrightarrow> j < length ps \<longrightarrow> pt_off (ps ! i) + pt_size (ps ! i) \<le> pt_off (ps ! j))"
proof -
  let ?t = "length m div 512"
  obtain rs entries where r: "gpt_ranges (?t - 34) (align firstUsableLBA alignSectors) specs = Inr rs"
    "ps = map gpt_partition (zip specs rs)" "512 dvd length m" "2114 \<le> ?t" "gpt_written m m' ?t guid entries"
    using FormatGPT_mem[OF m] ok by auto
  have t: "?t < 2 ^ 54" using m by simp
  have dv: "length m = ?t * 512" using r(3) by auto
  note f = gpt_ranges_fits[OF r(1) m(3) less_trans[OF t]]
  have f': "length rs = length specs" "ranges_ok 2048 (?t - 34) rs"
    "list_all2 (\<lambda>s (a, b). gs_size s \<le> int (b - a + 1) * 512) specs rs" using f by simp_all
  have nth: "ps ! i = gpt_partition (specs ! i, fst (rs ! i), snd (rs ! i))" if "i < length rs" for i
    using that r(2) f'(1) by simp
  have bnd: "2048 \<le> fst (rs ! i) \<and> fst (rs ! i) \<le> snd (rs ! i) \<and> snd (rs ! i) \<le> ?t - 34 \<and> 2048 dvd fst (rs ! i)"
    if "i < length rs" for i
    using ranges_ok_bounds[OF f'(2), of "fst (rs ! i)" "snd (rs ! i)"] that by (simp add: alignSectors_def)
  have pi: "pt_off (ps ! i) = int (fst (rs ! i) * 512)" "pt_size (ps ! i) = int ((snd (rs ! i) - fst (rs ! i) + 1) * 512)"
    if "i < length rs" for i
    using nth[OF that] bnd[OF that] gpt_partition_small[of "fst (rs ! i)" "snd (rs ! i)" "specs ! i"] t by auto
  have len: "length ps = length rs" using r(2) f'(1) by simp
  have each: "1048576 dvd pt_off (ps ! i) \<and> 0 < pt_off (ps ! i) \<and> 0 < pt_size (ps ! i)
      \<and> pt_off (ps ! i) + pt_size (ps ! i) \<le> int (length m) - 33 * 512
      \<and> window m' (nat (pt_off (ps ! i))) (nat (pt_size (ps ! i))) = window m (nat (pt_off (ps ! i))) (nat (pt_size (ps ! i)))"
    if i: "i < length rs" for i
  proof -
    let ?a = "fst (rs ! i)" and ?b = "snd (rs ! i)"
    note b = bnd[OF i]
    obtain k where k: "?a = 2048 * k" using b by auto
    have "int (?a * 512) = 1048576 * int k" by (simp add: k)
    then have "1048576 dvd pt_off (ps ! i)" using pi(1)[OF i] by simp
    moreover have "?a * 512 + (?b - ?a + 1) * 512 \<le> (?t - 33) * 512"
    proof -
      have "?a + (?b - ?a + 1) \<le> ?t - 33" using conjunct1[OF conjunct2[OF b]] conjunct1[OF conjunct2[OF conjunct2[OF b]]] r(4)
        by linarith
      then show ?thesis using mult_le_mono1[of "?a + (?b - ?a + 1)" "?t - 33" 512] by (simp only: distrib_right)
    qed
    moreover have "17408 \<le> ?a * 512" using b by linarith
    moreover have "int ((?t - 33) * 512) = int (length m) - 33 * 512" using dv r(4) by linarith
    moreover have "window m' (?a * 512) ((?b - ?a + 1) * 512) = window m (?a * 512) ((?b - ?a + 1) * 512)"
      using r(5) calculation(2,3) unfolding gpt_written_def by blast
    ultimately show ?thesis using pi[OF i] by (simp only: nat_int) (auto simp flip: of_nat_add)
  qed
  have ord: "pt_off (ps ! i) + pt_size (ps ! i) \<le> pt_off (ps ! j)" if ij: "i < j" "j < length rs" for i j
  proof -
    have i: "i < length rs" using ij by simp
    have "snd (rs ! i) < fst (rs ! j)" by (rule ranges_ok_disjoint[OF f'(2) ij])
    then have "fst (rs ! i) * 512 + (snd (rs ! i) - fst (rs ! i) + 1) * 512 \<le> fst (rs ! j) * 512"
    proof -
      assume "snd (rs ! i) < fst (rs ! j)"
      then have "fst (rs ! i) + (snd (rs ! i) - fst (rs ! i) + 1) \<le> fst (rs ! j)"
        using conjunct1[OF conjunct2[OF bnd[OF i]]] by linarith
      then show ?thesis using mult_le_mono1[of _ _ 512] by (simp only: distrib_right[symmetric])
    qed
    then show ?thesis unfolding pi[OF i] pi[OF ij(2)] by (simp flip: of_nat_add del: of_nat_mult)
  qed
  have sizes: "list_all2 (\<lambda>s p. gs_size s \<le> pt_size p) specs ps"
  proof (rule list_all2_all_nthI)
    show "length specs = length ps" using len f'(1) by simp
    fix i assume "i < length specs"
    then have i: "i < length rs" using f'(1) by simp
    have "gs_size (specs ! i) \<le> int (snd (rs ! i) - fst (rs ! i) + 1) * 512"
      using list_all2_nthD2[OF f'(3) i] by (simp add: split_beta)
    then show "gs_size (specs ! i) \<le> pt_size (ps ! i)" unfolding pi[OF i] by simp
  qed
  show ?thesis using each ord sizes len f'(1) by (auto simp: in_set_conv_nth)
qed

text \<open>
  Every partition gets its own GUID, and none gets the disk's: the derived GUIDs of any two
  partition numbers below 65536, the disk itself being number 0, differ.
\<close>

lemma derived_guids_are_distinct:
  assumes "length g = 16" "i < 65536" "j < 65536" "i \<noteq> j"
  shows "deriveGUID g i \<noteq> deriveGUID g j \<and> (0 < i \<longrightarrow> deriveGUID g i \<noteq> g)"
proof -
  have nth: "deriveGUID g k ! 15 = g ! 15 XOR word_of_nat k" "deriveGUID g k ! 14 = g ! 14 XOR word_of_nat (k div 256)" for k
    using assms(1) by (simp_all add: deriveGUID_def Let_def)
  have inj: "k = l" if "deriveGUID g k = deriveGUID g l" "k < 65536" "l < 65536" for k l
  proof -
    have cancel: "x = y" if "a XOR x = a XOR y" for a x y :: byte
      using arg_cong[OF that, of "\<lambda>z. a XOR z"] by (simp flip: xor.assoc)
    have w: "(word_of_nat k :: byte) = word_of_nat l" "(word_of_nat (k div 256) :: byte) = word_of_nat (l div 256)"
      by (rule cancel[of "g ! 15"], simp only: that(1) nth(1)[symmetric])
        (rule cancel[of "g ! 14"], simp only: that(1) nth(2)[symmetric])
    have u: "unat (word_of_nat x :: byte) = x mod 256" for x by (simp add: unat_of_nat)
    have "k mod 256 = l mod 256" using arg_cong[OF w(1), of unat] unfolding u .
    moreover have "k div 256 = l div 256"
      using arg_cong[OF w(2), of unat] that(2,3) unfolding u by (simp add: less_mult_imp_div_less)
    ultimately show ?thesis by (metis div_mult_mod_eq)
  qed
  have "deriveGUID g 0 = g" using assms(1) by (simp add: deriveGUID_def Let_def)
  then show ?thesis using inj[of i j] inj[of i 0] assms by auto
qed

text \<open>
  C17. What a successful \<open>FormatGPT\<close> leaves on disk is a table a reader accepts: a protective
  MBR whose one partition covers the disk, the primary header at sector 1 and the backup one at the
  last sector, each with its CRC and pointing at the other, and both copies of the entry array under
  the CRC the headers carry. The array has an entry for each specification, in order, with its type,
  its name, a GUID of its own and the sectors of the partition handed out, and is zero after them.
  When it fails, the disk is as it was.
\<close>

theorem gpt_tables_are_valid:
  assumes "length m < 2 ^ 63" "length guid = 16" "gpt_specs_ok specs"
  shows "case FormatGPT mem_ops m guid specs of
      (Inl e, m') \<Rightarrow> m' = m
    | (Inr ps, m') \<Rightarrow> length ps = length specs \<and> (\<exists>entries. gpt_written m m' (length m div 512) guid entries
        \<and> (\<forall>i < length specs. gpt_entry_ok (window entries (i * 128) 128) (gs_type (specs ! i)) (deriveGUID guid (i + 1))
             (pt_start (ps ! i)) (pt_end (ps ! i)) (gs_name (specs ! i)))
        \<and> (\<forall>i < 128. length specs \<le> i \<longrightarrow> window entries (i * 128) 128 = zeros 128)
        \<and> distinct (guid # map (\<lambda>i. window entries (i * 128 + 16) 16) [0..<length specs]))"
proof (cases "FormatGPT mem_ops m guid specs")
  case (Pair r m')
  show ?thesis
  proof (cases r)
    case (Inl e)
    then show ?thesis using FormatGPT_mem[OF assms] Pair by simp
  next
    case (Inr ps)
    then obtain rs entries where f: "gpt_ranges (length m div 512 - 34) (align firstUsableLBA alignSectors) specs = Inr rs"
      "\<forall>k < length specs. gpt_entry_ok (window entries (k * 128) 128) (gs_type (specs ! k)) (deriveGUID guid (k + 1))
             (fst (rs ! k)) (snd (rs ! k)) (gs_name (specs ! k))"
      "\<forall>k < 128. length specs \<le> k \<longrightarrow> window entries (k * 128) 128 = zeros 128"
      "ps = map gpt_partition (zip specs rs)" "gpt_written m m' (length m div 512) guid entries"
      using FormatGPT_mem[OF assms] Pair by auto
    have "length m div 512 < 2 ^ 55" using assms(1) by simp
    then have l: "length rs = length specs" using gpt_ranges_fits(1)[OF f(1) assms(3)] by blast
    have p: "pt_start (ps ! i) = fst (rs ! i)" "pt_end (ps ! i) = snd (rs ! i)" if "i < length specs" for i
      using that l by (simp_all add: f(4) gpt_partition_def split_beta)
    have u: "window entries (i * 128 + 16) 16 = deriveGUID guid (i + 1)" if "i < length specs" for i
    proof -
      have "window (window entries (i * 128) 128) 16 16 = deriveGUID guid (i + 1)" using f(2) that by (simp add: gpt_entry_ok_def)
      then show ?thesis by (simp add: window_window min_absorb1)
    qed
    have "length specs \<le> 128" using assms(3) by (simp add: gpt_specs_ok_def entryCount_def)
    then have small: "i + 1 < 65536" if "i < length specs" for i using that by simp
    have "inj_on (\<lambda>i. deriveGUID guid (i + 1)) {0..<length specs}"
    proof (rule inj_onI, rule ccontr)
      fix i j assume "i \<in> {0..<length specs}" "j \<in> {0..<length specs}" "deriveGUID guid (i + 1) = deriveGUID guid (j + 1)" "i \<noteq> j"
      then show False using derived_guids_are_distinct[OF assms(2), of "i + 1" "j + 1"] small by simp
    qed
    moreover have "guid \<noteq> deriveGUID guid (i + 1)" if "i < length specs" for i
      using derived_guids_are_distinct[OF assms(2), of "i + 1" 0] small[OF that] by force
    ultimately have "distinct (guid # map (\<lambda>i. deriveGUID guid (i + 1)) [0..<length specs])"
      by (auto simp: distinct_map)
    moreover have "map (\<lambda>i. window entries (i * 128 + 16) 16) [0..<length specs] = map (\<lambda>i. deriveGUID guid (i + 1)) [0..<length specs]"
      using u by (intro map_cong refl) simp
    ultimately have d: "distinct (guid # map (\<lambda>i. window entries (i * 128 + 16) 16) [0..<length specs])" by (simp only:)
    have e: "\<forall>i < length specs. gpt_entry_ok (window entries (i * 128) 128) (gs_type (specs ! i)) (deriveGUID guid (i + 1))
             (pt_start (ps ! i)) (pt_end (ps ! i)) (gs_name (specs ! i))" using f(2) p by simp
    have "length ps = length specs" using l by (simp add: f(4))
    then show ?thesis unfolding Pair Inr prod.case sum.case using f(3,5) d e by blast
  qed
qed

definition sample_guid :: bytes where
  "sample_guid = zeros 16"

definition sample_specs :: "gpt_spec list" where
  "sample_specs = [\<lparr> gs_type = zeros 16, gs_name = ''esp'', gs_size = 1000000 \<rparr>,
     \<lparr> gs_type = zeros 16, gs_name = ''root'', gs_size = 0 \<rparr>]"

lemma sample_specs_ok: "gpt_specs_ok sample_specs"
  by (simp add: gpt_specs_ok_def sample_specs_def entryCount_def)

lemma sample_format_succeeds: "\<exists>ps m'. FormatGPT mem_ops (zeros 4194304) sample_guid sample_specs = (Inr ps, m')"
proof -
  have r: "gpt_ranges (8192 - 34) (align firstUsableLBA alignSectors) sample_specs = Inr [(2048, 4001), (4096, 8158)]"
    by (simp add: sample_specs_def align_def part_consts sectors_of_def)
  have "\<exists>ps. fst (FormatGPT mem_ops (zeros 4194304) sample_guid sample_specs) = Inr ps"
    using FormatGPT_mem[of "zeros 4194304" sample_guid sample_specs] r sample_specs_ok
    by (cases "fst (FormatGPT mem_ops (zeros 4194304) sample_guid sample_specs)")
      (auto simp: sample_guid_def sample_specs_def[THEN arg_cong, of "\<lambda>x. x = []"] split: prod.splits)
  then show ?thesis by (metis prod.collapse)
qed

theorem gpt_partitions_are_sound_witness:
  "\<exists>ps m'. FormatGPT mem_ops (zeros 4194304) sample_guid sample_specs = (Inr ps, m')
    \<and> length ps = length sample_specs \<and> list_all2 (\<lambda>s p. gs_size s \<le> pt_size p) sample_specs ps"
proof -
  obtain ps m' where f: "FormatGPT mem_ops (zeros 4194304) sample_guid sample_specs = (Inr ps, m')"
    using sample_format_succeeds by blast
  show ?thesis
    using gpt_partitions_are_sound[OF _ _ sample_specs_ok f] f by (simp add: sample_guid_def)
qed

theorem gpt_tables_are_valid_witness:
  "\<exists>ps m' entries. FormatGPT mem_ops (zeros 4194304) sample_guid sample_specs = (Inr ps, m')
    \<and> gpt_written (zeros 4194304) m' 8192 sample_guid entries
    \<and> gpt_entry_ok (window entries 128 128) (zeros 16) (deriveGUID sample_guid 2) (pt_start (ps ! 1)) (pt_end (ps ! 1)) ''root''"
proof -
  obtain ps m' where f: "FormatGPT mem_ops (zeros 4194304) sample_guid sample_specs = (Inr ps, m')"
    using sample_format_succeeds by blast
  have s: "length sample_specs = 2" "gs_type (sample_specs ! 1) = zeros 16" "gs_name (sample_specs ! 1) = ''root''"
    by (simp_all add: sample_specs_def)
  obtain entries where e: "gpt_written (zeros 4194304) m' 8192 sample_guid entries"
    "\<forall>i < 2. gpt_entry_ok (window entries (i * 128) 128) (gs_type (sample_specs ! i)) (deriveGUID sample_guid (i + 1))
             (pt_start (ps ! i)) (pt_end (ps ! i)) (gs_name (sample_specs ! i))"
    using gpt_tables_are_valid[OF _ _ sample_specs_ok, of "zeros 4194304" sample_guid] f s(1) by (auto simp: sample_guid_def)
  have "gpt_entry_ok (window entries 128 128) (zeros 16) (deriveGUID sample_guid 2) (pt_start (ps ! 1)) (pt_end (ps ! 1)) ''root''"
    using e(2)[rule_format, of 1] s(2,3) by (simp add: numeral_2_eq_2)
  with f e(1) show ?thesis by blast
qed

text \<open>
  \<open>FormatMBR\<close> does not check a fill partition against the end of the disk: when the
  previous partition's end, aligned up, lies beyond it, the sector count underflows and the call
  reports success with a partition that starts after it ends.
\<close>

lemma mbr_fill_underflows:
  assumes "total_lba < cur" "cur < 2 ^ 54" "1 \<le> total_lba" "ms_size s = 0"
  shows "\<exists>p b'. mbr_loop total_lba i cur b [s] = Inr ([p], b') \<and> pt_start p = cur \<and> pt_end p = total_lba - 1
    \<and> pt_end p < pt_start p \<and> pt_size p < 0"
proof -
  have c: "sub64 total_lba cur = 2 ^ 64 - (cur - total_lba)"
  proof -
    have "(int total_lba - int cur) mod 2 ^ 64 = (int total_lba - int cur + 2 ^ 64) mod 2 ^ 64" by simp
    also have "\<dots> = int total_lba - int cur + 2 ^ 64" using assms by (intro mod_pos_pos_trivial) simp_all
    finally have "(int total_lba - int cur) mod 2 ^ 64 = int (2 ^ 64 - (cur - total_lba))" using assms by (simp add: of_nat_diff)
    then show ?thesis unfolding sub64_def by (simp only: nat_int)
  qed
  have "u64 (cur + sub64 total_lba cur) = total_lba" unfolding c using assms by (simp add: u64_def)
  then have e: "sub64 (u64 (cur + sub64 total_lba cur)) 1 = total_lba - 1" using assms by simp
  have "i64 (int (sub64 total_lba cur)) = (int (sub64 total_lba cur) + 2 ^ 63 - 2 ^ 64) mod 2 ^ 64 - 2 ^ 63"
    by (simp add: i64_def mod_eq_dvd_iff)
  also have "\<dots> = int (sub64 total_lba cur) - 2 ^ 64"
    unfolding c using assms by (subst mod_pos_pos_trivial) (simp_all add: of_nat_diff)
  finally have "i64 (int (sub64 total_lba cur)) = - int (cur - total_lba)"
    unfolding c using assms by (simp add: of_nat_diff)
  then have "byte_off (sub64 total_lba cur) = - int (cur - total_lba) * 512"
    using assms by (simp add: byte_off_def sectorSize_def)
  then show ?thesis using assms e by (simp add: Let_def)
qed

definition fill_spec :: mbr_spec where
  "fill_spec = \<lparr> ms_type = 0x83, ms_size = 0, ms_boot = False \<rparr>"

end
