(* ===== verification/Fat.thy ===== *)
theory Fat
  imports Prelude Codec Device Image
begin

text \<open>
  The FAT12/16/32 engine (\<open>pkg/fat\<close>): the geometry computed from the device size, 8.3 short
  names and VFAT long-name entries, the cluster allocator, the layout of files and directories, and
  the boot sector, FSInfo and FAT that \<open>Finalize\<close> writes. The engine only creates; its
  \<open>Open\<close> always fails. \<open>strings.ToUpper\<close> of a rune beyond ASCII is the table of Go's
  \<open>unicode\<close> package, the parameter \<open>up\<close>.
\<close>

section \<open>Geometry\<close>

definition f_sectorSize :: nat where "f_sectorSize = 512"
definition numFATs :: nat where "numFATs = 2"
definition rootCluster :: nat where "rootCluster = 2"
definition fsInfoSector :: nat where "fsInfoSector = 1"
definition backupBootSec :: nat where "backupBootSec = 6"
definition mediaByte :: nat where "mediaByte = 0xF8"
definition maxFAT12Clusters :: nat where "maxFAT12Clusters = 4084"
definition maxFAT16Clusters :: nat where "maxFAT16Clusters = 65524"
definition rootEntries1216 :: nat where "rootEntries1216 = 512"
definition attrVolumeID :: nat where "attrVolumeID = 0x08"
definition attrDirectory :: nat where "attrDirectory = 0x10"
definition attrArchive :: nat where "attrArchive = 0x20"
definition attrLongName :: nat where "attrLongName = 0x0F"
definition dirEntrySize :: nat where "dirEntrySize = 32"

lemmas fat_consts = f_sectorSize_def numFATs_def rootCluster_def fsInfoSector_def backupBootSec_def mediaByte_def
  maxFAT12Clusters_def maxFAT16Clusters_def rootEntries1216_def attrVolumeID_def attrDirectory_def attrArchive_def
  attrLongName_def dirEntrySize_def

definition fat_errTooSmall :: error where
  "fat_errTooSmall = Err ''fat: device too small for a valid FAT volume''"
definition errBadSize :: error where
  "errBadSize = Err ''fat: device size must be a positive multiple of 512''"

record geometry =
  fatBits :: nat
  totalSectors :: nat
  reservedSecs :: nat
  secPerClus :: nat
  fatSizeSectors :: nat
  rootEntCount :: nat
  rootDirSectors :: nat
  clusters :: nat
  dataStartSec :: nat

definition pickSecPerClus16 :: "nat \<Rightarrow> nat" where
  "pickSecPerClus16 t = (if t \<le> 32680 then 2 else if t \<le> 262144 then 4 else if t \<le> 524288 then 8 else 16)"

definition fat32SecPerClus :: "nat \<Rightarrow> nat" where
  "fat32SecPerClus t = (if t \<le> 532480 then 1 else if t \<le> 16777216 then 8 else 32)"

text \<open>The width and cluster size, forced or picked by volume size.\<close>

definition fat_choose :: "int \<Rightarrow> nat \<Rightarrow> nat \<times> nat" where
  "fat_choose forceBits t =
     (if forceBits = 12 then (12, 1)
      else if forceBits = 16 then (16, pickSecPerClus16 t)
      else if forceBits = 32 then (32, fat32SecPerClus t)
      else if t < 8400 then (12, 1)
      else if t < 1048576 then (16, pickSecPerClus16 t)
      else (32, fat32SecPerClus t))"

text \<open>The loop that grows the FAT until it addresses every data cluster.\<close>

partial_function (option) fat_size_loop :: "nat \<Rightarrow> nat \<Rightarrow> nat \<Rightarrow> nat \<Rightarrow> (nat \<times> nat) option" where
  "fat_size_loop bits avail spc f =
     (let clus = sub64 avail (u64 (numFATs * f)) div spc;
          needBytes = u64 (u64 (u64 (clus + 2) * bits) + 7) div 8;
          needSecs = u64 (needBytes + f_sectorSize - 1) div f_sectorSize in
      if needSecs \<le> f then Some (f, clus) else fat_size_loop bits avail spc needSecs)"

declare fat_size_loop.simps [code]

definition fat_validate :: "geometry \<Rightarrow> error option" where
  "fat_validate g =
     (if fatBits g = 12 then
        (if clusters g < 1 \<or> clusters g > maxFAT12Clusters then Some fat_errTooSmall else None)
      else if fatBits g = 16 then
        (if clusters g \<le> maxFAT12Clusters \<or> clusters g > maxFAT16Clusters then Some fat_errTooSmall else None)
      else if fatBits g = 32 then
        (if clusters g \<le> maxFAT16Clusters then Some fat_errTooSmall else None)
      else None)"

definition computeGeometry :: "int \<Rightarrow> int \<Rightarrow> (geometry result) option" where
  "computeGeometry devSize forceBits =
     (if devSize \<le> 0 \<or> devSize mod int f_sectorSize \<noteq> 0 then Some (Inl errBadSize)
      else let t = u64_of_int devSize div f_sectorSize;
               (bits, spc) = fat_choose forceBits t;
               reserved = (if bits = 32 then 32 else 1);
               rootEnt = (if bits = 32 then 0 else rootEntries1216);
               rootSecs = (if bits = 32 then 0 else (rootEnt * dirEntrySize + f_sectorSize - 1) div f_sectorSize) in
        if t < reserved + rootSecs + numFATs + 8 then Some (Inl fat_errTooSmall)
        else (case fat_size_loop bits (sub64 (sub64 t reserved) rootSecs) spc 1 of
                None \<Rightarrow> None
              | Some (f, clus) \<Rightarrow>
                  (let g = \<lparr> fatBits = bits, totalSectors = t, reservedSecs = reserved, secPerClus = spc,
                       fatSizeSectors = f, rootEntCount = rootEnt, rootDirSectors = rootSecs, clusters = clus,
                       dataStartSec = reserved + numFATs * f + rootSecs \<rparr> in
                   case fat_validate g of Some e \<Rightarrow> Some (Inl e) | None \<Rightarrow> Some (Inr g))))"

definition clusterSizeBytes :: "geometry \<Rightarrow> nat" where
  "clusterSizeBytes g = secPerClus g * f_sectorSize"

definition clusterSector :: "geometry \<Rightarrow> nat \<Rightarrow> nat" where
  "clusterSector g c = dataStartSec g + (c - 2) * secPerClus g"

definition rootRegionSector :: "geometry \<Rightarrow> nat" where
  "rootRegionSector g = reservedSecs g + numFATs * fatSizeSectors g"

definition eoc :: "geometry \<Rightarrow> nat" where
  "eoc g = (if fatBits g = 12 then 0x0FFF else if fatBits g = 16 then 0xFFFF else 0x0FFFFFFF)"

section \<open>Short names\<close>

text \<open>\<open>name[:i], name[i+1:]\<close> at the last dot.\<close>

definition split_last_dot :: "string \<Rightarrow> (string \<times> string) option" where
  "split_last_dot s =
     (if CHR ''.'' \<notin> set s then None
      else Some (rev (tl (dropWhile (\<lambda>c. c \<noteq> CHR ''.'') (rev s))), rev (takeWhile (\<lambda>c. c \<noteq> CHR ''.'') (rev s))))"

text \<open>\<open>strings.ToUpper\<close>.\<close>

definition upper_rune :: "(nat \<Rightarrow> nat) \<Rightarrow> nat \<Rightarrow> nat" where
  "upper_rune up r = (if r < 128 then (if 97 \<le> r \<and> r \<le> 122 then r - 32 else r) else up r)"

definition go_upper :: "(nat \<Rightarrow> nat) \<Rightarrow> string \<Rightarrow> string" where
  "go_upper up s = string_of_runes (map (upper_rune up) (runes s))"

definition validShortRune :: "nat \<Rightarrow> bool" where
  "validShortRune r \<longleftrightarrow> 65 \<le> r \<and> r \<le> 90 \<or> 48 \<le> r \<and> r \<le> 57
     \<or> r \<in> {0x24, 0x25, 0x27, 0x2D, 0x5F, 0x40, 0x7E, 0x60, 0x21, 0x28, 0x29, 0x7B, 0x7D, 0x5E, 0x23, 0x26}"

definition pad_field :: "nat \<Rightarrow> string \<Rightarrow> string" where
  "pad_field n s = take n s @ replicate (n - length s) CHR '' ''"

definition pack83 :: "string \<Rightarrow> string \<Rightarrow> string" where
  "pack83 base ext = pad_field 8 base @ pad_field 3 ext"

definition fits83 :: "(nat \<Rightarrow> nat) \<Rightarrow> string \<Rightarrow> string option" where
  "fits83 up name =
     (if name = ''.'' \<or> name = ''..'' \<or> name = '''' then None
      else if go_upper up name \<noteq> name then None
      else let (base, ext) = (case split_last_dot name of Some p \<Rightarrow> p | None \<Rightarrow> (name, [])) in
        if base = [] \<or> length base > 8 \<or> length ext > 3 \<or> CHR ''.'' \<in> set ext then None
        else if list_all (\<lambda>r. r = 46 \<or> validShortRune r) (runes name) then Some (pack83 base ext)
        else None)"

fun sanitize_loop :: "nat \<Rightarrow> nat list \<Rightarrow> string \<Rightarrow> string" where
  "sanitize_loop mx [] acc = acc"
| "sanitize_loop mx (r # rs) acc =
     (if r = 46 \<or> r = 32 then sanitize_loop mx rs acc
      else let acc = acc @ [char_of (if validShortRune r then r else 95)] in
        if length acc \<ge> mx then acc else sanitize_loop mx rs acc)"

definition sanitize83 :: "(nat \<Rightarrow> nat) \<Rightarrow> string \<Rightarrow> nat \<Rightarrow> string" where
  "sanitize83 up s mx = (let b = sanitize_loop mx (runes (go_upper up s)) [] in if b = [] then ''_'' else b)"

text \<open>
  The search for a free \<open>BASE~N.EXT\<close>. A suffix of more than eight characters makes
  \<open>keep\<close> negative and \<open>base[:keep]\<close> panics.
\<close>

function generate_loop :: "string list \<Rightarrow> string \<Rightarrow> string \<Rightarrow> nat \<Rightarrow> string result" where
  "generate_loop used base ext n =
     (let suffix = CHR ''~'' # format_dec n in
      if length suffix > 8 then Inl (Panic ''slice bounds out of range'')
      else let cand = pack83 (take (8 - length suffix) base @ suffix) ext in
        if cand \<in> set used then generate_loop used base ext (n + 1) else Inr cand)"
  by pat_completeness auto
termination
  by (relation "measure (\<lambda>(used, base, ext, n). 10 ^ 7 - n)")
    (auto simp: not_less Suc_le_eq length_format_dec[of _ 7, simplified])

declare generate_loop.simps [simp del]

definition mangle :: "(nat \<Rightarrow> nat) \<Rightarrow> string list \<Rightarrow> string \<Rightarrow> string result" where
  "mangle up used name =
     (let (base, ext) = (case split_last_dot name of
            Some (b, e) \<Rightarrow> if b = [] then (name, []) else (b, e)
          | None \<Rightarrow> (name, [])) in
      generate_loop used (sanitize83 up base 8) (sanitize83 up ext 3) 1)"

definition generate :: "(nat \<Rightarrow> nat) \<Rightarrow> string list \<Rightarrow> string \<Rightarrow> string result" where
  "generate up used name =
     (case fits83 up name of
        Some sn \<Rightarrow> if sn \<notin> set used then Inr sn else mangle up used name
      | None \<Rightarrow> mangle up used name)"

definition shortChecksum :: "string \<Rightarrow> byte" where
  "shortChecksum short =
     foldl (\<lambda>sum c. push_bit 7 (sum AND 1) + drop_bit 1 sum + of_char c) 0 (take 11 short)"

section \<open>Long names and entry times\<close>

definition units_bytes :: "nat list \<Rightarrow> bytes" where
  "units_bytes us = concat (map (le_bytes 2) us)"

definition lfn_padded :: "nat list \<Rightarrow> nat list" where
  "lfn_padded us = (let total = (length us div 13 + 1) * 13 in
     us @ [0] @ replicate (total - length us - 1) 0xFFFF)"

definition lfn_entry :: "byte \<Rightarrow> nat \<Rightarrow> nat \<Rightarrow> nat list \<Rightarrow> bytes" where
  "lfn_entry checksum count sq chunk =
     (let o0 = (word_of_nat sq :: byte); o1 = (if sq = count then o0 OR 0x40 else o0) in
      [o1] @ units_bytes (take 5 chunk) @ [word_of_nat attrLongName, 0, checksum]
        @ units_bytes (take 6 (drop 5 chunk)) @ [0, 0] @ units_bytes (take 2 (drop 11 chunk)))"

definition lfnEntries :: "string \<Rightarrow> byte \<Rightarrow> bytes list" where
  "lfnEntries name checksum =
     (let padded = lfn_padded (utf16_encode (runes name)); count = length padded div 13 in
      map (\<lambda>sq. lfn_entry checksum count sq (window padded ((sq - 1) * 13) 13)) (rev [1..<count + 1]))"

definition lfnCount :: "(nat \<Rightarrow> nat) \<Rightarrow> string \<Rightarrow> nat" where
  "lfnCount up name = (if fits83 up name \<noteq> None then 0 else (length (runes name) + 12) div 13)"

definition entryBytes :: "(nat \<Rightarrow> nat) \<Rightarrow> string \<Rightarrow> nat" where
  "entryBytes up name = (lfnCount up name + 1) * dirEntrySize"

definition fatTime :: "gotime \<Rightarrow> nat \<times> nat \<times> nat" where
  "fatTime t =
     (let (y, mo, d) = civil_of_days (gt_sec t div 86400);
          (h, mi, s) = clock_of_secs (gt_sec t);
          y = (if y < 1980 then 1980 else y) in
      (u16_of_int ((y - 1980) * 512) OR u16 (mo * 32) OR u16 d, u16 (h * 2048) OR u16 (mi * 32) OR u16 (s div 2), (s mod 2) * 100))"

definition pack83Label :: "string \<Rightarrow> string" where
  "pack83Label label =
     map (\<lambda>c. if 97 \<le> (of_char c :: nat) \<and> (of_char c :: nat) \<le> 122 then char_of (of_char c - (32::nat)) else c)
       (pad_field 11 label)"

section \<open>The layouter\<close>

text \<open>What stays fixed while a volume is laid out, and the layouter's state.\<close>

record fat_env =
  fe_geo :: geometry
  fe_label :: string
  fe_now :: gotime
  fe_uuid :: bytes
  fe_upper :: "nat \<Rightarrow> nat"

record 'd layouter =
  ly_dev :: 'd
  ly_fat :: "nat list"
  ly_next :: nat
  ly_used :: nat

definition errOutOfClusters :: error where "errOutOfClusters = Err ''fat: out of clusters''"

definition chain_entry :: "geometry \<Rightarrow> nat \<Rightarrow> nat \<Rightarrow> nat \<Rightarrow> nat" where
  "chain_entry g first n i = (if i + 1 < n then u32 (first + i + 1) else eoc g)"

definition allocChain :: "fat_env \<Rightarrow> nat \<Rightarrow> 'd layouter \<Rightarrow> nat result \<times> 'd layouter" where
  "allocChain E n l =
     (if n = 0 then (Inr 0, l)
      else if u64 (sub64 (ly_next l) 2 + n) > clusters (fe_geo E) then (Inl errOutOfClusters, l)
      else let first = ly_next l in
        (Inr first, l\<lparr>ly_fat := fold (\<lambda>i f. f[u32 (first + i) := chain_entry (fe_geo E) first n i]) [0..<n] (ly_fat l),
           ly_next := u32 (ly_next l + n), ly_used := u64 (ly_used l + n)\<rparr>))"

text \<open>
  \<open>writeClusters\<close> follows the chain while it writes; the errors of its writes are dropped. A
  cluster is at least one sector, so \<open>cs\<close> is positive.
\<close>

function writeClusters :: "'d device_ops \<Rightarrow> geometry \<Rightarrow> nat list \<Rightarrow> nat \<Rightarrow> bytes \<Rightarrow> 'd \<Rightarrow> 'd" where
  "writeClusters D g fat clus data d =
     (let cs = clusterSizeBytes g in
      if data = [] \<or> cs = 0 then d
      else let d = snd (dev_write_at D d (take cs data) (int (clusterSector g clus * f_sectorSize)));
               nxt = fat ! clus in
        if nxt \<ge> eoc g \<or> nxt = 0 then d
        else writeClusters D g fat nxt (drop cs data) d)"
  by pat_completeness auto
termination
  by (relation "measure (\<lambda>(D, g, fat, clus, data, d). length data)") auto

declare writeClusters.simps [simp del]

definition layoutFile :: "'d device_ops \<Rightarrow> fat_env \<Rightarrow> node \<Rightarrow> 'd layouter \<Rightarrow> (nat \<times> nat) result \<times> 'd layouter" where
  "layoutFile D E n l =
     (let sz = (case in_content n of None \<Rightarrow> 0 | Some c \<Rightarrow> src_size c);
          cs = clusterSizeBytes (fe_geo E);
          nClus = sub64 (u64 (u64_of_int sz + cs)) 1 div cs in
      case allocChain E nClus l of
        (Inl e, l) \<Rightarrow> (Inl e, l)
      | (Inr first, l) \<Rightarrow>
          (case in_content n of
             None \<Rightarrow> (Inr (first, u32_of_int sz), l)
           | Some c \<Rightarrow>
               if sz \<le> 0 then (Inr (first, u32_of_int sz), l)
               else (case src_read_at c (nat sz) 0 of (data, err) \<Rightarrow>
                  if err \<noteq> None \<and> err \<noteq> Some EOF then (Inl (the err), l)
                  else (Inr (first, u32_of_int sz),
                    l\<lparr>ly_dev := writeClusters D (fe_geo E) (ly_fat l) first (buf_of (nClus * cs) data) (ly_dev l)\<rparr>))))"

record child_info =
  ci_node :: tnode
  ci_name :: string
  ci_short :: string
  ci_first :: nat
  ci_size :: nat
  ci_attr :: nat

definition fat_special :: filemode where
  "fat_special = ModeDevice OR ModeCharDevice OR ModeNamedPipe OR ModeSocket"

text \<open>\<open>buildInfos\<close> over the sorted children; \<open>used\<close> is the short namer's set.\<close>

fun build_infos :: "(nat \<Rightarrow> nat) \<Rightarrow> string list \<Rightarrow> (string \<times> tnode) list \<Rightarrow> (child_info list \<times> nat) result" where
  "build_infos up used [] = Inr ([], 0)"
| "build_infos up used ((name, t) # es) =
     (if has (md_mode (tn_node t)) ModeSymlink then Inl (Err ''fat: symlink not representable in FAT'')
      else if md_mode (tn_node t) AND fat_special \<noteq> 0 then Inl (Err ''fat: special file not representable in FAT'')
      else bindE (generate up used name) (\<lambda>short.
        bindE (build_infos up (short # used) es) (\<lambda>(infos, count).
          Inr (\<lparr> ci_node = t, ci_name = name, ci_short = short, ci_first = 0, ci_size = 0,
                 ci_attr = (if is_dir (tn_node t) then attrDirectory else attrArchive) \<rparr> # infos,
               lfnCount up name + 1 + count))))"

definition buildInfos :: "(nat \<Rightarrow> nat) \<Rightarrow> tnode \<Rightarrow> (child_info list \<times> nat) result" where
  "buildInfos up t = build_infos up [] (sort_by_name (tn_kids t))"

section \<open>Directory entries\<close>

definition label_entry :: "fat_env \<Rightarrow> bytes" where
  "label_entry E =
     (let (d, t, tenth) = fatTime (fe_now E) in
      bytes_of (pack83Label (fe_label E)) @ [word_of_nat attrVolumeID] @ zeros 10 @ le_bytes 2 t @ le_bytes 2 d @ zeros 6)"

definition dot_entry :: "gotime \<Rightarrow> string \<Rightarrow> nat \<Rightarrow> bytes" where
  "dot_entry mtime name clus =
     (let (d, t, tenth) = fatTime mtime in
      bytes_of (pad_field 11 name) @ [word_of_nat attrDirectory, 0, word_of_nat tenth] @ le_bytes 2 t @ le_bytes 2 d
        @ zeros 2 @ le_bytes 2 (clus div 65536) @ le_bytes 2 t @ le_bytes 2 d @ le_bytes 2 clus @ zeros 4)"

definition putDotEntries :: "nat \<Rightarrow> nat \<Rightarrow> node \<Rightarrow> bytes" where
  "putDotEntries self parent n = dot_entry (md_mtime n) ''.'' self @ dot_entry (md_mtime n) ''..'' parent"

definition short_entry :: "child_info \<Rightarrow> bytes" where
  "short_entry ci =
     (let (d, t, tenth) = fatTime (md_mtime (tn_node (ci_node ci))) in
      bytes_of (ci_short ci) @ [word_of_nat (ci_attr ci), 0, word_of_nat tenth] @ le_bytes 2 t @ le_bytes 2 d @ le_bytes 2 d
        @ le_bytes 2 (ci_first ci div 65536) @ le_bytes 2 t @ le_bytes 2 d @ le_bytes 2 (ci_first ci) @ le_bytes 4 (ci_size ci))"

definition putChildEntries :: "child_info \<Rightarrow> bytes" where
  "putChildEntries ci = concat (lfnEntries (ci_name ci) (shortChecksum (ci_short ci))) @ short_entry ci"

text \<open>
  The entries are copied into a buffer whose size was computed beforehand; slicing past its end
  panics.
\<close>

fun put_children :: "child_info list \<Rightarrow> nat \<Rightarrow> bytes \<Rightarrow> bytes result" where
  "put_children [] off buf = Inr buf"
| "put_children (ci # cis) off buf =
     (let e = putChildEntries ci in
      if off + length e > length buf then Inl (Panic ''slice bounds out of range'')
      else put_children cis (off + length e) (blit buf off e))"

text \<open>The fixed root directory checks each child against \<open>entryBytes\<close> first.\<close>

fun put_root_children :: "(nat \<Rightarrow> nat) \<Rightarrow> child_info list \<Rightarrow> nat \<Rightarrow> bytes \<Rightarrow> bytes result" where
  "put_root_children up [] off buf = Inr buf"
| "put_root_children up (ci # cis) off buf =
     (let e = putChildEntries ci in
      if off + entryBytes up (ci_name ci) > length buf then Inl (Err ''fat: root directory full'')
      else if off + length e > length buf then Inl (Panic ''slice bounds out of range'')
      else put_root_children up cis (off + length e) (blit buf off e))"

section \<open>Laying out the tree\<close>

lemma build_infos_nodes:
  "build_infos up used es = Inr (infos, c) \<Longrightarrow> map ci_node infos = map snd es \<and> map ci_name infos = map fst es"
  by (induction up used es arbitrary: infos c rule: build_infos.induct)
    (auto simp: bindE_Inr_iff split: if_splits prod.splits)

definition infos_weight :: "child_info list \<Rightarrow> nat" where
  "infos_weight infos = sum_list (map (\<lambda>i. size (ci_node i) + 1) infos)"

lemma infos_weight_simps [simp]:
  "infos_weight [] = 0" "infos_weight (i # is) = size (ci_node i) + 1 + infos_weight is"
  by (simp_all add: infos_weight_def)

lemma size_kids: "size_list (\<lambda>p. size_prod (\<lambda>_. 0) size p) kids = sum_list (map (\<lambda>e. size (snd e) + 2) kids)"
  by (induction kids) (auto simp: size_prod_simp split_beta)

lemma infos_weight_less: "buildInfos up (TNode r n kids) = Inr (infos, c) \<Longrightarrow> infos_weight infos < size (TNode r n kids)"
proof -
  assume "buildInfos up (TNode r n kids) = Inr (infos, c)"
  then have "map ci_node infos = map snd (sort_by_name kids)"
    using build_infos_nodes by (simp add: buildInfos_def)
  then have "map (\<lambda>t. size t + 1) (map ci_node infos) = map (\<lambda>t. size t + 1) (map snd (sort_by_name kids))" by simp
  then have "infos_weight infos = sum_list (map (\<lambda>e. size (snd e) + 1) (sort_by_name kids))"
    by (simp add: infos_weight_def o_def)
  also have "\<dots> = sum_list (map (\<lambda>e. size (snd e) + 1) kids)"
    by (rule sum_list_sort_by_name)
  also have "\<dots> \<le> sum_list (map (\<lambda>e. size (snd e) + 2) kids)" by (rule sum_list_mono) simp
  finally show ?thesis by (simp add: size_kids less_Suc_eq_le)
qed

text \<open>
  \<open>layoutDir\<close> reserves the directory's clusters, lays out its children and then writes its
  entries; \<open>layoutInfos\<close> fills in each child's first cluster and size.
\<close>

function (sequential)
  layoutDir :: "'d device_ops \<Rightarrow> fat_env \<Rightarrow> tnode \<Rightarrow> nat \<Rightarrow> bool \<Rightarrow> 'd layouter \<Rightarrow> nat result \<times> 'd layouter" and
  layoutInfos :: "'d device_ops \<Rightarrow> fat_env \<Rightarrow> child_info list \<Rightarrow> nat \<Rightarrow> 'd layouter \<Rightarrow> (child_info list) result \<times> 'd layouter"
where
  "layoutDir D E (TNode r n kids) parent isRoot l =
     (case buildInfos (fe_upper E) (TNode r n kids) of
        Inl e \<Rightarrow> (Inl e, l)
      | Inr (infos, count) \<Rightarrow>
        let entryCount = (if isRoot then count + 1 else count + 2);
            cs = clusterSizeBytes (fe_geo E);
            perClus = cs div dirEntrySize;
            nClus = max 1 (sub64 (u64 (entryCount + perClus)) 1 div perClus) in
        (case allocChain E nClus l of
           (Inl e, l1) \<Rightarrow> (Inl e, l1)
         | (Inr dirClus, l1) \<Rightarrow>
           (case layoutInfos D E infos (if isRoot then 0 else dirClus) l1 of
              (Inl e, l2) \<Rightarrow> (Inl e, l2)
            | (Inr infos', l2) \<Rightarrow>
              let hd = (if isRoot then label_entry E else putDotEntries dirClus parent n) in
              (case put_children infos' (length hd) (blit (zeros (nClus * cs)) 0 hd) of
                 Inl e \<Rightarrow> (Inl e, l2)
               | Inr buf \<Rightarrow>
                   (Inr dirClus, l2\<lparr>ly_dev := writeClusters D (fe_geo E) (ly_fat l2) dirClus buf (ly_dev l2)\<rparr>)))))"
| "layoutInfos D E [] dd l = (Inr [], l)"
| "layoutInfos D E (ci # cis) dd l =
     (if is_dir (tn_node (ci_node ci)) then
        (case layoutDir D E (ci_node ci) dd False l of
           (Inl e, l1) \<Rightarrow> (Inl e, l1)
         | (Inr fc, l1) \<Rightarrow>
           (case layoutInfos D E cis dd l1 of
              (Inl e, l2) \<Rightarrow> (Inl e, l2)
            | (Inr cis', l2) \<Rightarrow> (Inr (ci\<lparr>ci_first := fc\<rparr> # cis'), l2)))
      else
        (case layoutFile D E (tn_node (ci_node ci)) l of
           (Inl e, l1) \<Rightarrow> (Inl e, l1)
         | (Inr (fc, sz), l1) \<Rightarrow>
           (case layoutInfos D E cis dd l1 of
              (Inl e, l2) \<Rightarrow> (Inl e, l2)
            | (Inr cis', l2) \<Rightarrow> (Inr (ci\<lparr>ci_first := fc, ci_size := sz\<rparr> # cis'), l2))))"
  by pat_completeness auto
termination
  by (relation "measure (\<lambda>x. case x of Inl (D, E, t, p, b, l) \<Rightarrow> size t | Inr (D, E, cis, dd, l) \<Rightarrow> infos_weight cis)")
    (auto dest: infos_weight_less)

definition layoutRootFixed :: "'d device_ops \<Rightarrow> fat_env \<Rightarrow> tnode \<Rightarrow> 'd layouter \<Rightarrow> error option \<times> 'd layouter" where
  "layoutRootFixed D E root l =
     (case buildInfos (fe_upper E) root of
        Inl e \<Rightarrow> (Some e, l)
      | Inr (infos, count) \<Rightarrow>
        (case layoutInfos D E infos 0 l of
           (Inl e, l) \<Rightarrow> (Some e, l)
         | (Inr infos, l) \<Rightarrow>
           (let region = blit (zeros (rootDirSectors (fe_geo E) * f_sectorSize)) 0 (label_entry E) in
            case put_root_children (fe_upper E) infos dirEntrySize region of
              Inl e \<Rightarrow> (Some e, l)
            | Inr region \<Rightarrow>
              (case write_all D (ly_dev l) region (int (rootRegionSector (fe_geo E) * f_sectorSize)) of
                 (e, d) \<Rightarrow> (e, l\<lparr>ly_dev := d\<rparr>)))))"

section \<open>The FAT, the boot sector and FSInfo\<close>

definition packFAT12 :: "bytes \<Rightarrow> nat \<Rightarrow> nat \<Rightarrow> bytes" where
  "packFAT12 raw i v =
     (let off = i * 3 div 2; w = (word_of_nat v :: 32 word) in
      if off + 1 \<ge> length raw then raw
      else if i mod 2 = 0 then
        raw[off := ucast w, off + 1 := (raw ! (off + 1) AND 0xF0) OR ucast (drop_bit 8 w AND 0x0F)]
      else
        raw[off := (raw ! off AND 0x0F) OR ucast (push_bit 4 (w AND 0x0F)), off + 1 := ucast (drop_bit 4 w)])"

fun fat_raw :: "nat \<Rightarrow> nat \<Rightarrow> nat list \<Rightarrow> bytes \<Rightarrow> bytes" where
  "fat_raw bits i [] raw = raw"
| "fat_raw bits i (v # vs) raw =
     (if bits = 12 then fat_raw bits (i + 1) vs (packFAT12 raw i (v mod 0x1000))
      else if bits = 16 then
        (if i * 2 + 2 > length raw then raw else fat_raw bits (i + 1) vs (put_le 2 (i * 2) v raw))
      else (if i * 4 + 4 > length raw then raw else fat_raw bits (i + 1) vs (put_le 4 (i * 4) (v mod 0x10000000) raw)))"

definition writeFATs :: "'d device_ops \<Rightarrow> fat_env \<Rightarrow> 'd layouter \<Rightarrow> error option \<times> 'd" where
  "writeFATs D E l =
     (let g = fe_geo E;
          raw = fat_raw (fatBits g) 0 (ly_fat l) (zeros (fatSizeSectors g * f_sectorSize)) in
      case write_all D (ly_dev l) raw (int (reservedSecs g * f_sectorSize)) of
        (Some e, d) \<Rightarrow> (Some e, d)
      | (None, d) \<Rightarrow> write_all D d raw (int ((reservedSecs g + fatSizeSectors g) * f_sectorSize)))"

definition bootSector :: "fat_env \<Rightarrow> bytes" where
  "bootSector E =
     (let g = fe_geo E;
          b = blit (zeros f_sectorSize) 0 ([0xEB, 0x58, 0x90] @ bytes_of ''fsforge '');
          b = put_le 2 11 f_sectorSize b;
          b = put_le 1 13 (secPerClus g) b;
          b = put_le 2 14 (reservedSecs g) b;
          b = put_le 1 16 numFATs b;
          b = put_le 2 17 (rootEntCount g) b;
          b = (if totalSectors g < 0x10000 then put_le 2 19 (totalSectors g) b else put_le 4 32 (totalSectors g) b);
          b = put_le 1 21 mediaByte b;
          b = put_le 2 24 32 b;
          b = put_le 2 26 64 b;
          b = (if fatBits g = 32 then
                 (let b = put_le 2 22 0 b;
                      b = put_le 4 36 (fatSizeSectors g) b;
                      b = put_le 4 44 rootCluster b;
                      b = put_le 2 48 fsInfoSector b;
                      b = put_le 2 50 backupBootSec b;
                      b = put_le 1 64 0x80 b;
                      b = put_le 1 66 0x29 b;
                      b = blit b 67 (take 4 (fe_uuid E));
                      b = blit b 71 (bytes_of (pack83Label (fe_label E)))
                  in blit b 82 (bytes_of ''FAT32   ''))
               else
                 (let b = put_le 2 22 (fatSizeSectors g) b;
                      b = put_le 1 36 0x80 b;
                      b = put_le 1 38 0x29 b;
                      b = blit b 39 (take 4 (fe_uuid E));
                      b = blit b 43 (bytes_of (pack83Label (fe_label E)))
                  in blit b 54 (bytes_of (if fatBits g = 12 then ''FAT12   '' else ''FAT16   ''))))
      in blit b 510 [0x55, 0xAA])"

definition fsInfo :: "fat_env \<Rightarrow> 'd layouter \<Rightarrow> bytes" where
  "fsInfo E l =
     (let b = put_le 4 0 0x41615252 (zeros f_sectorSize);
          b = put_le 4 484 0x61417272 b;
          b = put_le 4 488 (sub64 (clusters (fe_geo E)) (ly_used l)) b;
          b = put_le 4 492 (ly_next l) b
      in blit b 508 [0x00, 0x00, 0x55, 0xAA])"

definition writeBootAndInfo :: "'d device_ops \<Rightarrow> fat_env \<Rightarrow> 'd layouter \<Rightarrow> 'd \<Rightarrow> error option \<times> 'd" where
  "writeBootAndInfo D E l d =
     (let boot = bootSector E; info = fsInfo E l in
      case write_all D d boot 0 of (Some e, d) \<Rightarrow> (Some e, d)
      | (None, d) \<Rightarrow>
        if fatBits (fe_geo E) \<noteq> 32 then (None, d)
        else (case write_all D d boot (int (backupBootSec * f_sectorSize)) of (Some e, d) \<Rightarrow> (Some e, d)
          | (None, d) \<Rightarrow>
            (case write_all D d info (int (fsInfoSector * f_sectorSize)) of (Some e, d) \<Rightarrow> (Some e, d)
             | (None, d) \<Rightarrow> write_all D d info (int ((backupBootSec + fsInfoSector) * f_sectorSize)))))"

section \<open>Format and Finalize\<close>

text \<open>The volume \<open>Format\<close> prepares; its root is that of \<open>NewMem\<close>.\<close>

definition fat_Format :: "int \<Rightarrow> int \<Rightarrow> string \<Rightarrow> gotime \<Rightarrow> bytes \<Rightarrow> (nat \<Rightarrow> nat) \<Rightarrow> ((fat_env \<times> heap \<times> ref) result) option" where
  "fat_Format devSize forceBits label now uuid up =
     (case computeGeometry devSize forceBits of
        None \<Rightarrow> None
      | Some (Inl e) \<Rightarrow> Some (Inl e)
      | Some (Inr g) \<Rightarrow> Some (Inr
          (\<lparr> fe_geo = g, fe_label = (if label = '''' then ''NO NAME'' else label), fe_now = now, fe_uuid = uuid, fe_upper = up \<rparr>,
           NewMem now \<lparr> md_mode = ModeDir OR 0x1ED, md_uid = 0, md_gid = 0, md_mtime = zero_time, md_xattrs = [] \<rparr>)))"

definition new_layouter :: "fat_env \<Rightarrow> 'd \<Rightarrow> 'd layouter" where
  "new_layouter E d =
     (let g = fe_geo E in
      \<lparr> ly_dev = d,
        ly_fat = (replicate (clusters g + 2) 0)[0 := (0x0FFFFF00 OR mediaByte) AND eoc g, 1 := eoc g],
        ly_next = rootCluster, ly_used = 0 \<rparr>)"

definition fat_Finalize :: "'d device_ops \<Rightarrow> fat_env \<Rightarrow> tnode \<Rightarrow> 'd \<Rightarrow> error option \<times> 'd" where
  "fat_Finalize D E root d =
     (let l = new_layouter E d;
          (err, l) = (if fatBits (fe_geo E) = 32 then
             (case layoutDir D E root 0 True l of
                (Inl e, l) \<Rightarrow> (Some e, l)
              | (Inr rootClus, l) \<Rightarrow>
                  if rootClus \<noteq> rootCluster then (Some (Err ''fat: unexpected root cluster''), l) else (None, l))
           else layoutRootFixed D E root l) in
      case err of Some e \<Rightarrow> (Some e, ly_dev l)
      | None \<Rightarrow>
        (case writeFATs D E l of (Some e, d) \<Rightarrow> (Some e, d)
         | (None, d) \<Rightarrow> writeBootAndInfo D E l d))"

definition fat_Open :: "'d device_ops \<Rightarrow> 'd \<Rightarrow> heap result" where
  "fat_Open D d = Inl (Err ''fat: Open not supported (create-only for now)'')"

section \<open>The geometry settles\<close>

definition fat_need :: "nat \<Rightarrow> nat \<Rightarrow> nat" where
  "fat_need bits clus = (((clus + 2) * bits + 7) div 8 + 511) div 512"

lemma fat_need_mono: "c \<le> c' \<Longrightarrow> fat_need bits c \<le> fat_need bits c'"
  by (simp add: fat_need_def div_le_mono)

lemma fat_need_covers: "fat_need bits c \<le> f \<Longrightarrow> (c + 2) * bits \<le> f * 4096"
proof -
  define x where "x = (c + 2) * bits"
  assume "fat_need bits c \<le> f"
  then have "((x + 7) div 8 + 511) div 512 \<le> f" by (simp add: fat_need_def x_def)
  then have "(x + 7) div 8 + 511 < (f + 1) * 512" by (simp add: div_less_iff_less_mult[symmetric])
  then have "(x + 7) div 8 < f * 512 + 1" by simp
  then have "x + 7 < (f * 512 + 1) * 8" by (simp only: div_less_iff_less_mult zero_less_numeral)
  then show ?thesis by (simp add: x_def)
qed

lemma fat_need_bound: "bits \<le> 32 \<Longrightarrow> 128 * fat_need bits c \<le> c + 130"
proof -
  assume "bits \<le> 32"
  then have "fat_need bits c \<le> fat_need 32 c"
    unfolding fat_need_def by (intro div_le_mono add_le_mono1 mult_le_mono2)
  moreover have "fat_need 32 c = (4 * (c + 2) + 511) div 512" by (simp add: fat_need_def)
  then have "512 * fat_need 32 c \<le> 4 * (c + 2) + 511" by simp
  ultimately show ?thesis by simp
qed

lemma fat_size_step:
  assumes "2 * f \<le> avail" "avail < 2 ^ 55" "bits \<le> 32"
  shows "fat_size_loop bits avail spc f =
    (if fat_need bits ((avail - 2 * f) div spc) \<le> f then Some (f, (avail - 2 * f) div spc)
     else fat_size_loop bits avail spc (fat_need bits ((avail - 2 * f) div spc)))"
proof -
  define c where "c = (avail - 2 * f) div spc"
  have s: "sub64 avail (u64 (2 * f)) div spc = c" using assms by (simp add: c_def)
  have c55: "c < 2 ^ 55" using assms by (simp add: c_def le_less_trans[OF div_le_dividend])
  have "(c + 2) * bits \<le> (c + 2) * 32" using assms(3) by (rule mult_le_mono2)
  then have w: "(c + 2) * bits + 7 < 2 ^ 62" using c55 by simp
  then have "u64 (u64 (u64 (c + 2) * bits) + 7) = (c + 2) * bits + 7" using c55 by simp
  moreover have "u64 (y div 8 + 512 - 1) = y div 8 + 511" if "y < 2 ^ 62" for y
  proof -
    have "y div 8 < 2 ^ 62" using that by (rule le_less_trans[OF div_le_dividend])
    then show ?thesis by simp
  qed
  note this[OF w]
  ultimately show ?thesis
    unfolding c_def[symmetric]
    by (subst fat_size_loop.simps) (simp only: Let_def numFATs_def f_sectorSize_def s fat_need_def)
qed

lemma fat_size_loop_settles:
  assumes "10 \<le> avail" "avail < 2 ^ 55" "bits \<le> 32" "0 < spc"
  obtains f where "fat_size_loop bits avail spc 1 = Some (f, (avail - 2 * f) div spc)" "1 \<le> f" "2 * f \<le> avail"
    "fat_need bits ((avail - 2 * f) div spc) \<le> f" "f \<le> max 1 (fat_need bits ((avail - 2) div spc))"
proof -
  let ?n = "fat_need bits ((avail - 2) div spc)"
  have one: "fat_size_loop bits avail spc 1 = (if ?n \<le> 1 then Some (1, (avail - 2) div spc) else fat_size_loop bits avail spc ?n)"
    using fat_size_step[of 1 avail bits spc] assms by simp
  show ?thesis
  proof (cases "?n \<le> 1")
    case True
    then show ?thesis using that[of 1] one assms by simp
  next
    case False
    have "(avail - 2) div spc \<le> avail" by (meson diff_le_self div_le_dividend le_trans)
    then have "128 * ?n \<le> avail + 130" using fat_need_bound[OF assms(3)] by (meson add_le_mono1 le_trans)
    then have fit: "2 * ?n \<le> avail" using assms(1) False by linarith
    have "fat_need bits ((avail - 2 * ?n) div spc) \<le> ?n"
      using False by (intro fat_need_mono div_le_mono) simp
    then show ?thesis using that[of ?n] one False fit fat_size_step[OF fit assms(2,3), of spc] by simp
  qed
qed

definition geometry_ok :: "int \<Rightarrow> geometry \<Rightarrow> bool" where
  "geometry_ok devSize g \<longleftrightarrow>
     int (totalSectors g) * 512 = devSize
     \<and> fatBits g \<in> {12, 16, 32} \<and> secPerClus g \<in> {1, 2, 4, 8, 16, 32}
     \<and> reservedSecs g = (if fatBits g = 32 then 32 else 1)
     \<and> rootDirSectors g = (if fatBits g = 32 then 0 else 32)
     \<and> 1 \<le> fatSizeSectors g \<and> (clusters g + 2) * fatBits g \<le> fatSizeSectors g * 4096
     \<and> dataStartSec g = reservedSecs g + 2 * fatSizeSectors g + rootDirSectors g
     \<and> dataStartSec g + clusters g * secPerClus g \<le> totalSectors g
     \<and> totalSectors g < dataStartSec g + (clusters g + 1) * secPerClus g
     \<and> (fatBits g = 12 \<longrightarrow> 1 \<le> clusters g \<and> clusters g \<le> 4084)
     \<and> (fatBits g = 16 \<longrightarrow> 4084 < clusters g \<and> clusters g \<le> 65524)
     \<and> (fatBits g = 32 \<longrightarrow> 65524 < clusters g \<and> secPerClus g = fat32SecPerClus (totalSectors g))"

lemma fat_choose_range: "fst (fat_choose fb t) \<in> {12, 16, 32} \<and> snd (fat_choose fb t) \<in> {1, 2, 4, 8, 16, 32}"
  by (simp add: fat_choose_def pickSecPerClus16_def fat32SecPerClus_def)

lemma fat_choose_32: "fat_choose fb t = (bits, spc) \<Longrightarrow> bits = 32 \<longrightarrow> spc = fat32SecPerClus t"
  by (auto simp: fat_choose_def split: if_splits)

lemma geometry_ok_eoc:
  assumes "geometry_ok devSize g" "devSize \<le> 2 ^ 41"
  shows "clusters g + 2 \<le> eoc g"
proof -
  note o = assms(1)[unfolded geometry_ok_def]
  have "int (totalSectors g) * 512 = devSize" using o by (rule conjunct1)
  then have t: "totalSectors g \<le> 2 ^ 32" using assms(2) by simp
  consider "fatBits g = 12" | "fatBits g = 16" | "fatBits g = 32" using o by auto
  then show ?thesis
  proof cases
    case 3
    have "clusters g * secPerClus g \<le> totalSectors g" using o by linarith
    moreover have "secPerClus g = (if totalSectors g \<le> 532480 then 1 else if totalSectors g \<le> 16777216 then 8 else 32)"
      using o 3 by (simp add: fat32SecPerClus_def)
    ultimately have "clusters g \<le> 2 ^ 27" using t by (simp split: if_splits)
    then show ?thesis using 3 by (simp add: eoc_def)
  qed (use o in \<open>simp_all add: eoc_def\<close>)
qed

lemma computeGeometry_cases:
  assumes "devSize < 2 ^ 63"
  obtains (size) "computeGeometry devSize fb = Some (Inl errBadSize)" "devSize \<le> 0 \<or> devSize mod 512 \<noteq> 0"
    | (small) "computeGeometry devSize fb = Some (Inl fat_errTooSmall)"
        "fst (fat_choose fb (nat devSize div 512)) = 32 \<Longrightarrow> nat devSize div 512 < 2 ^ 32"
    | (ok) g where "computeGeometry devSize fb = Some (Inr g)" "geometry_ok devSize g" "128 * fatSizeSectors g \<le> totalSectors g + 130"
          "fatBits g = fst (fat_choose fb (nat devSize div 512))"
proof (cases "devSize \<le> 0 \<or> devSize mod 512 \<noteq> 0")
  case True
  then show ?thesis by (intro size) (auto simp: computeGeometry_def f_sectorSize_def)
next
  case False
  let ?t = "nat devSize div 512"
  obtain bits spc where c: "fat_choose fb ?t = (bits, spc)" by (cases "fat_choose fb ?t")
  have r: "bits \<in> {12, 16, 32}" "spc \<in> {1, 2, 4, 8, 16, 32}" using fat_choose_range[of fb ?t] by (simp_all add: c)
  let ?res = "if bits = 32 then 32 else 1 :: nat" and ?root = "if bits = 32 then 0 else 32 :: nat"
  have t55: "?t < 2 ^ 55" using assms False by simp
  have td: "int ?t * 512 = devSize" using False by (auto simp: zdiv_int)
  show ?thesis
  proof (cases "?t < ?res + ?root + 10")
    case True
    then show ?thesis using False assms
      by (intro small; cases "bits = 32") (simp_all add: computeGeometry_def fat_consts c Let_def)
  next
    case big: False
    let ?avail = "?t - ?res - ?root"
    have sub: "sub64 (sub64 ?t ?res) ?root = ?avail" using big t55 by simp
    have pre: "10 \<le> ?avail" "?avail < 2 ^ 55" "bits \<le> 32" "0 < spc"
      using big t55 r by simp_all (auto split: if_splits)
    obtain f where f: "fat_size_loop bits ?avail spc 1 = Some (f, (?avail - 2 * f) div spc)" "1 \<le> f" "2 * f \<le> ?avail"
      "fat_need bits ((?avail - 2 * f) div spc) \<le> f" "f \<le> max 1 (fat_need bits ((?avail - 2) div spc))"
      by (rule fat_size_loop_settles[OF pre])
    have "(?avail - 2) div spc \<le> ?t" by (rule le_trans[OF div_le_dividend]) simp
    then have "128 * fat_need bits ((?avail - 2) div spc) \<le> ?t + 130"
      using fat_need_bound[OF pre(3), of "(?avail - 2) div spc"] by (rule order_trans[rotated, OF add_le_mono1])
    moreover have "f \<le> 1 \<or> f \<le> fat_need bits ((?avail - 2) div spc)" using f(5) unfolding le_max_iff_disj .
    ultimately have small_fat: "128 * f \<le> ?t + 130" by (elim disjE) linarith+
    let ?clus = "(?avail - 2 * f) div spc"
    define g where "g = \<lparr> fatBits = bits, totalSectors = ?t, reservedSecs = ?res, secPerClus = spc,
      fatSizeSectors = f, rootEntCount = (if bits = 32 then 0 else 512), rootDirSectors = ?root, clusters = ?clus,
      dataStartSec = ?res + 2 * f + ?root \<rparr>"
    have e: "computeGeometry devSize fb = (case fat_validate g of Some e \<Rightarrow> Some (Inl e) | None \<Rightarrow> Some (Inr g))"
    proof -
      have s: "u64_of_int devSize div f_sectorSize = ?t" using False assms by (simp add: f_sectorSize_def)
      have r1: "(if bits = 32 then 0 else ((if bits = 32 then 0 else rootEntries1216) * dirEntrySize + f_sectorSize - 1) div f_sectorSize) = ?root"
        by (simp add: fat_consts)
      have nd: "\<not> (devSize \<le> 0 \<or> devSize mod int f_sectorSize \<noteq> 0)" using False by (simp add: f_sectorSize_def)
      have nb: "\<not> ?t < ?res + ?root + numFATs + 8" using big by (simp add: numFATs_def)
      show ?thesis
        unfolding computeGeometry_def Let_def s c prod.case r1 if_not_P[OF nd] if_not_P[OF nb] sub f(1) option.case g_def
        by (simp only: numFATs_def rootEntries1216_def)
    qed
    have "?clus * spc \<le> ?avail - 2 * f" by simp
    then have fits: "?res + 2 * f + ?root + ?clus * spc \<le> ?t" using f(3) big by linarith
    have "?avail - 2 * f < (?clus + 1) * spc"
      using dividend_less_div_times[OF pre(4), of "?avail - 2 * f"] by simp
    then have tight: "?t < ?res + 2 * f + ?root + (?clus + 1) * spc" using f(3) big by linarith
    show ?thesis
    proof (cases "fat_validate g")
      case (Some x)
      then have x: "x = fat_errTooSmall" by (auto simp: fat_validate_def split: if_splits)
      show ?thesis
      proof (rule small)
        show "computeGeometry devSize fb = Some (Inl fat_errTooSmall)" using e Some x by simp
        assume "fst (fat_choose fb ?t) = 32"
        then have b: "bits = 32" by (simp add: c)
        then have "?clus \<le> 65524" using Some by (auto simp: g_def fat_validate_def fat_consts split: if_splits)
        moreover have "spc \<le> 32" using r(2) by auto
        ultimately have "(?clus + 1) * spc \<le> 65525 * 32" by (intro mult_le_mono) simp_all
        then have "?t < 32 + 2 * f + 2096800" using tight b by simp
        then show "?t < 2 ^ 32" using small_fat by simp
      qed
    next
      case None
      have types: "bits = 12 \<longrightarrow> 1 \<le> ?clus \<and> ?clus \<le> 4084" "bits = 16 \<longrightarrow> 4084 < ?clus \<and> ?clus \<le> 65524"
        "bits = 32 \<longrightarrow> 65524 < ?clus \<and> spc = fat32SecPerClus ?t"
        using None r(1) fat_choose_32[OF c] by (auto simp: g_def fat_validate_def fat_consts simp del: One_nat_def split: if_splits)
      have "geometry_ok devSize g"
        unfolding geometry_ok_def g_def geometry.simps
        by (intro conjI r td f(2) fits tight types fat_need_covers[OF f(4)] refl)
      then show ?thesis using e None ok[of g] small_fat by (simp add: g_def c)
    qed
  qed
qed

text \<open>Nothing bounds the clusters of FAT32 from above: large volumes get more than an entry can number.\<close>

lemma geometry_ok_many:
  assumes "geometry_ok devSize g" "128 * fatSizeSectors g \<le> totalSectors g + 130" "5 * 2 ^ 40 \<le> devSize" "fatBits g = 32"
  shows "eoc g < clusters g"
proof -
  note o = assms(1)[unfolded geometry_ok_def]
  have "int (totalSectors g) * 512 = devSize" using o by (rule conjunct1)
  then have t: "5 * 2 ^ 31 \<le> totalSectors g" using assms(3) by simp
  then have spc: "secPerClus g = 32" using o assms(4) by (simp add: fat32SecPerClus_def)
  have ds: "dataStartSec g = 32 + 2 * fatSizeSectors g" using o assms(4) by simp
  have "totalSectors g < 32 + 2 * fatSizeSectors g + (clusters g + 1) * 32" using o spc ds by simp
  then have "0x0FFFFFFF < clusters g" using assms(2) t by simp
  then show ?thesis by (simp add: eoc_def assms(4))
qed

section \<open>Chains\<close>

text \<open>
  What every allocation keeps: clusters are handed out in increasing order, an allocated cluster
  points at its successor or ends its chain, the others are free.
\<close>

definition fat_inv :: "geometry \<Rightarrow> 'd layouter \<Rightarrow> bool" where
  "fat_inv g l \<longleftrightarrow>
     length (ly_fat l) = clusters g + 2 \<and> clusters g + 2 \<le> eoc g \<and> secPerClus g \<noteq> 0
     \<and> 2 \<le> ly_next l \<and> ly_next l \<le> clusters g + 2 \<and> ly_used l = ly_next l - 2
     \<and> (\<forall>c. 2 \<le> c \<longrightarrow> c < ly_next l \<longrightarrow> ly_fat l ! c = eoc g \<or> (ly_fat l ! c = c + 1 \<and> c + 1 < ly_next l))
     \<and> (\<forall>c. ly_next l \<le> c \<longrightarrow> c < clusters g + 2 \<longrightarrow> ly_fat l ! c = 0)"

lemma eoc_bound: "eoc g \<le> 0x0FFFFFFF"
  by (simp add: eoc_def)

lemma fold_update_nth:
  "a + n \<le> length f \<Longrightarrow> c < length f \<Longrightarrow>
    fold (\<lambda>i f. f[a + i := v i]) [0..<n] f ! c = (if a \<le> c \<and> c < a + n then v (c - a) else f ! c)
    \<and> length (fold (\<lambda>i f. f[a + i := v i]) [0..<n] f) = length f"
proof (induction n)
  case (Suc n)
  then show ?case by (auto simp: nth_list_update)
qed auto

lemma allocChain_ok:
  assumes inv: "fat_inv g l" and E: "fe_geo E = g" and n: "0 < n" "n < 2 ^ 62"
  shows "allocChain E n l =
    (if ly_next l - 2 + n > clusters g then (Inl errOutOfClusters, l)
     else (Inr (ly_next l), l\<lparr>ly_fat := fold (\<lambda>i f. f[ly_next l + i := if i + 1 < n then ly_next l + i + 1 else eoc g]) [0..<n] (ly_fat l),
       ly_next := ly_next l + n, ly_used := ly_used l + n\<rparr>))"
proof -
  note i = inv[unfolded fat_inv_def]
  have b: "clusters g + 2 \<le> 0x0FFFFFFF" using i eoc_bound[of g] by linarith
  have "sub64 (ly_next l) 2 = ly_next l - 2" using i b by simp
  moreover have "ly_next l \<le> 268435455" using i b by linarith
  then have "u64 (ly_next l - 2 + n) = ly_next l - 2 + n" using n by (intro u64_small) simp
  ultimately have s: "u64 (sub64 (ly_next l) 2 + n) = ly_next l - 2 + n" by simp
  show ?thesis
  proof (cases "ly_next l - 2 + n > clusters g")
    case True
    then show ?thesis using n(1) by (simp add: allocChain_def s E)
  next
    case False
    then have w: "ly_next l + n \<le> clusters g + 2" using i by linarith
    have "fold (\<lambda>i f. f[u32 (ly_next l + i) := chain_entry g (ly_next l) n i]) [0..<n] (ly_fat l)
        = fold (\<lambda>i f. f[ly_next l + i := if i + 1 < n then ly_next l + i + 1 else eoc g]) [0..<n] (ly_fat l)"
      using w b by (intro fold_cong) (auto simp: chain_entry_def)
    then show ?thesis using n(1) False w b i by (simp add: allocChain_def s E Let_def)
  qed
qed

lemma allocChain_inv:
  assumes inv: "fat_inv g l" and E: "fe_geo E = g" and n: "0 < n" "n < 2 ^ 62"
    and ok: "allocChain E n l = (Inr first, l')"
  shows "fat_inv g l'" "first = ly_next l" "ly_next l' = first + n" "ly_dev l' = ly_dev l"
    "\<forall>c < clusters g + 2. ly_fat l' ! c =
       (if first \<le> c \<and> c < first + n then (if c + 1 < first + n then c + 1 else eoc g) else ly_fat l ! c)"
proof -
  note i = inv[unfolded fat_inv_def]
  have fit: "\<not> ly_next l - 2 + n > clusters g" using ok allocChain_ok[OF inv E n] by auto
  then have w: "ly_next l + n \<le> clusters g + 2" using i by linarith
  show f: "first = ly_next l" "ly_next l' = first + n" "ly_dev l' = ly_dev l"
    using ok allocChain_ok[OF inv E n] fit by auto
  have l': "ly_fat l' = fold (\<lambda>i f. f[ly_next l + i := if i + 1 < n then ly_next l + i + 1 else eoc g]) [0..<n] (ly_fat l)"
    "ly_used l' = ly_used l + n"
    using ok allocChain_ok[OF inv E n] fit by auto
  have len: "length (ly_fat l) = clusters g + 2" using i by simp
  note fu = fold_update_nth[of "ly_next l" n "ly_fat l" _ "\<lambda>i. if i + 1 < n then ly_next l + i + 1 else eoc g", folded l'(1), unfolded len, OF w]
  show nth: "\<forall>c < clusters g + 2. ly_fat l' ! c =
       (if first \<le> c \<and> c < first + n then (if c + 1 < first + n then c + 1 else eoc g) else ly_fat l ! c)"
    using fu f(1) by auto
  have "length (ly_fat l') = clusters g + 2" using fu[of 0] by simp
  moreover have "ly_fat l' ! c = eoc g \<or> (ly_fat l' ! c = c + 1 \<and> c + 1 < ly_next l')" if "2 \<le> c" "c < ly_next l'" for c
  proof -
    have "c < clusters g + 2" using that w f by linarith
    then show ?thesis using nth that i f by auto
  qed
  moreover have "ly_fat l' ! c = 0" if "ly_next l' \<le> c" "c < clusters g + 2" for c
    using nth that i f by auto
  ultimately show "fat_inv g l'" using i f l'(2) w unfolding fat_inv_def by auto
qed

text \<open>What a reader of the FAT sees from a cluster on: at most \<open>k\<close> clusters of its chain.\<close>

fun fat_chain :: "geometry \<Rightarrow> nat list \<Rightarrow> nat \<Rightarrow> nat \<Rightarrow> nat list" where
  "fat_chain g fat 0 c = []"
| "fat_chain g fat (Suc k) c = c # (if fat ! c \<ge> eoc g \<or> fat ! c = 0 then [] else fat_chain g fat k (fat ! c))"

lemma fat_chain_contiguous:
  assumes "0 < n" "n \<le> k" "first + n \<le> eoc g" "0 < first"
    "\<forall>c. first \<le> c \<longrightarrow> c < first + n \<longrightarrow> fat ! c = (if c + 1 < first + n then c + 1 else eoc g)"
  shows "fat_chain g fat k first = [first..<first + n]"
  using assms
proof (induction n arbitrary: k first)
  case (Suc n)
  obtain j where k: "k = Suc j" using Suc.prems(2) by (cases k) auto
  show ?case
  proof (cases "n = 0")
    case True
    then show ?thesis using Suc.prems(5) by (simp add: k)
  next
    case False
    have "fat ! first = first + 1" using False Suc.prems(5) by simp
    moreover have "fat_chain g fat j (first + 1) = [first + 1..<first + 1 + n]"
      using Suc.prems(2,3,5) False by (intro Suc.IH) (auto simp: k)
    ultimately show ?thesis using Suc.prems(3) False by (simp add: k upt_conv_Cons)
  qed
qed simp

section \<open>The layout keeps the FAT sound\<close>

lemma fat_inv_dev [simp]: "fat_inv g (l\<lparr>ly_dev := d\<rparr>) = fat_inv g l"
  by (simp add: fat_inv_def)

definition grows :: "geometry \<Rightarrow> 'd layouter \<Rightarrow> 'd layouter \<Rightarrow> bool" where
  "grows g l l' \<longleftrightarrow> fat_inv g l' \<and> ly_next l \<le> ly_next l'
     \<and> (\<forall>c < ly_next l. ly_fat l' ! c = ly_fat l ! c)"

lemma grows_refl: "fat_inv g l \<Longrightarrow> grows g l l"
  by (simp add: grows_def)

lemma grows_trans: "grows g l l1 \<Longrightarrow> grows g l1 l2 \<Longrightarrow> grows g l l2"
  by (auto simp: grows_def)

lemma grows_dev [simp]: "grows g l (l'\<lparr>ly_dev := d\<rparr>) = grows g l l'"
  by (simp add: grows_def)

lemma grows_inv: "grows g l l' \<Longrightarrow> fat_inv g l'"
  by (simp add: grows_def)

lemma allocChain_grows:
  assumes "fat_inv g l" "fe_geo E = g" "n < 2 ^ 62" "allocChain E n l = (r, l')"
  shows "grows g l l'"
proof (cases "n = 0 \<or> isl r")
  case True
  then have "l' = l" using assms(4) by (auto simp: allocChain_def Let_def split: if_splits)
  then show ?thesis using assms(1) by (simp add: grows_refl)
next
  case False
  then obtain first where r: "r = Inr first" by (cases r) auto
  have n: "0 < n" using False by simp
  note a = allocChain_inv[OF assms(1,2) n assms(3) assms(4)[unfolded r]]
  have "ly_next l \<le> clusters g + 2" using assms(1) by (simp add: fat_inv_def)
  then show ?thesis using a by (auto simp: grows_def)
qed

lemma sub64_div_small: "512 \<le> 32 * k \<Longrightarrow> sub64 x 1 div k < 2 ^ 62"
proof -
  assume "512 \<le> 32 * k"
  then have k: "16 \<le> k" by simp
  have "sub64 x 1 \<le> 2 ^ 64" by (simp add: sub64_def nat_le_iff)
  then have "sub64 x 1 div k \<le> 2 ^ 64 div 16" using k by (meson div_le_mono div_le_mono2 le_trans zero_less_numeral)
  then show ?thesis by simp
qed

lemma clusterSize_bound: "fat_inv g l \<Longrightarrow> 512 \<le> clusterSizeBytes g"
  by (simp add: clusterSizeBytes_def fat_inv_def fat_consts)

lemma layoutFile_grows:
  assumes "fat_inv g l" "fe_geo E = g" "layoutFile D E n l = (r, l')"
  shows "grows g l l'"
proof -
  let ?sz = "case in_content n of None \<Rightarrow> 0 | Some c \<Rightarrow> src_size c"
  let ?n = "sub64 (u64 (u64_of_int ?sz + clusterSizeBytes g)) 1 div clusterSizeBytes g"
  have n: "?n < 2 ^ 62" using clusterSize_bound[OF assms(1)] by (intro sub64_div_small) simp
  obtain r1 l1 where a: "allocChain E ?n l = (r1, l1)" by (cases "allocChain E ?n l")
  have "l' = l1 \<or> (\<exists>d. l' = l1\<lparr>ly_dev := d\<rparr>)"
    using assms(3) a unfolding layoutFile_def assms(2) Let_def
    by (auto split: sum.splits option.splits prod.splits if_splits)
  then show ?thesis using allocChain_grows[OF assms(1,2) n a] by auto
qed

lemma layout_grows:
  fixes l :: "'d layouter" and D :: "'d device_ops"
  shows "fat_inv (fe_geo E) l \<Longrightarrow> grows (fe_geo E) l (snd (layoutDir D E t p b l))"
    and "fat_inv (fe_geo E) l \<Longrightarrow> grows (fe_geo E) l (snd (layoutInfos D E cis dd l))"
proof (induction D E t p b l and D E cis dd l rule: layoutDir_layoutInfos.induct)
  case (1 D E r n kids parent isRoot l)
  show ?case
  proof (cases "buildInfos (fe_upper E) (TNode r n kids)")
    case (Inl e)
    then show ?thesis using "1.prems" by (simp add: grows_refl)
  next
    case (Inr ic)
    obtain infos count where ic: "ic = (infos, count)" by (cases ic)
    let ?cs = "clusterSizeBytes (fe_geo E)"
    let ?ec = "if isRoot then count + 1 else count + 2"
    let ?n = "max 1 (sub64 (u64 (?ec + ?cs div dirEntrySize)) 1 div (?cs div dirEntrySize))"
    have "512 \<le> 32 * (?cs div dirEntrySize)"
      using clusterSize_bound[OF "1.prems"] by (simp add: dirEntrySize_def clusterSizeBytes_def f_sectorSize_def)
    then have n: "?n < 2 ^ 62" using sub64_div_small by simp
    obtain r1 l1 where a: "allocChain E ?n l = (r1, l1)" by (cases "allocChain E ?n l")
    note g1 = allocChain_grows[OF "1.prems" refl n a]
    show ?thesis
    proof (cases r1)
      case (Inl e)
      then show ?thesis using a g1 Inr ic by (simp add: Let_def)
    next
      case (Inr first)
      obtain r2 l2 where i: "layoutInfos D E infos (if isRoot then 0 else first) l1 = (r2, l2)" by fastforce
      have "grows (fe_geo E) l1 l2"
        using "1.IH"[OF \<open>buildInfos _ _ = _\<close> ic[symmetric] refl refl refl refl a[symmetric] Inr grows_inv[OF g1]] i by simp
      then have g2: "grows (fe_geo E) l l2" using g1 grows_trans by blast
      show ?thesis
        using a Inr i g2 \<open>buildInfos _ _ = _\<close> ic
        by (auto simp: Let_def split: sum.splits)
    qed
  qed
next
  case (2 D E dd l)
  then show ?case by (simp add: grows_refl)
next
  case (3 D E ci cis dd l)
  show ?case
  proof (cases "is_dir (tn_node (ci_node ci))")
    case True
    obtain r1 l1 where a: "layoutDir D E (ci_node ci) dd False l = (r1, l1)" by fastforce
    have g1: "grows (fe_geo E) l l1" using "3.IH"(1)[OF True "3.prems"] a by simp
    show ?thesis
    proof (cases r1)
      case (Inr fc)
      have "grows (fe_geo E) l1 (snd (layoutInfos D E cis dd l1))"
        using "3.IH"(2)[OF True a[symmetric] Inr] grows_inv[OF g1] by simp
      then show ?thesis using True a Inr grows_trans[OF g1] by (auto split: sum.splits prod.splits)
    qed (use True a g1 in simp)
  next
    case False
    obtain r1 l1 where a: "layoutFile D E (tn_node (ci_node ci)) l = (r1, l1)" by fastforce
    note g1 = layoutFile_grows[OF "3.prems" refl a]
    show ?thesis
    proof (cases r1)
      case (Inr fs)
      obtain fc sz where fs: "fs = (fc, sz)" by (cases fs)
      have "grows (fe_geo E) l1 (snd (layoutInfos D E cis dd l1))"
        using "3.IH"(3)[OF False a[symmetric] Inr fs[symmetric]] grows_inv[OF g1] by simp
      then show ?thesis using False a Inr fs grows_trans[OF g1] by (auto split: sum.splits prod.splits)
    qed (use False a g1 in simp)
  qed
qed

lemma fat_inv_new:
  assumes "geometry_ok devSize (fe_geo E)" "devSize \<le> 2 ^ 41"
  shows "fat_inv (fe_geo E) (new_layouter E d)"
proof -
  have "secPerClus (fe_geo E) \<noteq> 0" using assms(1) by (auto simp: geometry_ok_def)
  then show ?thesis using geometry_ok_eoc[OF assms]
    by (simp add: fat_inv_def new_layouter_def Let_def rootCluster_def)
qed

lemma layoutRootFixed_grows:
  assumes "fat_inv (fe_geo E) l"
  shows "grows (fe_geo E) l (snd (layoutRootFixed D E root l))"
proof (cases "buildInfos (fe_upper E) root")
  case (Inr ic)
  obtain infos c where ic: "ic = (infos, c)" by (cases ic)
  obtain r2 l2 where i: "layoutInfos D E infos 0 l = (r2, l2)" by fastforce
  have "grows (fe_geo E) l l2" using layout_grows(2)[OF assms, of D infos 0] i by simp
  then show ?thesis using Inr ic i
    by (auto simp: layoutRootFixed_def Let_def split: sum.splits prod.splits)
qed (simp add: layoutRootFixed_def grows_refl[OF assms])

section \<open>Reading the FAT back\<close>

text \<open>An entry of the table as a FAT driver fetches it.\<close>

definition fat12_get :: "bytes \<Rightarrow> nat \<Rightarrow> nat" where
  "fat12_get raw i =
     (let off = i * 3 div 2; a = (ucast (raw ! off) :: 32 word); b = (ucast (raw ! (off + 1)) :: 32 word) in
      if i mod 2 = 0 then unat (a OR push_bit 8 (b AND 0x0F)) else unat (drop_bit 4 a OR push_bit 4 b))"

definition fat_get :: "nat \<Rightarrow> bytes \<Rightarrow> nat \<Rightarrow> nat" where
  "fat_get bits raw i =
     (if bits = 12 then fat12_get raw i
      else if bits = 16 then get_le 2 raw (i * 2)
      else get_le 4 raw (i * 4) mod 0x10000000)"

lemma nibbles: "(0x0F :: byte) = mask 4" "(0xF0 :: byte) = NOT (mask 4)" "(0x0F :: 32 word) = mask 4"
  by (simp_all add: mask_eq_exp_minus_1)

lemma word12:
  assumes "v < 4096" "bit (word_of_nat v :: 32 word) n"
  shows "n < 12"
proof -
  have "take_bit 12 v = v" using assms by (simp add: take_bit_nat_eq_self)
  then have "take_bit 12 (word_of_nat v :: 32 word) = word_of_nat v"
    by (simp add: take_bit_of_nat)
  then show ?thesis using assms(2) by (metis bit_take_bit_iff)
qed
lemma byte_bit: "bit (b :: byte) n \<Longrightarrow> n < 8"
  using bit_imp_le_length[of b n] by simp

definition get_e :: "byte \<Rightarrow> byte \<Rightarrow> 32 word" where
  "get_e a b = ucast a OR push_bit 8 (ucast b AND 0x0F)"
definition get_o :: "byte \<Rightarrow> byte \<Rightarrow> 32 word" where
  "get_o a b = drop_bit 4 (ucast a) OR push_bit 4 (ucast b)"
definition put_eh :: "32 word \<Rightarrow> byte \<Rightarrow> byte" where
  "put_eh w y = (y AND 0xF0) OR ucast (drop_bit 8 w AND 0x0F)"
definition put_ol :: "32 word \<Rightarrow> byte \<Rightarrow> byte" where
  "put_ol w y = (y AND 0x0F) OR ucast (push_bit 4 (w AND 0x0F))"

lemma nibble_laws:
  "v < 4096 \<Longrightarrow> get_e (ucast (word_of_nat v :: 32 word)) (put_eh (word_of_nat v) y) = word_of_nat v"
  "v < 4096 \<Longrightarrow> get_o (put_ol (word_of_nat v) y) (ucast (drop_bit 4 (word_of_nat v) :: 32 word)) = word_of_nat v"
  "get_o (put_eh w y) z = get_o y z" "get_e z (put_ol w y) = get_e z y"
proof -
  have "bit (get_o (put_eh w y) z) n = bit (get_o y z) n" "bit (get_e z (put_ol w y)) n = bit (get_e z y) n" for n
    using byte_bit[of y "4 + n"] byte_bit[of y "n - 8"]
    unfolding get_o_def put_eh_def get_e_def put_ol_def nibbles by (auto simp: bit_simps)
  then show "get_o (put_eh w y) z = get_o y z" "get_e z (put_ol w y) = get_e z y" by (auto intro: bit_word_eqI)
  assume v: "v < 4096"
  define w where "w = (word_of_nat v :: 32 word)"
  have w: "bit w n \<Longrightarrow> n < 12" for n using word12[OF v] by (simp add: w_def)
  show "get_e (ucast (word_of_nat v :: 32 word)) (put_eh (word_of_nat v) y) = word_of_nat v"
    unfolding w_def[symmetric]
  proof (rule bit_word_eqI)
    fix n
    show "bit (get_e (ucast w) (put_eh w y)) n = bit w n"
      using w[of n] unfolding put_eh_def get_e_def nibbles by (cases "n < 8") (auto simp: bit_simps)
  qed
  show "get_o (put_ol (word_of_nat v) y) (ucast (drop_bit 4 (word_of_nat v) :: 32 word)) = word_of_nat v"
    unfolding w_def[symmetric]
  proof (rule bit_word_eqI)
    fix n
    show "bit (get_o (put_ol w y) (ucast (drop_bit 4 w))) n = bit w n"
      using w[of n] unfolding put_ol_def get_o_def nibbles by (cases "n < 4") (auto simp: bit_simps)
  qed
qed

lemma fat12_forms:
  "fat12_get raw (2 * k) = unat (get_e (raw ! (3 * k)) (raw ! (3 * k + 1)))"
  "fat12_get raw (2 * k + 1) = unat (get_o (raw ! (3 * k + 1)) (raw ! (3 * k + 2)))"
  "3 * k + 1 < length raw \<Longrightarrow> packFAT12 raw (2 * k) v =
     raw[3 * k := ucast (word_of_nat v :: 32 word), 3 * k + 1 := put_eh (word_of_nat v) (raw ! (3 * k + 1))]"
  "3 * k + 2 < length raw \<Longrightarrow> packFAT12 raw (2 * k + 1) v =
     raw[3 * k + 1 := put_ol (word_of_nat v) (raw ! (3 * k + 1)), 3 * k + 2 := ucast (drop_bit 4 (word_of_nat v) :: 32 word)]"
proof -
  have o: "(2 * k + 1) * 3 div 2 = 3 * k + 1" "2 * k * 3 div 2 = 3 * k" "(2 * k + 1) mod 2 = 1" "2 * k mod 2 = 0"
    "3 * k + 1 + 1 = 3 * k + 2" by simp_all
  show "fat12_get raw (2 * k) = unat (get_e (raw ! (3 * k)) (raw ! (3 * k + 1)))"
    unfolding fat12_get_def o Let_def get_e_def by (rule if_P) (rule refl)
  show "fat12_get raw (2 * k + 1) = unat (get_o (raw ! (3 * k + 1)) (raw ! (3 * k + 2)))"
    unfolding fat12_get_def o Let_def get_o_def by (rule if_not_P) (rule one_neq_zero)
  show "3 * k + 1 < length raw \<Longrightarrow> packFAT12 raw (2 * k) v =
     raw[3 * k := ucast (word_of_nat v :: 32 word), 3 * k + 1 := put_eh (word_of_nat v) (raw ! (3 * k + 1))]"
    unfolding packFAT12_def o Let_def put_eh_def by (simp only: not_le if_True if_False not_less[symmetric] simp_thms)
  show "3 * k + 2 < length raw \<Longrightarrow> packFAT12 raw (2 * k + 1) v =
     raw[3 * k + 1 := put_ol (word_of_nat v) (raw ! (3 * k + 1)), 3 * k + 2 := ucast (drop_bit 4 (word_of_nat v) :: 32 word)]"
    unfolding packFAT12_def o Let_def put_ol_def by (simp only: not_le if_True if_False not_less[symmetric] simp_thms one_neq_zero)
qed

lemma length_packFAT12 [simp]: "length (packFAT12 raw i v) = length raw"
  by (simp add: packFAT12_def Let_def)

lemma fat12_get_pack:
  assumes "(i + 1) * 12 \<le> length raw * 8" "v < 4096" 
  shows "fat12_get (packFAT12 raw i v) j = (if j = i then v else fat12_get raw j)"
proof -
  have u: "unat (word_of_nat v :: 32 word) = v" using assms(2) by (simp add: unat_of_nat take_bit_nat_eq_self)
  obtain k where k: "i = 2 * k \<or> i = 2 * k + 1" by (metis oddE evenE)
  obtain m where m: "j = 2 * m \<or> j = 2 * m + 1" by (metis oddE evenE)
  show ?thesis
  proof (cases "i = 2 * k")
    case True
    then have l: "3 * k + 1 < length raw" using assms(1) by simp
    consider "j = 2 * m" "m = k" | "j = 2 * m + 1" "m = k" | "m \<noteq> k" using m by blast
    then show ?thesis
    proof cases
      case 3
      then have "j \<noteq> i" "3 * m \<noteq> 3 * k" "3 * m + 1 \<noteq> 3 * k" "3 * m + 2 \<noteq> 3 * k" "3 * m + 2 \<noteq> 3 * k + 1" "3 * m \<noteq> 3 * k + 1"
        using True m by presburger+
      then show ?thesis using m by (elim disjE) (simp_all only: True fat12_forms l nth_list_update_neq, simp_all)
    qed (use l u in \<open>simp_all only: True fat12_forms\<close>, use l u in \<open>simp_all add: nibble_laws assms(2)\<close>)
  next
    case False
    then have i: "i = 2 * k + 1" using k by simp
    then have l: "3 * k + 2 < length raw" using assms(1) by simp
    consider "j = 2 * m" "m = k" | "j = 2 * m + 1" "m = k" | "m \<noteq> k" using m by blast
    then show ?thesis
    proof cases
      case 3
      then have "j \<noteq> i" "3 * m + 1 \<noteq> 3 * k + 1" "3 * m + 1 \<noteq> 3 * k + 2" "3 * m + 2 \<noteq> 3 * k + 2" "3 * m + 2 \<noteq> 3 * k + 1" "3 * m \<noteq> 3 * k + 1" "3 * m \<noteq> 3 * k + 2"
        using i m by presburger+
      then show ?thesis using m by (elim disjE) (simp_all only: i fat12_forms l nth_list_update_neq, simp_all)
    qed (use l u in \<open>simp_all only: i fat12_forms\<close>, use l u in \<open>simp_all add: nibble_laws assms(2)\<close>)
  qed
qed
lemma fat_raw_get:
  assumes "bits \<in> {12, 16, 32}" "(i + length vs) * bits \<le> length raw * 8" "(j + 1) * bits \<le> length raw * 8"
  shows "fat_get bits (fat_raw bits i vs raw) j =
    (if i \<le> j \<and> j < i + length vs then vs ! (j - i) mod 2 ^ (if bits = 32 then 28 else bits) else fat_get bits raw j)"
  using assms
proof (induction vs arbitrary: i raw)
  case (Cons v vs)
  have fit: "(i + 1) * bits \<le> length raw * 8"
    using Cons.prems(2) by (rule le_trans[rotated]) (rule mult_le_mono1, simp)
  define raw' where "raw' = (if bits = 12 then packFAT12 raw i (v mod 0x1000)
    else if bits = 16 then put_le 2 (i * 2) v raw else put_le 4 (i * 4) (v mod 0x10000000) raw)"
  have len: "length raw' = length raw" using fit Cons.prems(1) by (auto simp: raw'_def)
  have step: "fat_raw bits i (v # vs) raw = fat_raw bits (i + 1) vs raw'"
    using fit Cons.prems(1) by (auto simp: raw'_def)
  have get: "fat_get bits raw' j = (if j = i then v mod 2 ^ (if bits = 32 then 28 else bits) else fat_get bits raw j)"
  proof -
    consider "bits = 12" | "bits = 16" | "bits = 32" using Cons.prems(1) by auto
    then show ?thesis
    proof cases
      case 1
      then show ?thesis using fat12_get_pack[of i raw "v mod 0x1000" j] fit by (simp add: raw'_def fat_get_def)
    next
      case 2
      show ?thesis
      proof (cases "j = i")
        case True
        then show ?thesis using 2 fit by (simp add: raw'_def fat_get_def get_put_le)
      next
        case False
        then have "j * 2 + 2 \<le> i * 2 \<or> i * 2 + 2 \<le> j * 2" by presburger
        then show ?thesis using 2 False fit Cons.prems(3) by (simp add: raw'_def fat_get_def get_put_le_other)
      qed
    next
      case 3
      show ?thesis
      proof (cases "j = i")
        case True
        then show ?thesis using 3 fit by (simp add: raw'_def fat_get_def get_put_le)
      next
        case False
        then have "j * 4 + 4 \<le> i * 4 \<or> i * 4 + 4 \<le> j * 4" by presburger
        then show ?thesis using 3 False fit Cons.prems(3) by (simp add: raw'_def fat_get_def get_put_le_other)
      qed
    qed
  qed
  have "fat_get bits (fat_raw bits (i + 1) vs raw') j =
    (if i + 1 \<le> j \<and> j < i + 1 + length vs then vs ! (j - (i + 1)) mod 2 ^ (if bits = 32 then 28 else bits) else fat_get bits raw' j)"
    using Cons.prems len by (intro Cons.IH) simp_all
  then show ?case unfolding step get by (auto simp: nth_Cons' Suc_diff_le)
qed simp

section \<open>Properties of the volume\<close>

lemma geometry_takes_32:
  assumes "devSize < 2 ^ 63" "5 * 2 ^ 40 \<le> devSize" "devSize mod 512 = 0" "fb = 0 \<or> fb = 32"
  shows "\<exists>g. computeGeometry devSize fb = Some (Inr g) \<and> geometry_ok devSize g \<and> eoc g < clusters g"
proof -
  have t: "2 ^ 32 \<le> nat devSize div 512"
  proof -
    have "(2 ^ 41 :: nat) \<le> nat devSize" using assms(2) by simp
    from div_le_mono[OF this, of 512] show ?thesis by simp
  qed
  then have c: "fst (fat_choose fb (nat devSize div 512)) = 32" using assms(4) by (auto simp: fat_choose_def)
  show ?thesis
  proof (rule computeGeometry_cases[OF assms(1), of fb])
    fix g assume g: "computeGeometry devSize fb = Some (Inr g)" "geometry_ok devSize g"
      "128 * fatSizeSectors g \<le> totalSectors g + 130" "fatBits g = fst (fat_choose fb (nat devSize div 512))"
    then show ?thesis using geometry_ok_many[OF g(2,3) assms(2)] c by auto
  qed (use assms t c in auto)
qed

text \<open>
  C28. The geometry computation always ends, however large the device. What it accepts is a
  consistent volume: the FAT has an entry for every cluster and the two reserved ones, and the reserved
  area, the FATs, the root directory and the clusters fit the device and leave less than one cluster
  over. The cluster count is in the range of FAT12 or FAT16 when one of these is chosen, and above it
  for FAT32; up to 2 TiB, what 32-bit sector numbers reach, it is one that FAT32 entries can number,
  but nothing checks that: from 5 TiB on, volumes are accepted with more clusters than an entry can number.
\<close>

theorem fat_geometry_is_sound:
  assumes "devSize < 2 ^ 63"
  shows "case computeGeometry devSize fb of None \<Rightarrow> False
    | Some (Inl e) \<Rightarrow> e \<in> {errBadSize, fat_errTooSmall} \<and> \<not> (5 * 2 ^ 40 \<le> devSize \<and> devSize mod 512 = 0 \<and> fb \<in> {0, 32})
    | Some (Inr g) \<Rightarrow> geometry_ok devSize g \<and> (devSize \<le> 2 ^ 41 \<longrightarrow> clusters g + 2 \<le> eoc g)
        \<and> (5 * 2 ^ 40 \<le> devSize \<and> fb \<in> {0, 32} \<longrightarrow> eoc g < clusters g)"
proof -
  have many: "\<exists>g. computeGeometry devSize fb = Some (Inr g) \<and> geometry_ok devSize g \<and> eoc g < clusters g"
    if "5 * 2 ^ 40 \<le> devSize" "devSize mod 512 = 0" "fb \<in> {0, 32}" using geometry_takes_32[OF assms that(1,2)] that(3) by blast
  show ?thesis
  proof (rule computeGeometry_cases[OF assms, of fb])
    fix g assume g: "computeGeometry devSize fb = Some (Inr g)" "geometry_ok devSize g"
    have "devSize mod 512 = 0" using g(2) by (auto simp: geometry_ok_def)
    then show ?thesis using g many geometry_ok_eoc[OF g(2)] by auto
  qed (use many in auto)
qed

definition geo_20m :: geometry where
  "geo_20m = \<lparr> fatBits = 16, totalSectors = 40960, reservedSecs = 1, secPerClus = 4, fatSizeSectors = 40,
     rootEntCount = 512, rootDirSectors = 32, clusters = 10211, dataStartSec = 113 \<rparr>"

lemma geometry_20m: "computeGeometry 20971520 0 = Some (Inr geo_20m)"
proof -
  have "fat_size_loop 16 40927 4 (Suc 0) = Some (40, 10211)"
    using fat_size_step[of 1 40927 16 4] fat_size_step[of 40 40927 16 4] by (simp add: fat_need_def)
  then show ?thesis
    by (simp add: computeGeometry_def fat_consts fat_choose_def pickSecPerClus16_def fat_validate_def Let_def geo_20m_def)
qed

lemma geo_20m_ok: "geometry_ok 20971520 geo_20m"
  by (simp add: geometry_ok_def geo_20m_def)

theorem fat_geometry_is_sound_witness:
  "geometry_ok 20971520 geo_20m \<and> clusters geo_20m + 2 \<le> eoc geo_20m"
  using fat_geometry_is_sound[of 20971520 0] by (simp add: geometry_20m)


text \<open>
  C31. The table written by \<open>writeFATs\<close> reads back entry by entry, in all three widths, also for
  the 12-bit entries that share a byte.
\<close>

theorem fat_table_reads_back:
  assumes g: "geometry_ok devSize g" and fat: "length fat = clusters g + 2" "list_all (\<lambda>v. v \<le> eoc g) fat" "i < length fat"
  shows "fat_get (fatBits g) (fat_raw (fatBits g) 0 fat (zeros (fatSizeSectors g * f_sectorSize))) i = fat ! i"
proof -
  have b: "fatBits g \<in> {12, 16, 32}" "(clusters g + 2) * fatBits g \<le> fatSizeSectors g * 4096"
    using g by (simp_all add: geometry_ok_def)
  have "(i + 1) * fatBits g \<le> (clusters g + 2) * fatBits g" using fat by (intro mult_le_mono1) simp
  then have "fat_get (fatBits g) (fat_raw (fatBits g) 0 fat (zeros (fatSizeSectors g * f_sectorSize))) i
      = fat ! i mod 2 ^ (if fatBits g = 32 then 28 else fatBits g)"
    using fat_raw_get[OF b(1), of 0 fat "zeros (fatSizeSectors g * f_sectorSize)" i] b(2) fat(1,3)
    by (simp add: f_sectorSize_def)
  moreover have "fat ! i \<le> eoc g" using fat by (simp add: list_all_length)
  then have "fat ! i < 2 ^ (if fatBits g = 32 then 28 else fatBits g)" using b(1) by (auto simp: eoc_def)
  ultimately show ?thesis by simp
qed


theorem fat_table_reads_back_witness:
  "fat_get (fatBits geo_20m) (fat_raw (fatBits geo_20m) 0 (replicate (clusters geo_20m + 2) 7)
      (zeros (fatSizeSectors geo_20m * f_sectorSize))) 3 = replicate (clusters geo_20m + 2) 7 ! 3"
  by (rule fat_table_reads_back[OF geo_20m_ok]) (simp_all add: list_all_iff eoc_def, simp add: geo_20m_def)

text \<open>
  A volume of 4144 to 8399 sectors, about 2 to 4 MiB, cannot be made without forcing the
  width: the automatic choice is FAT12 with one sector per cluster, which is too many clusters, and
  the error says that the device is too small.
\<close>

lemma fat_auto_choice_rejects_3mb:
  assumes "4144 \<le> n" "n < 8400"
  shows "computeGeometry (int n * 512) 0 = Some (Inl fat_errTooSmall)"
proof -
  have pre: "10 \<le> n - 33" "n - 33 < 2 ^ 55" "12 \<le> (32::nat)" "0 < (1::nat)" using assms by simp_all
  obtain f where f: "fat_size_loop 12 (n - 33) 1 1 = Some (f, (n - 33 - 2 * f) div 1)" "1 \<le> f" "2 * f \<le> n - 33"
    "f \<le> max 1 (fat_need 12 ((n - 33 - 2) div 1))"
    by (rule fat_size_loop_settles[OF pre])
  have "fat_need 12 (n - 35) = ((n - 33) * 12 + 7 + 4088) div 8 div 512"
    using assms by (simp add: fat_need_def)
  then have "512 * fat_need 12 (n - 35) \<le> ((n - 33) * 12 + 4095) div 8" by simp
  then have "4096 * fat_need 12 (n - 35) \<le> (n - 33) * 12 + 4095" by linarith
  then have "4096 * f \<le> (n - 33) * 12 + 4095" using f(4) assms by (auto simp: max_def split: if_splits)
  then have "4084 < n - 33 - 2 * f" using assms by linarith
  moreover have "nat (int n * 512) div 512 = n" by (simp add: nat_mult_distrib)
  ultimately show ?thesis using assms f(1)
    by (simp add: computeGeometry_def fat_consts fat_choose_def fat_validate_def Let_def)
qed

text \<open>
  C30. A chain of \<open>n\<close> clusters is made of clusters of the volume that were free; a reader that
  follows the FAT from its first cluster visits exactly them, in order, and stops; and no chain made
  before is touched.
\<close>

theorem fat_chains_are_sound:
  assumes inv: "fat_inv g l" and E: "fe_geo E = g" and n: "0 < n" "n < 2 ^ 62" and ok: "allocChain E n l = (Inr first, l')"
  shows "fat_chain g (ly_fat l') n first = [first..<first + n] \<and> first + n \<le> clusters g + 2
    \<and> (\<forall>c. first \<le> c \<longrightarrow> c < first + n \<longrightarrow> ly_fat l ! c = 0) \<and> (\<forall>c < first. ly_fat l' ! c = ly_fat l ! c) \<and> fat_inv g l'"
proof -
  note a = allocChain_inv[OF inv E n ok]
  have b: "first + n \<le> clusters g + 2" "2 \<le> first" "clusters g + 2 \<le> eoc g" using a(1-3) inv by (auto simp: fat_inv_def)
  have "fat_chain g (ly_fat l') n first = [first..<first + n]"
    using n b a(5) by (intro fat_chain_contiguous) auto
  moreover have "\<forall>c. first \<le> c \<longrightarrow> c < first + n \<longrightarrow> ly_fat l ! c = 0"
    using inv a(2) b by (auto simp: fat_inv_def)
  ultimately show ?thesis using a(1,5) b by auto
qed

definition env_20m :: fat_env where
  "env_20m = \<lparr> fe_geo = geo_20m, fe_label = ''DATA'', fe_now = zero_time, fe_uuid = zeros 16, fe_upper = id \<rparr>"

lemma new_20m: "fat_inv geo_20m (new_layouter env_20m (d :: bytes))"
  using fat_inv_new[of 20971520 env_20m d] geo_20m_ok by (simp add: env_20m_def)

lemma alloc_20m: "\<exists>l'. allocChain env_20m 3 (new_layouter env_20m (d :: bytes)) = (Inr 2, l')"
  using allocChain_ok[OF new_20m, of env_20m 3 d]
  by (simp add: env_20m_def new_layouter_def Let_def rootCluster_def geo_20m_def)

theorem fat_chains_are_sound_witness:
  "\<exists>l'. allocChain env_20m 3 (new_layouter env_20m ([] :: bytes)) = (Inr 2, l')
    \<and> fat_chain geo_20m (ly_fat l') 3 2 = [2..<2 + 3]"
proof -
  obtain l' where l': "allocChain env_20m 3 (new_layouter env_20m ([] :: bytes)) = (Inr 2, l')" using alloc_20m by blast
  then show ?thesis using fat_chains_are_sound[OF new_20m _ _ _ l'] by (simp add: env_20m_def)
qed

text \<open>
  C29. Whatever tree is laid out, and whether the layout succeeds or stops at an error, the FAT stays
  sound: every allocated cluster points at the next one or ends its chain, the clusters from
  \<open>nextFree\<close> on are free, and the count of used clusters is exact.
\<close>

theorem fat_layout_keeps_fat_sound:
  assumes "computeGeometry devSize fb = Some (Inr (fe_geo E))" "devSize \<le> 2 ^ 41"
  shows "fat_inv (fe_geo E) (snd (layoutDir D E t 0 True (new_layouter E d)))
    \<and> fat_inv (fe_geo E) (snd (layoutRootFixed D E t (new_layouter E d)))"
proof -
  have "devSize < 2 ^ 63" using assms(2) by simp
  then have "geometry_ok devSize (fe_geo E)" using computeGeometry_cases[of devSize fb] assms(1) by auto
  then have n: "fat_inv (fe_geo E) (new_layouter E d)" by (rule fat_inv_new[OF _ assms(2)])
  show ?thesis using layout_grows(1)[OF n] layoutRootFixed_grows[OF n] grows_inv by blast
qed

theorem fat_layout_keeps_fat_sound_witness:
  "fat_inv (fe_geo env_20m) (snd (layoutDir mem_ops env_20m (TNode 0 (new_node undefined 2) []) 0 True (new_layouter env_20m [])))
    \<and> fat_inv (fe_geo env_20m) (snd (layoutRootFixed mem_ops env_20m (TNode 0 (new_node undefined 2) []) (new_layouter env_20m [])))"
  by (rule fat_layout_keeps_fat_sound[of 20971520 0]) (simp_all add: env_20m_def geometry_20m)

section \<open>Names\<close>

lemma length_pad_field [simp]: "length (pad_field n s) = n"
  by (simp add: pad_field_def)

lemma length_pack83 [simp]: "length (pack83 base ext) = 11"
  by (simp add: pack83_def)

lemma pad_field_inject:
  assumes "pad_field n s = pad_field n t" "length s \<le> n" "length t \<le> n" "CHR '' '' \<notin> set s" "CHR '' '' \<notin> set t"
  shows "s = t"
proof -
  have "takeWhile (\<lambda>c. c \<noteq> CHR '' '') (pad_field n u) = u" if "length u \<le> n" "CHR '' '' \<notin> set u" for u
    using that by (auto simp: pad_field_def takeWhile_append)
  then show ?thesis using assms by metis
qed

lemma fits83_length: "fits83 up name = Some sn \<Longrightarrow> length sn = 11"
  by (auto simp: fits83_def Let_def split: if_splits prod.splits)

lemma sanitize_loop_ascii:
  assumes "list_all (\<lambda>c. c \<noteq> CHR '' '') acc" "length acc < mx"
  shows "list_all (\<lambda>c. c \<noteq> CHR '' '') (sanitize_loop mx rs acc) \<and> length (sanitize_loop mx rs acc) \<le> mx"
  using assms
proof (induction rs arbitrary: acc)
  case (Cons r rs)
  define v where "v = (if validShortRune r then r else 95)"
  have "v < 256" "v \<noteq> 32" by (auto simp: v_def validShortRune_def)
  then have c: "char_of v \<noteq> CHR '' ''" using char_of_eq_iff[of v "CHR '' ''"] by (simp add: take_bit_nat_eq_self)
  show ?case
  proof (cases "length acc + 1 \<ge> mx \<or> r = 46 \<or> r = 32")
    case True
    then show ?thesis using Cons c by (auto simp: Let_def v_def[symmetric])
  next
    case False
    then show ?thesis using Cons.prems Cons.IH[of "acc @ [char_of v]"] c by (auto simp: Let_def v_def[symmetric])
  qed
qed simp

lemma sanitize83_ok: "0 < mx \<Longrightarrow> CHR '' '' \<notin> set (sanitize83 up s mx) \<and> length (sanitize83 up s mx) \<le> mx"
  using sanitize_loop_ascii[of "[]" mx "runes (go_upper up s)"] by (auto simp: sanitize83_def Let_def list_all_iff)

definition candidate :: "string \<Rightarrow> string \<Rightarrow> nat \<Rightarrow> string" where
  "candidate base ext n = pack83 (take (8 - length (CHR ''~'' # format_dec n)) base @ CHR ''~'' # format_dec n) ext"

lemma generate_loop_eq:
  "generate_loop used base ext n =
     (if 10 ^ 7 \<le> n then Inl (Panic ''slice bounds out of range'')
      else if candidate base ext n \<in> set used then generate_loop used base ext (n + 1)
      else Inr (candidate base ext n))"
proof -
  have "length (CHR ''~'' # format_dec n) > 8 \<longleftrightarrow> 10 ^ 7 \<le> n"
    using length_format_dec[of n 7] by (simp add: not_le[symmetric])
  then show ?thesis by (subst generate_loop.simps) (simp only: Let_def candidate_def)
qed

lemma generate_loop_fresh:
  assumes "generate_loop used base ext n = Inr sn"
  shows "sn \<notin> set used \<and> length sn = 11"
  using assms
proof (induction used base ext n rule: generate_loop.induct)
  case (1 used base ext n)
  then show ?case by (subst (asm) (2) generate_loop.simps) (auto simp: Let_def split: if_splits)
qed

lemma digits_no: "c \<in> set (format_dec n) \<Longrightarrow> c \<noteq> CHR '' '' \<and> c \<noteq> CHR ''~''"
  using format_dec_digits[of n] by (auto simp: list_all_iff is_digit_def)

lemma candidate_inject:
  assumes "candidate base ext m = candidate base ext n" "CHR '' '' \<notin> set base" "m < 10 ^ 7" "n < 10 ^ 7"
  shows "m = n"
proof -
  let ?c = "\<lambda>n. take (8 - length (CHR ''~'' # format_dec n)) base @ CHR ''~'' # format_dec n"
  have l: "length (?c k) \<le> 8" if "k < 10 ^ 7" for k
    using that length_format_dec[of k 7] by simp
  have sp: "CHR '' '' \<notin> set (?c k)" for k using assms(2) digits_no[of _ k] by (auto dest: in_set_takeD)
  have "pad_field 8 (?c m) = pad_field 8 (?c n)" using assms(1) by (simp add: candidate_def pack83_def)
  then have "?c m = ?c n" using pad_field_inject l[OF assms(3)] l[OF assms(4)] sp by blast
  then have "rev (?c m) = rev (?c n)" by simp
  then have "takeWhile (\<lambda>c. c \<noteq> CHR ''~'') (rev (?c m)) = takeWhile (\<lambda>c. c \<noteq> CHR ''~'') (rev (?c n))" by simp
  moreover have "takeWhile (\<lambda>c. c \<noteq> CHR ''~'') (rev (?c k)) = rev (format_dec k)" for k
    using digits_no[of _ k] by (auto simp: takeWhile_append)
  ultimately show ?thesis by simp
qed

lemma generate_loop_full:
  assumes "generate_loop used base ext n = Inl e" "n \<le> i" "i < 10 ^ 7"
  shows "candidate base ext i \<in> set used"
  using assms
proof (induction "i - n" arbitrary: n)
  case 0
  then have "n = i" by simp
  then show ?case using "0.prems" by (subst (asm) generate_loop_eq) (auto split: if_splits)
next
  case (Suc k)
  have n: "n < 10 ^ 7" "k = i - (n + 1)" "n + 1 \<le> i" using Suc by auto
  then have "generate_loop used base ext (n + 1) = Inl e"
    using Suc.prems(1) by (subst (asm) generate_loop_eq) (auto split: if_splits)
  then show ?case using Suc.hyps(1)[OF n(2)] n Suc.prems(3) by blast
qed

lemma generate_loop_returns:
  assumes "length used + n < 10 ^ 7" "CHR '' '' \<notin> set base"
  shows "\<exists>sn. generate_loop used base ext n = Inr sn"
proof (rule ccontr)
  assume "\<not> ?thesis"
  then obtain e where e: "generate_loop used base ext n = Inl e" by (cases "generate_loop used base ext n") auto
  have "inj_on (candidate base ext) {n..<10 ^ 7}"
    using candidate_inject[OF _ assms(2)] by (auto intro: inj_onI)
  moreover have "candidate base ext ` {n..<10 ^ 7} \<subseteq> set used" using generate_loop_full[OF e] by auto
  ultimately have "card {n..<10 ^ 7} \<le> card (set used)" by (metis card_image card_mono List.finite_set)
  then show False using card_length[of used] assms(1) by simp
qed

lemma generate_fresh:
  assumes "length used < 9999999"
  shows "\<exists>sn. generate up used name = Inr sn \<and> sn \<notin> set used \<and> length sn = 11"
proof -
  have "\<exists>sn. mangle up used name = Inr sn"
    unfolding mangle_def Let_def split_beta
    by (rule generate_loop_returns) (use assms sanitize83_ok[of 8] in auto)
  moreover have "sn \<notin> set used \<and> length sn = 11" if "mangle up used name = Inr sn" for sn
    using that generate_loop_fresh by (auto simp: mangle_def split_beta)
  ultimately show ?thesis
    using fits83_length[of up name] by (cases "fits83 up name") (auto simp: generate_def)
qed

text \<open>
  C33. In a directory of fewer than ten million names, every name gets a short name: eleven bytes
  long and different from all those given before, also when many long names collide.
\<close>

theorem fat_short_names_are_fresh:
  assumes "length used < 9999999"
  shows "\<exists>sn. generate up used name = Inr sn \<and> sn \<notin> set used \<and> length sn = 11"
  by (rule generate_fresh[OF assms])

theorem fat_short_names_are_fresh_witness:
  "\<exists>sn. generate id [''READM~1 TXT''] ''readme.txt'' = Inr sn \<and> sn \<notin> set [''READM~1 TXT''] \<and> length sn = 11"
  by (rule fat_short_names_are_fresh) simp

section \<open>Long names\<close>

text \<open>The thirteen units of a long-name entry, at their three places.\<close>

definition get_units :: "nat \<Rightarrow> bytes \<Rightarrow> nat \<Rightarrow> nat list" where
  "get_units n b off = map (\<lambda>i. get_le 2 b (off + 2 * i)) [0..<n]"

definition lfn_units :: "bytes \<Rightarrow> nat list" where
  "lfn_units e = get_units 5 e 1 @ get_units 6 e 14 @ get_units 2 e 28"

text \<open>
  What the format asks of the entry number \<open>sq\<close>: its number, marked in the last one, the
  long-name attribute, type and first cluster 0, and the checksum of the short name.
\<close>

definition lfn_entry_ok :: "bytes \<Rightarrow> nat \<Rightarrow> bool \<Rightarrow> byte \<Rightarrow> bool" where
  "lfn_entry_ok e sq final ck \<longleftrightarrow> length e = 32 \<and> unat (e ! 0) = sq + (if final then 0x40 else 0)
     \<and> e ! 11 = 0x0F \<and> e ! 12 = 0 \<and> e ! 13 = ck \<and> e ! 26 = 0 \<and> e ! 27 = 0"

lemma length_units_bytes [simp]: "length (units_bytes us) = 2 * length us"
  by (induction us) (auto simp: units_bytes_def)

lemma window_units_bytes: "i < length us \<Longrightarrow> window (units_bytes us) (2 * i) 2 = le_bytes 2 (us ! i)"
proof (induction us arbitrary: i)
  case (Cons u us)
  have e: "units_bytes (u # us) = le_bytes 2 u @ units_bytes us" by (simp add: units_bytes_def)
  show ?case
  proof (cases i)
    case 0
    then show ?thesis by (simp add: e window_def)
  next
    case (Suc j)
    then show ?thesis using Cons window_append_right[of "le_bytes 2 u" "2 * i" "units_bytes us" 2] by (simp add: e)
  qed
qed simp

lemma get_units_at:
  assumes "list_all (\<lambda>u. u < 65536) us" "window b off (2 * length us) = units_bytes us"
  shows "get_units (length us) b off = us"
proof (rule nth_equalityI)
  fix i assume "i < length (get_units (length us) b off)"
  then have i: "i < length us" by (simp add: get_units_def)
  have "window b (off + 2 * i) 2 = window (window b off (2 * length us)) (2 * i) 2"
    using i by (simp add: window_window)
  then have "get_le 2 b (off + 2 * i) = us ! i mod 256 ^ 2"
    using i by (simp add: assms(2) window_units_bytes get_le_def)
  then show "get_units (length us) b off ! i = us ! i"
    using i assms(1) by (simp add: get_units_def list_all_length)
qed (simp add: get_units_def)

lemma lfn_entry_units:
  assumes "length chunk = 13" "list_all (\<lambda>u. u < 65536) chunk"
  shows "lfn_units (lfn_entry ck count sq chunk) = chunk \<and> length (lfn_entry ck count sq chunk) = 32"
proof -
  let ?e = "lfn_entry ck count sq chunk"
  let ?a = "take 5 chunk" and ?b = "take 6 (drop 5 chunk)" and ?c = "take 2 (drop 11 chunk)"
  have l: "length ?a = 5" "length ?b = 6" "length ?c = 2" using assms(1) by simp_all
  obtain o1 where e: "?e = [o1] @ units_bytes ?a @ [word_of_nat attrLongName, 0, ck] @ units_bytes ?b @ [0, 0] @ units_bytes ?c"
    by (simp add: lfn_entry_def Let_def)
  have w: "window ?e 1 (2 * length ?a) = units_bytes ?a" "window ?e 14 (2 * length ?b) = units_bytes ?b"
    "window ?e 28 (2 * length ?c) = units_bytes ?c"
  proof -
    obtain A B C where abc: "A = units_bytes ?a" "B = units_bytes ?b" "C = units_bytes ?c" by simp
    then have "length A = 10" "length B = 12" "length C = 4" using l by simp_all
    then show "window ?e 1 (2 * length ?a) = units_bytes ?a" "window ?e 14 (2 * length ?b) = units_bytes ?b"
      "window ?e 28 (2 * length ?c) = units_bytes ?c"
      unfolding e l abc[symmetric] by (simp_all add: window_def)
  qed
  have s: "list_all (\<lambda>u. u < 65536) ?a" "list_all (\<lambda>u. u < 65536) ?b" "list_all (\<lambda>u. u < 65536) ?c"
    using assms(2) by (auto simp: list_all_iff dest: in_set_takeD in_set_dropD)
  have "lfn_units ?e = ?a @ ?b @ ?c"
    using get_units_at[OF s(1) w(1)] get_units_at[OF s(2) w(2)] get_units_at[OF s(3) w(3)]
    unfolding lfn_units_def l by (simp only:)
  also have "\<dots> = chunk"
  proof -
    have "?b @ ?c = drop 5 chunk" using assms(1) append_take_drop_id[of 6 "drop 5 chunk"] by simp
    then show ?thesis by simp
  qed
  finally show ?thesis using l by (simp add: e)
qed

lemma lfn_entry_fields:
  assumes "length chunk = 13" "sq < 64"
  shows "lfn_entry_ok (lfn_entry ck count sq chunk) sq (sq = count) ck"
proof -
  obtain A B C where abc: "A = units_bytes (take 5 chunk)" "B = units_bytes (take 6 (drop 5 chunk))" "C = units_bytes (take 2 (drop 11 chunk))"
    by simp
  then have l: "length A = 10" "length B = 12" "length C = 4" using assms(1) by simp_all
  have o: "unat (word_of_nat sq :: byte) = sq" using assms(2) by (simp add: unat_of_nat)
  have "unat (word_of_nat sq OR 0x40 :: byte) = sq + 0x40"
  proof -
    have "\<not> bit (word_of_nat sq :: byte) 6" using assms(2) by (simp only: bit_of_nat_iff) (simp add: bit_iff_odd)
    then have "word_of_nat sq AND (2 ^ 6 :: byte) = 0" by (rule and_exp_eq_0_iff_not_bit[THEN iffD2])
    then have "word_of_nat sq AND (0x40 :: byte) = 0" by simp
    then have "word_of_nat sq OR (0x40 :: byte) = word_of_nat sq + 0x40" by (rule disjunctive_add_eq_or[symmetric])
    then show ?thesis using assms(2) by (simp add: unat_word_ariths o)
  qed
  then show ?thesis unfolding lfn_entry_ok_def lfn_entry_def Let_def abc[symmetric]
    using l o by (cases "sq = count") (auto simp: nth_append attrLongName_def)
qed

lemma lfn_padded_length: "length (lfn_padded us) = (length us div 13 + 1) * 13"
proof -
  have "length us < (length us div 13 + 1) * 13" by (simp add: dividend_less_div_times)
  then show ?thesis by (simp add: lfn_padded_def Let_def)
qed

lemma concat_windows: "n * 13 \<le> length xs \<Longrightarrow> concat (map (\<lambda>i. window xs (i * 13) 13) [0..<n]) = take (n * 13) xs"
proof (induction n)
  case (Suc n)
  have "take (Suc n * 13) xs = take (n * 13) xs @ window xs (n * 13) 13"
    using take_add[of "n * 13" 13 xs] by (simp add: window_def add.commute)
  then show ?case using Suc by simp
qed simp

lemma utf16_nonzero: "list_all (\<lambda>r. r \<noteq> 0) rs \<Longrightarrow> list_all (\<lambda>u. u \<noteq> 0) (utf16_encode rs)"
  by (induction rs rule: utf16_encode.induct) auto

lemma lfn_entries_read:
  defines "n \<equiv> \<lambda>name. length (utf16_encode (runes name)) div 13 + 1"
  shows "length (lfnEntries name ck) = n name"
    and "concat (map lfn_units (rev (lfnEntries name ck))) = lfn_padded (utf16_encode (runes name))"
    and "i < n name \<Longrightarrow> lfnEntries name ck ! i
      = lfn_entry ck (n name) (n name - i) (window (lfn_padded (utf16_encode (runes name))) ((n name - i - 1) * 13) 13)"
    and "i < n name \<Longrightarrow> length (window (lfn_padded (utf16_encode (runes name))) ((n name - i - 1) * 13) 13) = 13"
    and "list_all (\<lambda>e. length e = 32) (lfnEntries name ck)"
proof -
  let ?us = "utf16_encode (runes name)"
  let ?p = "lfn_padded ?us"
  let ?n = "length ?us div 13 + 1"
  have len: "length ?p = ?n * 13" by (rule lfn_padded_length)
  then have cnt: "length ?p div 13 = ?n" by simp
  have small: "list_all (\<lambda>u. u < 65536) ?p"
    using utf16_units[of "runes name"] by (auto simp: lfn_padded_def Let_def list_all_iff)
  have w13: "length (window ?p (i * 13) 13) = 13" if "i < ?n" for i
  proof -
    have "(i + 1) * 13 \<le> ?n * 13" using that by (intro mult_le_mono1) simp
    then show ?thesis unfolding len[symmetric] by simp
  qed
  have e: "lfn_units (lfn_entry ck ?n (i + 1) (window ?p (i * 13) 13)) = window ?p (i * 13) 13
      \<and> length (lfn_entry ck ?n (i + 1) (window ?p (i * 13) 13)) = 32" if "i < ?n" for i
  proof (rule lfn_entry_units[OF w13[OF that]])
    show "list_all (\<lambda>u. u < 65536) (window ?p (i * 13) 13)"
      using small by (auto simp: window_def list_all_iff dest!: in_set_takeD in_set_dropD)
  qed
  have r: "rev (lfnEntries name ck) = map (\<lambda>i. lfn_entry ck ?n (i + 1) (window ?p (i * 13) 13)) [0..<?n]"
    unfolding lfnEntries_def Let_def cnt rev_map rev_rev_ident
  proof -
    have "[1..<?n + 1] = map Suc [0..<?n]" by (simp add: map_Suc_upt del: upt_Suc)
    then show "map (\<lambda>sq. lfn_entry ck ?n sq (window ?p ((sq - 1) * 13) 13)) [1..<?n + 1]
        = map (\<lambda>i. lfn_entry ck ?n (i + 1) (window ?p (i * 13) 13)) [0..<?n]"
      by (simp only: map_map o_def Suc_eq_plus1 add_diff_cancel_right')
  qed
  have "concat (map lfn_units (rev (lfnEntries name ck))) = concat (map (\<lambda>i. window ?p (i * 13) 13) [0..<?n])"
    unfolding r map_map o_def
    by (intro arg_cong[of _ _ concat] map_cong refl conjunct1[OF e]) (simp only: set_upt atLeastLessThan_iff)
  also have "\<dots> = ?p" using concat_windows[of ?n ?p] len by simp
  finally show "concat (map lfn_units (rev (lfnEntries name ck))) = ?p" .
  show l: "length (lfnEntries name ck) = n name" using arg_cong[OF r, of length] by (simp add: n_def)
  have "set (lfnEntries name ck) = set (rev (lfnEntries name ck))" by simp
  then show "list_all (\<lambda>e. length e = 32) (lfnEntries name ck)"
    unfolding r using e by (auto simp: list_all_iff)
  show "length (window ?p ((n name - i - 1) * 13) 13) = 13" if "i < n name" using w13[of "n name - i - 1"] that by (simp add: n_def)
  show "lfnEntries name ck ! i = lfn_entry ck (n name) (n name - i) (window ?p ((n name - i - 1) * 13) 13)" if "i < n name"
  proof -
    have "lfnEntries name ck ! i = rev (lfnEntries name ck) ! (n name - i - 1)"
      using that l by (simp add: rev_nth)
    also have "\<dots> = lfn_entry ck (n name) (n name - i) (window ?p ((n name - i - 1) * 13) 13)"
    proof -
      define m where "m = ?n"
      then have m: "?n = m" "i < m" using that by (simp_all add: n_def)
      then have "[0..<m] ! (m - i - 1) = m - i - 1" "m - i - 1 + 1 = m - i" by simp_all
      then show ?thesis unfolding r n_def m(1) using m(2) by simp
    qed
    finally show ?thesis .
  qed
qed

text \<open>
  C32. A child of a directory is written as a well-formed set of VFAT entries, for every name of at
  most 255 UTF-16 units: the long-name entries come last piece first, numbered down to 1 with the
  first one on disk marked as the last piece, each with the long-name attribute, type and cluster 0 and
  the checksum of the short name, which the short entry after them holds; their units, put together by
  number and read up to the NUL, decode to the runes of the name, and after the NUL is padding.
\<close>

theorem fat_child_entries_are_vfat:
  assumes "list_all rune_ok (runes (ci_name ci))" "list_all (\<lambda>r. r \<noteq> 0) (runes (ci_name ci))"
    and "length (utf16_encode (runes (ci_name ci))) \<le> 255" "length (ci_short ci) = 11"
  shows "\<exists>n us pad. length (putChildEntries ci) = (n + 1) * 32 \<and> 1 \<le> n \<and> n \<le> 20
    \<and> (\<forall>k < n. lfn_entry_ok (window (putChildEntries ci) (k * 32) 32) (n - k) (k = 0) (shortChecksum (ci_short ci)))
    \<and> window (putChildEntries ci) (n * 32) 11 = bytes_of (ci_short ci) \<and> putChildEntries ci ! (n * 32 + 11) = word_of_nat (ci_attr ci)
    \<and> get_le 2 (putChildEntries ci) (n * 32 + 26) = ci_first ci mod 2 ^ 16
    \<and> get_le 2 (putChildEntries ci) (n * 32 + 20) = ci_first ci div 2 ^ 16 mod 2 ^ 16
    \<and> get_le 4 (putChildEntries ci) (n * 32 + 28) = ci_size ci mod 2 ^ 32
    \<and> concat (map (\<lambda>k. lfn_units (window (putChildEntries ci) ((n - 1 - k) * 32) 32)) [0..<n]) = us @ 0 # replicate pad 0xFFFF
    \<and> utf16_decode us = runes (ci_name ci) \<and> 0 \<notin> set us"
proof -
  let ?us = "utf16_encode (runes (ci_name ci))" and ?es = "lfnEntries (ci_name ci) (shortChecksum (ci_short ci))"
  let ?n = "length ?us div 13 + 1" and ?b = "putChildEntries ci"
  note R = lfn_entries_read(1-3)[where name = "ci_name ci" and ck = "shortChecksum (ci_short ci)"]
    lfn_entries_read(4)[where name = "ci_name ci"] lfn_entries_read(5)[where name = "ci_name ci" and ck = "shortChecksum (ci_short ci)"]
  have sh: "length (short_entry ci) = 32" "window (short_entry ci) 0 11 = bytes_of (ci_short ci)"
    "short_entry ci ! 11 = word_of_nat (ci_attr ci)" "get_le 2 (short_entry ci) 26 = ci_first ci mod 2 ^ 16"
    "get_le 2 (short_entry ci) 20 = ci_first ci div 2 ^ 16 mod 2 ^ 16" "get_le 4 (short_entry ci) 28 = ci_size ci mod 2 ^ 32"
    using assms(4) by (simp_all add: short_entry_def split_beta window_def get_le_def nth_append)
  have cl: "length (concat ?es) = ?n * 32"
  proof -
    have "length (concat es) = length es * 32" if "list_all (\<lambda>e. length e = 32) es" for es :: "bytes list"
      using that by (induction es) auto
    then show ?thesis using R(1,5) by metis
  qed
  have b: "?b = concat ?es @ short_entry ci" by (simp add: putChildEntries_def)
  have w: "window ?b (k * 32) 32 = ?es ! k" if "k < ?n" for k
  proof -
    have "k * 32 + 32 \<le> length (concat ?es)" using that unfolding cl by simp
    then have "window ?b (k * 32) 32 = window (concat ?es) (k * 32) 32" unfolding b by (rule window_append_left)
    also have "\<dots> = ?es ! k" using R(1,5) that by (intro window_concat) (auto simp: list_all_iff)
    finally show ?thesis .
  qed
  have "?n \<le> 20" using div_le_mono[OF assms(3), of 13] by simp
  moreover have "lfn_entry_ok (window ?b (k * 32) 32) (?n - k) (k = 0) (shortChecksum (ci_short ci))" if "k < ?n" for k
  proof -
    have "(?n - k = ?n) = (k = 0)" using that by auto
    then show ?thesis
      using lfn_entry_fields[OF R(4)[OF that], of "?n - k" "shortChecksum (ci_short ci)" ?n] calculation
      unfolding w[OF that] R(3)[OF that] by simp
  qed
  moreover have "window ?b (?n * 32) 11 = bytes_of (ci_short ci)"
    unfolding b using window_append_right[of "concat ?es" "?n * 32" "short_entry ci" 11] sh(2) cl by simp
  moreover have "?b ! (?n * 32 + 11) = word_of_nat (ci_attr ci)" using sh(3) cl by (simp add: b nth_append)
  moreover have "get_le w ?b (?n * 32 + k) = get_le w (short_entry ci) k" for w k
    unfolding get_le_def b using window_append_right[of "concat ?es" "?n * 32 + k" "short_entry ci" w] cl by simp
  note this[of 2 26, unfolded sh(4)] this[of 2 20, unfolded sh(5)] this[of 4 28, unfolded sh(6)]
  moreover have "length ?b = (?n + 1) * 32" using cl sh(1) by (simp add: b)
  moreover have "concat (map (\<lambda>k. lfn_units (window ?b ((?n - 1 - k) * 32) 32)) [0..<?n])
      = ?us @ 0 # replicate (?n * 13 - length ?us - 1) 0xFFFF"
  proof -
    have "map (\<lambda>k. lfn_units (window ?b ((?n - 1 - k) * 32) 32)) [0..<?n] = map lfn_units (rev ?es)"
      by (rule nth_equalityI) (use R(1) w in \<open>simp_all add: rev_nth del: upt_Suc\<close>)
    then have "concat (map (\<lambda>k. lfn_units (window ?b ((?n - 1 - k) * 32) 32)) [0..<?n]) = lfn_padded ?us" by (simp only: R(2))
    then show ?thesis by (simp add: lfn_padded_def Let_def)
  qed
  moreover have "utf16_decode ?us = runes (ci_name ci)" by (rule utf16_round_trip[OF assms(1)])
  moreover have "0 \<notin> set ?us" using utf16_nonzero[OF assms(2)] by (auto simp: list_all_iff)
  moreover have "1 \<le> ?n" by simp
  ultimately show ?thesis by blast
qed

definition long_child :: child_info where
  "long_child = \<lparr> ci_node = undefined, ci_name = ''a long name.text'', ci_short = ''ALONGN~1TEX'', ci_first = 5, ci_size = 0,
     ci_attr = attrArchive \<rparr>"

theorem fat_child_entries_are_vfat_witness: "\<exists>n. length (putChildEntries long_child) = (n + 1) * 32 \<and> 1 \<le> n \<and> n \<le> 20
    \<and> lfn_entry_ok (window (putChildEntries long_child) 0 32) n True (shortChecksum ''ALONGN~1TEX'')"
proof -
  have c: "ci_name long_child = ''a long name.text''" "ci_short long_child = ''ALONGN~1TEX''" by (simp_all add: long_child_def)
  have r: "runes ''a long name.text'' = map of_char ''a long name.text''"
    by (simp add: runes_def runes_of.simps decode_rune_def rune_len_def Let_def second_range_def)
  have "list_all rune_ok (runes (ci_name long_child))" "list_all (\<lambda>r. r \<noteq> 0) (runes (ci_name long_child))"
    "length (utf16_encode (runes (ci_name long_child))) \<le> 255" "length (ci_short long_child) = 11"
    by (simp_all add: c r rune_ok_def)
  from fat_child_entries_are_vfat[OF this] show ?thesis unfolding c by force
qed

section \<open>Where the directory size is undercounted\<close>

lemma lfn_entries_size:
  "length (concat (lfnEntries name ck)) = 32 * (length (utf16_encode (runes name)) div 13 + 1)"
proof -
  let ?n = "length (utf16_encode (runes name)) div 13 + 1"
  have "length (lfn_entry ck c sq chunk) = 32" if "length chunk = 13" for c sq chunk
    using that by (simp add: lfn_entry_def Let_def)
  moreover have "length (window (lfn_padded (utf16_encode (runes name))) ((sq - 1) * 13) 13) = 13"
    if "sq \<in> set (rev [1..<?n + 1])" for sq
  proof -
    have "1 \<le> sq" "sq \<le> ?n" using that by auto
    then have "(sq - 1) * 13 + 13 \<le> ?n * 13" by (simp add: algebra_simps)
    then show ?thesis using lfn_padded_length[of "utf16_encode (runes name)"] by simp
  qed
  ultimately have l: "list_all (\<lambda>e. length e = 32) (lfnEntries name ck)"
    unfolding lfnEntries_def Let_def lfn_padded_length by (simp only: list_all_iff set_map ball_simps nonzero_mult_div_cancel_right) auto
  have "length (concat es) = 32 * length es" if "list_all (\<lambda>e. length e = 32) es" for es :: "bytes list"
    using that by (induction es) auto
  moreover have "length (lfnEntries name ck) = ?n" by (simp add: lfnEntries_def Let_def lfn_padded_length del: upt_Suc)
  ultimately show ?thesis using l by metis
qed

lemma putChildEntries_size: "length (ci_short ci) = 11 \<Longrightarrow> 64 \<le> length (putChildEntries ci)"
  by (simp add: putChildEntries_def lfn_entries_size short_entry_def split_beta)

lemma put_children_panics:
  assumes "\<forall>ci \<in> set cis. length (ci_short ci) = 11" "off \<le> length buf" "length buf < off + 64 * length cis"
  shows "\<exists>p. put_children cis off buf = Inl (Panic p)"
  using assms
proof (induction cis arbitrary: off buf)
  case (Cons ci cis)
  have "64 \<le> length (putChildEntries ci)" using Cons.prems(1) by (intro putChildEntries_size) simp
  then show ?case using Cons by (auto simp: Let_def)
qed simp

text \<open>A file without content, whose name is already a short name.\<close>

definition plain_83 :: "(nat \<Rightarrow> nat) \<Rightarrow> string \<times> tnode \<Rightarrow> bool" where
  "plain_83 up = (\<lambda>(name, t). fits83 up name \<noteq> None \<and> \<not> is_dir (tn_node t) \<and> \<not> has (md_mode (tn_node t)) ModeSymlink
     \<and> md_mode (tn_node t) AND fat_special = 0 \<and> in_content (tn_node t) = None)"

lemma build_infos_plain:
  assumes "list_all (plain_83 up) es" "length used + length es < 9999999"
  shows "\<exists>infos. build_infos up used es = Inr (infos, length es) \<and> length infos = length es
    \<and> (\<forall>ci \<in> set infos. length (ci_short ci) = 11 \<and> \<not> is_dir (tn_node (ci_node ci)) \<and> in_content (tn_node (ci_node ci)) = None)"
  using assms
proof (induction es arbitrary: used)
  case (Cons e es)
  obtain name t where e: "e = (name, t)" by (cases e)
  obtain sn where sn: "generate up used name = Inr sn" "length sn = 11"
    using generate_fresh[of used up name] Cons.prems(2) by auto
  obtain infos where "build_infos up (sn # used) es = Inr (infos, length es) \<and> length infos = length es
    \<and> (\<forall>ci \<in> set infos. length (ci_short ci) = 11 \<and> \<not> is_dir (tn_node (ci_node ci)) \<and> in_content (tn_node (ci_node ci)) = None)"
    using Cons.IH[of "sn # used"] Cons.prems by auto
  then show ?case using Cons.prems(1) sn by (auto simp: e plain_83_def lfnCount_def)
qed simp

lemma layoutInfos_plain:
  assumes "\<forall>ci \<in> set infos. length (ci_short ci) = 11 \<and> \<not> is_dir (tn_node (ci_node ci)) \<and> in_content (tn_node (ci_node ci)) = None"
    and cs: "0 < clusterSizeBytes (fe_geo E)" "clusterSizeBytes (fe_geo E) < 2 ^ 63"
  shows "\<exists>infos'. layoutInfos D E infos dd l = (Inr infos', l)"
  using assms(1)
proof (induction infos)
  case (Cons ci cis)
  have "u64_of_int 0 = 0" by (simp add: u64_of_int_def)
  then have "layoutFile D E (tn_node (ci_node ci)) l = (Inr (0, 0), l)"
    using Cons.prems cs by (simp add: layoutFile_def Let_def allocChain_def u32_of_int_def)
  then show ?case using Cons by auto
qed simp

text \<open>Names that are short names: what \<open>buildInfos\<close> counts, and what laying out the children keeps.\<close>

lemma build_infos_83:
  assumes "list_all (\<lambda>(name, t). fits83 up name \<noteq> None) es" "length used + length es < 9999999"
    and "build_infos up used es = Inr (infos, c)"
  shows "c = length es \<and> length infos = length es \<and> (\<forall>ci \<in> set infos. length (ci_short ci) = 11)"
  using assms
proof (induction es arbitrary: used infos c)
  case (Cons e es)
  obtain name t where e: "e = (name, t)" by (cases e)
  obtain sn where sn: "generate up used name = Inr sn" "length sn = 11"
    using generate_fresh[of used up name] Cons.prems(2) by auto
  obtain infos' c' where r: "build_infos up (sn # used) es = Inr (infos', c')" "c = lfnCount up name + 1 + c'"
    "infos = \<lparr> ci_node = t, ci_name = name, ci_short = sn, ci_first = 0, ci_size = 0,
                 ci_attr = (if is_dir (tn_node t) then attrDirectory else attrArchive) \<rparr> # infos'"
    using Cons.prems(3) sn(1) by (auto simp: e bindE_Inr_iff split: if_splits)
  have "lfnCount up name = 0" using Cons.prems(1) by (simp add: e lfnCount_def)
  then show ?case using Cons.IH[OF _ _ r(1)] Cons.prems(1,2) sn(2) r(2,3) by simp
qed simp

lemma layoutInfos_shorts:
  "layoutInfos D E infos dd l = (Inr infos', l') \<Longrightarrow> map ci_short infos' = map ci_short infos"
  by (induction infos arbitrary: infos' l)
    (auto split: if_splits prod.splits sum.splits simp del: layoutDir.simps)

lemma short_dir_overflows:
  fixes n s :: nat
  assumes "8 * s \<le> n" "n \<noteq> 16 * s - 1" "0 < s"
  shows "(n + 1 + 16 * s) div (16 * s) * (16 * s) < 2 * (n + 1)"
proof (cases "n < 16 * s")
  case True
  then have "(n + 1 + 16 * s) div (16 * s) = 1"
    using assms by (intro div_nat_eqI) simp_all
  then show ?thesis using assms(1) by simp
next
  case False
  have "(n + 1 + 16 * s) div (16 * s) * (16 * s) \<le> n + 1 + 16 * s" by simp
  then show ?thesis by (rule le_less_trans) (use False in simp)
qed

text \<open>
  C37. \<open>lfnCount\<close> counts no long-name entry for a name that is already a short name, but
  \<open>lfnEntries\<close> emits one for every name. So a sub-directory whose names are all short names gets
  half the room its entries need: with \<open>s\<close> sectors to a cluster, one of \<open>8 s\<close> entries
  or more, other than \<open>16 s - 1\<close>, can never be laid out; and when the entries are files
  without content and there are clusters left, laying it out panics.
\<close>

theorem fat_short_names_overflow_directory:
  assumes kids: "list_all (\<lambda>(name, t). fits83 (fe_upper E) name \<noteq> None) kids"
    and s: "s = secPerClus (fe_geo E)" "0 < s" "s \<le> 128"
    and len: "8 * s \<le> length kids" "length kids \<noteq> 16 * s - 1" "length kids < 9999999"
  shows "(\<exists>e l'. layoutDir D E (TNode r n kids) parent False l = (Inl e, l'))
    \<and> (list_all (plain_83 (fe_upper E)) kids \<and> fat_inv (fe_geo E) l \<and> ly_next l + length kids div (8 * s) \<le> clusters (fe_geo E)
       \<longrightarrow> (\<exists>p l'. layoutDir D E (TNode r n kids) parent False l = (Inl (Panic p), l')))"
proof -
  let ?n = "length kids"
  have cs: "clusterSizeBytes (fe_geo E) = 512 * s" "512 * s div dirEntrySize = 16 * s"
    by (simp_all add: clusterSizeBytes_def f_sectorSize_def s(1) dirEntrySize_def)
  let ?q = "(?n + 1 + 16 * s) div (16 * s)"
  have big: "?n + 2 + 16 * s < 2 ^ 64" using len(3) s(3) by simp
  have q: "sub64 (u64 (?n + 2 + 16 * s)) 1 div (16 * s) = ?q"
  proof -
    have "u64 (?n + 2 + 16 * s) = ?n + 2 + 16 * s" using big by (simp add: u64_def)
    moreover have "sub64 (?n + 2 + 16 * s) 1 = ?n + 1 + 16 * s" using big by simp
    ultimately show ?thesis by (simp only:)
  qed
  have q1: "1 \<le> ?q" using s(2) by (simp add: Suc_le_eq div_greater_zero_iff)
  have over: "?q * (16 * s) < 2 * (?n + 1)" by (rule short_dir_overflows[OF len(1,2) s(2)])
  have hd: "length (putDotEntries dc parent n) = 64" for dc
    by (simp add: putDotEntries_def dot_entry_def split_beta)
  have q2: "64 \<le> ?q * (512 * s)"
  proof -
    have "1 * (512 * 1) \<le> ?q * (512 * s)" using q1 s(2) by (intro mult_le_mono) simp_all
    then show ?thesis by simp
  qed
  have put: "\<exists>p. put_children infos' 64 (blit (zeros (?q * (512 * s))) 0 (putDotEntries dc parent n)) = Inl (Panic p)"
    if "\<forall>ci \<in> set infos'. length (ci_short ci) = 11" "length infos' = ?n" for infos' dc
    using that(1)
  proof (rule put_children_panics)
    show "64 \<le> length (blit (zeros (?q * (512 * s))) 0 (putDotEntries dc parent n))" using hd q2 by simp
    have "?q * (512 * s) = 32 * (?q * (16 * s))" by simp
    also have "\<dots> < 32 * (2 * (?n + 1))" using over by (simp only: mult_less_cancel1) simp
    finally have "?q * (512 * s) < 64 + 64 * ?n" by simp
    then show "length (blit (zeros (?q * (512 * s))) 0 (putDotEntries dc parent n)) < 64 + 64 * length infos'"
      using hd q2 that(2) by simp
  qed
  have dir: "\<exists>e l'. layoutDir D E (TNode r n kids) parent False l = (Inl e, l')
      \<and> (\<forall>infos dc l1 infos' l2. buildInfos (fe_upper E) (TNode r n kids) = Inr (infos, ?n) \<and> allocChain E ?q l = (Inr dc, l1)
           \<and> layoutInfos D E infos dc l1 = (Inr infos', l2) \<longrightarrow> (\<exists>p. e = Panic p))"
  proof (cases "buildInfos (fe_upper E) (TNode r n kids)")
    case (Inl e)
    then show ?thesis by simp
  next
    case (Inr ic)
    obtain infos c where ic: "ic = (infos, c)" by (cases ic)
    have "list_all (\<lambda>(name, t). fits83 (fe_upper E) name \<noteq> None) (sort_by_name kids)" using kids by (simp add: list_all_iff)
    from build_infos_83[OF this, of "[]" infos c] Inr len(3)
    have b: "c = ?n" "length infos = ?n" "\<forall>ci \<in> set infos. length (ci_short ci) = 11"
      by (auto simp: buildInfos_def ic)
    have step: "layoutDir D E (TNode r n kids) parent False l =
       (case allocChain E ?q l of
           (Inl e, l1) \<Rightarrow> (Inl e, l1)
         | (Inr dirClus, l1) \<Rightarrow>
           (case layoutInfos D E infos dirClus l1 of
              (Inl e, l2) \<Rightarrow> (Inl e, l2)
            | (Inr infos', l2) \<Rightarrow>
              (case put_children infos' 64 (blit (zeros (?q * (512 * s))) 0 (putDotEntries dirClus parent n)) of
                 Inl e \<Rightarrow> (Inl e, l2)
               | Inr buf \<Rightarrow> (Inr dirClus, l2\<lparr>ly_dev := writeClusters D (fe_geo E) (ly_fat l2) dirClus buf (ly_dev l2)\<rparr>))))"
      unfolding layoutDir.simps Inr ic sum.case prod.case Let_def cs if_False b(1) q max_absorb2[OF q1] hd ..
    show ?thesis
    proof (cases "allocChain E ?q l")
      case (Pair r1 l1)
      show ?thesis
      proof (cases r1)
        case (Inl e)
        then show ?thesis unfolding step Pair by simp
      next
        case (Inr dc)
        show ?thesis
        proof (cases "layoutInfos D E infos dc l1")
          case li: (Pair r2 l2)
          show ?thesis
          proof (cases r2)
            case (Inl e)
            then show ?thesis unfolding step Pair Inr prod.case sum.case li using \<open>buildInfos _ _ = _\<close> Pair Inr li ic by auto
          next
            case r2: (Inr infos')
            have m: "map ci_short infos' = map ci_short infos" using layoutInfos_shorts li r2 by blast
            then have l: "length infos' = ?n" using b(2) map_eq_imp_length_eq by metis
            have "\<forall>ci \<in> set infos'. length (ci_short ci) = 11"
              using arg_cong[OF m, of set] b(3) by (metis (mono_tags, lifting) imageE image_eqI list.set_map)
            from put[OF this l, of dc] obtain p where "put_children infos' 64 (blit (zeros (?q * (512 * s))) 0 (putDotEntries dc parent n)) = Inl (Panic p)"
              by blast
            then show ?thesis unfolding step Pair Inr prod.case sum.case li r2 by auto
          qed
        qed
      qed
    qed
  qed
  have pan: "\<exists>p l'. layoutDir D E (TNode r n kids) parent False l = (Inl (Panic p), l')"
    if plain: "list_all (plain_83 (fe_upper E)) kids" and vol: "fat_inv (fe_geo E) l" "ly_next l + ?n div (8 * s) \<le> clusters (fe_geo E)"
  proof -
    have "list_all (plain_83 (fe_upper E)) (sort_by_name kids)" using plain by (simp add: list_all_iff)
    then obtain infos where b: "buildInfos (fe_upper E) (TNode r n kids) = Inr (infos, ?n)"
      "\<forall>ci \<in> set infos. length (ci_short ci) = 11 \<and> \<not> is_dir (tn_node (ci_node ci)) \<and> in_content (tn_node (ci_node ci)) = None"
      using build_infos_plain[of "fe_upper E" "sort_by_name kids" "[]"] len(3) by (auto simp: buildInfos_def)
    have "(?n + 1) div (16 * s) \<le> (2 * ?n) div (16 * s)" using len(1) s(2) by (intro div_le_mono) linarith
    also have "(2 * ?n) div (16 * s) = ?n div (8 * s)" using div_mult_mult1[of 2 ?n "8 * s"] by simp
    finally have "(?n + 1) div (16 * s) \<le> ?n div (8 * s)" .
    moreover have "?q = (?n + 1) div (16 * s) + 1" using s(2) by (intro div_add_self2) simp
    ultimately have qs: "?q \<le> ?n div (8 * s) + 2" by (simp only:)
    have "?n div (8 * s) + 2 \<le> ?n + 2" by simp
    also have "\<dots> < 2 ^ 62" using len(3) by simp
    finally have q62: "?q < 2 ^ 62" using qs by (rule le_less_trans[rotated])
    have "\<not> ly_next l - 2 + ?q > clusters (fe_geo E)" using vol(2) qs vol(1) by (simp add: fat_inv_def)
    then obtain dc l1 where a: "allocChain E ?q l = (Inr dc, l1)"
      using allocChain_ok[OF vol(1) refl, of ?q] q1 q62 by auto
    have "0 < clusterSizeBytes (fe_geo E)" "clusterSizeBytes (fe_geo E) < 2 ^ 63" using s(2,3) by (simp_all add: cs)
    from layoutInfos_plain[OF b(2) this] obtain infos' where "layoutInfos D E infos dc l1 = (Inr infos', l1)" by blast
    with dir b(1) a show ?thesis by (elim exE conjE allE[of _ infos] allE[of _ dc] allE[of _ l1] allE[of _ infos']) auto
  qed
  have "\<exists>e l'. layoutDir D E (TNode r n kids) parent False l = (Inl e, l')" using dir by (elim exE conjE) (intro exI)
  then show ?thesis
  proof (intro conjI impI)
    assume "list_all (plain_83 (fe_upper E)) kids \<and> fat_inv (fe_geo E) l \<and> ly_next l + ?n div (8 * s) \<le> clusters (fe_geo E)"
    then show "\<exists>p l'. layoutDir D E (TNode r n kids) parent False l = (Inl (Panic p), l')" by (elim conjE) (rule pan)
  qed
qed

definition env_2m :: fat_env where
  "env_2m = \<lparr> fe_geo = \<lparr> fatBits = 12, totalSectors = 4000, reservedSecs = 1, secPerClus = 1, fatSizeSectors = 12,
       rootEntCount = 512, rootDirSectors = 32, clusters = 3943, dataStartSec = 57 \<rparr>,
     fe_label = ''DATA'', fe_now = zero_time, fe_uuid = zeros 16, fe_upper = id \<rparr>"

definition plain_file :: tnode where
  "plain_file = TNode 1 (new_node \<lparr> md_mode = 0x1A4, md_uid = 0, md_gid = 0, md_mtime = zero_time, md_xattrs = [] \<rparr> 1) []"

definition eight_files :: "(string \<times> tnode) list" where
  "eight_files = map (\<lambda>c. ([c], plain_file)) ''ABCDEFGH''"

lemma eight_files_plain: "list_all (plain_83 id) eight_files"
  by (simp add: eight_files_def plain_83_def plain_file_def new_node_def is_dir_def mode_is_dir_def has_def mode_defs
      fat_special_def fits83_def go_upper_def runes_def runes_of.simps decode_rune_def rune_len_def Let_def second_range_def
      upper_rune_def string_of_runes_def encode_rune_def split_last_dot_def validShortRune_def) code_simp

theorem fat_short_names_overflow_directory_witness:
  "\<exists>p l'. layoutDir mem_ops env_2m (TNode 0 (new_node undefined 2) eight_files) 0 False (new_layouter env_2m []) = (Inl (Panic p), l')"
proof -
  have "geometry_ok 2048000 (fe_geo env_2m)" by (simp add: geometry_ok_def env_2m_def)
  then have inv: "fat_inv (fe_geo env_2m) (new_layouter env_2m ([] :: bytes))" by (rule fat_inv_new) simp
  have plain: "list_all (plain_83 (fe_upper env_2m)) eight_files" using eight_files_plain by (simp add: env_2m_def id_def)
  then have fits: "list_all (\<lambda>(name, t). fits83 (fe_upper env_2m) name \<noteq> None) eight_files" by (auto simp: list_all_iff plain_83_def)
  have v: "1 = secPerClus (fe_geo env_2m)" "length eight_files = 8" "clusters (fe_geo env_2m) = 3943"
    "ly_next (new_layouter env_2m ([] :: bytes)) \<le> 3"
    by (simp_all add: env_2m_def eight_files_def new_layouter_def rootCluster_def Let_def)
  have room: "ly_next (new_layouter env_2m ([] :: bytes)) + length eight_files div (8 * 1) \<le> clusters (fe_geo env_2m)" using v(4) by (simp add: v(2,3))
  show ?thesis
    using fat_short_names_overflow_directory[OF fits v(1), of mem_ops 0 "new_node undefined 2" 0 "new_layouter env_2m []"] plain inv room v(2) by auto
qed

text \<open>
  The errors of the writes of file contents are dropped: what laying out a file returns does not
  depend on the device, not even on whether it accepts any write.
\<close>

lemma fat_content_write_errors_are_dropped: "fst (layoutFile D E n l) = fst (layoutFile D' E n l)"
  by (auto simp: layoutFile_def Let_def split: sum.splits option.splits prod.splits)

end
