(* ===== verification/Romfs.thy ===== *)
theory Romfs
  imports Prelude Device Image
begin

text \<open>
  The romfs engine (\<open>pkg/romfs\<close>): the offsets a tree's headers are given, the writer of
  headers, names and data with their checksums, and the reader that walks the lists of headers
  back into a tree. Offsets are \<open>uint32\<close> and wrap. The writer's maps from node pointers to
  offsets are functions from references; a missing key reads as 0. The reader recurses through
  directories and hard links, so it takes fuel; running out of every fuel is a recursion that never
  returns.
\<close>

section \<open>Constants and headers\<close>

definition r_magicW0 :: nat where "r_magicW0 = 0x2d726f6d"
definition r_magicW1 :: nat where "r_magicW1 = 0x3166732d"
definition r_headerSize :: nat where "r_headerSize = 16"
definition r_align :: nat where "r_align = 16"
definition typeHardlink :: nat where "typeHardlink = 0"
definition typeDir :: nat where "typeDir = 1"
definition typeReg :: nat where "typeReg = 2"
definition typeSymlink :: nat where "typeSymlink = 3"
definition typeBlock :: nat where "typeBlock = 4"
definition typeChar :: nat where "typeChar = 5"
definition typeSocket :: nat where "typeSocket = 6"
definition typeFifo :: nat where "typeFifo = 7"
definition flagExec :: nat where "flagExec = 8"

lemmas rom_consts = r_magicW0_def r_magicW1_def r_headerSize_def r_align_def typeHardlink_def typeDir_def typeReg_def
  typeSymlink_def typeBlock_def typeChar_def typeSocket_def typeFifo_def flagExec_def

text \<open>\<open>v & alignMask\<close> clears the low four bits.\<close>

definition alignMask :: "nat \<Rightarrow> nat" where
  "alignMask v = v div 16 * 16"

definition alignUp :: "nat \<Rightarrow> nat" where
  "alignUp v = alignMask (u32 (v + r_align - 1))"

definition paddedName :: "string \<Rightarrow> nat" where
  "paddedName name = alignUp (u32 (u32 (length name) + 1))"

definition be_words :: "bytes \<Rightarrow> nat list" where
  "be_words data = map (\<lambda>i. get_be 4 data (i * 4)) [0..<length data div 4]"

definition checksum :: "bytes \<Rightarrow> nat" where
  "checksum data = u32_of_int (- int (sum_list (be_words data)))"

definition fixChecksum :: "bytes \<Rightarrow> nat \<Rightarrow> nat \<Rightarrow> bytes" where
  "fixChecksum data csumOff n =
     (let data = put_be 4 csumOff 0 data in put_be 4 csumOff (checksum (take n data)) data)"

definition putHeader :: "bytes \<Rightarrow> nat \<Rightarrow> nat \<Rightarrow> nat \<Rightarrow> nat \<Rightarrow> bytes" where
  "putHeader dst nextOff flags spec sz =
     put_be 4 12 0 (put_be 4 8 sz (put_be 4 4 spec (put_be 4 0 (alignMask nextOff OR flags) dst)))"

definition typeOf :: "filemode \<Rightarrow> nat \<times> bool" where
  "typeOf m =
     (if has m ModeDir then (typeDir, True)
      else if has m ModeSymlink then (typeSymlink, False)
      else if has m ModeCharDevice then (typeChar, False)
      else if has m ModeDevice then (typeBlock, False)
      else if has m ModeNamedPipe then (typeFifo, False)
      else if has m ModeSocket then (typeSocket, False)
      else (typeReg, mode_perm m AND 0x49 \<noteq> 0))"

definition modeOf :: "nat \<Rightarrow> bool \<Rightarrow> filemode" where
  "modeOf typ ex =
     (if typ = typeDir then ModeDir OR 0x1ED
      else if typ = typeSymlink then ModeSymlink OR 0x1FF
      else if typ = typeChar then ModeCharDevice OR ModeDevice OR 0x1A4
      else if typ = typeBlock then ModeDevice OR 0x1A4
      else if typ = typeFifo then ModeNamedPipe OR 0x1A4
      else if typ = typeSocket then ModeSocket OR 0x1A4
      else if ex then 0x1ED else 0x1A4)"

section \<open>Layout\<close>

record 'd rwriter =
  rw_dev :: 'd
  rw_label :: string
  rw_hdrOff :: "ref \<Rightarrow> nat"
  rw_dotOff :: "ref \<Rightarrow> nat"
  rw_dotdotOff :: "ref \<Rightarrow> nat"
  rw_parentHdr :: "ref \<Rightarrow> nat"
  rw_rootHdr :: nat
  rw_size :: nat
  rw_err :: "error option"

definition newRwriter :: "'d \<Rightarrow> string \<Rightarrow> 'd rwriter" where
  "newRwriter d label =
     \<lparr> rw_dev = d, rw_label = label, rw_hdrOff = (\<lambda>_. 0), rw_dotOff = (\<lambda>_. 0), rw_dotdotOff = (\<lambda>_. 0),
       rw_parentHdr = (\<lambda>_. 0), rw_rootHdr = 0, rw_size = 0, rw_err = None \<rparr>"

definition dataLen :: "node \<Rightarrow> nat" where
  "dataLen n =
     (if has (md_mode n) ModeSymlink then u32 (length (in_link n))
      else if is_dir n \<or> md_mode n AND (ModeDevice OR ModeCharDevice OR ModeNamedPipe OR ModeSocket) \<noteq> 0 then 0
      else (case in_content n of Some c \<Rightarrow> u32_of_int (src_size c) | None \<Rightarrow> 0))"

text \<open>The first loop of \<open>layoutDir\<close>: each child's header, name and data, in name order.\<close>

definition place_child :: "string \<times> tnode \<Rightarrow> (ref \<Rightarrow> nat) \<times> nat \<Rightarrow> (ref \<Rightarrow> nat) \<times> nat" where
  "place_child = (\<lambda>(name, t) (hdrs, off).
     let hdrs = hdrs(tn_ref t := off);
         off = u32 (off + r_headerSize + paddedName name);
         sz = dataLen (tn_node t);
         off = (if 0 < sz then u32 (off + alignUp sz) else off)
     in (hdrs, off))"

function (sequential)
  rom_layoutDir :: "tnode \<Rightarrow> nat \<Rightarrow> nat \<Rightarrow> nat \<Rightarrow> 'd rwriter \<Rightarrow> 'd rwriter \<times> nat" and
  rom_layoutSubdirs :: "(string \<times> tnode) list \<Rightarrow> nat \<Rightarrow> nat \<Rightarrow> 'd rwriter \<Rightarrow> 'd rwriter \<times> nat"
where
  "rom_layoutDir (TNode r n kids) hdrOff listStart parentHdr w =
     (let ddo = u32 (listStart + r_headerSize + paddedName ''.'');
          w = w\<lparr>rw_hdrOff := (rw_hdrOff w)(r := hdrOff), rw_parentHdr := (rw_parentHdr w)(r := parentHdr),
                rw_dotOff := (rw_dotOff w)(r := listStart), rw_dotdotOff := (rw_dotdotOff w)(r := ddo)\<rparr>;
          (hdrs, off) = fold place_child (sort_by_name kids) (rw_hdrOff w, u32 (ddo + r_headerSize + paddedName ''..''))
      in rom_layoutSubdirs (sort_by_name kids) off hdrOff (w\<lparr>rw_hdrOff := hdrs\<rparr>))"
| "rom_layoutSubdirs [] off parent w = (w, off)"
| "rom_layoutSubdirs ((name, t) # es) off parent w =
     (if is_dir (tn_node t) then
        (case rom_layoutDir t (rw_hdrOff w (tn_ref t)) off parent w of
           (w, off) \<Rightarrow> rom_layoutSubdirs es off parent w)
      else rom_layoutSubdirs es off parent w)"
  by pat_completeness auto
termination
  by (relation "measure (\<lambda>x. case x of Inl (t, h, l, p, w) \<Rightarrow> size t | Inr (es, o', p, w) \<Rightarrow> kids_weight es)")
    (auto simp: kids_weight_less[simplified])

section \<open>Writer\<close>

definition rw_write :: "'d device_ops \<Rightarrow> bytes \<Rightarrow> int \<Rightarrow> 'd rwriter \<Rightarrow> 'd rwriter" where
  "rw_write D p off w =
     (if rw_err w \<noteq> None then w
      else case write_all D (rw_dev w) p off of
        (Some e, d) \<Rightarrow> w\<lparr>rw_dev := d, rw_err := Some e\<rparr>
      | (None, d) \<Rightarrow> w\<lparr>rw_dev := d\<rparr>)"

definition writePadded :: "'d device_ops \<Rightarrow> nat \<Rightarrow> bytes \<Rightarrow> 'd rwriter \<Rightarrow> 'd rwriter" where
  "writePadded D off data w =
     (let len = alignUp (u32 (length data)) in
      rw_write D (blit (zeros len) 0 (take len data)) (int off) w)"

definition header_bytes :: "string \<Rightarrow> nat \<Rightarrow> nat \<Rightarrow> nat \<Rightarrow> nat \<Rightarrow> bytes" where
  "header_bytes name flags nxt spec sz =
     (let n = r_headerSize + paddedName name;
          b = putHeader (zeros n) nxt flags spec sz;
          b = blit b r_headerSize (take (n - r_headerSize) (bytes_of name))
      in fixChecksum b 12 n)"

definition rom_writeEntry ::
  "'d device_ops \<Rightarrow> nat \<Rightarrow> string \<Rightarrow> nat \<Rightarrow> bool \<Rightarrow> nat \<Rightarrow> nat \<Rightarrow> nat \<Rightarrow> bytes option \<Rightarrow> 'd rwriter \<Rightarrow> 'd rwriter \<times> nat" where
  "rom_writeEntry D off name typ ex nxt spec sz data w =
     (let flags = (if ex then typ OR flagExec else typ);
          w = rw_write D (header_bytes name flags nxt spec sz) (int off) w;
          dataOff = u32 (off + r_headerSize + paddedName name) in
      (case data of Some p \<Rightarrow> writePadded D dataOff p w | None \<Rightarrow> w, dataOff))"

text \<open>The chunk buffer is reused: after a short read its tail holds the previous chunk.\<close>

function rom_stream :: "'d device_ops \<Rightarrow> source \<Rightarrow> nat \<Rightarrow> int \<Rightarrow> int \<Rightarrow> bytes \<Rightarrow> 'd rwriter \<Rightarrow> 'd rwriter" where
  "rom_stream D src off sz pos buf w =
     (if pos \<ge> sz then w
      else let nb = min 65536 (sz - pos);
               (data, err) = src_read_at src (nat nb) pos;
               buf = blit buf 0 data;
               w = (if err \<noteq> None \<and> err \<noteq> Some EOF then w\<lparr>rw_err := err\<rparr> else w);
               w = rw_write D (take (nat nb) buf) (int off + pos) w
           in rom_stream D src off sz (pos + nb) buf w)"
  by pat_completeness auto
termination
  by (relation "measure (\<lambda>(D, src, off, sz, pos, buf, w). nat (sz - pos))") auto

declare rom_stream.simps [simp del]

definition streamContent :: "'d device_ops \<Rightarrow> nat \<Rightarrow> source \<Rightarrow> 'd rwriter \<Rightarrow> 'd rwriter" where
  "streamContent D off c w =
     (let sz = src_size c;
          w = rom_stream D c off sz 0 (zeros 65536) w;
          pad = int (alignUp (u32_of_int sz)) - sz in
      if 0 < pad then rw_write D (zeros (nat pad)) (int off + sz) w else w)"

definition payload :: "'d rwriter \<Rightarrow> tnode \<Rightarrow> nat \<times> nat \<times> bytes option" where
  "payload w t =
     (let n = tn_node t in
      if is_dir n then (rw_dotOff w (tn_ref t), 0, None)
      else if has (md_mode n) ModeSymlink then (0, u32 (length (in_link n)), Some (bytes_of (in_link n)))
      else if md_mode n AND (ModeDevice OR ModeCharDevice) \<noteq> 0 then
        (u32 (u32 (in_rdev n div 256) * 65536) OR (in_rdev n mod 256), 0, None)
      else if md_mode n AND (ModeNamedPipe OR ModeSocket) \<noteq> 0 then (0, 0, None)
      else (0, dataLen n, None))"

text \<open>The loop of \<open>writeDir\<close> over the sorted children; the next child's offset is 0 at the end.\<close>

definition next_off :: "'d rwriter \<Rightarrow> (string \<times> tnode) list \<Rightarrow> nat" where
  "next_off w es = (case es of [] \<Rightarrow> 0 | (name, t) # _ \<Rightarrow> rw_hdrOff w (tn_ref t))"

fun writeChildren :: "'d device_ops \<Rightarrow> (string \<times> tnode) list \<Rightarrow> 'd rwriter \<Rightarrow> 'd rwriter" where
  "writeChildren D [] w = w"
| "writeChildren D ((name, t) # es) w =
     (let (typ, ex) = typeOf (md_mode (tn_node t));
          (spec, sz, data) = payload w t;
          (w, dataOff) = rom_writeEntry D (rw_hdrOff w (tn_ref t)) name typ ex (next_off w es) spec sz data w;
          w = (if typ = typeReg \<and> 0 < sz then
                 (case in_content (tn_node t) of Some c \<Rightarrow> streamContent D dataOff c w | None \<Rightarrow> w)
               else w)
      in writeChildren D es w)"

function (sequential)
  rom_writeDir :: "'d device_ops \<Rightarrow> tnode \<Rightarrow> 'd rwriter \<Rightarrow> 'd rwriter" and
  rom_writeSubdirs :: "'d device_ops \<Rightarrow> (string \<times> tnode) list \<Rightarrow> 'd rwriter \<Rightarrow> 'd rwriter"
where
  "rom_writeDir D (TNode r n kids) w =
     (let es = sort_by_name kids;
          w = fst (rom_writeEntry D (rw_dotOff w r) ''.'' typeHardlink False (rw_dotdotOff w r) (rw_hdrOff w r) 0 None w);
          w = fst (rom_writeEntry D (rw_dotdotOff w r) ''..'' typeHardlink False (next_off w es) (rw_parentHdr w r) 0 None w)
      in rom_writeSubdirs D es (writeChildren D es w))"
| "rom_writeSubdirs D [] w = w"
| "rom_writeSubdirs D ((name, t) # es) w =
     rom_writeSubdirs D es (if is_dir (tn_node t) then rom_writeDir D t w else w)"
  by pat_completeness auto
termination
  by (relation "measure (\<lambda>x. case x of Inl (D, t, w) \<Rightarrow> size t | Inr (D, es, w) \<Rightarrow> kids_weight es)")
    (auto simp: kids_weight_less[simplified])

definition rom_writeSuperblock :: "'d device_ops \<Rightarrow> 'd rwriter \<Rightarrow> 'd rwriter" where
  "rom_writeSuperblock D w =
     (let n = r_headerSize + paddedName (rw_label w);
          b = put_be 4 8 (rw_size w) (put_be 4 4 r_magicW1 (put_be 4 0 r_magicW0 (zeros n)));
          b = blit b 16 (take (n - 16) (bytes_of (rw_label w)))
      in rw_write D b 0 w)"

definition writeRootHeader :: "'d device_ops \<Rightarrow> ref \<Rightarrow> 'd rwriter \<Rightarrow> 'd rwriter" where
  "writeRootHeader D r w =
     rw_write D (header_bytes ''.'' (typeDir OR flagExec) 0 (rw_dotOff w r) 0) (int (rw_rootHdr w)) w"

definition finishChecksum :: "'d device_ops \<Rightarrow> 'd rwriter \<Rightarrow> error option \<times> 'd" where
  "finishChecksum D w =
     (let n = min 512 (rw_size w) in
      case read_full D (rw_dev w) n 0 of
        Inl e \<Rightarrow> (Some e, rw_dev w)
      | Inr buf \<Rightarrow> write_all D (rw_dev w) (be_bytes 4 (checksum (put_be 4 12 0 buf))) 12)"

text \<open>\<open>write\<close>, on the writer \<open>Finalize\<close> starts.\<close>

definition rom_plan :: "'d rwriter \<Rightarrow> tnode \<Rightarrow> 'd rwriter" where
  "rom_plan w root =
     (let rootHdr = u32 (r_headerSize + paddedName (rw_label w));
          rootHdrLen = r_headerSize + paddedName ''.'';
          (w, sz) = rom_layoutDir root rootHdr (u32 (rootHdr + rootHdrLen)) rootHdr (w\<lparr>rw_rootHdr := rootHdr\<rparr>)
      in w\<lparr>rw_size := sz\<rparr>)"

definition rom_write :: "'d device_ops \<Rightarrow> tnode \<Rightarrow> 'd rwriter \<Rightarrow> error option \<times> 'd" where
  "rom_write D root w =
     (let w = rom_plan w root;
          w = rom_writeDir D root (writeRootHeader D (tn_ref root) (rom_writeSuperblock D w)) in
      if rw_err w \<noteq> None then (rw_err w, rw_dev w) else finishChecksum D w)"

definition rom_Finalize :: "'d device_ops \<Rightarrow> string \<Rightarrow> tnode \<Rightarrow> 'd \<Rightarrow> error option \<times> 'd" where
  "rom_Finalize D label root d = rom_write D root (newRwriter d label)"

section \<open>Reader\<close>

record rhdr =
  rh_next :: nat
  rh_spec :: nat
  rh_size :: nat
  rh_off :: nat
  rh_dtype :: nat
  rh_exec :: bool

definition rom_header :: "'d device_ops \<Rightarrow> 'd \<Rightarrow> nat \<Rightarrow> rhdr result" where
  "rom_header D d off =
     bindE (read_full D d r_headerSize (int off)) (\<lambda>b.
       let nxt = get_be 4 b 0 in
       Inr \<lparr> rh_next = nxt, rh_spec = get_be 4 b 4, rh_size = get_be 4 b 8, rh_off = off,
             rh_dtype = nxt mod 8, rh_exec = (nxt AND flagExec \<noteq> 0) \<rparr>)"

definition rom_name :: "'d device_ops \<Rightarrow> 'd \<Rightarrow> nat \<Rightarrow> string result" where
  "rom_name D d off =
     bindE (read_full D d 256 (int off)) (\<lambda>b. Inr (string_of (takeWhile (\<lambda>c. c \<noteq> 0) b)))"

definition romfsFile_read_at :: "'d device_ops \<Rightarrow> 'd \<Rightarrow> nat \<Rightarrow> nat \<Rightarrow> nat \<Rightarrow> int \<Rightarrow> bytes \<times> error option" where
  "romfsFile_read_at D d base sz n off =
     (if off < 0 then ([], Some (Err ''romfs: negative offset''))
      else if off \<ge> int sz then ([], Some EOF)
      else let rem = nat (int sz - off) in
        if n > rem then (case dev_read_at D d rem (int base + off) of
          (data, err) \<Rightarrow> (data, if err = None then Some EOF else err))
        else dev_read_at D d n (int base + off))"

definition romfsFile :: "'d device_ops \<Rightarrow> 'd \<Rightarrow> nat \<Rightarrow> nat \<Rightarrow> source" where
  "romfsFile D d base sz = \<lparr> src_size = int sz, src_read_at = romfsFile_read_at D d base sz \<rparr>"

definition rom_meta :: "filemode \<Rightarrow> meta" where
  "rom_meta m = \<lparr> md_mode = m, md_uid = 0, md_gid = 0, md_mtime = zero_time, md_xattrs = [] \<rparr>"

text \<open>The node of a header that is neither a hard link nor, for its children, a directory.\<close>

definition leaf_node :: "'d device_ops \<Rightarrow> 'd \<Rightarrow> rhdr \<Rightarrow> string \<Rightarrow> node result" where
  "leaf_node D d h name =
     (let n = new_node (rom_meta (modeOf (rh_dtype h) (rh_exec h))) 1;
          dataOff = u32 (rh_off h + r_headerSize + paddedName name) in
      if rh_dtype h = typeDir then Inr (n\<lparr>nd_nlink := 2\<rparr>)
      else if rh_dtype h = typeSymlink then
        bindE (read_full D d (rh_size h) (int dataOff)) (\<lambda>b. Inr (n\<lparr>in_link := string_of b\<rparr>))
      else if rh_dtype h = typeChar \<or> rh_dtype h = typeBlock then
        Inr (n\<lparr>in_rdev := (rh_spec h div 65536 * 256) OR (rh_spec h mod 65536)\<rparr>)
      else if rh_dtype h = typeFifo \<or> rh_dtype h = typeSocket then Inr n
      else Inr (n\<lparr>in_content := Some (if 0 < rh_size h then romfsFile D d dataOff (rh_size h) else bytes_source [])\<rparr>))"

text \<open>
  \<open>readDir\<close> walks one list, guarded against a cycle in it by the offsets it has seen;
  \<open>node\<close> follows hard links and descends into directories, without any guard.
\<close>

fun rom_readDir :: "nat \<Rightarrow> 'd device_ops \<Rightarrow> 'd \<Rightarrow> heap \<Rightarrow> ref \<Rightarrow> nat \<Rightarrow> nat list \<Rightarrow> (heap result) option"
  and rom_node :: "nat \<Rightarrow> 'd device_ops \<Rightarrow> 'd \<Rightarrow> heap \<Rightarrow> rhdr \<Rightarrow> string \<Rightarrow> ((heap \<times> ref) result) option"
where
  "rom_readDir 0 D d hp dir off seen = None"
| "rom_readDir (Suc fuel) D d hp dir off seen =
     (if off = 0 \<or> off \<in> set seen then Some (Inr hp)
      else case rom_header D d off of Inl e \<Rightarrow> Some (Inl e)
      | Inr h \<Rightarrow>
        (case rom_name D d (u32 (off + r_headerSize)) of Inl e \<Rightarrow> Some (Inl e)
         | Inr name \<Rightarrow>
           if name \<noteq> ''.'' \<and> name \<noteq> ''..'' \<and> name \<noteq> '''' then
             (case rom_node fuel D d hp h name of
                None \<Rightarrow> None
              | Some (Inl e) \<Rightarrow> Some (Inl e)
              | Some (Inr (hp, child)) \<Rightarrow>
                (case AddChild hp dir name child of
                   Inl e \<Rightarrow> Some (Inl e)
                 | Inr hp \<Rightarrow> rom_readDir fuel D d hp dir (alignMask (rh_next h)) (off # seen)))
           else rom_readDir fuel D d hp dir (alignMask (rh_next h)) (off # seen)))"
| "rom_node 0 D d hp h name = None"
| "rom_node (Suc fuel) D d hp h name =
     (if rh_dtype h = typeHardlink then
        (case rom_header D d (alignMask (rh_spec h)) of Inl e \<Rightarrow> Some (Inl e)
         | Inr target \<Rightarrow> rom_node fuel D d hp target name)
      else case leaf_node D d h name of Inl e \<Rightarrow> Some (Inl e)
      | Inr n \<Rightarrow>
        (let r = length hp; hp = hp @ [n] in
         if rh_dtype h = typeDir then
           (case rom_readDir fuel D d hp r (alignMask (rh_spec h)) [] of
              None \<Rightarrow> None
            | Some (Inl e) \<Rightarrow> Some (Inl e)
            | Some (Inr hp) \<Rightarrow> Some (Inr (hp, r)))
         else Some (Inr (hp, r))))"

definition rom_Open :: "nat \<Rightarrow> 'd device_ops \<Rightarrow> 'd \<Rightarrow> (heap result) option" where
  "rom_Open fuel D d =
     (case read_full D d r_headerSize 0 of Inl e \<Rightarrow> Some (Inl e)
      | Inr head \<Rightarrow>
        if get_be 4 head 0 \<noteq> r_magicW0 \<or> get_be 4 head 4 \<noteq> r_magicW1 then Some (Inl (Err ''romfs: bad magic''))
        else (case rom_name D d r_headerSize of Inl e \<Rightarrow> Some (Inl e)
        | Inr vol \<Rightarrow>
          (case rom_header D d (alignUp (u32 (r_headerSize + length vol + 1))) of Inl e \<Rightarrow> Some (Inl e)
           | Inr rootHdr \<Rightarrow>
             rom_readDir fuel D d [new_node (rom_meta (ModeDir OR 0x1ED)) 2] 0 (alignMask (rh_spec rootHdr)) [])))"

definition rom_refinalize :: "'d \<Rightarrow> error option" where
  "rom_refinalize d = Some (Err ''romfs: cannot re-finalize an opened image; rebuild via convert'')"

section \<open>Checksums\<close>

lemma length_putHeader [simp]: "16 \<le> length b \<Longrightarrow> length (putHeader b a f s z) = length b"
  by (simp add: putHeader_def)

lemma be_words_put:
  assumes "k < length b div 4"
  shows "be_words (put_be 4 (4 * k) v b) = (be_words b)[k := v mod 2 ^ 32]"
proof (rule nth_equalityI)
  have k: "4 * k + 4 \<le> length b" using assms by linarith
  show "length (be_words (put_be 4 (4 * k) v b)) = length ((be_words b)[k := v mod 2 ^ 32])"
    using k by (simp add: be_words_def)
  fix i assume "i < length (be_words (put_be 4 (4 * k) v b))"
  then have i: "i < length b div 4" using k by (simp add: be_words_def)
  then have l: "i * 4 + 4 \<le> length b" by linarith
  show "be_words (put_be 4 (4 * k) v b) ! i = (be_words b)[k := v mod 2 ^ 32] ! i"
  proof (cases "i = k")
    case True
    then show ?thesis using i k get_put_be[of "4 * k" 4 b v] by (simp add: be_words_def mult.commute)
  next
    case False
    then have "i * 4 + 4 \<le> 4 * k \<or> 4 * k + 4 \<le> i * 4" by presburger
    then show ?thesis using False i k l by (simp add: be_words_def get_put_be_other)
  qed
qed

lemma sum_list_update_nat: "k < length xs \<Longrightarrow> sum_list (xs[k := v]) + xs ! k = sum_list xs + (v :: nat)"
  using elem_le_sum_list[of k xs] by (simp add: sum_list_update)

lemma be_words_take: "4 dvd n \<Longrightarrow> n \<le> length b \<Longrightarrow> be_words (take n b) = take (n div 4) (be_words b)"
proof -
  assume n: "4 dvd n" "n \<le> length b"
  have "get_be 4 (take n b) (i * 4) = get_be 4 b (i * 4)" if "i < n div 4" for i
  proof -
    have "i * 4 + 4 \<le> n" using that n(1) by auto
    then show ?thesis by (simp add: get_be_def window_def take_drop min_def)
  qed
  then show ?thesis using n by (simp add: be_words_def take_map min_def div_le_mono)
qed

lemma take_put_be: "off + 4 \<le> n \<Longrightarrow> n \<le> length b \<Longrightarrow> take n (put_be 4 off v b) = put_be 4 off v (take n b)"
  by (simp add: put_be_def blit_def take_drop min_def)

lemma fixChecksum_cancels:
  assumes "4 * k + 4 \<le> length b" "4 dvd length b"
  shows "2 ^ 32 dvd sum_list (be_words (fixChecksum b (4 * k) (length b)))"
proof -
  let ?b0 = "put_be 4 (4 * k) 0 b"
  let ?xs = "be_words ?b0"
  have len: "length ?b0 = length b" using assms(1) by simp
  have k: "k < length b div 4" using assms by auto
  have kx: "k < length ?xs" using k len by (simp add: be_words_def)
  have zero: "?xs ! k = 0" using be_words_put[OF k, of 0] k by (simp add: be_words_def)
  have "be_words (fixChecksum b (4 * k) (length b)) = ?xs[k := checksum ?b0 mod 2 ^ 32]"
    unfolding fixChecksum_def Let_def using be_words_put[of k ?b0] k len by simp
  then have "sum_list (be_words (fixChecksum b (4 * k) (length b))) = sum_list ?xs + checksum ?b0 mod 2 ^ 32"
    using sum_list_update_nat[OF kx, of "checksum ?b0 mod 2 ^ 32"] zero by simp
  moreover have "int (checksum ?b0) = (- int (sum_list ?xs)) mod 2 ^ 32"
    by (simp add: checksum_def u32_of_int_def)
  then have "(int (sum_list ?xs) + int (checksum ?b0 mod 2 ^ 32)) mod 2 ^ 32 = 0"
    by (simp add: zmod_int mod_simps)
  then have "(sum_list ?xs + checksum ?b0 mod 2 ^ 32) mod 2 ^ 32 = 0"
    by (metis of_nat_0_eq_iff of_nat_add of_nat_numeral of_nat_power zmod_int)
  ultimately show ?thesis by (simp add: dvd_eq_mod_eq_0)
qed

section \<open>Headers round trip\<close>

lemma alignMask_dvd [simp]: "16 dvd alignMask v" "16 dvd alignUp v" "alignMask v mod 16 = 0" "alignUp v mod 16 = 0"
  by (simp_all add: alignMask_def alignUp_def)

lemma paddedName_bounds:
  assumes "length name < 2 ^ 31"
  shows "length name < paddedName name" "paddedName name \<le> length name + 16" "16 dvd paddedName name"
proof -
  have "paddedName name = (length name + 16) div 16 * 16" using assms by (simp add: paddedName_def alignUp_def alignMask_def r_align_def)
  then show "length name < paddedName name" "paddedName name \<le> length name + 16" "16 dvd paddedName name"
    using dividend_less_div_times[of 16 "length name"] by (simp_all add: div_add_self2)
qed

lemma or_flags:
  fixes x f :: nat
  assumes "f < 16"
  shows "(x div 16 * 16) OR f = x div 16 * 16 + f"
proof -
  have p: "x div 16 * 16 = push_bit 4 (x div 16)" by (simp add: push_bit_eq_mult)
  have f: "take_bit 4 f = f" using assms by (simp add: take_bit_nat_eq_self)
  have "\<not> (bit (push_bit 4 (x div 16)) n \<and> bit (take_bit 4 f) n)" for n
    by (auto simp: bit_push_bit_iff bit_take_bit_iff)
  then have "push_bit 4 (x div 16) AND f = 0" unfolding f by (auto simp: bit_eq_iff bit_and_iff)
  then show ?thesis unfolding p by (simp add: disjunctive_add_eq_or)
qed

definition r_flags :: "nat \<Rightarrow> bool \<Rightarrow> nat" where
  "r_flags typ ex = (if ex then typ OR flagExec else typ)"

lemma r_flags_parse:
  assumes "typ < 8"
  shows "r_flags typ ex < 16" "r_flags typ ex mod 8 = typ" "(r_flags typ ex AND flagExec \<noteq> 0) = ex"
proof -
  have "typ \<in> {0, 1, 2, 3, 4, 5, 6, 7}" using assms by auto
  then show "r_flags typ ex < 16" "r_flags typ ex mod 8 = typ" "(r_flags typ ex AND flagExec \<noteq> 0) = ex"
    by (auto simp: r_flags_def flagExec_def)
qed

lemma header_bytes_fields:
  assumes nm: "length name < 2 ^ 31"
  shows "length (header_bytes name f nxt spec sz) = 16 + paddedName name"
    "get_be 4 (header_bytes name f nxt spec sz) 0 = (alignMask nxt OR f) mod 2 ^ 32"
    "get_be 4 (header_bytes name f nxt spec sz) 4 = spec mod 2 ^ 32"
    "get_be 4 (header_bytes name f nxt spec sz) 8 = sz mod 2 ^ 32"
    "window (header_bytes name f nxt spec sz) 16 (length name + 1) = bytes_of name @ [0]"
    "2 ^ 32 dvd sum_list (be_words (header_bytes name f nxt spec sz))"
proof -
  note pn = paddedName_bounds[OF nm]
  let ?n = "16 + paddedName name"
  define b1 where "b1 = putHeader (zeros ?n) nxt f spec sz"
  define b2 where "b2 = blit b1 16 (bytes_of name)"
  define b3 where "b3 = put_be 4 12 0 b2"
  have l1: "length b1 = ?n" by (simp add: b1_def)
  have l2: "length b2 = ?n" using l1 pn(1) by (simp add: b2_def)
  have l3: "length b3 = ?n" using l2 by (simp add: b3_def)
  have hb: "header_bytes name f nxt spec sz = put_be 4 12 (checksum b3) b3"
    using l2 pn(1) by (simp add: header_bytes_def Let_def r_headerSize_def fixChecksum_def b1_def b2_def b3_def)
  show "length (header_bytes name f nxt spec sz) = ?n" using l3 by (simp add: hb)
  have g: "get_be 4 (header_bytes name f nxt spec sz) k = get_be 4 b1 k" if "k + 4 \<le> 12" for k
    using that l1 l2 l3 pn(1)
    by (simp add: hb b3_def put_be_def b2_def get_be_def window_blit_other)
  have z: "length (zeros ?n) = ?n" by simp
  show "get_be 4 (header_bytes name f nxt spec sz) 0 = (alignMask nxt OR f) mod 2 ^ 32"
    "get_be 4 (header_bytes name f nxt spec sz) 4 = spec mod 2 ^ 32"
    "get_be 4 (header_bytes name f nxt spec sz) 8 = sz mod 2 ^ 32"
    unfolding g[of 0, simplified] g[of 4, simplified] g[of 8, simplified] b1_def putHeader_def
    by (simp_all add: get_put_be_other get_put_be)
  have nz: "window b1 16 (paddedName name) = zeros (paddedName name)"
    unfolding b1_def putHeader_def put_be_def by (simp add: window_blit_other) (simp add: window_def)
  have w2: "window b2 16 (length name + 1) = bytes_of name @ [0]"
  proof (rule nth_equalityI)
    show "length (window b2 16 (length name + 1)) = length (bytes_of name @ [0])" using l2 pn(1) by simp
    fix i assume "i < length (window b2 16 (length name + 1))"
    then have i: "i \<le> length name" using l2 pn(1) by simp
    have "b1 ! (16 + i) = 0"
      using arg_cong[OF nz, of "\<lambda>l. l ! i"] i pn(1) l1 nth_window[of 16 "paddedName name" b1 i]
      by (simp add: zeros_def)
    then show "window b2 16 (length name + 1) ! i = (bytes_of name @ [0]) ! i"
      using i l1 l2 pn(1) by (cases "i = length name") (simp_all add: nth_window b2_def nth_blit nth_append)
  qed
  have w3: "window (header_bytes name f nxt spec sz) 16 (length name + 1) = window b2 16 (length name + 1)"
    using l2 l3 pn(1) by (simp add: hb b3_def put_be_def window_blit_other)
  show "window (header_bytes name f nxt spec sz) 16 (length name + 1) = bytes_of name @ [0]" by (rule trans[OF w3 w2])
  have "header_bytes name f nxt spec sz = fixChecksum b2 (4 * 3) (length b2)"
    using l2 by (simp add: hb b3_def fixChecksum_def Let_def)
  moreover have "4 dvd length b2" using pn(3) l2 by (auto elim!: dvd_trans[rotated])
  ultimately show "2 ^ 32 dvd sum_list (be_words (header_bytes name f nxt spec sz))"
    using fixChecksum_cancels[of 3 b2] l2 by simp
qed

lemma header_reads_back:
  assumes "ty < 8" "nxt < 2 ^ 32" "16 dvd nxt" "spec < 2 ^ 32" "sz < 2 ^ 32"
    and name: "length name < 256" "list_all (\<lambda>c. c \<noteq> 0) (bytes_of name)"
    and at: "off + 16 + paddedName name \<le> length m" "off + 16 < 2 ^ 32"
      "window m off (16 + paddedName name) = header_bytes name (r_flags ty ex) nxt spec sz"
  shows "rom_header mem_ops m off = Inr \<lparr> rh_next = nxt + r_flags ty ex, rh_spec = spec, rh_size = sz, rh_off = off,
        rh_dtype = ty, rh_exec = ex \<rparr>
    \<and> alignMask (nxt + r_flags ty ex) = nxt \<and> rom_name mem_ops m (off + 16) = Inr name
    \<and> 2 ^ 32 dvd sum_list (be_words (window m off (16 + paddedName name)))"
proof -
  have nm: "length name < 2 ^ 31" using name(1) by simp
  note pn = paddedName_bounds[OF nm]
  note hf = header_bytes_fields[OF nm, of "r_flags ty ex" nxt spec sz, folded at(3)]
  have g: "get_be 4 (window m off 16) k = get_be 4 (window m off (16 + paddedName name)) k" if "k + 4 \<le> 16" for k
    using that by (simp add: get_be_def window_window min_def)
  have nf: "alignMask nxt OR r_flags ty ex = nxt + r_flags ty ex"
    using or_flags[where f = "r_flags ty ex" and x = nxt, OF r_flags_parse(1)[OF assms(1)]] assms(3) by (simp add: alignMask_def dvd_div_mult_self)
  obtain q where q: "nxt = 16 * q" using assms(3) by auto
  have fl: "r_flags ty ex < 16" "r_flags ty ex mod 8 = ty" "(r_flags ty ex AND flagExec \<noteq> 0) = ex"
    using r_flags_parse[OF assms(1)] by auto
  have small: "nxt + r_flags ty ex < 2 ^ 32" using assms(2) fl(1) q by simp
  have m8: "(nxt + r_flags ty ex) mod 8 = ty" using fl(2) q by (simp add: mod_add_eq[symmetric])
  have ef: "((nxt + r_flags ty ex) AND flagExec \<noteq> 0) = ex"
  proof -
    have e: "(v AND flagExec \<noteq> 0) = bit v 3" for v :: nat
      using and_exp_eq_0_iff_not_bit[of v 3] by (simp add: flagExec_def)
    have "bit (nxt + r_flags ty ex) 3 = bit (r_flags ty ex) 3"
    proof -
      have "(r_flags ty ex + 8 * (2 * q)) div 8 = 2 * q + r_flags ty ex div 8" by (simp only: div_mult_self2)
      then have "(nxt + r_flags ty ex) div 2 ^ 3 = 2 * q + r_flags ty ex div 2 ^ 3" by (simp add: q add.commute)
      then show ?thesis unfolding bit_iff_odd by simp
    qed
    then show ?thesis using fl(3) unfolding e by blast
  qed
  have "read_full mem_ops m 16 (int off) = Inr (window m off 16)"
    using mem_read_full[of "int off" m 16] at(1) by simp
  then have "rom_header mem_ops m off = Inr \<lparr> rh_next = nxt + r_flags ty ex, rh_spec = spec, rh_size = sz, rh_off = off,
        rh_dtype = ty, rh_exec = ex \<rparr>"
    using hf(2-4) small assms(4,5) m8 ef
    by (simp add: rom_header_def r_headerSize_def g nf Let_def)
  moreover have "alignMask (nxt + r_flags ty ex) = nxt" using fl(1) by (simp add: alignMask_def q)
  moreover have "rom_name mem_ops m (off + 16) = Inr name"
  proof -
    let ?w = "window m (off + 16) 256"
    have "window m (off + 16) (length name + 1) = bytes_of name @ [0]"
      using hf(5) pn(1) by (simp add: window_window min_def)
    moreover have "window m (off + 16) (length name + 1) = take (length name + 1) ?w"
      using name(1) by (simp add: window_def min_def)
    ultimately have "?w = (bytes_of name @ [0]) @ drop (length name + 1) ?w"
      by (metis append_take_drop_id)
    then obtain rest where "buf_of 256 ?w = bytes_of name @ 0 # rest" unfolding buf_of_def by (metis append.assoc append_Cons append_Nil)
    then have "takeWhile (\<lambda>c. c \<noteq> 0) (buf_of 256 ?w) = bytes_of name"
      using name(2) by (simp add: list_all_iff takeWhile_append)
    then show ?thesis using mem_read_full[of "int (off + 16)" m 256] by (simp add: rom_name_def del: of_nat_add)
  qed
  ultimately show ?thesis using hf(6) by blast
qed

text \<open>
  C18. A header the writer puts on the device is read back as it was meant: the type, the executable
  bit, the next, spec and size fields and the name; and its words sum to zero, which is what a
  mounting kernel checks.
\<close>

theorem romfs_header_round_trip:
  assumes "typ < 8" "nxt < 2 ^ 32" "16 dvd nxt" "spec < 2 ^ 32" "sz < 2 ^ 32"
    and name: "length name < 256" "list_all (\<lambda>c. c \<noteq> 0) (bytes_of name)"
    and at: "off + 16 + paddedName name \<le> length m" "off + 16 < 2 ^ 32"
      "window m off (16 + paddedName name) = header_bytes name (r_flags typ ex) nxt spec sz"
  shows "rom_header mem_ops m off = Inr \<lparr> rh_next = nxt + r_flags typ ex, rh_spec = spec, rh_size = sz, rh_off = off,
        rh_dtype = typ, rh_exec = ex \<rparr>
    \<and> alignMask (nxt + r_flags typ ex) = nxt \<and> rom_name mem_ops m (off + 16) = Inr name
    \<and> 2 ^ 32 dvd sum_list (be_words (window m off (16 + paddedName name)))"
  by (rule header_reads_back[OF assms])

definition rom_image_bytes :: bytes where
  "rom_image_bytes = header_bytes ''init'' (r_flags 2 True) 64 0 5"

theorem romfs_header_round_trip_witness:
  "rom_header mem_ops rom_image_bytes 0 = Inr \<lparr> rh_next = 64 + r_flags 2 True, rh_spec = 0, rh_size = 5, rh_off = 0,
      rh_dtype = 2, rh_exec = True \<rparr>
    \<and> alignMask (64 + r_flags 2 True) = 64 \<and> rom_name mem_ops rom_image_bytes (0 + 16) = Inr ''init''
    \<and> 2 ^ 32 dvd sum_list (be_words (window rom_image_bytes 0 (16 + paddedName ''init'')))"
proof (rule romfs_header_round_trip)
  have p: "paddedName ''init'' = 16" by (simp add: paddedName_def alignUp_def alignMask_def r_align_def)
  have l: "length rom_image_bytes = 32" using header_bytes_fields(1)[of "''init''"] by (simp add: rom_image_bytes_def p)
  then show "0 + 16 + paddedName ''init'' \<le> length rom_image_bytes" by (simp add: p)
  have "window rom_image_bytes 0 32 = rom_image_bytes" using window_all[of rom_image_bytes] l by simp
  then show "window rom_image_bytes 0 (16 + paddedName ''init'') = header_bytes ''init'' (r_flags 2 True) 64 0 5"
    by (simp add: p rom_image_bytes_def)
qed (simp_all add: bytes_of_def)

section \<open>File types\<close>

text \<open>
  Every file type the reader can meet maps to a mode the writer maps back to the same type and
  executable bit (the bit that only regular files and directories carry).
\<close>

lemma romfs_types_round_trip:
  assumes "1 \<le> typ" "typ < 8" "typ = typeDir \<Longrightarrow> ex" "typ \<noteq> typeDir \<Longrightarrow> typ \<noteq> typeReg \<Longrightarrow> \<not> ex"
  shows "typeOf (modeOf typ ex) = (typ, ex)"
proof -
  have "typ \<in> {1, 2, 3, 4, 5, 6, 7}" using assms(1,2) by auto
  then show ?thesis using assms(3,4)
    by (auto simp: typeOf_def modeOf_def rom_consts mode_perm_def has_def mode_defs)
qed

section \<open>Offsets\<close>

definition aligned_writer :: "'d rwriter \<Rightarrow> bool" where
  "aligned_writer w \<longleftrightarrow> (\<forall>r. 16 dvd rw_hdrOff w r \<and> 16 dvd rw_dotOff w r \<and> 16 dvd rw_dotdotOff w r \<and> 16 dvd rw_parentHdr w r)"

lemma dvd_u32: "16 dvd n \<Longrightarrow> 16 dvd u32 n"
  by (simp add: u32_def dvd_mod)

lemma dvd_padded [simp]: "16 dvd paddedName name"
  by (simp add: paddedName_def)

lemma place_children_aligned:
  "(\<forall>r. 16 dvd hdrs r) \<Longrightarrow> 16 dvd off \<Longrightarrow> fold place_child es (hdrs, off) = (hdrs', off') \<Longrightarrow>
    (\<forall>r. 16 dvd hdrs' r) \<and> 16 dvd off'"
proof (induction es arbitrary: hdrs off)
  case (Cons e es)
  obtain name t where e: "e = (name, t)" by (cases e)
  obtain h1 o1 where p: "place_child e (hdrs, off) = (h1, o1)" by fastforce
  have "(\<forall>r. 16 dvd h1 r) \<and> 16 dvd o1"
    using p Cons.prems(1,2) by (auto simp: e place_child_def Let_def r_headerSize_def intro!: dvd_u32 dvd_add split: if_splits)
  then show ?case using Cons.IH[of h1 o1] Cons.prems(3) p by simp
qed simp

lemma rom_layout_aligned:
  fixes w :: "'d rwriter"
  shows "aligned_writer w \<Longrightarrow> 16 dvd h \<Longrightarrow> 16 dvd l \<Longrightarrow> 16 dvd p \<Longrightarrow> rom_layoutDir t h l p w = (w', off) \<Longrightarrow>
      aligned_writer w' \<and> 16 dvd off"
    and "aligned_writer w \<Longrightarrow> 16 dvd o' \<Longrightarrow> 16 dvd p \<Longrightarrow> rom_layoutSubdirs es o' p w = (w', off) \<Longrightarrow>
      aligned_writer w' \<and> 16 dvd off"
proof (induction t h l p w and es o' p w arbitrary: w' off and w' off rule: rom_layoutDir_rom_layoutSubdirs.induct)
  case (1 r n kids hdrOff listStart parentHdr w)
  define ddo where "ddo = u32 (listStart + r_headerSize + paddedName ''.'')"
  define w1 where "w1 = w\<lparr>rw_hdrOff := (rw_hdrOff w)(r := hdrOff), rw_parentHdr := (rw_parentHdr w)(r := parentHdr),
                rw_dotOff := (rw_dotOff w)(r := listStart), rw_dotdotOff := (rw_dotdotOff w)(r := ddo)\<rparr>"
  obtain hdrs o1 where f: "fold place_child (sort_by_name kids) (rw_hdrOff w1, u32 (ddo + r_headerSize + paddedName ''..'')) = (hdrs, o1)"
    by fastforce
  have dd: "16 dvd ddo" using 1 by (auto simp: ddo_def r_headerSize_def intro!: dvd_u32)
  have a1: "aligned_writer w1" using 1 dd by (simp add: w1_def aligned_writer_def)
  have "16 dvd u32 (ddo + r_headerSize + paddedName ''..'')" using dd by (auto simp: r_headerSize_def intro!: dvd_u32)
  then have "(\<forall>r. 16 dvd hdrs r) \<and> 16 dvd o1"
    using place_children_aligned[OF _ _ f] a1 by (simp add: aligned_writer_def)
  moreover have sub: "rom_layoutSubdirs (sort_by_name kids) o1 hdrOff (w1\<lparr>rw_hdrOff := hdrs\<rparr>) = (w', off)"
    using "1.prems"(5) f unfolding rom_layoutDir.simps Let_def w1_def ddo_def by (simp only: prod.case)
  ultimately show ?case
    using a1 by (intro "1.IH"[OF ddo_def w1_def f[symmetric] refl _ _ "1.prems"(2) sub]) (simp_all add: aligned_writer_def)
next
  case (3 name t es off0 parent w)
  show ?case
  proof (cases "is_dir (tn_node t)")
    case True
    obtain w1 o1 where d: "rom_layoutDir t (rw_hdrOff w (tn_ref t)) off0 parent w = (w1, o1)" by fastforce
    have "16 dvd rw_hdrOff w (tn_ref t)" using "3.prems"(1) by (simp add: aligned_writer_def)
    then have a1: "aligned_writer w1" "16 dvd o1"
      using "3.IH"(1)[OF True "3.prems"(1) _ "3.prems"(2,3) d] by blast+
    have "rom_layoutSubdirs es o1 parent w1 = (w', off)"
      using "3.prems"(4) True d by (simp only: rom_layoutSubdirs.simps if_True prod.case)
    from "3.IH"(2)[OF True d[symmetric] a1 "3.prems"(3) this] show ?thesis .
  next
    case False
    then show ?thesis using "3.IH"(3)[OF False] "3.prems" by simp
  qed
qed simp

text \<open>
  C19. Every offset the layout assigns, of headers, of the lists of directories and of their parents,
  is a multiple of 16, also when the sizes overflow 32 bits; so a \<open>next\<close> field never loses
  address bits to the type and flag bits it shares.
\<close>

theorem romfs_offsets_are_aligned:
  "aligned_writer (rom_plan (newRwriter d label) root) \<and> 16 dvd rw_size (rom_plan (newRwriter d label) root)"
proof -
  let ?w = "(newRwriter d label)\<lparr>rw_rootHdr := u32 (r_headerSize + paddedName label)\<rparr>"
  let ?h = "u32 (r_headerSize + paddedName label)"
  obtain w' sz where l: "rom_layoutDir root ?h (u32 (?h + (r_headerSize + paddedName ''.''))) ?h ?w = (w', sz)" by fastforce
  have "aligned_writer ?w" by (simp add: aligned_writer_def newRwriter_def)
  moreover have "16 dvd ?h" by (auto simp: r_headerSize_def intro!: dvd_u32)
  moreover have "16 dvd u32 (?h + (r_headerSize + paddedName ''.''))"
    using \<open>16 dvd ?h\<close> by (auto simp: r_headerSize_def intro!: dvd_u32)
  ultimately have "aligned_writer w' \<and> 16 dvd sz" using rom_layout_aligned(1)[OF _ _ _ _ l] by blast
  then show ?thesis using l by (simp add: rom_plan_def Let_def newRwriter_def aligned_writer_def)
qed

section \<open>Cycles\<close>

text \<open>
  C20. The reader follows hard links without a guard: a hard link header whose target is itself
  sends it into an endless recursion, whatever the device, so an image can crash it.
\<close>

theorem romfs_hard_link_cycle_never_returns:
  assumes "rom_header D d off = Inr h" "rh_dtype h = typeHardlink" "alignMask (rh_spec h) = off"
  shows "rom_node fuel D d hp h name = None"
  using assms by (induction fuel) auto

definition cyclic_image :: bytes where
  "cyclic_image = header_bytes ''x'' (r_flags 0 False) 0 0 0"

lemma cyclic_header: "rom_header mem_ops cyclic_image 0 =
    Inr \<lparr> rh_next = 0, rh_spec = 0, rh_size = 0, rh_off = 0, rh_dtype = 0, rh_exec = False \<rparr>"
proof -
  note f = header_bytes_fields[of "''x''" "r_flags 0 False" 0 0 0, folded cyclic_image_def]
  have len: "length cyclic_image = 32" using f(1) by (simp add: paddedName_def alignUp_def alignMask_def r_align_def)
  have "read_full mem_ops cyclic_image 16 (int 0) = Inr (window cyclic_image 0 16)"
    using mem_read_full[of "int 0" cyclic_image 16] len by simp
  moreover have "get_be 4 (window cyclic_image 0 16) k = get_be 4 cyclic_image k" if "k + 4 \<le> 16" for k
  proof -
    have "min 4 (16 - k) = 4" using that by simp
    then show ?thesis by (simp add: get_be_def window_window)
  qed
  ultimately show ?thesis using f(2-4)
    by (simp add: rom_header_def r_headerSize_def Let_def r_flags_def alignMask_def flagExec_def)
qed

theorem romfs_hard_link_cycle_never_returns_witness:
  "rom_node 1000 mem_ops cyclic_image [] \<lparr> rh_next = 0, rh_spec = 0, rh_size = 0, rh_off = 0, rh_dtype = 0, rh_exec = False \<rparr> ''x'' = None"
  by (rule romfs_hard_link_cycle_never_returns[OF cyclic_header]) (simp_all add: typeHardlink_def alignMask_def)

section \<open>Hard links\<close>

text \<open>A root directory with two names of one empty file, which the writer is given in name order.\<close>

definition two_names :: "node \<Rightarrow> node \<Rightarrow> string \<Rightarrow> string \<Rightarrow> tnode" where
  "two_names root n x y = TNode 0 root [(x, TNode 1 n []), (y, TNode 1 n [])]"

lemma rw_write_mem:
  "rw_err w = None \<Longrightarrow> mem_invar (rw_dev w) \<Longrightarrow> off + length p \<le> length (rw_dev w) \<Longrightarrow>
    rw_write mem_ops p (int off) w = w\<lparr>rw_dev := blit (rw_dev w) off p\<rparr>"
  by (simp add: rw_write_def write_all_def mem_write_inside)

lemma rom_writeEntry_mem:
  assumes "rw_err w = None" "mem_invar (rw_dev w)" "length name < 2 ^ 31" "off + 16 + paddedName name \<le> length (rw_dev w)"
  shows "fst (rom_writeEntry mem_ops off name typ ex nxt spec sz None w)
    = w\<lparr>rw_dev := blit (rw_dev w) off (header_bytes name (r_flags typ ex) nxt spec sz)\<rparr>"
  using assms rw_write_mem[of w off "header_bytes name (r_flags typ ex) nxt spec sz"] header_bytes_fields(1)[OF assms(3)]
  by (simp add: rom_writeEntry_def Let_def r_flags_def)

lemma padded_dots: "paddedName ''.'' = 16" "paddedName ''..'' = 16" "paddedName '''' = 16"
  by (simp_all add: paddedName_def alignUp_def alignMask_def r_align_def)

lemma two_names_plan:
  assumes "length x < 256" "length y < 256" "x < y" "\<not> is_dir n" "dataLen n = 0"
    and P: "P = rom_plan (newRwriter m '''') (two_names root n x y)"
  shows "rw_dev P = m" "rw_err P = None" "rw_label P = ''''" "rw_rootHdr P = 32" "rw_dotOff P 0 = 64" "rw_dotdotOff P 0 = 96"
    "rw_hdrOff P 0 = 32" "rw_parentHdr P 0 = 32" "rw_hdrOff P 1 = 144 + paddedName x"
    "rw_size P = 160 + paddedName x + paddedName y"
proof -
  note px = paddedName_bounds[of x] and py = paddedName_bounds[of y]
  have "sort_by_name (tn_kids (two_names root n x y)) = tn_kids (two_names root n x y)"
    using assms(3) by (simp add: sort_by_name_def two_names_def less_imp_le)
  then show "rw_dev P = m" "rw_err P = None" "rw_label P = ''''" "rw_rootHdr P = 32" "rw_dotOff P 0 = 64" "rw_dotdotOff P 0 = 96"
    "rw_hdrOff P 0 = 32" "rw_parentHdr P 0 = 32" "rw_hdrOff P 1 = 144 + paddedName x"
    "rw_size P = 160 + paddedName x + paddedName y"
    using assms(1,2,4,5) px(2) py(2)
    by (simp_all add: P rom_plan_def two_names_def Let_def newRwriter_def padded_dots r_headerSize_def place_child_def)
qed

text \<open>The device after both headers of the file were written to the one place it was given.\<close>

definition root_list_image :: "string \<Rightarrow> string \<Rightarrow> bytes \<Rightarrow> bytes \<Rightarrow> bytes \<Rightarrow> bytes \<Rightarrow> bytes" where
  "root_list_image x y sb hx hy m =
     (let h = 144 + paddedName x in
      blit (blit (blit (blit (blit (blit m 0 sb)
        32 (header_bytes ''.'' (r_flags typeDir True) 0 64 0))
        64 (header_bytes ''.'' (r_flags typeHardlink False) 96 32 0))
        96 (header_bytes ''..'' (r_flags typeHardlink False) h 32 0)) h hx) h hy)"

lemma two_names_written:
  assumes "length x < 256" "length y < 256" "x < y" "typeOf (md_mode n) = (typeReg, ex)" "dataLen n = 0"
    and m: "1024 \<le> length m" "mem_invar m"
  shows "\<exists>sb hx crc. length sb = 32 \<and> length hx = 16 + paddedName x \<and> length crc = 4
    \<and> get_be 4 sb 0 = r_magicW0 \<and> get_be 4 sb 4 = r_magicW1 \<and> sb ! 16 = 0
    \<and> rom_Finalize mem_ops '''' (two_names root n x y) m = (None, blit (root_list_image x y sb hx
        (header_bytes y (r_flags typeReg ex) 0 0 0) m) 12 crc)"
proof -
  let ?h = "144 + paddedName x" and ?t = "two_names root n x y"
  note px = paddedName_bounds[of x] and py = paddedName_bounds[of y]
  have nd: "\<not> is_dir n" using assms(4) by (auto simp: typeOf_def is_dir_def mode_is_dir_def typeReg_def typeDir_def split: if_splits)
  define P where "P = rom_plan (newRwriter m '''') ?t"
  note P = two_names_plan[OF assms(1-3) nd assms(5) P_def]
  define sb where "sb = blit (put_be 4 8 (rw_size P) (put_be 4 4 r_magicW1 (put_be 4 0 r_magicW0 (zeros 32)))) 16 []"
  define hx where "hx = header_bytes x (r_flags typeReg ex) ?h 0 0"
  have pl: "payload w (TNode 1 n []) = (0, 0, None)" for w :: "bytes rwriter"
    using assms(4,5) nd by (auto simp: payload_def typeOf_def rom_consts has_def bit.conj_disj_distrib split: if_splits)
  have len: "length sb = 32" "length (header_bytes ''.'' f a b c) = 32" "length (header_bytes ''..'' f a b c) = 32"
    "length (header_bytes x f a b c) = 16 + paddedName x" "length (header_bytes y f a b c) = 16 + paddedName y" for f a b c
    using header_bytes_fields(1)[of "''.''"] header_bytes_fields(1)[of "''..''"] header_bytes_fields(1)[of x] header_bytes_fields(1)[of y]
      assms(1,2) by (simp_all add: sb_def padded_dots)
  have ref: "tn_ref ?t = 0" by (simp add: two_names_def)
  define W where "W k = P\<lparr>rw_dev := k\<rparr>" for k
  have W: "rw_dev (W k) = k" "rw_err (W k) = None" "rw_dev_update (\<lambda>_. k') (W k) = W k'" for k k' using P(2) by (simp_all add: W_def)
  have P0: "P = W m" using P(1) by (simp add: W_def)
  have entry: "fst (rom_writeEntry mem_ops off name ty e nxt spec sz None (W k)) = W (blit k off (header_bytes name (r_flags ty e) nxt spec sz))"
    "length (blit k off (header_bytes name (r_flags ty e) nxt spec sz)) = length m"
    if "length k = length m" "length name < 256" "off + 16 + paddedName name \<le> 1024" for off name ty e nxt spec sz k
    using that m rom_writeEntry_mem[of "W k"] header_bytes_fields(1)[of name] by (simp_all add: W mem_invar_def)
  define k1 where "k1 = blit (blit m 0 sb) 32 (header_bytes ''.'' (r_flags typeDir True) 0 64 0)"
  define k2 where "k2 = blit k1 64 (header_bytes ''.'' (r_flags typeHardlink False) 96 32 0)"
  define k3 where "k3 = blit k2 96 (header_bytes ''..'' (r_flags typeHardlink False) ?h 32 0)"
  define k4 where "k4 = blit k3 ?h hx"
  define k5 where "k5 = blit k4 ?h (header_bytes y (r_flags typeReg ex) 0 0 0)"
  have k: "length k1 = length m" "length k2 = length m" "length k3 = length m" "length k4 = length m" "length k5 = length m"
    using m(1) px(2) py(2) assms(1,2) by (simp_all add: k1_def k2_def k3_def k4_def k5_def hx_def len)
  have "rom_writeSuperblock mem_ops (W m) = W (blit m 0 sb)"
    using rw_write_mem[of "W m" 0 sb] m len(1)
    by (simp add: rom_writeSuperblock_def Let_def sb_def W) (simp add: W_def P r_headerSize_def padded_dots bytes_of_def)
  moreover have "writeRootHeader mem_ops 0 (W (blit m 0 sb)) = W k1"
    using rw_write_mem[of "W (blit m 0 sb)" 32 "header_bytes ''.'' (r_flags typeDir True) 0 64 0"] m len(1,2)
    by (simp add: writeRootHeader_def W k1_def mem_invar_def) (simp add: W_def P r_flags_def)
  moreover have "rom_writeDir mem_ops ?t (W k1) = W k5"
  proof -
    have o: "rw_hdrOff (W k) (Suc 0) = ?h" "rw_hdrOff (W k) 0 = 32" "rw_dotOff (W k) 0 = 64" "rw_dotdotOff (W k) 0 = 96"
      "rw_parentHdr (W k) 0 = 32" for k using P by (simp_all add: W_def)
    have e: "fst (rom_writeEntry mem_ops 64 ''.'' typeHardlink False 96 32 0 None (W k1)) = W k2"
      "fst (rom_writeEntry mem_ops 96 ''..'' typeHardlink False ?h 32 0 None (W k2)) = W k3"
      "fst (rom_writeEntry mem_ops ?h x typeReg ex ?h 0 0 None (W k3)) = W k4"
      "fst (rom_writeEntry mem_ops ?h y typeReg ex 0 0 0 None (W k4)) = W k5"
      using entry(1) k px(2) py(2) assms(1,2) by (simp_all add: k2_def k3_def k4_def k5_def hx_def padded_dots)
    have s: "sort_by_name [(x, TNode 1 n []), (y, TNode 1 n [])] = [(x, TNode 1 n []), (y, TNode 1 n [])]"
      using assms(3) by (simp add: sort_by_name_def less_imp_le)
    obtain o1 o2 where o12: "rom_writeEntry mem_ops ?h x typeReg ex ?h 0 0 None (W k3) = (W k4, o1)"
      "rom_writeEntry mem_ops ?h y typeReg ex 0 0 0 None (W k4) = (W k5, o2)" using e(3,4) by (metis prod.collapse)
    have ch: "writeChildren mem_ops [(x, TNode 1 n []), (y, TNode 1 n [])] (W k3) = W k5"
      by (simp add: Let_def assms(4) pl[unfolded One_nat_def] o next_off_def o12)
    show ?thesis using e(1,2) by (simp add: two_names_def s[unfolded One_nat_def] o next_off_def ch[unfolded One_nat_def] nd del: writeChildren.simps)
  qed
  moreover have "\<exists>crc. length crc = 4 \<and> finishChecksum mem_ops (W k5) = (None, blit k5 12 crc)"
    using mem_write_inside[of k5 12] m k(5)
    by (simp add: finishChecksum_def Let_def mem_read_full W write_all_def mem_invar_def)
      (metis length_be_bytes)
  ultimately have "\<exists>crc. length crc = 4 \<and> rom_Finalize mem_ops '''' ?t m = (None, blit k5 12 crc)"
    unfolding rom_Finalize_def rom_write_def P_def[symmetric] Let_def
    using P0 W(2) by (simp add: ref del: rom_writeDir.simps)
  moreover have "k5 = root_list_image x y sb hx (header_bytes y (r_flags typeReg ex) 0 0 0) m"
    by (simp add: k1_def k2_def k3_def k4_def k5_def root_list_image_def Let_def)
  moreover have "get_be 4 sb 0 = r_magicW0" "get_be 4 sb 4 = r_magicW1" "sb ! 16 = 0"
    unfolding sb_def by (simp_all add: get_put_be get_put_be_other r_magicW0_def r_magicW1_def) (simp add: put_be_def nth_blit zeros_def)
  ultimately show ?thesis using len(1,4) unfolding hx_def by blast
qed

lemma two_names_image_reads:
  assumes "length x < 256" "length y < 256" "list_all (\<lambda>c. c \<noteq> 0) (bytes_of y)" "ValidName y = None"
    and sb: "length sb = 32" "get_be 4 sb 0 = r_magicW0" "get_be 4 sb 4 = r_magicW1" "sb ! 16 = 0"
    and len: "length hx = 16 + paddedName x" "length crc = 4" "1024 \<le> length m"
    and d_def: "d = blit (root_list_image x y sb hx (header_bytes y (r_flags typeReg ex) 0 0 0) m) 12 crc"
  shows "\<exists>l. rom_Open (fuel + 8) mem_ops d =
    Some (Inr [(new_node (rom_meta (ModeDir OR 0x1ED)) 2)\<lparr>nd_children := [(y, 1)]\<rparr>, l])"
proof -
  let ?h = "144 + paddedName x"
  note px = paddedName_bounds[of x] and py = paddedName_bounds[of y]
  have hl: "length (header_bytes ''.'' f a b c) = 32" "length (header_bytes ''..'' f a b c) = 32"
    "length (header_bytes y f a b c) = 16 + paddedName y" for f a b c
    using header_bytes_fields(1)[of "''.''"] header_bytes_fields(1)[of "''..''"] header_bytes_fields(1)[of y]
      assms(2) by (simp_all add: padded_dots)
  have pb: "paddedName x \<le> 271" "paddedName y \<le> 271" using px(2) py(2) assms(1,2) by simp_all
  note ls = hl sb(1) len pb assms(1,2)
  note D = d_def root_list_image_def Let_def
  have ld: "length d = length m" using ls by (simp add: D)
  have sbw: "window (blit m 0 sb) k j = window sb k j" if "k + j \<le> 32" for k j
    using that sb(1) by (simp add: window_def blit_def)
  have w: "window d 32 32 = header_bytes ''.'' (r_flags typeDir True) 0 64 0"
    "window d 64 32 = header_bytes ''.'' (r_flags typeHardlink False) 96 32 0"
    "window d 96 32 = header_bytes ''..'' (r_flags typeHardlink False) ?h 32 0"
    "window d ?h (16 + paddedName y) = header_bytes y (r_flags typeReg ex) 0 0 0"
    "window d 0 12 = window sb 0 12" "window d 16 16 = window sb 16 16"
    unfolding D using ls by (simp_all add: window_blit_other sbw)
  have nz: "list_all (\<lambda>c. c \<noteq> 0) (bytes_of ''.'')" "list_all (\<lambda>c. c \<noteq> 0) (bytes_of ''..'')" by (simp_all add: bytes_of_def)
  have dv: "16 dvd ?h" using px(3) assms(1) by simp
  note r = header_reads_back[where m = d]
  have h0: "rom_header mem_ops d 32 = Inr \<lparr> rh_next = 0 + r_flags typeDir True, rh_spec = 64, rh_size = 0, rh_off = 32,
        rh_dtype = typeDir, rh_exec = True \<rparr>"
    using r[where off = 32 and name = "''.''" and ty = typeDir and ex = True and nxt = 0 and spec = 64 and sz = 0] nz w(1) ld len(3)
    by (simp add: padded_dots typeDir_def)
  have h1: "rom_header mem_ops d 64 = Inr \<lparr> rh_next = 96 + r_flags typeHardlink False, rh_spec = 32, rh_size = 0, rh_off = 64,
        rh_dtype = typeHardlink, rh_exec = False \<rparr>" "alignMask (96 + r_flags typeHardlink False) = 96" "rom_name mem_ops d 80 = Inr ''.''"
    using r[where off = 64 and name = "''.''" and ty = typeHardlink and ex = False and nxt = 96 and spec = 32 and sz = 0] nz w(2) ld len(3)
    by (simp_all add: padded_dots typeHardlink_def)
  have h2: "rom_header mem_ops d 96 = Inr \<lparr> rh_next = ?h + r_flags typeHardlink False, rh_spec = 32, rh_size = 0, rh_off = 96,
        rh_dtype = typeHardlink, rh_exec = False \<rparr>" "alignMask (?h + r_flags typeHardlink False) = ?h" "rom_name mem_ops d 112 = Inr ''..''"
    using r[where off = 96 and name = "''..''" and ty = typeHardlink and ex = False and nxt = ?h and spec = 32 and sz = 0] nz w(3) ld len(3) dv ls
    by (simp_all add: padded_dots typeHardlink_def)
  have h3: "rom_header mem_ops d ?h = Inr \<lparr> rh_next = 0 + r_flags typeReg ex, rh_spec = 0, rh_size = 0, rh_off = ?h,
        rh_dtype = typeReg, rh_exec = ex \<rparr>" "alignMask (0 + r_flags typeReg ex) = 0" "rom_name mem_ops d (?h + 16) = Inr y"
    using r[where off = ?h and name = y and ty = typeReg and ex = ex and nxt = 0 and spec = 0 and sz = 0] assms(2,3) w(4) ld len(3) ls
    by (simp_all add: typeReg_def)
  have u: "u32 (?h + 16) = ?h + 16" using ls by simp
  have hd: "read_full mem_ops d 16 0 = Inr (window d 0 16)" using mem_read_full[of 0 d 16] ld len(3) by simp
  have "get_be 4 (window d 0 16) k = get_be 4 (window d 0 12) k" if "k + 4 \<le> 12" for k
    using that by (simp add: get_be_def window_window min_def)
  then have mg: "get_be 4 (window d 0 16) 0 = r_magicW0" "get_be 4 (window d 0 16) 4 = r_magicW1"
    using sb by (simp_all add: w(5) get_be_def window_window)
  have vol: "rom_name mem_ops d 16 = Inr ''''"
  proof -
    have "window d 16 16 ! 0 = 0" using w(6) sb(1,4) by (simp add: nth_window)
    then have "d ! 16 = 0" using ld len(3) by (simp add: nth_window)
    then have "window d 16 256 \<noteq> [] \<and> hd (window d 16 256) = 0"
      using ld len(3) by (simp add: window_def hd_drop_conv_nth)
    then have "takeWhile (\<lambda>c. c \<noteq> 0) (buf_of 256 (window d 16 256)) = []"
      by (cases "window d 16 256") (simp_all add: buf_of_def)
    then show ?thesis using mem_read_full[of 16 d 256] by (simp add: rom_name_def string_of_def)
  qed
  let ?root = "new_node (rom_meta (ModeDir OR 0x1ED)) 2"
  obtain l where l: "leaf_node mem_ops d \<lparr> rh_next = 0 + r_flags typeReg ex, rh_spec = 0, rh_size = 0, rh_off = ?h,
        rh_dtype = typeReg, rh_exec = ex \<rparr> y = Inr l"
    by (simp add: leaf_node_def rom_consts Let_def)
  have y: "y \<noteq> ''.'' \<and> y \<noteq> ''..'' \<and> y \<noteq> ''''" using assms(4) by (auto simp: ValidName_def)
  have s3: "rom_readDir (Suc (Suc (Suc k))) mem_ops d [?root] 0 ?h seen = Some (Inr [?root\<lparr>nd_children := [(y, 1)]\<rparr>, l])"
    if "?h \<notin> set seen" for k seen
    using that y assms(4) h3 l u
    by (simp add: r_headerSize_def AddChild_def typeReg_def typeHardlink_def typeDir_def Let_def new_node_def)
  have s2: "rom_readDir (Suc (Suc (Suc (Suc k)))) mem_ops d [?root] 0 96 [64] = Some (Inr [?root\<lparr>nd_children := [(y, 1)]\<rparr>, l])" for k
    unfolding rom_readDir.simps(2)[of "Suc (Suc (Suc k))"] using s3[of "[96, 64]" k] h2 by (simp add: r_headerSize_def)
  have s1: "rom_readDir (Suc (Suc (Suc (Suc (Suc k))))) mem_ops d [?root] 0 64 [] = Some (Inr [?root\<lparr>nd_children := [(y, 1)]\<rparr>, l])" for k
    unfolding rom_readDir.simps(2)[of "Suc (Suc (Suc (Suc k)))"] using s2[of k] h1 by (simp add: r_headerSize_def)
  have f: "fuel + 8 = Suc (Suc (Suc (Suc (Suc (fuel + 3)))))" by simp
  have "rom_Open (fuel + 8) mem_ops d = Some (Inr [?root\<lparr>nd_children := [(y, 1)]\<rparr>, l])"
    unfolding rom_Open_def f using s1[of "fuel + 3"] hd mg vol h0
    by (simp add: r_headerSize_def alignUp_def alignMask_def r_align_def del: rom_readDir.simps)
  then show ?thesis by blast
qed

text \<open>
  C21. A file with two names in a romfs image loses one of them. The writer keeps one header offset for
  the file in place of one for each name: for every two valid names of an empty file in the root
  directory, the image is written without an error, the second header overwrites the first at the
  place both were given, its next pointer ends the list, and the reader finds only the second name.
\<close>

theorem romfs_hard_linked_name_is_lost:
  assumes "ValidName x = None" "ValidName y = None" "list_all (\<lambda>c. c \<noteq> 0) (bytes_of y)" "length x < 256" "length y < 256" "x < y"
    and "typeOf (md_mode n) = (typeReg, ex)" "dataLen n = 0" "1024 \<le> length m" "length m < 2 ^ 63"
  shows "\<exists>d h. rom_Finalize mem_ops '''' (two_names root n x y) m = (None, d) \<and> rom_Open (fuel + 8) mem_ops d = Some (Inr h)
    \<and> map fst (tn_kids (two_names root n x y)) = [x, y] \<and> map fst (nd_children (h ! 0)) = [y]"
proof -
  have "mem_invar m" using assms(10) by (simp add: mem_invar_def)
  then obtain sb hx crc where f: "length sb = 32" "length hx = 16 + paddedName x" "length crc = 4"
    "get_be 4 sb 0 = r_magicW0" "get_be 4 sb 4 = r_magicW1" "sb ! 16 = 0"
    "rom_Finalize mem_ops '''' (two_names root n x y) m = (None, blit (root_list_image x y sb hx
        (header_bytes y (r_flags typeReg ex) 0 0 0) m) 12 crc)"
    using two_names_written[OF assms(4-9)] by blast
  then show ?thesis
    using two_names_image_reads[OF assms(4,5,3,2) f(1,4-6,2,3) assms(9)] by (fastforce simp: two_names_def)
qed

theorem romfs_hard_linked_name_is_lost_witness:
  "\<exists>d h. rom_Finalize mem_ops '''' (two_names (new_node (rom_meta (ModeDir OR 0x1ED)) 2) (new_node (rom_meta 0x1A4) 2) ''a'' ''b'')
      (mem_new 4096) = (None, d) \<and> rom_Open (0 + 8) mem_ops d = Some (Inr h)
    \<and> map fst (tn_kids (two_names (new_node (rom_meta (ModeDir OR 0x1ED)) 2) (new_node (rom_meta 0x1A4) 2) ''a'' ''b'')) = [''a'', ''b'']
    \<and> map fst (nd_children (h ! 0)) = [''b'']"
  by (rule romfs_hard_linked_name_is_lost[where ex = False])
    (simp_all add: ValidName_def bytes_of_def mem_new_def typeOf_def mode_perm_def rom_meta_def new_node_def dataLen_def is_dir_def mode_is_dir_def)

end
