(* ===== verification/Strings.thy ===== *)
theory Strings
  imports Prelude Codec
begin

text \<open>
  What the text-handling parts use of Go's \<open>strings\<close>, \<open>path\<close> and \<open>strconv\<close>:
  cutting, trimming and joining, \<open>path.Clean\<close> and its relatives on slash-separated paths, and the
  parsing of integers.
\<close>

section \<open>Cutting and joining\<close>

text \<open>\<open>strings.Cut\<close> at the first separator; \<open>None\<close> when it is absent.\<close>

definition cut_at :: "char \<Rightarrow> string \<Rightarrow> (string \<times> string) option" where
  "cut_at c s = (if c \<in> set s then Some (takeWhile (\<lambda>x. x \<noteq> c) s, tl (dropWhile (\<lambda>x. x \<noteq> c) s)) else None)"

definition has_prefix :: "string \<Rightarrow> string \<Rightarrow> bool" where
  "has_prefix p s \<longleftrightarrow> take (length p) s = p"

definition trim_prefix :: "string \<Rightarrow> string \<Rightarrow> string" where
  "trim_prefix p s = (if has_prefix p s then drop (length p) s else s)"

definition trim_char :: "char \<Rightarrow> string \<Rightarrow> string" where
  "trim_char c s = rev (dropWhile (\<lambda>x. x = c) (rev (dropWhile (\<lambda>x. x = c) s)))"

definition trim_suffix_char :: "char \<Rightarrow> string \<Rightarrow> string" where
  "trim_suffix_char c s = (if s \<noteq> [] \<and> last s = c then butlast s else s)"

fun join_with :: "char \<Rightarrow> string list \<Rightarrow> string" where
  "join_with c [] = []"
| "join_with c [p] = p"
| "join_with c (p # q # ps) = p @ c # join_with c (q # ps)"

lemma split_join: "ps \<noteq> [] \<Longrightarrow> list_all (\<lambda>p. c \<notin> set p) ps \<Longrightarrow> split_char c (join_with c ps) = ps"
  by (induction c ps rule: join_with.induct) (auto simp: split_char_none split_char_append)

section \<open>Paths\<close>

text \<open>The components of \<open>path.Clean\<close>: empty ones and \<open>.\<close> vanish, \<open>..\<close> removes the previous one.\<close>

definition clean_step :: "bool \<Rightarrow> string \<Rightarrow> string list \<Rightarrow> string list" where
  "clean_step rooted c out =
     (if c = '''' \<or> c = ''.'' then out
      else if c = ''..'' then
        (if out \<noteq> [] \<and> last out \<noteq> ''..'' then butlast out else if rooted then out else out @ [c])
      else out @ [c])"

definition clean_comps :: "bool \<Rightarrow> string list \<Rightarrow> string list" where
  "clean_comps rooted cs = fold (clean_step rooted) cs []"

definition path_clean :: "string \<Rightarrow> string" where
  "path_clean p =
     (if p = '''' then ''.''
      else let rooted = (hd p = CHR ''/''); cs = clean_comps rooted (split_char (CHR ''/'') p) in
        if rooted then CHR ''/'' # join_with (CHR ''/'') cs
        else if cs = [] then ''.'' else join_with (CHR ''/'') cs)"

definition path_join :: "string list \<Rightarrow> string" where
  "path_join elems =
     (let ne = filter (\<lambda>e. e \<noteq> '''') elems in
      if ne = [] then '''' else path_clean (join_with (CHR ''/'') ne))"

text \<open>\<open>path.Split\<close>: the directory keeps its slash.\<close>

definition path_split :: "string \<Rightarrow> string \<times> string" where
  "path_split p =
     (rev (dropWhile (\<lambda>c. c \<noteq> CHR ''/'') (rev p)), rev (takeWhile (\<lambda>c. c \<noteq> CHR ''/'') (rev p)))"

definition plain_comp :: "string \<Rightarrow> bool" where
  "plain_comp c \<longleftrightarrow> c \<noteq> '''' \<and> c \<noteq> ''.'' \<and> c \<noteq> ''..'' \<and> CHR ''/'' \<notin> set c"

lemma clean_comps_plain_snoc: "clean_comps r (cs @ [c]) = clean_step r c (clean_comps r cs)"
  by (simp add: clean_comps_def)

lemma clean_rooted_plain: "list_all (\<lambda>c. CHR ''/'' \<notin> set c) cs \<Longrightarrow> list_all plain_comp (clean_comps True cs)"
proof (induction cs rule: rev_induct)
  case (snoc c cs)
  then have ih: "list_all plain_comp (clean_comps True cs)" by simp
  then have "list_all plain_comp (butlast (clean_comps True cs))"
    by (auto simp: list_all_iff dest: in_set_butlastD)
  then show ?case using ih snoc.prems
    by (auto simp: clean_comps_plain_snoc clean_step_def plain_comp_def list_all_iff split: if_splits)
qed (simp add: clean_comps_def)

lemma clean_comps_id: "list_all plain_comp cs \<Longrightarrow> clean_comps r cs = cs"
proof (induction cs rule: rev_induct)
  case (snoc c cs)
  then show ?case by (simp add: clean_comps_plain_snoc clean_step_def plain_comp_def)
qed (simp add: clean_comps_def)

lemma split_char_parts: "list_all (\<lambda>p. c \<notin> set p) (split_char c s)"
  by (auto simp: list_all_iff dest: split_char_no_sep)

lemma trim_char_join:
  assumes "list_all plain_comp cs"
  shows "trim_char (CHR ''/'') (CHR ''/'' # join_with (CHR ''/'') cs) = join_with (CHR ''/'') cs"
proof (cases "cs = []")
  case False
  have ends: "cs \<noteq> [] \<Longrightarrow> list_all plain_comp cs \<Longrightarrow>
      join_with (CHR ''/'') cs \<noteq> [] \<and> hd (join_with (CHR ''/'') cs) \<noteq> CHR ''/'' \<and> last (join_with (CHR ''/'') cs) \<noteq> CHR ''/''"
    for cs
  proof (induction "CHR ''/''" cs rule: join_with.induct)
    case (2 p)
    then show ?case by (auto simp: plain_comp_def dest: hd_in_set last_in_set)
  next
    case (3 p q ps)
    then show ?case by (auto simp: plain_comp_def dest: hd_in_set)
  qed simp
  have dw: "dropWhile (\<lambda>x. x = c) xs = xs" if "xs \<noteq> []" "hd xs \<noteq> c" for c :: char and xs
    using that by (cases xs) auto
  show ?thesis using ends[OF False assms] by (simp add: trim_char_def dw hd_rev)
qed (simp add: trim_char_def)

lemma path_clean_rooted:
  "path_clean (CHR ''/'' # p) = CHR ''/'' # join_with (CHR ''/'') (clean_comps True (split_char (CHR ''/'') (CHR ''/'' # p)))"
  by (simp add: path_clean_def Let_def del: split_char.simps)

lemma split_char_append2: "split_char c (s @ c # t) = split_char c s @ split_char c t"
  by (induction s) (auto split: list.splits simp: neq_Nil_conv)

lemma path_split_parts:
  assumes "path_split p = (d, b)"
  obtains (base) "d = []" "split_char CHR ''/'' p = [b]"
    | (sub) d' where "d = d' @ [CHR ''/'']" "split_char CHR ''/'' p = split_char CHR ''/'' d' @ [b]"
proof -
  have p: "p = d @ b" "CHR ''/'' \<notin> set b"
    using assms unfolding path_split_def
    by (metis (lifting) Pair_inject rev_append rev_rev_ident takeWhile_dropWhile_id,
        auto dest: set_takeWhileD)
  show ?thesis
  proof (cases "d = []")
    case True
    then show ?thesis using base p by (simp add: split_char_none)
  next
    case False
    then have "rev d \<noteq> []" by simp
    moreover have d: "rev d = dropWhile (\<lambda>c. c \<noteq> CHR ''/'') (rev p)" using assms by (auto simp: path_split_def)
    ultimately have "hd (rev d) = CHR ''/''" using hd_dropWhile[of "\<lambda>c. c \<noteq> CHR ''/''" "rev p"] by simp
    then have "d = butlast d @ [CHR ''/'']" using False by (metis append_butlast_last_id hd_rev)
    then show ?thesis using sub[of "butlast d"] p split_char_append2[of "CHR ''/''" "butlast d" b]
      by (metis append.assoc append_Cons append_Nil split_char_none)
  qed
qed

lemma clean_comps_nonempty: "'''' \<notin> set (clean_comps r cs)"
proof (induction cs rule: rev_induct)
  case (snoc c cs)
  then show ?case by (auto simp: clean_comps_plain_snoc clean_step_def dest: in_set_butlastD)
qed (simp add: clean_comps_def)

lemma clean_comps_no_slash: "list_all (\<lambda>c. CHR ''/'' \<notin> set c) cs \<Longrightarrow> list_all (\<lambda>c. CHR ''/'' \<notin> set c) (clean_comps r cs)"
proof (induction cs rule: rev_induct)
  case (snoc c cs)
  then show ?case by (auto simp: clean_comps_plain_snoc clean_step_def list_all_iff dest: in_set_butlastD)
qed (simp add: clean_comps_def)

lemma path_clean_last: "path_clean p \<noteq> ''/'' \<Longrightarrow> last (split_char (CHR ''/'') (path_clean p)) \<noteq> ''''"
proof (cases "p = ''''")
  case False
  let ?r = "hd p = CHR ''/''" and ?s = "split_char (CHR ''/'') p"
  let ?cs = "clean_comps ?r ?s"
  assume ne: "path_clean p \<noteq> ''/''"
  have cs: "list_all (\<lambda>c. CHR ''/'' \<notin> set c) ?cs" by (rule clean_comps_no_slash[OF split_char_parts])
  have l: "last ?cs \<noteq> ''''" if "?cs \<noteq> []" using clean_comps_nonempty that by (metis last_in_set)
  show ?thesis
  proof (cases "?cs = []")
    case True
    then show ?thesis using False ne by (auto simp: path_clean_def Let_def)
  next
    case ne: False
    have "split_char (CHR ''/'') (join_with (CHR ''/'') ?cs) = ?cs" by (rule split_join[OF ne cs])
    then show ?thesis using False ne l by (cases ?r) (simp_all add: path_clean_def Let_def)
  qed
qed (simp add: path_clean_def)

lemma plain_comps_no_slash: "list_all plain_comp cs \<Longrightarrow> list_all (\<lambda>p. CHR ''/'' \<notin> set p) cs"
  by (auto simp: list_all_iff plain_comp_def)

lemma join_snoc: "join_with c (cs @ [n]) = (if cs = [] then n else join_with c cs @ c # n)"
  by (induction c cs rule: join_with.induct) auto

lemma join_plain_neq:
  assumes "list_all plain_comp cs" "cs \<noteq> []"
  shows "join_with (CHR ''/'') cs \<noteq> ''''" "hd (join_with (CHR ''/'') cs) \<noteq> CHR ''/''"
    "join_with (CHR ''/'') cs \<noteq> ''.''" "\<not> has_prefix ''./'' (join_with (CHR ''/'') cs)"
proof -
  let ?j = "join_with (CHR ''/'') cs"
  have s: "split_char (CHR ''/'') ?j = cs" by (rule split_join[OF assms(2) plain_comps_no_slash[OF assms(1)]])
  have h: "plain_comp (hd cs)" using assms by (cases cs) auto
  show "?j \<noteq> ''''" "?j \<noteq> ''.''" using s h by (auto simp: plain_comp_def)
  show "hd ?j \<noteq> CHR ''/''"
  proof
    assume "hd ?j = CHR ''/''"
    then obtain x where "?j = CHR ''/'' # x" using \<open>?j \<noteq> ''''\<close> by (cases ?j) auto
    then show False using s h by (auto simp: plain_comp_def)
  qed
  show "\<not> has_prefix ''./'' ?j"
  proof
    assume "has_prefix ''./'' ?j"
    then obtain x where "?j = CHR ''.'' # CHR ''/'' # x" unfolding has_prefix_def
      by (metis append_take_drop_id append_Cons append_Nil)
    then show False using s h by (auto simp: plain_comp_def)
  qed
qed

lemma path_clean_join:
  assumes "list_all plain_comp cs" "cs \<noteq> []"
  shows "path_clean (join_with (CHR ''/'') cs) = join_with (CHR ''/'') cs"
    "path_clean (join_with (CHR ''/'') cs @ ''/'') = join_with (CHR ''/'') cs"
proof -
  let ?j = "join_with (CHR ''/'') cs"
  have s: "split_char (CHR ''/'') ?j = cs" by (rule split_join[OF assms(2) plain_comps_no_slash[OF assms(1)]])
  note j = join_plain_neq[OF assms]
  show "path_clean ?j = ?j" using j s clean_comps_id[OF assms(1)] assms(2) by (simp add: path_clean_def Let_def)
  have "split_char (CHR ''/'') (?j @ ''/'') = cs @ ['''']" using split_char_append2[of "CHR ''/''" ?j "''''"] s by simp
  moreover have "clean_comps r (cs @ ['''']) = cs" for r
    using clean_comps_id[OF assms(1)] by (simp add: clean_comps_plain_snoc clean_step_def)
  ultimately show "path_clean (?j @ ''/'') = ?j" using j assms(2) by (simp add: path_clean_def Let_def hd_append)
qed

lemma path_join_plain:
  assumes "list_all plain_comp cs" "plain_comp n"
  shows "path_join [join_with (CHR ''/'') cs, n] = join_with (CHR ''/'') (cs @ [n])"
proof (cases "cs = []")
  case True
  then show ?thesis using path_clean_join(1)[of "[n]"] assms(2) by (auto simp: path_join_def plain_comp_def)
next
  case False
  then show ?thesis using path_clean_join(1)[of "cs @ [n]"] join_plain_neq(1)[OF assms(1) False] assms
    by (auto simp: path_join_def plain_comp_def join_snoc)
qed

lemma path_split_join:
  assumes "plain_comp n"
  shows "path_split (join_with (CHR ''/'') (cs @ [n])) = (if cs = [] then '''' else join_with (CHR ''/'') cs @ ''/'', n)"
proof -
  have n: "CHR ''/'' \<notin> set n" using assms by (simp add: plain_comp_def)
  then have t: "takeWhile (\<lambda>c. c \<noteq> CHR ''/'') (rev n) = rev n" "dropWhile (\<lambda>c. c \<noteq> CHR ''/'') (rev n) = []"
    by (auto simp: takeWhile_eq_all_conv dropWhile_eq_Nil_conv)
  have u: "takeWhile (\<lambda>c. c \<noteq> CHR ''/'') (rev n @ CHR ''/'' # xs) = rev n"
      "dropWhile (\<lambda>c. c \<noteq> CHR ''/'') (rev n @ CHR ''/'' # xs) = CHR ''/'' # xs" for xs
    using n by (subst takeWhile_append2, auto) (subst dropWhile_append2, auto)
  show ?thesis by (simp add: path_split_def join_snoc t u)
qed

section \<open>Numbers\<close>

definition lower_char :: "char \<Rightarrow> nat" where
  "lower_char c = (let n = of_char c in if 65 \<le> n \<and> n \<le> 90 then n + 32 else n)"

definition digit_of :: "char \<Rightarrow> nat option" where
  "digit_of c =
     (let n = of_char c; l = lower_char c in
      if 48 \<le> n \<and> n \<le> 57 then Some (n - 48)
      else if 97 \<le> l \<and> l \<le> 122 then Some (l - 97 + 10) else None)"

fun parse_digits :: "nat \<Rightarrow> string \<Rightarrow> nat \<Rightarrow> nat option" where
  "parse_digits base [] v = Some v"
| "parse_digits base (c # cs) v =
     (case digit_of c of None \<Rightarrow> None
      | Some d \<Rightarrow> if d \<ge> base then None else parse_digits base cs (v * base + d))"

text \<open>\<open>strconv.ParseUint(s, base, bits)\<close> for an explicit base.\<close>

definition parse_uint :: "nat \<Rightarrow> nat \<Rightarrow> string \<Rightarrow> nat option" where
  "parse_uint base bits s =
     (if s = '''' then None
      else case parse_digits base s 0 of None \<Rightarrow> None | Some v \<Rightarrow> if v < 2 ^ bits then Some v else None)"

text \<open>
  With base 0 a prefix selects the base, and underscores may separate digits: each must follow a
  digit (or the prefix) and be followed by one.
\<close>

fun underscores_ok :: "bool \<Rightarrow> string \<Rightarrow> bool" where
  "underscores_ok after_digit [] = True"
| "underscores_ok after_digit (c # cs) =
     (if c = CHR ''_'' then after_digit \<and> cs \<noteq> [] \<and> hd cs \<noteq> CHR ''_'' \<and> underscores_ok False cs
      else underscores_ok True cs)"

definition base0_split :: "string \<Rightarrow> nat \<times> string \<times> bool \<times> string" where
  "base0_split s =
     (if s \<noteq> [] \<and> hd s = CHR ''0'' then
        (if length s \<ge> 3 \<and> lower_char (s ! 1) = 98 then (2, drop 2 s, True, drop 2 s)
         else if length s \<ge> 3 \<and> lower_char (s ! 1) = 111 then (8, drop 2 s, True, drop 2 s)
         else if length s \<ge> 3 \<and> lower_char (s ! 1) = 120 then (16, drop 2 s, True, drop 2 s)
         else (8, drop 1 s, False, s))
      else (10, s, False, s))"

definition parse_uint0 :: "nat \<Rightarrow> string \<Rightarrow> nat option" where
  "parse_uint0 bits s =
     (if s = '''' then None
      else let (base, digits, pre, checked) = base0_split s in
        if \<not> underscores_ok pre checked then None
        else case parse_digits base (filter (\<lambda>c. c \<noteq> CHR ''_'') digits) 0 of None \<Rightarrow> None
        | Some v \<Rightarrow> if v < 2 ^ bits then Some v else None)"

text \<open>\<open>strconv.ParseInt(s, 10, 64)\<close>.\<close>

definition parse_int64 :: "string \<Rightarrow> int option" where
  "parse_int64 s =
     (if s = '''' then None
      else let neg = (hd s = CHR ''-''); t = (if hd s = CHR ''+'' \<or> hd s = CHR ''-'' then tl s else s) in
        case parse_uint 10 64 t of None \<Rightarrow> None
        | Some v \<Rightarrow> if neg then (if v \<le> 2 ^ 63 then Some (- int v) else None)
                   else (if v < 2 ^ 63 then Some (int v) else None))"

lemma digit_of_digit: "is_digit c \<Longrightarrow> digit_of c = Some (digit_val c) \<and> digit_val c < 10"
  by (auto simp: is_digit_def digit_of_def digit_val_def Let_def)

lemma parse_digits_dec:
  "list_all is_digit s \<Longrightarrow> parse_digits 10 s v = Some (foldl (\<lambda>v c. v * 10 + digit_val c) v s)"
  by (induction s arbitrary: v) (auto dest!: digit_of_digit)

lemma parse_uint_format [simp]: "n < 2 ^ bits \<Longrightarrow> parse_uint 10 bits (format_dec n) = Some n"
  using dec_val_format[of n, unfolded dec_val_def]
  by (simp add: parse_uint_def parse_digits_dec format_dec_digits)

end
