(* ===== verification/Mtree.thy ===== *)
theory Mtree
  imports Prelude Codec Strings Device Image "HOL-Library.Multiset"
begin

text \<open>
  The mtree(5) specifications (\<open>pkg/mtree\<close>): parsing the text, writing a specification of a tree,
  and applying a specification to a tree. A Go map has no order: the keywords of a line are given to
  \<open>buildEntry\<close> as a list, whose order stands for the order the map happens to be iterated in, and
  the attributes of an entry are kept sorted by name. Opening a host file for \<open>contents=\<close> is a
  parameter. Walking a host directory (\<open>FromDir\<close>) is not modelled.
\<close>

section \<open>Entries\<close>

datatype node_type = TypeFile | TypeDir | TypeLink | TypeBlock | TypeChar | TypeFifo | TypeSocket

record entry =
  en_path :: string
  en_type :: "node_type option"
  en_uid :: "nat option"
  en_gid :: "nat option"
  en_mode :: "filemode option"
  en_link :: "string option"
  en_major :: "nat option"
  en_minor :: "nat option"
  en_size :: "int option"
  en_time :: "gotime option"
  en_contents :: "string option"
  en_xattrs :: "(string \<times> bytes) list"

definition new_entry :: "string \<Rightarrow> entry" where
  "new_entry p = \<lparr> en_path = p, en_type = None, en_uid = None, en_gid = None, en_mode = None, en_link = None,
     en_major = None, en_minor = None, en_size = None, en_time = None, en_contents = None, en_xattrs = [] \<rparr>"

definition typeNames :: "(string \<times> node_type) list" where
  "typeNames = [(''file'', TypeFile), (''dir'', TypeDir), (''link'', TypeLink), (''block'', TypeBlock),
     (''char'', TypeChar), (''fifo'', TypeFifo), (''socket'', TypeSocket)]"

definition type_name :: "node_type \<Rightarrow> string" where
  "type_name t = (case find (\<lambda>p. snd p = t) typeNames of Some (n, _) \<Rightarrow> n | None \<Rightarrow> ''file'')"

fun type_mode :: "node_type \<Rightarrow> filemode" where
  "type_mode TypeDir = ModeDir"
| "type_mode TypeLink = ModeSymlink"
| "type_mode TypeBlock = ModeDevice"
| "type_mode TypeChar = ModeDevice OR ModeCharDevice"
| "type_mode TypeFifo = ModeNamedPipe"
| "type_mode TypeSocket = ModeSocket"
| "type_mode TypeFile = 0"

definition mt_typeOf :: "filemode \<Rightarrow> node_type" where
  "mt_typeOf m =
     (if mode_is_dir m then TypeDir
      else if has m ModeSymlink then TypeLink
      else if has m ModeCharDevice then TypeChar
      else if has m ModeDevice then TypeBlock
      else if has m ModeNamedPipe then TypeFifo
      else if has m ModeSocket then TypeSocket
      else TypeFile)"

text \<open>An \<open>Error\<close> carries the line it was found at; the model keeps the message.\<close>

definition errAt :: "string \<Rightarrow> error" where
  "errAt msg = Err (''mtree: '' @ msg)"

section \<open>Escapes and fields\<close>

definition cEscapes :: "(char \<times> nat) list" where
  "cEscapes = [(CHR ''n'', 10), (CHR ''r'', 13), (CHR ''t'', 9), (CHR ''b'', 8), (CHR ''f'', 12), (CHR ''v'', 11), (CHR ''a'', 7)]"

definition backslash :: char where "backslash = CHR 0x5C"

definition is_octal :: "char \<Rightarrow> bool" where
  "is_octal c \<longleftrightarrow> 48 \<le> (of_char c :: nat) \<and> (of_char c :: nat) \<le> 55"

fun unvis_loop :: "string \<Rightarrow> string result" where
  "unvis_loop [] = Inr []"
| "unvis_loop (x # xs) =
     (if x \<noteq> backslash then bindE (unvis_loop xs) (\<lambda>r. Inr (x # r))
      else case xs of [] \<Rightarrow> Inl (errAt ''dangling backslash'')
      | c # cs \<Rightarrow>
          if is_octal c then
            (case cs of
               d # e # rest \<Rightarrow>
                 (case parse_uint 8 8 [c, d, e] of
                    None \<Rightarrow> Inl (errAt ''bad octal escape'')
                  | Some n \<Rightarrow> bindE (unvis_loop rest) (\<lambda>r. Inr (char_of n # r)))
             | _ \<Rightarrow> Inl (errAt ''truncated octal escape''))
          else bindE (unvis_loop cs) (\<lambda>r. Inr ((case map_of cEscapes c of Some n \<Rightarrow> char_of n | None \<Rightarrow> c) # r)))"

definition unvis :: "string \<Rightarrow> string result" where
  "unvis s = (if backslash \<notin> set s then Inr s else unvis_loop s)"

definition oct_digit :: "nat \<Rightarrow> char" where
  "oct_digit d = char_of (48 + d mod 8)"

definition vis_char :: "char \<Rightarrow> string" where
  "vis_char c =
     (let n = of_char c :: nat in
      if c = backslash then [backslash, backslash]
      else if n \<le> 32 \<or> n \<ge> 127 \<or> c = CHR ''='' \<or> c = CHR ''#'' then
        [backslash, oct_digit (n div 64), oct_digit (n div 8), oct_digit n]
      else [c])"

definition vis :: "string \<Rightarrow> string" where
  "vis s = concat (map vis_char s)"

text \<open>\<open>splitFields\<close> walks the runes of the line and writes each back as UTF-8.\<close>

definition rune_string :: "nat \<Rightarrow> string" where
  "rune_string r = string_of_runes [r]"

fun split_loop :: "nat list \<Rightarrow> bool \<Rightarrow> string \<Rightarrow> string list \<Rightarrow> (string list) result" where
  "split_loop [] esc cur out =
     (if esc then Inl (errAt ''line ends with a dangling backslash'')
      else let out = (if cur \<noteq> [] then out @ [cur] else out) in
        if out = [] then Inl (errAt ''empty line reached the parser'') else Inr out)"
| "split_loop (r # rs) esc cur out =
     (if esc then split_loop rs False (cur @ backslash # rune_string r) out
      else if r = 92 then split_loop rs True cur out
      else if r = 32 \<or> r = 9 then
        (if cur \<noteq> [] then split_loop rs False [] (out @ [cur]) else split_loop rs False cur out)
      else split_loop rs False (cur @ rune_string r) out)"

definition splitFields :: "string \<Rightarrow> (string list) result" where
  "splitFields s = split_loop (runes s) False [] []"

section \<open>Values\<close>

definition mt_parseUint :: "nat \<Rightarrow> string \<Rightarrow> nat result" where
  "mt_parseUint base s = (case parse_uint base 32 s of None \<Rightarrow> Inl (errAt ''bad number'') | Some n \<Rightarrow> Inr n)"

text \<open>\<open>time.Unix(sec, nsec)\<close> brings the nanoseconds into range.\<close>

definition time_unix :: "int \<Rightarrow> int \<Rightarrow> gotime" where
  "time_unix sec nsec = \<lparr> gt_sec = i64 (sec + nsec div 1000000000), gt_nsec = nat (nsec mod 1000000000) \<rparr>"

definition parseTime :: "string \<Rightarrow> gotime result" where
  "parseTime s =
     (let (secStr, nsecStr) = (case cut_at (CHR ''.'') s of Some p \<Rightarrow> p | None \<Rightarrow> (s, [])) in
      case parse_int64 secStr of None \<Rightarrow> Inl (errAt ''bad time'')
      | Some sec \<Rightarrow>
          if nsecStr = [] then Inr (time_unix sec 0)
          else case parse_int64 nsecStr of None \<Rightarrow> Inl (errAt ''bad time'')
          | Some nsec \<Rightarrow> Inr (time_unix sec nsec))"

definition parseDevice :: "string \<Rightarrow> (nat \<times> nat) result" where
  "parseDevice s =
     (let parts = split_char (CHR '','') s in
      if length parts < 3 then Inl (errAt ''device needs format,major,minor'')
      else case parse_uint0 32 (parts ! (length parts - 2)) of None \<Rightarrow> Inl (errAt ''bad device major'')
      | Some major \<Rightarrow>
        (case parse_uint0 32 (parts ! (length parts - 1)) of None \<Rightarrow> Inl (errAt ''bad device minor'')
         | Some minor \<Rightarrow> Inr (major, minor)))"

definition permFromUnix :: "nat \<Rightarrow> filemode" where
  "permFromUnix m =
     (let w = (word_of_nat m :: filemode) in
      (w AND 0x1FF) OR (if w AND 0x800 \<noteq> 0 then ModeSetuid else 0)
        OR (if w AND 0x400 \<noteq> 0 then ModeSetgid else 0) OR (if w AND 0x200 \<noteq> 0 then ModeSticky else 0))"

definition unixFromPerm :: "filemode \<Rightarrow> nat" where
  "unixFromPerm m =
     unat (mode_perm m OR (if has m ModeSetuid then 0x800 else 0)
        OR (if has m ModeSetgid then 0x400 else 0) OR (if has m ModeSticky then 0x200 else 0))"

section \<open>Building an entry\<close>

fun set_attr :: "string \<Rightarrow> bytes \<Rightarrow> (string \<times> bytes) list \<Rightarrow> (string \<times> bytes) list" where
  "set_attr k v [] = [(k, v)]"
| "set_attr k v ((a, b) # xs) =
     (if k < a then (k, v) # (a, b) # xs else if k = a then (k, v) # xs else (a, b) # set_attr k v xs)"

text \<open>The path of an entry: absolute when the name has a slash, below the current directory otherwise.\<close>

definition entry_path :: "string \<Rightarrow> string list \<Rightarrow> string" where
  "entry_path name dir =
     (let c = trim_prefix ''./'' name;
          c = (if c = ''.'' then '''' else if CHR ''/'' \<notin> set name then path_join (dir @ [c]) else c)
      in trim_char (CHR ''/'') (path_clean (CHR ''/'' # c)))"

text \<open>One turn of the loop over the keywords.\<close>

definition apply_keyword :: "string \<times> string \<Rightarrow> entry \<Rightarrow> entry result" where
  "apply_keyword = (\<lambda>(k, v) e.
     if k = ''type'' then
       (case map_of typeNames v of None \<Rightarrow> Inl (errAt ''unknown type'') | Some t \<Rightarrow> Inr (e\<lparr>en_type := Some t\<rparr>))
     else if k = ''uid'' then bindE (mt_parseUint 10 v) (\<lambda>n. Inr (e\<lparr>en_uid := Some n\<rparr>))
     else if k = ''gid'' then bindE (mt_parseUint 10 v) (\<lambda>n. Inr (e\<lparr>en_gid := Some n\<rparr>))
     else if k = ''mode'' then bindE (mt_parseUint 8 v) (\<lambda>n. Inr (e\<lparr>en_mode := Some (permFromUnix n)\<rparr>))
     else if k = ''link'' then bindE (unvis v) (\<lambda>s. Inr (e\<lparr>en_link := Some s\<rparr>))
     else if k = ''size'' then
       (case parse_int64 v of None \<Rightarrow> Inl (errAt ''bad size'') | Some n \<Rightarrow> Inr (e\<lparr>en_size := Some n\<rparr>))
     else if k = ''time'' then bindE (parseTime v) (\<lambda>t. Inr (e\<lparr>en_time := Some t\<rparr>))
     else if k = ''device'' then bindE (parseDevice v) (\<lambda>(ma, mi). Inr (e\<lparr>en_major := Some ma, en_minor := Some mi\<rparr>))
     else if k = ''contents'' \<or> k = ''content'' then bindE (unvis v) (\<lambda>s. Inr (e\<lparr>en_contents := Some s\<rparr>))
     else if has_prefix ''xattr.'' k then
       bindE (unvis v) (\<lambda>s. Inr (e\<lparr>en_xattrs := set_attr (drop 6 k) (bytes_of s) (en_xattrs e)\<rparr>))
     else Inr e)"

fun apply_keywords :: "(string \<times> string) list \<Rightarrow> entry \<Rightarrow> entry result" where
  "apply_keywords [] e = Inr e"
| "apply_keywords (kv # kvs) e = bindE (apply_keyword kv e) (apply_keywords kvs)"

definition mt_buildEntry :: "string \<Rightarrow> (string \<times> string) list \<Rightarrow> string list \<Rightarrow> entry result" where
  "mt_buildEntry name kw dir = apply_keywords kw (new_entry (entry_path name dir))"

fun set_key :: "string \<Rightarrow> string \<Rightarrow> (string \<times> string) list \<Rightarrow> (string \<times> string) list" where
  "set_key k v [] = [(k, v)]"
| "set_key k v ((a, b) # xs) = (if k = a then (k, v) # xs else (a, b) # set_key k v xs)"

definition add_field :: "string \<Rightarrow> (string \<times> string) list \<Rightarrow> (string \<times> string) list" where
  "add_field f out = (case cut_at (CHR ''='') f of None \<Rightarrow> set_key f '''' out | Some (k, v) \<Rightarrow> set_key k v out)"

definition keywords_of :: "(string \<times> string) list \<Rightarrow> string list \<Rightarrow> (string \<times> string) list" where
  "keywords_of defaults fs = fold add_field fs defaults"

section \<open>Parsing\<close>

text \<open>\<open>strings.TrimSpace\<close>: the runes of \<open>unicode.IsSpace\<close> at both ends.\<close>

definition is_space :: "nat \<Rightarrow> bool" where
  "is_space r \<longleftrightarrow> r \<in> {9, 10, 11, 12, 13, 32, 0x85, 0xA0, 0x1680, 0x2028, 0x2029, 0x202F, 0x205F, 0x3000}
     \<or> 0x2000 \<le> r \<and> r \<le> 0x200A"

text \<open>The runes of a string with the bytes each one stands for.\<close>

function rune_chunks :: "string \<Rightarrow> (nat \<times> string) list" where
  "rune_chunks [] = []"
| "rune_chunks (c # cs) =
     (let (r, n) = decode_rune (of_char c) (map of_char cs) in
      (r, take n (c # cs)) # rune_chunks (drop (n - 1) cs))"
  by pat_completeness auto
termination
  by (relation "measure length") auto

definition trim_space :: "string \<Rightarrow> string" where
  "trim_space s =
     concat (map snd (rev (dropWhile (\<lambda>p. is_space (fst p)) (rev (dropWhile (\<lambda>p. is_space (fst p)) (rune_chunks s))))))"

text \<open>
  \<open>bufio.Scanner\<close> with a 4 MiB buffer: lines without their end, a longer one an error after the
  lines before it.
\<close>

definition drop_cr :: "string \<Rightarrow> string" where
  "drop_cr s = trim_suffix_char (CHR 0x0D) s"

fun scan_loop :: "string list \<Rightarrow> string list \<times> error option" where
  "scan_loop [] = ([], None)"
| "scan_loop (l # ls) =
     (if length l \<ge> 4194304 then ([], Some (Err ''bufio.Scanner: token too long''))
      else case scan_loop ls of (r, e) \<Rightarrow> (drop_cr l # r, e))"

definition scan_lines :: "string \<Rightarrow> string list \<times> error option" where
  "scan_lines s =
     (let parts = split_char (CHR 0x0A) s in scan_loop (if last parts = [] then butlast parts else parts))"

record pstate =
  ps_entries :: "entry list"
  ps_defaults :: "(string \<times> string) list"
  ps_dir :: "string list"

fun set_defaults :: "string list \<Rightarrow> (string \<times> string) list \<Rightarrow> ((string \<times> string) list) result" where
  "set_defaults [] defs = Inr defs"
| "set_defaults (f # fs) defs =
     (case cut_at (CHR ''='') f of None \<Rightarrow> Inl (errAt ''/set needs keyword=value'')
      | Some (k, v) \<Rightarrow> set_defaults fs (set_key k v defs))"

text \<open>One line of the specification; \<open>iter\<close> is the order the keyword map is iterated in.\<close>

definition parse_line ::
  "((string \<times> string) list \<Rightarrow> (string \<times> string) list) \<Rightarrow> string \<Rightarrow> pstate \<Rightarrow> pstate result" where
  "parse_line iter raw st =
     (let text = trim_space raw in
      if text = '''' \<or> has_prefix ''#'' text then Inr st
      else bindE (splitFields text) (\<lambda>fs.
        if hd fs = ''/set'' then bindE (set_defaults (tl fs) (ps_defaults st)) (\<lambda>d. Inr (st\<lparr>ps_defaults := d\<rparr>))
        else if hd fs = ''/unset'' then
          Inr (st\<lparr>ps_defaults := filter (\<lambda>p. fst p \<notin> set (tl fs)) (ps_defaults st)\<rparr>)
        else if hd fs = ''..'' then Inr (st\<lparr>ps_dir := butlast (ps_dir st)\<rparr>)
        else bindE (unvis (hd fs)) (\<lambda>name.
          bindE (mt_buildEntry name (iter (keywords_of (ps_defaults st) (tl fs))) (ps_dir st)) (\<lambda>e.
            Inr (st\<lparr>ps_entries := ps_entries st @ [e],
              ps_dir := (if en_type e = Some TypeDir \<and> CHR ''/'' \<notin> set name \<and> name \<noteq> ''.''
                         then ps_dir st @ [name] else ps_dir st)\<rparr>)))))"

fun parse_lines ::
  "((string \<times> string) list \<Rightarrow> (string \<times> string) list) \<Rightarrow> string list \<Rightarrow> pstate \<Rightarrow> pstate result" where
  "parse_lines iter [] st = Inr st"
| "parse_lines iter (l # ls) st = bindE (parse_line iter l st) (parse_lines iter ls)"

definition mt_Parse :: "((string \<times> string) list \<Rightarrow> (string \<times> string) list) \<Rightarrow> string \<Rightarrow> (entry list) result" where
  "mt_Parse iter text =
     (case scan_lines text of (ls, err) \<Rightarrow>
        bindE (parse_lines iter ls \<lparr> ps_entries = [], ps_defaults = [], ps_dir = [] \<rparr>) (\<lambda>st.
          case err of Some e \<Rightarrow> Inl e | None \<Rightarrow> Inr (ps_entries st)))"

section \<open>Writing\<close>

text \<open>\<open>%0wd\<close> of a number, in base 10 and 8.\<close>

definition pad_zeros :: "nat \<Rightarrow> string \<Rightarrow> string" where
  "pad_zeros w s = replicate (w - length s) CHR ''0'' @ s"

fun format_oct :: "nat \<Rightarrow> string" where
  "format_oct n = (if n < 8 then [oct_digit n] else format_oct (n div 8) @ [oct_digit n])"

declare format_oct.simps [simp del]

definition format_int :: "int \<Rightarrow> string" where
  "format_int i = (if i < 0 then CHR ''-'' # format_dec (nat (- i)) else format_dec (nat i))"

definition entry_fields :: "string \<Rightarrow> node \<Rightarrow> string list" where
  "entry_fields p n =
     (let t = mt_typeOf (md_mode n) in
      [vis p, ''type='' @ type_name t, ''mode='' @ pad_zeros 4 (format_oct (unixFromPerm (md_mode n))),
       ''uid='' @ format_dec (md_uid n), ''gid='' @ format_dec (md_gid n)]
      @ (if is_zero_time (md_mtime n) then []
         else [''time='' @ format_int (gt_sec (md_mtime n)) @ ''.'' @ pad_zeros 9 (format_dec (gt_nsec (md_mtime n)))])
      @ (if t = TypeLink then [''link='' @ vis (in_link n)]
         else if t = TypeBlock \<or> t = TypeChar then
           [''device=native,'' @ format_dec (in_rdev n div 256) @ '','' @ format_dec (in_rdev n mod 256)]
         else if t = TypeFile then
           (case in_content n of Some c \<Rightarrow> [''size='' @ format_int (src_size c)] | None \<Rightarrow> [])
         else [])
      @ map (\<lambda>(k, v). ''xattr.'' @ k @ ''='' @ vis (string_of v)) (sort_by_name (md_xattrs n)))"

definition mt_writeEntry :: "string \<Rightarrow> node \<Rightarrow> string" where
  "mt_writeEntry p n = join_with CHR '' '' (entry_fields p n) @ [CHR 0x0A]"

function mt_walk :: "tnode \<Rightarrow> string \<Rightarrow> string" where
  "mt_walk (TNode r n kids) prefix =
     concat (map (\<lambda>(name, t). let p = path_join [prefix, name] in
       mt_writeEntry (''./'' @ p) (tn_node t) @ (if is_dir (tn_node t) then mt_walk t p else []))
     (sort_by_name kids))"
  by pat_completeness auto
termination
proof (relation "measure (\<lambda>(t, p). size t)")
  fix r n kids prefix name t p and e :: "string \<times> tnode"
  assume "e \<in> set (sort_by_name kids)" and e: "(name, t) = e"
  then have "(name, t) \<in> set kids" by simp
  then show "((t, p), TNode r n kids, prefix) \<in> measure (\<lambda>(t, p). size t)"
    by (auto dest!: size_list_estimation'[OF _ order.refl, of _ _ "\<lambda>p. size_prod (\<lambda>_. 0) size p"] simp: less_Suc_eq_le)
qed auto

definition mt_Write :: "tnode \<Rightarrow> string" where
  "mt_Write root =
     ''#mtree'' @ [CHR 0x0A] @ ''# Generated by fsforge.'' @ [CHR 0x0A] @ mt_writeEntry ''.'' (tn_node root) @ mt_walk root ''''"

section \<open>Applying\<close>

definition mt_findChild :: "heap \<Rightarrow> ref \<Rightarrow> string \<Rightarrow> ref option" where
  "mt_findChild h n name = map_of (nd_children (h ! n)) name"

definition mt_dir_node :: node where
  "mt_dir_node = new_node \<lparr> md_mode = ModeDir OR 0x1ED, md_uid = 0, md_gid = 0, md_mtime = zero_time, md_xattrs = [] \<rparr> 2"

definition mt_childDir :: "heap \<Rightarrow> ref \<Rightarrow> string \<Rightarrow> (heap \<times> ref) result" where
  "mt_childDir h parent name =
     (case ValidName name of Some e \<Rightarrow> Inl e
      | None \<Rightarrow>
        (case mt_findChild h parent name of
           Some r \<Rightarrow> if is_dir (h ! r) then Inr (h, r) else Inl (errAt (name @ '' is not a directory''))
         | None \<Rightarrow>
             let r = length h; h1 = add_nlink (h @ [mt_dir_node]) parent 1 in
             bindE (AddChild h1 parent name r) (\<lambda>h2. Inr (h2, r))))"

fun mt_childDirs :: "heap \<Rightarrow> ref \<Rightarrow> string list \<Rightarrow> (heap \<times> ref) result" where
  "mt_childDirs h parent [] = Inr (h, parent)"
| "mt_childDirs h parent (c # cs) = bindE (mt_childDir h parent c) (\<lambda>(h, r). mt_childDirs h r cs)"

definition defaultModeFor :: "entry \<Rightarrow> filemode" where
  "defaultModeFor e =
     (let t = (case en_type e of Some t \<Rightarrow> t | None \<Rightarrow> TypeFile) in
      type_mode t OR
        (if t = TypeDir then 0x1ED else if t = TypeLink then 0x1FF
         else if t \<in> {TypeBlock, TypeChar, TypeFifo, TypeSocket} then 0x180 else 0x1A4))"

fun upsert_attr :: "string \<Rightarrow> bytes \<Rightarrow> (string \<times> bytes) list \<Rightarrow> (string \<times> bytes) list" where
  "upsert_attr k v [] = [(k, v)]"
| "upsert_attr k v ((a, b) # xs) = (if k = a then (k, v) # xs else (a, b) # upsert_attr k v xs)"

text \<open>
  \<open>amend\<close>; \<open>open_host\<close> opens a host file and gives its bytes and size. The parent's link count
  is not adjusted when the type changes. \<open>n.Children != nil\<close> holds of a node with entries and of
  one whose entries were all removed before; the second kind is the argument \<open>emptied\<close>, which does
  not change here, since applying a specification removes nothing. On an error the caller gets no
  tree in the model; in the code the nodes amended before the error stay amended.
\<close>

definition set_meta :: "entry \<Rightarrow> node \<Rightarrow> node" where
  "set_meta e n =
     (let n = (case en_mode e of Some m \<Rightarrow> n\<lparr>md_mode := (md_mode n AND ModeType) OR m\<rparr> | None \<Rightarrow> n);
          n = (case en_uid e of Some u \<Rightarrow> n\<lparr>md_uid := u\<rparr> | None \<Rightarrow> n);
          n = (case en_gid e of Some g \<Rightarrow> n\<lparr>md_gid := g\<rparr> | None \<Rightarrow> n);
          n = (case en_time e of Some t \<Rightarrow> n\<lparr>md_mtime := t\<rparr> | None \<Rightarrow> n);
          n = (case en_link e of Some l \<Rightarrow> n\<lparr>in_link := l\<rparr> | None \<Rightarrow> n);
          n = (case (en_major e, en_minor e) of
                 (Some ma, Some mi) \<Rightarrow> n\<lparr>in_rdev := (ma * 256) OR mi\<rparr> | _ \<Rightarrow> n)
      in n\<lparr>md_xattrs := fold (\<lambda>(k, v). upsert_attr k v) (en_xattrs e) (md_xattrs n)\<rparr>)"

definition amend_node :: "(string \<Rightarrow> source option) \<Rightarrow> bool \<Rightarrow> entry \<Rightarrow> node \<Rightarrow> node result" where
  "amend_node open_host emptied e n =
     bindE (case en_type e of
         None \<Rightarrow> Inr n
       | Some t \<Rightarrow>
           if md_mode n AND ModeType \<noteq> type_mode t \<and> (nd_children n \<noteq> [] \<or> emptied)
           then Inl (errAt ''cannot change a non-empty directory'')
           else Inr (n\<lparr>md_mode := (md_mode n AND NOT ModeType) OR type_mode t\<rparr>))
       (\<lambda>n. let n = set_meta e n in
         bindE (case en_contents e of
             None \<Rightarrow> Inr n
           | Some p \<Rightarrow> (case open_host p of None \<Rightarrow> Inl (errAt ''contents'') | Some s \<Rightarrow> Inr (n\<lparr>in_content := Some s\<rparr>)))
           (\<lambda>n. Inr (if md_mode n AND ModeType = 0 \<and> in_content n = None
                     then n\<lparr>in_content := Some (bytes_source [])\<rparr> else n)))"

definition mt_amend :: "(string \<Rightarrow> source option) \<Rightarrow> ref set \<Rightarrow> heap \<Rightarrow> ref \<Rightarrow> entry \<Rightarrow> heap result" where
  "mt_amend open_host emptied h r e = bindE (amend_node open_host (r \<in> emptied) e (h ! r)) (\<lambda>n. Inr (h[r := n]))"

definition mt_new_node :: "entry \<Rightarrow> node" where
  "mt_new_node e = new_node \<lparr> md_mode = defaultModeFor e, md_uid = 0, md_gid = 0, md_mtime = zero_time, md_xattrs = [] \<rparr>
     (if en_type e = Some TypeDir then 2 else 1)"

definition mt_applyEntry :: "(string \<Rightarrow> source option) \<Rightarrow> ref set \<Rightarrow> ref \<Rightarrow> entry \<Rightarrow> heap \<Rightarrow> heap result" where
  "mt_applyEntry open_host emptied root e h =
     (if en_path e = '''' then mt_amend open_host emptied h root e
      else let parts = split_char (CHR ''/'') (en_path e) in
        bindE (mt_childDirs h root (butlast parts)) (\<lambda>(h, parent).
          case ValidName (last parts) of Some err \<Rightarrow> Inl err
          | None \<Rightarrow>
            (case mt_findChild h parent (last parts) of
               Some r \<Rightarrow> mt_amend open_host emptied h r e
             | None \<Rightarrow>
                 let r = length h; h1 = h @ [mt_new_node e];
                     h1 = (if en_type e = Some TypeDir then add_nlink h1 parent 1 else h1) in
                 bindE (AddChild h1 parent (last parts) r) (\<lambda>h2. mt_amend open_host emptied h2 r e))))"

fun mt_Apply :: "(string \<Rightarrow> source option) \<Rightarrow> ref set \<Rightarrow> ref \<Rightarrow> entry list \<Rightarrow> heap \<Rightarrow> heap result" where
  "mt_Apply open_host emptied root [] h = Inr h"
| "mt_Apply open_host emptied root (e # es) h =
     bindE (mt_applyEntry open_host emptied root e h) (mt_Apply open_host emptied root es)"

section \<open>Escaping round trip\<close>

lemma unvis_loop_plain: "backslash \<notin> set s \<Longrightarrow> unvis_loop s = Inr s"
  by (induction s) auto

lemma unvis_eq_loop: "unvis s = unvis_loop s"
  by (simp add: unvis_def unvis_loop_plain)

lemma char_of_nat_id [simp]: "char_of (of_char c :: nat) = c"
  by simp

lemma of_char_less: "(of_char c :: nat) < 256"
  by (metis of_char_of of_char_mod_256 mod_less_divisor zero_less_numeral)

lemma of_oct_digit [simp]: "(of_char (oct_digit d) :: nat) = 48 + d mod 8"
proof -
  have "d mod 8 < 8" by simp
  then have "48 + d mod 8 < 256" by linarith
  then show ?thesis by (simp add: oct_digit_def)
qed

lemma oct_digit_props: "is_octal (oct_digit d)" "digit_of (oct_digit d) = Some (d mod 8)"
proof -
  have "d mod 8 < 8" by simp
  then have "d mod 8 \<le> 7" by linarith
  then show "is_octal (oct_digit d)" "digit_of (oct_digit d) = Some (d mod 8)"
    by (simp_all add: is_octal_def digit_of_def Let_def)
qed

lemma parse_octal_byte: "n < 256 \<Longrightarrow> parse_uint 8 8 [oct_digit (n div 64), oct_digit (n div 8), oct_digit n] = Some n"
proof -
  assume n: "n < 256"
  have "(n div 64 mod 8 * 8 + n div 8 mod 8) * 8 + n mod 8 = n"
  proof -
    have "n div 64 < 8" using n by (simp add: less_mult_imp_div_less)
    moreover have "n div 64 = n div 8 div 8" by (simp add: div_mult2_eq[symmetric])
    ultimately show ?thesis by simp
  qed
  moreover have "n mod 8 < 8" "n div 8 mod 8 < 8" "n div 64 mod 8 < 8" by simp_all
  ultimately show ?thesis using n by (simp add: parse_uint_def oct_digit_props not_le[symmetric])
qed

lemma backslash_props: "\<not> is_octal backslash" "map_of cEscapes backslash = None"
  by (simp_all add: backslash_def is_octal_def cEscapes_def)

lemma unvis_vis_char: "unvis_loop (vis_char c @ rest) = bindE (unvis_loop rest) (\<lambda>r. Inr (c # r))"
  using parse_octal_byte[OF of_char_less[of c]]
  by (simp add: vis_char_def Let_def backslash_props oct_digit_props)

text \<open>
  C38. Escaping a name and decoding it gives the name back, for every string of bytes.
\<close>

theorem mtree_vis_round_trip: "unvis (vis s) = Inr s"
  unfolding unvis_eq_loop vis_def by (induction s) (simp_all add: unvis_vis_char)

section \<open>Modes\<close>

text \<open>
  The permission bits and the setuid, setgid and sticky bits survive being written as an octal
  mode.
\<close>

lemma mtree_mode_round_trip:
  "permFromUnix (unixFromPerm m) = m AND (0x1FF OR ModeSetuid OR ModeSetgid OR ModeSticky)"
proof (rule bit_word_eqI)
  fix k
  let ?u = "mode_perm m OR (if has m ModeSetuid then 0x800 else 0) OR (if has m ModeSetgid then 0x400 else 0)
      OR (if has m ModeSticky then 0x200 else 0)"
  have flag: "bit (push_bit n 1 :: filemode) j \<longleftrightarrow> j = n" if "n < 32" for n j
    using that by (auto simp: bit_simps)
  have masks: "(0x1FF :: filemode) = mask 9" "(0x800 :: filemode) = push_bit 11 1" "(0x400 :: filemode) = push_bit 10 1"
    "(0x200 :: filemode) = push_bit 9 1" by (simp_all add: mask_eq_exp_minus_1)
  have bits: "bit (0x800 :: filemode) j \<longleftrightarrow> j = 11" "bit (0x400 :: filemode) j \<longleftrightarrow> j = 10"
    "bit (0x200 :: filemode) j \<longleftrightarrow> j = 9" "bit (0x1FF :: filemode) j \<longleftrightarrow> j < 9" for j
    unfolding masks using flag[of 11 j] flag[of 10 j] flag[of 9 j] by (auto simp: bit_mask_iff simp del: push_bit_of_1)
  have b: "bit ?u j \<longleftrightarrow> j < 9 \<and> bit m j \<or> j = 11 \<and> bit m 23 \<or> j = 10 \<and> bit m 22 \<or> j = 9 \<and> bit m 20" for j
    unfolding mode_perm_def by (auto simp: bits bit_or_iff bit_and_iff simp del: bit_numeral_word_iff)
  have h: "w AND 0x800 \<noteq> 0 \<longleftrightarrow> bit w 11" "w AND 0x400 \<noteq> 0 \<longleftrightarrow> bit w 10" "w AND 0x200 \<noteq> 0 \<longleftrightarrow> bit w 9" for w :: filemode
    using and_exp_eq_0_iff_not_bit[of w 11] and_exp_eq_0_iff_not_bit[of w 10] and_exp_eq_0_iff_not_bit[of w 9] by simp_all
  have md: "bit ModeSetuid j \<longleftrightarrow> j = 23" "bit ModeSetgid j \<longleftrightarrow> j = 22" "bit ModeSticky j \<longleftrightarrow> j = 20" for j
    using flag[of 23 j] flag[of 22 j] flag[of 20 j] by (simp_all only: mode_push_bit push_bit_eq_mult mult_1)
  have w: "(word_of_nat (unixFromPerm m) :: filemode) = ?u" by (simp add: unixFromPerm_def)
  show "bit (permFromUnix (unixFromPerm m)) k = bit (m AND (0x1FF OR ModeSetuid OR ModeSetgid OR ModeSticky)) k"
    unfolding permFromUnix_def w Let_def h b
    by (auto simp: b bits md mode_perm_def bit_or_iff bit_and_iff simp del: bit_numeral_word_iff)
qed

section \<open>Keywords in any order\<close>

lemma set_attr_commute: "k \<noteq> k' \<Longrightarrow> set_attr k v (set_attr k' v' xs) = set_attr k' v' (set_attr k v xs)"
  by (induction xs) auto

text \<open>What a keyword does once its value is parsed, and whether the value parses.\<close>

definition keyword_ok :: "string \<times> string \<Rightarrow> bool" where
  "keyword_ok kv \<longleftrightarrow> isOK (apply_keyword kv (new_entry ''''))"

definition keyword_upd :: "string \<times> string \<Rightarrow> entry \<Rightarrow> entry" where
  "keyword_upd kv e = (case apply_keyword kv e of Inr e' \<Rightarrow> e' | Inl x \<Rightarrow> e)"

lemma apply_keyword_split:
  "apply_keyword kv e = (case apply_keyword kv e0 of Inl x \<Rightarrow> Inl x | Inr e1 \<Rightarrow> Inr (keyword_upd kv e))"
  by (cases kv) (auto simp: apply_keyword_def keyword_upd_def bindE_def split: option.splits sum.splits prod.splits)

lemma apply_keywords_fold:
  "apply_keywords kvs e = Inr e' \<longleftrightarrow> list_all keyword_ok kvs \<and> e' = fold keyword_upd kvs e"
proof (induction kvs arbitrary: e)
  case (Cons kv kvs)
  have s: "apply_keyword kv e = (case apply_keyword kv (new_entry '''') of Inl x \<Rightarrow> Inl x | Inr e1 \<Rightarrow> Inr (keyword_upd kv e))"
    by (rule apply_keyword_split)
  show ?case
  proof (cases "apply_keyword kv (new_entry '''')")
    case (Inl x)
    then show ?thesis by (simp add: s keyword_ok_def)
  next
    case (Inr e1)
    then show ?thesis using Cons by (simp add: s keyword_ok_def)
  qed
qed auto

text \<open>Each keyword touches its own field, independently of the others.\<close>

definition okv :: "('a \<Rightarrow> 'b option) \<Rightarrow> 'a result \<Rightarrow> 'b option \<Rightarrow> 'b option" where
  "okv f r old = (case r of Inl e \<Rightarrow> old | Inr a \<Rightarrow> f a)"

lemma keyword_path:
  "en_path (keyword_upd (k, v) e) = en_path e"
  unfolding keyword_upd_def apply_keyword_def okv_def bindE_def prod.case
  by (simp split: option.splits sum.splits prod.splits)

lemma keyword_type:
  "en_type (keyword_upd (k, v) e) = (if k = ''type'' \<and> map_of typeNames v \<noteq> None then map_of typeNames v else en_type e)"
  unfolding keyword_upd_def apply_keyword_def okv_def bindE_def prod.case
  by (simp split: option.splits sum.splits prod.splits)

lemma keyword_uid:
  "en_uid (keyword_upd (k, v) e) = (if k = ''uid'' then okv Some (mt_parseUint 10 v) (en_uid e) else en_uid e)"
  unfolding keyword_upd_def apply_keyword_def okv_def bindE_def prod.case
  by (simp split: option.splits sum.splits prod.splits)

lemma keyword_gid:
  "en_gid (keyword_upd (k, v) e) = (if k = ''gid'' then okv Some (mt_parseUint 10 v) (en_gid e) else en_gid e)"
  unfolding keyword_upd_def apply_keyword_def okv_def bindE_def prod.case
  by (simp split: option.splits sum.splits prod.splits)

lemma keyword_mode:
  "en_mode (keyword_upd (k, v) e) = (if k = ''mode'' then okv (\<lambda>n. Some (permFromUnix n)) (mt_parseUint 8 v) (en_mode e) else en_mode e)"
  unfolding keyword_upd_def apply_keyword_def okv_def bindE_def prod.case
  by (simp split: option.splits sum.splits prod.splits)

lemma keyword_link:
  "en_link (keyword_upd (k, v) e) = (if k = ''link'' then okv Some (unvis v) (en_link e) else en_link e)"
  unfolding keyword_upd_def apply_keyword_def okv_def bindE_def prod.case
  by (simp split: option.splits sum.splits prod.splits)

lemma keyword_size:
  "en_size (keyword_upd (k, v) e) = (if k = ''size'' \<and> parse_int64 v \<noteq> None then parse_int64 v else en_size e)"
  unfolding keyword_upd_def apply_keyword_def okv_def bindE_def prod.case
  by (simp split: option.splits sum.splits prod.splits)

lemma keyword_time:
  "en_time (keyword_upd (k, v) e) = (if k = ''time'' then okv Some (parseTime v) (en_time e) else en_time e)"
  unfolding keyword_upd_def apply_keyword_def okv_def bindE_def prod.case
  by (simp split: option.splits sum.splits prod.splits)

lemma keyword_major:
  "en_major (keyword_upd (k, v) e) = (if k = ''device'' then okv (\<lambda>p. Some (fst p)) (parseDevice v) (en_major e) else en_major e)"
  unfolding keyword_upd_def apply_keyword_def okv_def bindE_def prod.case
  by (simp split: option.splits sum.splits prod.splits)

lemma keyword_minor:
  "en_minor (keyword_upd (k, v) e) = (if k = ''device'' then okv (\<lambda>p. Some (snd p)) (parseDevice v) (en_minor e) else en_minor e)"
  unfolding keyword_upd_def apply_keyword_def okv_def bindE_def prod.case
  by (simp split: option.splits sum.splits prod.splits)

lemma keyword_contents:
  "en_contents (keyword_upd (k, v) e) = (if k = ''contents'' \<or> k = ''content'' then okv Some (unvis v) (en_contents e) else en_contents e)"
  unfolding keyword_upd_def apply_keyword_def okv_def bindE_def prod.case
  by (simp split: option.splits sum.splits prod.splits)

lemmas keyword_fields = keyword_path keyword_type keyword_uid keyword_gid keyword_mode keyword_link keyword_size keyword_time keyword_major keyword_minor keyword_contents

lemma keyword_xattrs:
  "en_xattrs (keyword_upd (k, v) e) =
     (if has_prefix ''xattr.'' k then
        (case unvis v of Inl x \<Rightarrow> en_xattrs e | Inr s \<Rightarrow> set_attr (drop 6 k) (bytes_of s) (en_xattrs e))
      else en_xattrs e)"
  unfolding keyword_upd_def apply_keyword_def bindE_def has_prefix_def prod.case
  by (simp split: option.splits sum.splits prod.splits)

lemma keyword_upd_commute:
  assumes ne: "fst a \<noteq> fst b" and nc: "\<not> (fst a \<in> {''contents'', ''content''} \<and> fst b \<in> {''contents'', ''content''})"
  shows "keyword_upd a (keyword_upd b e) = keyword_upd b (keyword_upd a e)"
proof -
  obtain k v k' v' where ab: "a = (k, v)" "b = (k', v')" by (cases a, cases b)
  have k: "k \<noteq> k'" using ne by (simp add: ab)
  have x: "drop 6 k \<noteq> drop 6 k'" if "has_prefix ''xattr.'' k" "has_prefix ''xattr.'' k'"
  proof
    assume "drop 6 k = drop 6 k'"
    moreover have "take 6 k = take 6 k'" using that by (simp add: has_prefix_def numeral_eq_Suc)
    ultimately show False using k by (metis append_take_drop_id)
  qed
  show ?thesis unfolding ab
  proof (rule entry.equality)
    show "en_xattrs (keyword_upd (k, v) (keyword_upd (k', v') e)) = en_xattrs (keyword_upd (k', v') (keyword_upd (k, v) e))"
      using x by (auto simp: keyword_xattrs set_attr_commute split: sum.splits)
    have "\<not> (k \<in> {''contents'', ''content''} \<and> k' \<in> {''contents'', ''content''})" using nc by (simp add: ab)
    then show "en_contents (keyword_upd (k, v) (keyword_upd (k', v') e)) = en_contents (keyword_upd (k', v') (keyword_upd (k, v) e))"
      by (auto simp: keyword_contents)
    show "en_path (keyword_upd (k, v) (keyword_upd (k', v') e)) = en_path (keyword_upd (k', v') (keyword_upd (k, v) e))"
      by (simp add: keyword_path)
    show "en_type (keyword_upd (k, v) (keyword_upd (k', v') e)) = en_type (keyword_upd (k', v') (keyword_upd (k, v) e))"
      using k by (auto simp: keyword_type)
    show "en_uid (keyword_upd (k, v) (keyword_upd (k', v') e)) = en_uid (keyword_upd (k', v') (keyword_upd (k, v) e))"
      using k by (auto simp: keyword_uid)
    show "en_gid (keyword_upd (k, v) (keyword_upd (k', v') e)) = en_gid (keyword_upd (k', v') (keyword_upd (k, v) e))"
      using k by (auto simp: keyword_gid)
    show "en_mode (keyword_upd (k, v) (keyword_upd (k', v') e)) = en_mode (keyword_upd (k', v') (keyword_upd (k, v) e))"
      using k by (auto simp: keyword_mode)
    show "en_link (keyword_upd (k, v) (keyword_upd (k', v') e)) = en_link (keyword_upd (k', v') (keyword_upd (k, v) e))"
      using k by (auto simp: keyword_link)
    show "en_size (keyword_upd (k, v) (keyword_upd (k', v') e)) = en_size (keyword_upd (k', v') (keyword_upd (k, v) e))"
      using k by (auto simp: keyword_size)
    show "en_time (keyword_upd (k, v) (keyword_upd (k', v') e)) = en_time (keyword_upd (k', v') (keyword_upd (k, v) e))"
      using k by (auto simp: keyword_time)
    show "en_major (keyword_upd (k, v) (keyword_upd (k', v') e)) = en_major (keyword_upd (k', v') (keyword_upd (k, v) e))"
      using k by (auto simp: keyword_major)
    show "en_minor (keyword_upd (k, v) (keyword_upd (k', v') e)) = en_minor (keyword_upd (k', v') (keyword_upd (k, v) e))"
      using k by (auto simp: keyword_minor)
  qed simp
qed

text \<open>
  C39. The keywords of a line are held in a map whose iteration order varies from run to run; for a
  line that does not give both \<open>contents\<close> and \<open>content\<close> the entry built from it does not
  depend on that order.
\<close>

theorem mtree_keyword_order_is_irrelevant:
  assumes "distinct (map fst kw)" "\<not> {''contents'', ''content''} \<subseteq> fst ` set kw"
    and "mset kw' = mset kw" "mt_buildEntry name kw dir = Inr e"
  shows "mt_buildEntry name kw' dir = Inr e"
proof -
  let ?e0 = "new_entry (entry_path name dir)"
  have ok: "list_all keyword_ok kw" "e = fold keyword_upd kw ?e0"
    using assms(4) apply_keywords_fold by (simp_all add: mt_buildEntry_def)
  have "keyword_upd a \<circ> keyword_upd b = keyword_upd b \<circ> keyword_upd a" if "a \<in> set kw" "b \<in> set kw" for a b
  proof (cases "a = b")
    case False
    have "fst a \<noteq> fst b" using assms(1) that False by (auto simp: distinct_map inj_on_def)
    moreover have "\<not> (fst a \<in> {''contents'', ''content''} \<and> fst b \<in> {''contents'', ''content''})"
    proof
      assume c: "fst a \<in> {''contents'', ''content''} \<and> fst b \<in> {''contents'', ''content''}"
      have "fst a \<in> fst ` set kw" "fst b \<in> fst ` set kw" using that by simp_all
      then show False using assms(2) c \<open>fst a \<noteq> fst b\<close>
        by (elim conjE insertE) (simp_all del: image_iff)
    qed
    ultimately show ?thesis by (intro ext) (simp only: comp_apply keyword_upd_commute[OF \<open>fst a \<noteq> fst b\<close>] not_False_eq_True)
  qed simp
  then have "fold keyword_upd kw ?e0 = fold keyword_upd kw' ?e0"
    using fold_multiset_equiv[of kw keyword_upd kw'] assms(3) by metis
  moreover have "list_all keyword_ok kw'" using ok(1) assms(3) by (metis list_all_iff set_mset_mset)
  ultimately show ?thesis using ok(2) apply_keywords_fold by (simp add: mt_buildEntry_def)
qed

theorem mtree_keyword_order_is_irrelevant_witness:
  "mt_buildEntry ''./etc'' [(''type'', ''dir''), (''xattr.user.a'', ''1'')] [] =
     Inr ((new_entry (entry_path ''./etc'' []))\<lparr>en_type := Some TypeDir, en_xattrs := [(''user.a'', bytes_of ''1'')]\<rparr>)"
  by (rule mtree_keyword_order_is_irrelevant[of "[(''xattr.user.a'', ''1''), (''type'', ''dir'')]"])
    (simp_all add: mt_buildEntry_def apply_keyword_def unvis_def backslash_def has_prefix_def typeNames_def new_entry_def)

text \<open>
  With both keywords on a line, the file an entry takes its contents from is whichever one the
  map yields last: two orders of one map give two entries.
\<close>

lemma mtree_contents_keywords_conflict:
  "mset [(''content'', ''a''), (''contents'', ''b'')] = mset [(''contents'', ''b''), (''content'', ''a'')]
    \<and> (\<exists>e e'. mt_buildEntry name [(''content'', ''a''), (''contents'', ''b'')] dir = Inr e \<and> en_contents e = Some ''b''
      \<and> mt_buildEntry name [(''contents'', ''b''), (''content'', ''a'')] dir = Inr e' \<and> en_contents e' = Some ''a'')"
  by (simp add: mt_buildEntry_def apply_keyword_def unvis_def backslash_def)

end
