(* ===== verification/Oci.thy ===== *)
theory Oci
  imports Prelude Codec Strings Device Image
begin

text \<open>
  The layers of OCI images (\<open>pkg/oci\<close>: \<open>flatten.go\<close>, \<open>diff.go\<close>, \<open>layer.go\<close>): applying the
  entries of a tar layer to a tree, whiteouts included, and writing a tree or the difference of two
  trees as the entries of a layer. A tar stream is the list of its entries, header and body, with
  the error that ends it, if any: the encoding is \<open>archive/tar\<close>'s. Nodes are references into the
  store of \<open>Image\<close>, the root being 0.
\<close>

section \<open>Tar entries\<close>

record tar_hdr =
  th_name :: string
  th_flag :: char
  th_linkname :: string
  th_mode :: "64 word"
  th_uid :: int
  th_gid :: int
  th_mtime :: gotime
  th_size :: int
  th_devmajor :: int
  th_devminor :: int
  th_pax :: "(string \<times> string) list"

text \<open>Reading the body of an entry may fail.\<close>

type_synonym tar_entry = "tar_hdr \<times> bytes result"

abbreviation "TypeReg \<equiv> CHR ''0''"
abbreviation "TypeRegA \<equiv> CHR 0x00"
abbreviation "TypeHard \<equiv> CHR ''1''"
abbreviation "TypeSymlink \<equiv> CHR ''2''"
abbreviation "TypeChar \<equiv> CHR ''3''"
abbreviation "TypeBlock \<equiv> CHR ''4''"
abbreviation "TypeDir \<equiv> CHR ''5''"
abbreviation "TypeFifo \<equiv> CHR ''6''"

definition whiteoutPrefix :: string where "whiteoutPrefix = ''.wh.''"
definition whiteoutOpaque :: string where "whiteoutOpaque = ''.wh..wh..opq''"

section \<open>Flattening\<close>

text \<open>A scratch file that was written and is read back.\<close>

definition scratch_source :: "bytes \<Rightarrow> source" where
  "scratch_source b = \<lparr> src_size = int (length b),
     src_read_at = (\<lambda>n off. if off < 0 then ([], Some (Err ''negative offset'')) else bytes_read_at b n off) \<rparr>"

record applier =
  ap_heap :: heap
  ap_seq :: nat

text \<open>\<open>tmp\<close> says whether creating and filling the n-th scratch file fails.\<close>

definition spill :: "(nat \<Rightarrow> error option) \<Rightarrow> bytes result \<Rightarrow> applier \<Rightarrow> source result \<times> applier" where
  "spill tmp body a =
     (let s = ap_seq a + 1; a = a\<lparr>ap_seq := s\<rparr> in
      (case tmp s of Some e \<Rightarrow> Inl e
       | None \<Rightarrow> bindE body (\<lambda>b. Inr (scratch_source b)), a))"

definition modeFromTar :: "tar_hdr \<Rightarrow> filemode" where
  "modeFromTar hdr =
     (let m = th_mode hdr in
      ucast (m AND 0x1FF) OR (if m AND 0x800 \<noteq> 0 then ModeSetuid else 0)
        OR (if m AND 0x400 \<noteq> 0 then ModeSetgid else 0) OR (if m AND 0x200 \<noteq> 0 then ModeSticky else 0))"

definition xattrsFromTar :: "tar_hdr \<Rightarrow> (string \<times> bytes) list" where
  "xattrsFromTar hdr =
     map (\<lambda>(k, v). (trim_prefix ''SCHILY.xattr.'' k, bytes_of v)) (filter (\<lambda>p. has_prefix ''SCHILY.xattr.'' (fst p)) (th_pax hdr))"

definition meta_of_hdr :: "tar_hdr \<Rightarrow> meta" where
  "meta_of_hdr hdr = \<lparr> md_mode = modeFromTar hdr, md_uid = u32_of_int (th_uid hdr), md_gid = u32_of_int (th_gid hdr),
     md_mtime = th_mtime hdr, md_xattrs = xattrsFromTar hdr \<rparr>"

definition checkPath :: "string \<Rightarrow> error option" where
  "checkPath p =
     (case find (\<lambda>c. c \<noteq> '''' \<and> ValidName c \<noteq> None) (split_char (CHR ''/'') p) of
        None \<Rightarrow> None | Some c \<Rightarrow> ValidName c)"

fun set_first :: "string \<Rightarrow> ref \<Rightarrow> (string \<times> ref) list \<Rightarrow> (string \<times> ref) list" where
  "set_first name r [] = [(name, r)]"
| "set_first name r (e # es) = (if fst e = name then (name, r) # es else e # set_first name r es)"

definition setChild :: "heap \<Rightarrow> ref \<Rightarrow> string \<Rightarrow> ref \<Rightarrow> heap" where
  "setChild h d name r = h[d := (h ! d)\<lparr>nd_children := set_first name r (nd_children (h ! d))\<rparr>]"

definition removeChild :: "heap \<Rightarrow> ref \<Rightarrow> string \<Rightarrow> heap" where
  "removeChild h d name = h[d := (h ! d)\<lparr>nd_children := remove_first name (nd_children (h ! d))\<rparr>]"

definition set_node_meta :: "meta \<Rightarrow> node \<Rightarrow> node" where
  "set_node_meta m n = n\<lparr>md_mode := md_mode m, md_uid := md_uid m, md_gid := md_gid m,
     md_mtime := md_mtime m, md_xattrs := md_xattrs m\<rparr>"

definition upsert :: "heap \<Rightarrow> ref \<Rightarrow> string \<Rightarrow> meta \<Rightarrow> heap \<times> ref" where
  "upsert h d name m =
     (case find_child h d name of
        Some r \<Rightarrow> (h[r := set_node_meta m (h ! r)], r)
      | None \<Rightarrow> (add_entry (h @ [new_node m 1]) d name (length h), length h))"

definition oci_dir_node :: node where
  "oci_dir_node = new_node \<lparr> md_mode = ModeDir OR 0x1ED, md_uid = 0, md_gid = 0, md_mtime = zero_time, md_xattrs = [] \<rparr> 2"

fun ensure_loop :: "heap \<Rightarrow> ref \<Rightarrow> string list \<Rightarrow> heap \<times> ref" where
  "ensure_loop h cur [] = (h, cur)"
| "ensure_loop h cur (p # ps) =
     (if p = '''' then ensure_loop h cur ps
      else case (case find_child h cur p of None \<Rightarrow> None | Some r \<Rightarrow> if is_dir (h ! r) then Some r else None) of
        Some r \<Rightarrow> ensure_loop h r ps
      | None \<Rightarrow> ensure_loop (setChild (h @ [oci_dir_node]) cur p (length h)) (length h) ps)"

definition ensureDir :: "heap \<Rightarrow> string \<Rightarrow> heap \<times> ref" where
  "ensureDir h p = (if p = '''' \<or> p = ''.'' then (h, 0) else ensure_loop h 0 (split_char (CHR ''/'') p))"

fun lookup_loop :: "heap \<Rightarrow> ref \<Rightarrow> string list \<Rightarrow> ref option" where
  "lookup_loop h cur [] = Some cur"
| "lookup_loop h cur (p # ps) =
     (if p = '''' then lookup_loop h cur ps
      else case find_child h cur p of None \<Rightarrow> None | Some r \<Rightarrow> lookup_loop h r ps)"

definition oci_lookup :: "heap \<Rightarrow> string \<Rightarrow> ref option" where
  "oci_lookup h p = lookup_loop h 0 (split_char (CHR ''/'') p)"

definition upd_node :: "(node \<Rightarrow> node) \<Rightarrow> heap \<times> ref \<Rightarrow> heap" where
  "upd_node f = (\<lambda>(h, r). h[r := f (h ! r)])"

definition with_type :: "filemode \<Rightarrow> node \<Rightarrow> node" where
  "with_type t n = n\<lparr>md_mode := (md_mode n AND NOT ModeType) OR t\<rparr>"

text \<open>What an entry that is neither a file nor a hard link makes of the node under its name.\<close>

definition as_dir :: "node \<Rightarrow> node" where
  "as_dir d =
     (let d = (if \<not> is_dir d then with_type ModeDir d else d) in if nd_nlink d < 2 then d\<lparr>nd_nlink := 2\<rparr> else d)"

definition entry_effect :: "tar_hdr \<Rightarrow> (node \<Rightarrow> node) option" where
  "entry_effect hdr =
     (let flag = th_flag hdr in
      if flag = TypeDir then Some as_dir
      else if flag = TypeSymlink then Some (\<lambda>n. (with_type ModeSymlink n)\<lparr>in_link := th_linkname hdr\<rparr>)
      else if flag = TypeChar \<or> flag = TypeBlock then
        Some (\<lambda>n. (with_type (if flag = TypeChar then ModeCharDevice OR ModeDevice else ModeDevice) n)
          \<lparr>in_rdev := unat (push_bit 8 (word_of_int (th_devmajor hdr) :: 64 word) OR word_of_int (th_devminor hdr))\<rparr>)
      else if flag = TypeFifo then Some (with_type ModeNamedPipe)
      else None)"

definition as_file :: "source \<Rightarrow> node \<Rightarrow> node" where
  "as_file src n = (with_type 0 n)\<lparr>in_content := Some src, nd_nlink := 1\<rparr>"

text \<open>Adding the node of an entry under its parent directory.\<close>

definition place_node :: "(nat \<Rightarrow> error option) \<Rightarrow> tar_entry \<Rightarrow> ref \<Rightarrow> string \<Rightarrow> applier \<Rightarrow> applier result" where
  "place_node tmp ent parent base a =
     (case ent of (hdr, body) \<Rightarrow>
      let h = ap_heap a; m = meta_of_hdr hdr; flag = th_flag hdr in
      if flag = TypeHard then
        (case oci_lookup h (path_clean (trim_prefix ''./'' (th_linkname hdr))) of
           None \<Rightarrow> Inl (Err (''oci: hard link to missing target: '' @ th_linkname hdr))
         | Some t \<Rightarrow> Inr (a\<lparr>ap_heap := setChild (add_nlink h t 1) parent base t\<rparr>))
      else if flag = TypeReg \<or> flag = TypeRegA then
        (case spill tmp body a of
           (Inl e, _) \<Rightarrow> Inl e
         | (Inr src, a) \<Rightarrow> Inr (a\<lparr>ap_heap := upd_node (as_file src) (upsert h parent base m)\<rparr>))
      else case entry_effect hdr of
        None \<Rightarrow> Inr a
      | Some f \<Rightarrow> Inr (a\<lparr>ap_heap := upd_node f (upsert h parent base m)\<rparr>))"

lemma entry_effect_children: "entry_effect hdr = Some f \<Longrightarrow> nd_children (f n) = nd_children n"
  by (auto simp: entry_effect_def as_dir_def with_type_def Let_def split: if_splits)

definition applyEntry :: "(nat \<Rightarrow> error option) \<Rightarrow> tar_entry \<Rightarrow> applier \<Rightarrow> applier result" where
  "applyEntry tmp ent a =
     (let name = path_clean (trim_prefix ''./'' (th_name (fst ent))) in
      if name = ''.'' \<or> name = ''/'' \<or> name = '''' then Inr a
      else case checkPath name of Some e \<Rightarrow> Inl e
      | None \<Rightarrow>
        let (dir, base) = path_split name;
            (h, parent) = ensureDir (ap_heap a) (trim_suffix_char (CHR ''/'') dir) in
        if base = whiteoutOpaque then
          Inr (a\<lparr>ap_heap := h[parent := (h ! parent)\<lparr>nd_children := []\<rparr>]\<rparr>)
        else if has_prefix whiteoutPrefix base then
          Inr (a\<lparr>ap_heap := removeChild h parent (trim_prefix whiteoutPrefix base)\<rparr>)
        else place_node tmp ent parent base (a\<lparr>ap_heap := h\<rparr>))"

fun apply_entries :: "(nat \<Rightarrow> error option) \<Rightarrow> tar_entry list \<Rightarrow> applier \<Rightarrow> applier result" where
  "apply_entries tmp [] a = Inr a"
| "apply_entries tmp (e # es) a = bindE (applyEntry tmp e a) (apply_entries tmp es)"

text \<open>A layer is what its blob decodes to: the entries and the error the stream ends with.\<close>

type_synonym tar_stream = "tar_entry list \<times> error option"

definition applyLayer :: "(nat \<Rightarrow> error option) \<Rightarrow> tar_stream result \<Rightarrow> applier \<Rightarrow> applier result" where
  "applyLayer tmp layer a =
     bindE layer (\<lambda>(es, err).
       bindE (apply_entries tmp es a) (\<lambda>a. case err of None \<Rightarrow> Inr a | Some e \<Rightarrow> Inl e))"

fun apply_layers :: "(nat \<Rightarrow> error option) \<Rightarrow> (tar_stream result) list \<Rightarrow> applier \<Rightarrow> applier result" where
  "apply_layers tmp [] a = Inr a"
| "apply_layers tmp (l # ls) a = bindE (applyLayer tmp l a) (apply_layers tmp ls)"

definition empty_applier :: applier where
  "empty_applier = \<lparr> ap_heap = [oci_dir_node], ap_seq = 0 \<rparr>"

definition flatten_layers :: "(nat \<Rightarrow> error option) \<Rightarrow> (tar_stream result) list \<Rightarrow> heap result" where
  "flatten_layers tmp ls = bindE (apply_layers tmp ls empty_applier) (\<lambda>a. Inr (ap_heap a))"

section \<open>Writing layers\<close>

text \<open>
  \<open>io.Copy\<close> from a section of a source, 32 KiB at a time; a source that keeps returning nothing and
  no error is copied for ever.
\<close>

function copy_section :: "source \<Rightarrow> nat \<Rightarrow> nat \<Rightarrow> bytes result" where
  "copy_section src sz off =
     (if off \<ge> sz then Inr []
      else case src_read_at src (min 32768 (sz - off)) (int off) of
        (data, err) \<Rightarrow>
          (case err of
             Some e \<Rightarrow> if e = EOF then Inr data else Inl e
           | None \<Rightarrow>
               if data = [] then Inl (Panic ''does not return'')
               else bindE (copy_section src sz (off + length data)) (\<lambda>r. Inr (data @ r))))"
  by pat_completeness auto
termination
  by (relation "measure (\<lambda>(src, sz, off). sz - off)") (auto intro!: diff_less_mono2)

declare copy_section.simps [simp del]

definition sourceSize :: "source option \<Rightarrow> int" where
  "sourceSize s = (case s of None \<Rightarrow> 0 | Some c \<Rightarrow> src_size c)"

definition devNums :: "nat \<Rightarrow> int \<times> int" where
  "devNums rdev = (int (rdev div 256), int (rdev mod 256))"

definition pax_of :: "node \<Rightarrow> (string \<times> string) list" where
  "pax_of n = map (\<lambda>(k, v). (''SCHILY.xattr.'' @ k, string_of v)) (md_xattrs n)"

definition base_hdr :: "node \<Rightarrow> string \<Rightarrow> tar_hdr" where
  "base_hdr n name = \<lparr> th_name = name, th_flag = TypeReg, th_linkname = '''', th_mode = ucast (mode_perm (md_mode n)),
     th_uid = int (md_uid n), th_gid = int (md_gid n), th_mtime = md_mtime n, th_size = 0,
     th_devmajor = 0, th_devminor = 0, th_pax = pax_of n \<rparr>"

text \<open>
  \<open>seen\<close> maps a shared file to the first name it was written under. The writer refuses a header
  it cannot encode (\<open>refuse\<close>) and, at the next header or at its end, a body shorter than announced.
\<close>

type_synonym seen = "ref \<Rightarrow> string option"

definition entry_hdr :: "node \<Rightarrow> string \<Rightarrow> tar_hdr" where
  "entry_hdr n name =
     (let hdr = base_hdr n name in
      if is_dir n then hdr\<lparr>th_flag := TypeDir, th_name := name @ ''/''\<rparr>
      else if has (md_mode n) ModeSymlink then hdr\<lparr>th_flag := TypeSymlink, th_linkname := in_link n\<rparr>
      else if has (md_mode n) ModeCharDevice then
        hdr\<lparr>th_flag := TypeChar, th_devmajor := fst (devNums (in_rdev n)), th_devminor := snd (devNums (in_rdev n))\<rparr>
      else if has (md_mode n) ModeDevice then
        hdr\<lparr>th_flag := TypeBlock, th_devmajor := fst (devNums (in_rdev n)), th_devminor := snd (devNums (in_rdev n))\<rparr>
      else if has (md_mode n) ModeNamedPipe then hdr\<lparr>th_flag := TypeFifo\<rparr>
      else hdr\<lparr>th_size := sourceSize (in_content n)\<rparr>)"

definition writeEntry ::
  "(tar_hdr \<Rightarrow> error option) \<Rightarrow> ref \<Rightarrow> node \<Rightarrow> string \<Rightarrow> seen \<Rightarrow> (tar_entry \<times> seen) result" where
  "writeEntry refuse r n name seen =
     (let hdr = entry_hdr n name in
      if th_flag hdr \<noteq> TypeReg then
        (case refuse hdr of Some e \<Rightarrow> Inl e | None \<Rightarrow> Inr ((hdr, Inr []), seen))
      else case seen r of
        Some first \<Rightarrow>
          let hdr = hdr\<lparr>th_flag := TypeHard, th_linkname := first, th_size := 0\<rparr> in
          (case refuse hdr of Some e \<Rightarrow> Inl e | None \<Rightarrow> Inr ((hdr, Inr []), seen))
      | None \<Rightarrow>
          let seen = (if nd_nlink n > 1 then seen(r := Some name) else seen) in
          (case refuse hdr of Some e \<Rightarrow> Inl e
           | None \<Rightarrow>
               (case in_content n of
                  None \<Rightarrow> Inr ((hdr, Inr []), seen)
                | Some c \<Rightarrow>
                    if src_size c \<le> 0 then Inr ((hdr, Inr []), seen)
                    else bindE (copy_section c (nat (src_size c)) 0) (\<lambda>b.
                      if int (length b) < src_size c then Inl (Err ''archive/tar: missed writing'')
                      else Inr ((hdr, Inr b), seen)))))"

type_synonym layer_out = "(tar_entry list \<times> seen) result"

function write_subtree :: "(tar_hdr \<Rightarrow> error option) \<Rightarrow> tnode \<Rightarrow> string \<Rightarrow> seen \<Rightarrow> layer_out"
  and write_children :: "(tar_hdr \<Rightarrow> error option) \<Rightarrow> (string \<times> tnode) list \<Rightarrow> string \<Rightarrow> seen \<Rightarrow> layer_out" where
  "write_subtree refuse (TNode r n kids) name seen =
     bindE (writeEntry refuse r n name seen) (\<lambda>(e, seen).
       if is_dir n then bindE (write_children refuse (sort_by_name kids) name seen) (\<lambda>(es, seen). Inr (e # es, seen))
       else Inr ([e], seen))"
| "write_children refuse [] prefix seen = Inr ([], seen)"
| "write_children refuse ((nm, t) # ks) prefix seen =
     bindE (write_subtree refuse t (path_join [prefix, nm]) seen) (\<lambda>(es, seen).
       bindE (write_children refuse ks prefix seen) (\<lambda>(es', seen). Inr (es @ es', seen)))"
  by pat_completeness auto
termination
  by (relation "measure (\<lambda>x. case x of Inl (_, t, _) \<Rightarrow> 2 * size t | Inr (_, ks, _) \<Rightarrow> 2 * sum_list (map (\<lambda>e. Suc (size (snd e))) ks) + 1)")
    (auto simp: size_list_conv_sum_list size_prod_simp)

definition tarTree :: "(tar_hdr \<Rightarrow> error option) \<Rightarrow> tnode \<Rightarrow> (tar_entry list) result" where
  "tarTree refuse root =
     bindE (write_children refuse (sort_by_name (tn_kids root)) '''' (\<lambda>_. None)) (\<lambda>(es, _). Inr es)"

section \<open>Differences\<close>

definition hashSource :: "(bytes \<Rightarrow> bytes) \<Rightarrow> source \<Rightarrow> bytes result" where
  "hashSource sha s = bindE (copy_section s (nat (src_size s)) 0) (\<lambda>b. Inr (sha b))"

definition regularChanged :: "(bytes \<Rightarrow> bytes) \<Rightarrow> source option \<Rightarrow> source option \<Rightarrow> bool result" where
  "regularChanged sha old new =
     (if sourceSize old \<noteq> sourceSize new then Inr True
      else case (old, new) of
        (Some o', Some n') \<Rightarrow>
          if sourceSize new = 0 then Inr False
          else bindE (hashSource sha o') (\<lambda>oh. bindE (hashSource sha n') (\<lambda>nh. Inr (oh \<noteq> nh)))
      | _ \<Rightarrow> Inr False)"

text \<open>A key missing on the right reads as the empty value.\<close>

definition xattrsEqual :: "(string \<times> bytes) list \<Rightarrow> (string \<times> bytes) list \<Rightarrow> bool" where
  "xattrsEqual xs ys \<longleftrightarrow> length xs = length ys
     \<and> list_all (\<lambda>(k, v). v = (case map_of ys k of None \<Rightarrow> [] | Some w \<Rightarrow> w)) xs"

definition changed :: "(bytes \<Rightarrow> bytes) \<Rightarrow> node \<Rightarrow> node \<Rightarrow> bool result" where
  "changed sha old new =
     (if md_mode old \<noteq> md_mode new \<or> md_uid old \<noteq> md_uid new \<or> md_gid old \<noteq> md_gid new then Inr True
      else if \<not> xattrsEqual (md_xattrs old) (md_xattrs new) then Inr True
      else if has (md_mode new) ModeSymlink then Inr (in_link old \<noteq> in_link new)
      else if has (md_mode new) (ModeDevice OR ModeCharDevice) then Inr (in_rdev old \<noteq> in_rdev new)
      else if mode_is_regular (md_mode new) then regularChanged sha (in_content old) (in_content new)
      else Inr False)"

definition unionNames :: "(string \<times> tnode) list \<Rightarrow> (string \<times> tnode) list \<Rightarrow> string list" where
  "unionNames xs ys = sort (remdups (map fst xs @ map fst ys))"

definition whiteout_hdr :: "string \<Rightarrow> tar_hdr" where
  "whiteout_hdr full =
     (case path_split full of (dir, base) \<Rightarrow>
        \<lparr> th_name = path_join [dir, whiteoutPrefix @ base], th_flag = TypeReg, th_linkname = '''', th_mode = 0,
          th_uid = 0, th_gid = 0, th_mtime = zero_time, th_size = 0, th_devmajor = 0, th_devminor = 0, th_pax = [] \<rparr>)"

definition writeWhiteout :: "(tar_hdr \<Rightarrow> error option) \<Rightarrow> string \<Rightarrow> tar_entry result" where
  "writeWhiteout refuse full =
     (let hdr = whiteout_hdr full in case refuse hdr of Some e \<Rightarrow> Inl e | None \<Rightarrow> Inr (hdr, Inr []))"

text \<open>The child maps: of two entries with one name the later wins.\<close>

definition childMap :: "(string \<times> tnode) list \<Rightarrow> string \<Rightarrow> tnode option" where
  "childMap kids = map_of (rev kids)"

lemma childMap_in: "childMap ks name = Some t \<Longrightarrow> (name, t) \<in> set ks"
  unfolding childMap_def by (metis map_of_SomeD set_rev)

lemma childMap_size: "childMap ks name = Some t \<Longrightarrow> size t < size_list (size_prod (\<lambda>_. 0) size) ks"
  using size_list_estimation[OF childMap_in, of ks name t "size t" "size_prod (\<lambda>_. 0) size"] by simp

function diffDir :: "(bytes \<Rightarrow> bytes) \<Rightarrow> (tar_hdr \<Rightarrow> error option) \<Rightarrow> tnode \<Rightarrow> tnode \<Rightarrow> string \<Rightarrow> seen \<Rightarrow> layer_out"
  and diff_names :: "(bytes \<Rightarrow> bytes) \<Rightarrow> (tar_hdr \<Rightarrow> error option) \<Rightarrow> string list
    \<Rightarrow> (string \<times> tnode) list \<Rightarrow> (string \<times> tnode) list \<Rightarrow> string \<Rightarrow> seen \<Rightarrow> layer_out" where
  "diffDir sha refuse old new prefix seen =
     diff_names sha refuse (unionNames (tn_kids old) (tn_kids new)) (tn_kids old) (tn_kids new) prefix seen"
| "diff_names sha refuse [] oks nks prefix seen = Inr ([], seen)"
| "diff_names sha refuse (name # names) oks nks prefix seen =
     (let full = path_join [prefix, name] in
      bindE (case childMap nks name of
          None \<Rightarrow> bindE (writeWhiteout refuse full) (\<lambda>e. Inr ([e], seen))
        | Some n \<Rightarrow>
          (case childMap oks name of
             None \<Rightarrow> write_subtree refuse n full seen
           | Some o' \<Rightarrow>
               if is_dir (tn_node o') \<and> is_dir (tn_node n) then
                 bindE (changed sha (tn_node o') (tn_node n)) (\<lambda>ch.
                 bindE (if ch then bindE (writeEntry refuse (tn_ref n) (tn_node n) full seen) (\<lambda>(e, seen). Inr ([e], seen))
                        else Inr ([], seen)) (\<lambda>(es, seen).
                 bindE (diffDir sha refuse o' n full seen) (\<lambda>(es', seen). Inr (es @ es', seen))))
               else
                 bindE (changed sha (tn_node o') (tn_node n)) (\<lambda>ch.
                   if ch then write_subtree refuse n full seen else Inr ([], seen))))
        (\<lambda>(es, seen). bindE (diff_names sha refuse names oks nks prefix seen) (\<lambda>(es', seen). Inr (es @ es', seen))))"
  by pat_completeness auto
termination
proof (relation "measures [\<lambda>x. case x of Inl (_, _, _, n, _) \<Rightarrow> size n | Inr (_, _, _, _, nks, _) \<Rightarrow> size_list (size_prod (\<lambda>_. 0) size) nks,
    \<lambda>x. case x of Inl _ \<Rightarrow> 0 | Inr (_, _, names, _) \<Rightarrow> Suc (length names)]", goal_cases)
  case (2 sha refuse old new prefix seen)
  then show ?case by (cases new) auto
next
  case (3 sha refuse name names oks nks prefix seen full n)
  then show ?case using childMap_size by auto
qed auto

definition writeDiffLayer :: "(bytes \<Rightarrow> bytes) \<Rightarrow> (tar_hdr \<Rightarrow> error option) \<Rightarrow> tnode \<Rightarrow> tnode \<Rightarrow> (tar_entry list) result" where
  "writeDiffLayer sha refuse old new = bindE (diffDir sha refuse old new '''' (\<lambda>_. None)) (\<lambda>(es, _). Inr es)"

section \<open>Names stay valid\<close>

text \<open>Every name in every node is valid and distinct, and names an existing node.\<close>

definition refs_ok :: "heap \<Rightarrow> node \<Rightarrow> bool" where
  "refs_ok h n \<longleftrightarrow> (\<forall>e \<in> set (nd_children n). snd e < length h)"

definition heap_ok :: "heap \<Rightarrow> bool" where
  "heap_ok h \<longleftrightarrow> h \<noteq> [] \<and> heap_names_ok h \<and> (\<forall>n \<in> set h. refs_ok h n)"

lemma heap_ok_nth: "heap_ok h \<Longrightarrow> r < length h \<Longrightarrow> entries_ok (h ! r) \<and> refs_ok h (h ! r)"
  by (simp add: heap_ok_def heap_names_nth)

lemma entries_okD: "entries_ok n \<Longrightarrow> (a, b) \<in> set (nd_children n) \<Longrightarrow> ValidName a = None"
  by (fastforce simp: entries_ok_def)

lemma refs_okD: "refs_ok h n \<Longrightarrow> (a, b) \<in> set (nd_children n) \<Longrightarrow> b < length h"
  by (fastforce simp: refs_ok_def)

lemma same_children_ok:
  "nd_children n = nd_children n' \<Longrightarrow> entries_ok n \<longleftrightarrow> entries_ok n'"
  "nd_children n = nd_children n' \<Longrightarrow> refs_ok h n \<longleftrightarrow> refs_ok h n'"
  by (simp_all add: entries_ok_def refs_ok_def)

lemma refs_ok_mono: "refs_ok h n \<Longrightarrow> length h \<le> length h' \<Longrightarrow> refs_ok h' n"
  by (fastforce simp: refs_ok_def)

lemma heap_ok_update:
  assumes "heap_ok h" "r < length h \<Longrightarrow> entries_ok n \<and> refs_ok h n"
  shows "heap_ok (h[r := n])"
proof (cases "r < length h")
  case True
  then show ?thesis using assms heap_names_update[of h r n]
    by (auto simp: heap_ok_def refs_ok_def dest!: set_update_subset_insert[THEN subsetD])
qed (use assms in \<open>simp add: list_update_beyond\<close>)

lemma heap_ok_same_children:
  "heap_ok h \<Longrightarrow> (r < length h \<Longrightarrow> nd_children n = nd_children (h ! r)) \<Longrightarrow> heap_ok (h[r := n])"
  by (rule heap_ok_update) (metis heap_ok_nth same_children_ok)+

lemma heap_ok_append: "heap_ok h \<Longrightarrow> nd_children n = [] \<Longrightarrow> heap_ok (h @ [n])"
proof -
  assume h: "heap_ok h" and n: "nd_children n = []"
  have "entries_ok n" "refs_ok (h @ [n]) n" using n by (simp_all add: entries_ok_def refs_ok_def)
  moreover have "refs_ok (h @ [n]) x" if "x \<in> set h" for x
    using that h refs_ok_mono[of h x "h @ [n]"] by (simp add: heap_ok_def)
  ultimately show ?thesis using h heap_names_append by (auto simp: heap_ok_def)
qed

lemma fst_set_first: "fst ` set (set_first name r es) = insert name (fst ` set es)"
  by (induction es) auto

lemma distinct_set_first: "distinct (map fst es) \<Longrightarrow> distinct (map fst (set_first name r es))"
proof (induction es)
  case (Cons e es)
  have "set (map fst (set_first name r es)) = insert name (fst ` set es)" using fst_set_first by simp
  then show ?case using Cons by auto
qed simp

lemma set_set_first: "e \<in> set (set_first name r es) \<Longrightarrow> e = (name, r) \<or> e \<in> set es"
  by (induction es) (auto split: if_splits)

lemma set_remove_first: "e \<in> set (remove_first name es) \<Longrightarrow> e \<in> set es"
  by (induction es) (auto split: if_splits)

lemma distinct_remove_first: "distinct (map fst es) \<Longrightarrow> distinct (map fst (remove_first name es))"
  by (induction es) (auto dest: set_remove_first)

lemma setChild_ok:
  assumes "heap_ok h" "ValidName name = None" "r < length h"
  shows "heap_ok (setChild h d name r)"
  unfolding setChild_def
proof (rule heap_ok_update[OF assms(1)])
  assume "d < length h"
  then have "entries_ok (h ! d)" "refs_ok h (h ! d)" using heap_ok_nth assms(1) by auto
  then show "entries_ok ((h ! d)\<lparr>nd_children := set_first name r (nd_children (h ! d))\<rparr>) \<and>
      refs_ok h ((h ! d)\<lparr>nd_children := set_first name r (nd_children (h ! d))\<rparr>)"
    using assms(2,3) by (fastforce simp: entries_ok_def refs_ok_def intro: distinct_set_first dest!: set_set_first)
qed

lemma removeChild_ok: "heap_ok h \<Longrightarrow> heap_ok (removeChild h d name)"
  unfolding removeChild_def
  by (rule heap_ok_update)
    (fastforce dest!: heap_ok_nth set_remove_first simp: entries_ok_def refs_ok_def intro: distinct_remove_first)+

lemma upsert_ok:
  assumes "heap_ok h" "ValidName name = None" "upsert h d name m = (h', r)"
  shows "heap_ok h'"
proof (cases "find_child h d name")
  case (Some c)
  then show ?thesis using assms by (auto simp: upsert_def set_node_meta_def intro!: heap_ok_same_children)
next
  case None
  have "heap_ok (h @ [new_node m 1])" by (rule heap_ok_append[OF assms(1)]) (simp add: new_node_def)
  moreover have "h' = add_entry (h @ [new_node m 1]) d name (length h)" using None assms(3) by (auto simp: upsert_def)
  moreover have "name \<notin> fst ` set (nd_children (h ! d))" using None by (simp add: find_child_None)
  moreover have "nd_children (new_node m 1) = []" by (simp add: new_node_def)
  ultimately show ?thesis unfolding add_entry_def
    using assms(2) heap_ok_nth[of "h @ [new_node m 1]" d]
    by (auto intro!: heap_ok_update simp: entries_ok_def refs_ok_def nth_append split: if_splits)
qed

lemma upd_node_ok: "heap_ok h \<Longrightarrow> (\<And>n. nd_children (f n) = nd_children n) \<Longrightarrow> heap_ok (upd_node f (h, r))"
  by (simp add: upd_node_def heap_ok_same_children)

lemma ensure_loop_ok:
  "heap_ok h \<Longrightarrow> \<forall>p \<in> set ps. p = '''' \<or> ValidName p = None \<Longrightarrow> cur < length h \<Longrightarrow>
     ensure_loop h cur ps = (h', r) \<Longrightarrow> heap_ok h' \<and> r < length h'"
proof (induction h cur ps rule: ensure_loop.induct)
  case (2 h cur p ps)
  let ?h = "setChild (h @ [oci_dir_node]) cur p (length h)"
  show ?case
  proof (cases "p = ''''")
    case True
    then show ?thesis using "2.IH"(1) "2.prems" by simp
  next
    case False
    have a: "heap_ok ?h" using 2 False
      by (auto intro!: setChild_ok heap_ok_append simp: oci_dir_node_def new_node_def)
    have l: "length h < length ?h" by (simp add: setChild_def)
    have c: "c < length h" if "find_child h cur p = Some c" for c
      using that heap_ok_nth[OF "2.prems"(1,3)] by (auto simp: find_child_def refs_ok_def dest!: map_of_SomeD)
    define t where "t = (case find_child h cur p of None \<Rightarrow> None | Some r \<Rightarrow> if is_dir (h ! r) then Some r else None)"
    have tc: "c < length h" if "t = Some c" for c using that c unfolding t_def by (auto split: option.splits if_splits)
    have st: "ensure_loop h cur (p # ps) = (case t of Some r \<Rightarrow> ensure_loop h r ps | None \<Rightarrow> ensure_loop ?h (length h) ps)"
      using False by (simp add: t_def)
    show ?thesis
    proof (cases t)
      case None
      then show ?thesis using "2.IH"(2)[OF False] "2.prems" a l st t_def by simp
    next
      case (Some c)
      then show ?thesis using "2.IH"(3)[OF False] "2.prems" tc st t_def by simp
    qed
  qed
qed auto

lemma ensureDir_ok:
  assumes "heap_ok h" "\<forall>c \<in> set (split_char (CHR ''/'') p). c = '''' \<or> ValidName c = None" "ensureDir h p = (h', r)"
  shows "heap_ok h'"
proof -
  have "0 < length h" using assms(1) by (simp add: heap_ok_def)
  then show ?thesis using assms ensure_loop_ok[OF assms(1,2), of 0] by (auto simp: ensureDir_def split: if_splits)
qed

lemma checkPath_None: "checkPath p = None \<Longrightarrow> \<forall>c \<in> set (split_char (CHR ''/'') p). c = '''' \<or> ValidName c = None"
  by (auto simp: checkPath_def find_None_iff find_Some_iff split: option.splits)

lemma lookup_loop_bound: "heap_ok h \<Longrightarrow> cur < length h \<Longrightarrow> lookup_loop h cur ps = Some r \<Longrightarrow> r < length h"
proof (induction h cur ps rule: lookup_loop.induct)
  case (2 h cur p ps)
  have "c < length h" if "find_child h cur p = Some c" for c
    using that heap_ok_nth[OF "2.prems"(1,2)] by (auto simp: find_child_def refs_ok_def dest!: map_of_SomeD)
  then show ?case using 2 by (auto split: if_splits option.splits)
qed auto

lemma place_node_ok:
  assumes "heap_ok (ap_heap a)" "ValidName base = None" "place_node tmp ent parent base a = Inr a'"
  shows "heap_ok (ap_heap a')"
proof -
  obtain hdr body where e: "ent = (hdr, body)" by (cases ent)
  have u: "heap_ok (upd_node f (upsert (ap_heap a) parent base m))" if "\<And>n. nd_children (f n) = nd_children n" for f m
    using upsert_ok[OF assms(1,2)] that by (cases "upsert (ap_heap a) parent base m") (auto intro: upd_node_ok)
  have hl: "heap_ok (setChild (add_nlink (ap_heap a) t 1) parent base t)" if "oci_lookup (ap_heap a) p = Some t" for t p
  proof -
    have "t < length (ap_heap a)"
      using that assms(1) lookup_loop_bound[OF assms(1), of 0] by (auto simp: oci_lookup_def heap_ok_def)
    moreover have "heap_ok (add_nlink (ap_heap a) t 1)"
      unfolding add_nlink_def using assms(1) by (auto intro!: heap_ok_same_children)
    ultimately show ?thesis using assms(2) by (auto intro!: setChild_ok simp: add_nlink_def)
  qed
  have sp: "ap_heap a1 = ap_heap a" if "spill tmp body a = (x, a1)" for x a1
    using that by (auto simp: spill_def Let_def split: option.splits)
  let ?m = "meta_of_hdr hdr" and ?h = "ap_heap a"
  show ?thesis
  proof (cases "th_flag hdr = TypeHard")
    case True
    then show ?thesis using assms(3) hl unfolding e place_node_def prod.case Let_def
      by (cases "oci_lookup ?h (path_clean (trim_prefix ''./'' (th_linkname hdr)))") auto
  next
    case hard: False
    show ?thesis
    proof (cases "th_flag hdr = TypeReg \<or> th_flag hdr = TypeRegA")
      case True
      obtain x a1 where s: "spill tmp body a = (x, a1)" by fastforce
      then show ?thesis using True assms(3) sp[OF s] unfolding e place_node_def prod.case Let_def
        by (cases x) (auto intro!: u simp: with_type_def as_file_def)
    next
      case False
      show ?thesis using hard False assms(1,3) unfolding e place_node_def prod.case Let_def
        by (cases "entry_effect hdr") (auto intro!: u dest: entry_effect_children)
    qed
  qed
qed

lemma entry_path_parts:
  assumes "path_split p = (d, b)" "last (split_char (CHR ''/'') p) \<noteq> ''''"
    and "\<forall>c \<in> set (split_char (CHR ''/'') p). c = '''' \<or> ValidName c = None"
  shows "ValidName b = None"
    and "\<forall>c \<in> set (split_char (CHR ''/'') (trim_suffix_char (CHR ''/'') d)). c = '''' \<or> ValidName c = None"
proof (atomize(full), rule path_split_parts[OF assms(1)])
  assume "d = []" "split_char CHR ''/'' p = [b]"
  then show "ValidName b = None \<and> (\<forall>c \<in> set (split_char (CHR ''/'') (trim_suffix_char (CHR ''/'') d)). c = '''' \<or> ValidName c = None)"
    using assms(2,3) by (simp add: trim_suffix_char_def)
next
  fix d' assume "d = d' @ [CHR ''/'']" "split_char CHR ''/'' p = split_char CHR ''/'' d' @ [b]"
  then show "ValidName b = None \<and> (\<forall>c \<in> set (split_char (CHR ''/'') (trim_suffix_char (CHR ''/'') d)). c = '''' \<or> ValidName c = None)"
    using assms(2,3) by (simp add: trim_suffix_char_def)
qed

lemma applyEntry_ok:
  assumes "heap_ok (ap_heap a)" "applyEntry tmp ent a = Inr a'"
  shows "heap_ok (ap_heap a')"
proof -
  let ?name = "path_clean (trim_prefix ''./'' (th_name (fst ent)))"
  obtain d b where ps: "path_split ?name = (d, b)" by fastforce
  obtain h p where e: "ensureDir (ap_heap a) (trim_suffix_char (CHR ''/'') d) = (h, p)" by fastforce
  show ?thesis
  proof (cases "?name = ''.'' \<or> ?name = ''/'' \<or> ?name = ''''")
    case True
    then show ?thesis using assms by (simp add: applyEntry_def)
  next
    case False
    then have ck: "checkPath ?name = None" using assms(2) by (auto simp: applyEntry_def Let_def split: option.splits)
    note parts = entry_path_parts[OF ps path_clean_last checkPath_None[OF ck]]
    have b: "ValidName b = None" and h: "heap_ok h"
      using parts False ensureDir_ok[OF assms(1) _ e] by simp_all
    have step: "applyEntry tmp ent a =
        (if b = whiteoutOpaque then Inr (a\<lparr>ap_heap := h[p := (h ! p)\<lparr>nd_children := []\<rparr>]\<rparr>)
         else if has_prefix whiteoutPrefix b then Inr (a\<lparr>ap_heap := removeChild h p (trim_prefix whiteoutPrefix b)\<rparr>)
         else place_node tmp ent p b (a\<lparr>ap_heap := h\<rparr>))"
      using False ck ps e by (simp add: applyEntry_def Let_def)
    have "heap_ok (h[p := (h ! p)\<lparr>nd_children := []\<rparr>])"
      by (rule heap_ok_update[OF h]) (simp add: entries_ok_def refs_ok_def)
    then show ?thesis using assms(2) step place_node_ok[of "a\<lparr>ap_heap := h\<rparr>"] h b removeChild_ok[OF h]
      by (auto split: if_splits)
  qed
qed

lemma apply_entries_ok: "heap_ok (ap_heap a) \<Longrightarrow> apply_entries tmp es a = Inr a' \<Longrightarrow> heap_ok (ap_heap a')"
  by (induction tmp es a rule: apply_entries.induct) (auto simp: bindE_Inr_iff dest: applyEntry_ok)

lemma apply_layers_ok: "heap_ok (ap_heap a) \<Longrightarrow> apply_layers tmp ls a = Inr a' \<Longrightarrow> heap_ok (ap_heap a')"
proof (induction tmp ls a rule: apply_layers.induct)
  case (2 tmp l ls a)
  then obtain a1 where a1: "applyLayer tmp l a = Inr a1" "apply_layers tmp ls a1 = Inr a'" by (auto simp: bindE_Inr_iff)
  then obtain es where "apply_entries tmp es a = Inr a1"
    by (auto simp: applyLayer_def bindE_Inr_iff split: option.splits)
  then show ?case using 2 a1 apply_entries_ok by blast
qed simp

lemma empty_applier_ok: "heap_ok (ap_heap empty_applier)"
  by (simp add: empty_applier_def heap_ok_def heap_names_ok_def entries_ok_def refs_ok_def oci_dir_node_def new_node_def)

text \<open>
  C8. Whatever the layers hold, a tree flattened from them has only valid names (never \<open>..\<close>, never
  a name with a slash), each once in its directory, and every entry names an existing node.
\<close>

theorem oci_flatten_names_are_safe:
  "case flatten_layers tmp ls of Inl _ \<Rightarrow> True | Inr h \<Rightarrow> heap_ok h"
  using apply_layers_ok[OF empty_applier_ok]
  by (auto simp: flatten_layers_def bindE_Inr_iff split: sum.splits)

section \<open>A hard link to a directory\<close>

definition plain_hdr :: "string \<Rightarrow> char \<Rightarrow> string \<Rightarrow> tar_hdr" where
  "plain_hdr name flag link = \<lparr> th_name = name, th_flag = flag, th_linkname = link, th_mode = 0x1ED, th_uid = 0, th_gid = 0,
     th_mtime = zero_time, th_size = 0, th_devmajor = 0, th_devminor = 0, th_pax = [] \<rparr>"

lemma unfold_self_loop: "(name, r) \<in> set (nd_children (h ! r)) \<Longrightarrow> unfold_tree fuel h r = None"
proof (induction fuel)
  case (Suc fuel)
  have "those (map (\<lambda>e. unfold_tree fuel h (snd e)) es) = None" if "(name, r) \<in> set es" for es
    using that Suc by (induction es) (auto split: option.splits)
  then show ?case using Suc.prems by simp
qed simp

text \<open>
  C36. A layer of one entry, a hard link named \<open>x\<close> to \<open>/\<close>, is accepted and makes the root an
  entry of itself: the tree below it never ends, and neither does an engine that walks it.
\<close>

theorem oci_hard_link_to_root_never_unfolds:
  "\<exists>h. flatten_layers tmp [Inr ([(plain_hdr ''x'' TypeHard ''/'', Inr [])], None)] = Inr h
     \<and> (\<forall>fuel. unfold_tree fuel h 0 = None)"
proof -
  let ?h = "setChild (add_nlink [oci_dir_node] 0 1) 0 ''x'' 0"
  have c: "path_clean (trim_prefix ''./'' ''x'') = ''x''" "path_clean (trim_prefix ''./'' ''/'') = ''/''"
    by (simp_all add: trim_prefix_def has_prefix_def path_clean_def clean_comps_def clean_step_def Let_def)
  have "applyEntry tmp (plain_hdr ''x'' TypeHard ''/'', Inr []) empty_applier = Inr (empty_applier\<lparr>ap_heap := ?h\<rparr>)"
    unfolding applyEntry_def
    by (simp add: plain_hdr_def c checkPath_def ValidName_def path_split_def whiteoutOpaque_def whiteoutPrefix_def
        has_prefix_def trim_suffix_char_def ensureDir_def place_node_def oci_lookup_def empty_applier_def)
  then have "flatten_layers tmp [Inr ([(plain_hdr ''x'' TypeHard ''/'', Inr [])], None)] = Inr ?h"
    by (simp add: flatten_layers_def applyLayer_def)
  moreover have "(''x'', 0) \<in> set (nd_children (?h ! 0))"
    by (simp add: setChild_def add_nlink_def oci_dir_node_def new_node_def)
  ultimately show ?thesis using unfold_self_loop by blast
qed

section \<open>What a difference leaves out\<close>

text \<open>Two trees that agree on everything but times, link counts and node identities.\<close>

definition same_node :: "node \<Rightarrow> node \<Rightarrow> bool" where
  "same_node n n' \<longleftrightarrow> md_mode n = md_mode n' \<and> md_uid n = md_uid n' \<and> md_gid n = md_gid n' \<and> md_xattrs n = md_xattrs n'
     \<and> in_link n = in_link n' \<and> in_rdev n = in_rdev n' \<and> in_content n = in_content n'"

function same_but_times :: "tnode \<Rightarrow> tnode \<Rightarrow> bool" where
  "same_but_times (TNode r n kids) t' \<longleftrightarrow> same_node n (tn_node t') \<and> map fst kids = map fst (tn_kids t')
     \<and> (\<forall>i \<in> {..<length kids}. same_but_times (snd (kids ! i)) (snd (tn_kids t' ! i)))"
  by pat_completeness auto
termination
proof (relation "measure (\<lambda>(t, _). size t)")
  fix r n t' i and kids :: "(string \<times> tnode) list" assume "i \<in> {..<length kids}"
  then have i: "kids ! i \<in> set kids" by simp
  have "size (snd (kids ! i)) < size_list (size_prod (\<lambda>_. 0) size) kids"
    by (rule size_list_estimation[OF i]) (cases "kids ! i", simp)
  then show "((snd (kids ! i), snd (tn_kids t' ! i)), TNode r n kids, t') \<in> measure (\<lambda>(t, _). size t)" by simp
qed auto

text \<open>The extended attributes are a map and file contents can be read.\<close>

definition node_hashable :: "node \<Rightarrow> bool" where
  "node_hashable n \<longleftrightarrow> distinct (map fst (md_xattrs n))
     \<and> (case in_content n of None \<Rightarrow> True | Some c \<Rightarrow> isOK (copy_section c (nat (src_size c)) 0))"

fun hashable :: "tnode \<Rightarrow> bool" where
  "hashable (TNode r n kids) \<longleftrightarrow> node_hashable n \<and> list_all (\<lambda>e. hashable (snd e)) kids"

lemma xattrsEqual_refl: "distinct (map fst xs) \<Longrightarrow> xattrsEqual xs xs"
  by (auto simp: xattrsEqual_def list_all_iff)

lemma changed_same:
  assumes "same_node n n'" "node_hashable n"
  shows "changed sha n n' = Inr False"
proof -
  have "regularChanged sha (in_content n) (in_content n) = Inr False"
    using assms(2) by (auto simp: regularChanged_def hashSource_def node_hashable_def elim!: isOK.elims split: option.splits)
  then show ?thesis using assms xattrsEqual_refl by (simp add: changed_def same_node_def node_hashable_def)
qed

lemma childMap_related:
  assumes "map fst ks = map fst ks'" "\<And>i. i < length ks \<Longrightarrow> P (snd (ks ! i)) (snd (ks' ! i))" "childMap ks name = Some a"
  shows "\<exists>b. childMap ks' name = Some b \<and> P a b"
proof -
  have "list_all2 (\<lambda>x y. fst x = fst y \<and> P (snd x) (snd y)) ks ks'"
    unfolding list_all2_conv_all_nth
  proof (intro conjI allI impI)
    show len: "length ks = length ks'" using assms(1) by (rule map_eq_imp_length_eq)
    fix i assume i: "i < length ks"
    show "fst (ks ! i) = fst (ks' ! i)" using assms(1) i len by (metis nth_map)
    show "P (snd (ks ! i)) (snd (ks' ! i))" by (rule assms(2)[OF i])
  qed
  then have "list_all2 (\<lambda>x y. fst x = fst y \<and> P (snd x) (snd y)) (rev ks) (rev ks')" by simp
  then show ?thesis using assms(3) unfolding childMap_def
    by (induction rule: list_all2_induct) (auto split: if_splits)
qed

lemma childMap_some: "name \<in> fst ` set ks \<Longrightarrow> \<exists>t. childMap ks name = Some t"
  unfolding childMap_def by (metis map_of_eq_None_iff not_None_eq set_rev)

lemma diff_names_same:
  assumes "\<And>name. name \<in> set names \<Longrightarrow> \<exists>o' n. childMap oks name = Some o' \<and> childMap nks name = Some n
      \<and> changed sha (tn_node o') (tn_node n) = Inr False \<and> (\<forall>p. diffDir sha refuse o' n p seen = Inr ([], seen))"
  shows "diff_names sha refuse names oks nks prefix seen = Inr ([], seen)"
  using assms
proof (induction names)
  case (Cons name names)
  obtain o' n where c: "childMap oks name = Some o'" "childMap nks name = Some n"
    "changed sha (tn_node o') (tn_node n) = Inr False" "\<And>p. diffDir sha refuse o' n p seen = Inr ([], seen)"
    using Cons.prems[of name] by auto
  have "diff_names sha refuse names oks nks prefix seen = Inr ([], seen)"
    by (rule Cons.IH) (rule Cons.prems, simp)
  then show ?case
    by (simp only: diff_names.simps Let_def c option.case bindE_simps prod.case if_False append_Nil if_cancel)
qed simp

lemma diffDir_same: "same_but_times t t' \<Longrightarrow> hashable t \<Longrightarrow> diffDir sha refuse t t' prefix seen = Inr ([], seen)"
proof (induction t arbitrary: t' prefix)
  case (TNode r n kids)
  let ?P = "\<lambda>a b. same_but_times a b \<and> hashable a \<and> a \<in> snd ` set kids"
  have f: "map fst kids = map fst (tn_kids t')" using TNode.prems by simp
  have P: "?P (snd (kids ! i)) (snd (tn_kids t' ! i))" if "i < length kids" for i
    using TNode.prems that by (auto simp: list_all_length)
  have "\<exists>o' n. childMap kids name = Some o' \<and> childMap (tn_kids t') name = Some n
      \<and> changed sha (tn_node o') (tn_node n) = Inr False \<and> (\<forall>p. diffDir sha refuse o' n p seen = Inr ([], seen))"
    if "name \<in> set (unionNames kids (tn_kids t'))" for name
  proof -
    have "set (map fst kids) = set (map fst (tn_kids t'))" using f by simp
    then have "name \<in> fst ` set kids" using that by (auto simp: unionNames_def)
    then obtain a where a: "childMap kids name = Some a" using childMap_some by blast
    then obtain b where b: "childMap (tn_kids t') name = Some b" "?P a b"
      using childMap_related[of kids "tn_kids t'" ?P, OF f P] by blast
    have "same_node (tn_node a) (tn_node b)" "node_hashable (tn_node a)" using b(2) by (cases a; simp)+
    then have "changed sha (tn_node a) (tn_node b) = Inr False" by (rule changed_same)
    moreover have "diffDir sha refuse a b p seen = Inr ([], seen)" for p
      using b(2) TNode.IH by (auto simp del: diffDir.simps)
    ultimately show ?thesis using a b(1) by blast
  qed
  then show ?case by (subst diffDir.simps) (simp only: tnode.sel, rule diff_names_same)
qed

text \<open>
  C34. The difference of two trees that differ only in modification times, link counts and node
  identities is empty: nothing is written for what did not change, and a change of times alone is
  not recorded either.
\<close>

theorem oci_diff_ignores_times:
  assumes "same_but_times old new" "hashable old"
  shows "writeDiffLayer sha refuse old new = Inr []"
  using diffDir_same[OF assms] by (simp add: writeDiffLayer_def)

definition sample_dir :: "gotime \<Rightarrow> node" where
  "sample_dir t = oci_dir_node\<lparr>md_mtime := t\<rparr>"

theorem oci_diff_ignores_times_witness:
  "writeDiffLayer (\<lambda>b. b) (\<lambda>_. None) (TNode 0 oci_dir_node [(''d'', TNode 1 (sample_dir zero_time) [])])
     (TNode 0 oci_dir_node [(''d'', TNode 7 (sample_dir \<lparr>gt_sec = 5, gt_nsec = 0\<rparr>) [])]) = Inr []"
  by (rule oci_diff_ignores_times)
    (simp_all add: sample_dir_def same_node_def node_hashable_def oci_dir_node_def new_node_def)

section \<open>Differences and hard links\<close>

definition reg_entry :: "string \<Rightarrow> bytes \<Rightarrow> tar_entry" where
  "reg_entry name b = ((plain_hdr name TypeReg '''')\<lparr>th_size := int (length b)\<rparr>, Inr b)"

definition link_layer :: "tar_entry list" where
  "link_layer = [reg_entry ''a'' [1], (plain_hdr ''b'' TypeHard ''a'', Inr [])]"

definition edited_file :: "bytes \<Rightarrow> node" where
  "edited_file b = (new_node \<lparr> md_mode = 0x1ED, md_uid = 0, md_gid = 0, md_mtime = zero_time, md_xattrs = [] \<rparr> 1)
     \<lparr>in_content := Some (bytes_source b)\<rparr>"

text \<open>The tree a build wants: \<open>a\<close> rewritten, \<open>b\<close> as it was, no longer linked.\<close>

definition edited_tree :: tnode where
  "edited_tree = TNode 0 oci_dir_node [(''a'', TNode 1 (edited_file [2]) []), (''b'', TNode 2 (edited_file [1]) [])]"

definition file_bytes :: "heap \<Rightarrow> string \<Rightarrow> bytes option" where
  "file_bytes h name =
     (case oci_lookup h name of None \<Rightarrow> None
      | Some r \<Rightarrow> (case in_content (h ! r) of None \<Rightarrow> None | Some c \<Rightarrow> Some (fst (src_read_at c (nat (src_size c)) 0))))"

lemma short_name:
  assumes "c \<noteq> CHR ''/''" "c \<noteq> CHR ''.''"
  shows "path_clean [c] = [c]" "path_split [c] = ([], [c])" "split_char (CHR ''/'') [c] = [[c]]" "checkPath [c] = None"
    "trim_prefix ''./'' [c] = [c]" "path_join ['''', [c]] = [c]" "has_prefix ''.wh.'' [c] = False"
  using assms by (auto simp: trim_prefix_def has_prefix_def path_clean_def clean_comps_def clean_step_def Let_def
      path_split_def checkPath_def ValidName_def path_join_def)

lemma applyEntry_short:
  assumes "th_name (fst ent) = [c]" "c \<noteq> CHR ''/''" "c \<noteq> CHR ''.''"
  shows "applyEntry tmp ent a = place_node tmp ent 0 [c] a"
  unfolding applyEntry_def assms(1) short_name[OF assms(2,3)]
  using assms by (simp add: whiteoutOpaque_def whiteoutPrefix_def short_name trim_suffix_char_def ensureDir_def)

definition linked_heap :: "bytes \<Rightarrow> heap" where
  "linked_heap b =
     [oci_dir_node\<lparr>nd_children := [(''a'', 1), (''b'', 1)]\<rparr>,
      (new_node \<lparr> md_mode = 0x1ED, md_uid = 0, md_gid = 0, md_mtime = zero_time, md_xattrs = [] \<rparr> 2)
        \<lparr>in_content := Some (scratch_source b)\<rparr>]"

lemma modeFromTar_plain: "modeFromTar (plain_hdr name flag link) = 0x1ED"
  by (simp add: modeFromTar_def plain_hdr_def)

lemma meta_of_plain: "meta_of_hdr (plain_hdr name flag link\<lparr>th_size := n\<rparr>)
    = \<lparr> md_mode = 0x1ED, md_uid = 0, md_gid = 0, md_mtime = zero_time, md_xattrs = [] \<rparr>"
  by (simp add: meta_of_hdr_def modeFromTar_def plain_hdr_def xattrsFromTar_def u32_of_int_def)

lemma reg_placed:
  "place_node (\<lambda>_. None) (reg_entry name b) 0 base a =
     Inr (a\<lparr>ap_seq := ap_seq a + 1, ap_heap := upd_node (as_file (scratch_source b)) (upsert (ap_heap a) 0 base
       \<lparr> md_mode = 0x1ED, md_uid = 0, md_gid = 0, md_mtime = zero_time, md_xattrs = [] \<rparr>)\<rparr>)"
  unfolding place_node_def reg_entry_def prod.case meta_of_plain by (simp add: plain_hdr_def spill_def Let_def)

definition file_meta :: meta where
  "file_meta = \<lparr> md_mode = 0x1ED, md_uid = 0, md_gid = 0, md_mtime = zero_time, md_xattrs = [] \<rparr>"

lemma reg_applied:
  assumes "c \<noteq> CHR ''/''" "c \<noteq> CHR ''.''" "upsert (ap_heap a) 0 [c] file_meta = (h, r)"
  shows "applyEntry (\<lambda>_. None) (reg_entry [c] b) a =
     Inr (a\<lparr>ap_seq := ap_seq a + 1, ap_heap := h[r := as_file (scratch_source b) (h ! r)]\<rparr>)"
proof -
  have "applyEntry (\<lambda>_. None) (reg_entry [c] b) a = place_node (\<lambda>_. None) (reg_entry [c] b) 0 [c] a"
    by (rule applyEntry_short) (simp_all add: assms reg_entry_def plain_hdr_def)
  then show ?thesis using assms(3) by (simp add: reg_placed upd_node_def file_meta_def)
qed

lemma mode_no_type: "(0x1ED AND NOT ModeType) OR 0 = (0x1ED :: filemode)"
  by (simp add: ModeType_def mode_defs)

lemma link_layer_applied:
  "apply_entries (\<lambda>_. None) link_layer empty_applier = Inr \<lparr>ap_heap = linked_heap [1], ap_seq = 1\<rparr>"
proof -
  let ?n = "(new_node \<lparr> md_mode = 0x1ED, md_uid = 0, md_gid = 0, md_mtime = zero_time, md_xattrs = [] \<rparr> 1)
        \<lparr>in_content := Some (scratch_source [1])\<rparr>"
  let ?h = "[oci_dir_node\<lparr>nd_children := [(''a'', 1)]\<rparr>, ?n]"
  have f: "as_file (scratch_source [1]) (new_node file_meta 1) = ?n"
    using mode_no_type by (simp add: as_file_def with_type_def new_node_def file_meta_def)
  have u: "upsert (ap_heap empty_applier) 0 ''a'' file_meta
      = ([oci_dir_node\<lparr>nd_children := [(''a'', 1)]\<rparr>, new_node file_meta 1], 1)"
    by (simp add: empty_applier_def upsert_def find_child_def oci_dir_node_def new_node_def add_entry_def)
  have a: "applyEntry (\<lambda>_. None) (reg_entry ''a'' [1]) empty_applier = Inr \<lparr>ap_heap = ?h, ap_seq = 1\<rparr>"
    using f by (subst reg_applied[OF _ _ u]) (simp_all add: empty_applier_def)
  have "applyEntry (\<lambda>_. None) (plain_hdr ''b'' TypeHard ''a'', Inr []) \<lparr>ap_heap = ?h, ap_seq = 1\<rparr>
      = Inr \<lparr>ap_heap = linked_heap [1], ap_seq = 1\<rparr>"
    by (subst applyEntry_short[of _ "CHR ''b''"])
      (simp_all add: plain_hdr_def place_node_def short_name oci_lookup_def find_child_def
        setChild_def add_nlink_def oci_dir_node_def new_node_def linked_heap_def)
  with a show ?thesis by (simp add: link_layer_def)
qed

lemma rewrite_applied:
  "apply_entries (\<lambda>_. None) [reg_entry ''a'' [2]] \<lparr>ap_heap = linked_heap [1], ap_seq = k\<rparr>
     = Inr \<lparr>ap_heap = [hd (linked_heap [2]), (linked_heap [2] ! 1)\<lparr>nd_nlink := 1\<rparr>], ap_seq = k + 1\<rparr>"
proof -
  have h: "linked_heap b = [linked_heap b ! 0, linked_heap b ! 1]" for b by (simp add: linked_heap_def)
  have u: "upsert (linked_heap [1]) 0 ''a'' file_meta = (linked_heap [1], 1)"
    by (simp add: upsert_def find_child_def linked_heap_def set_node_meta_def new_node_def file_meta_def)
  have f: "as_file (scratch_source [2]) (linked_heap [1] ! 1) = (linked_heap [2] ! 1)\<lparr>nd_nlink := 1\<rparr>"
    using mode_no_type by (simp add: as_file_def with_type_def new_node_def linked_heap_def)
  have "(linked_heap [1])[1 := as_file (scratch_source [2]) (linked_heap [1] ! 1)]
      = [hd (linked_heap [2]), (linked_heap [2] ! 1)\<lparr>nd_nlink := 1\<rparr>]"
    unfolding f by (simp add: linked_heap_def)
  then have "applyEntry (\<lambda>_. None) (reg_entry ''a'' [2]) \<lparr>ap_heap = linked_heap [1], ap_seq = k\<rparr>
      = Inr \<lparr>ap_heap = [hd (linked_heap [2]), (linked_heap [2] ! 1)\<lparr>nd_nlink := 1\<rparr>], ap_seq = k + 1\<rparr>"
    by (subst reg_applied[of _ "\<lparr>ap_heap = linked_heap [1], ap_seq = k\<rparr>" "linked_heap [1]" 1]) (simp_all add: u)
  then show ?thesis by simp
qed

lemma copy_bytes: "b \<noteq> [] \<Longrightarrow> length b \<le> 32768 \<Longrightarrow> copy_section (bytes_source b) (length b) 0 = Inr b"
  "b \<noteq> [] \<Longrightarrow> length b \<le> 32768 \<Longrightarrow> copy_section (scratch_source b) (length b) 0 = Inr b"
  by (subst copy_section.simps, simp add: bytes_source_def scratch_source_def bytes_read_at_def window_def Let_def copy_section.simps)+

lemma edited_diff:
  assumes "sha [1] \<noteq> sha [2]"
  shows "writeDiffLayer sha (\<lambda>_. None) (the (unfold_tree 2 (linked_heap [1]) 0)) edited_tree = Inr [reg_entry ''a'' [2]]"
proof -
  let ?f = "linked_heap [1] ! Suc 0" and ?r = "linked_heap [1] ! 0"
  have t: "the (unfold_tree 2 (linked_heap [1]) 0) = TNode 0 ?r [(''a'', TNode (Suc 0) ?f []), (''b'', TNode (Suc 0) ?f [])]"
    by (simp add: linked_heap_def numeral_2_eq_2 new_node_def)
  have u: "unionNames [(''a'', TNode (Suc 0) ?f []), (''b'', TNode (Suc 0) ?f [])] [(''a'', TNode (Suc 0) (edited_file [2]) []), (''b'', TNode 2 (edited_file [1]) [])] = [''a'', ''b'']"
    by (simp add: unionNames_def)
  have c: "changed sha ?f (edited_file b) = Inr (sha [1] \<noteq> sha b)" if "length b = 1" for b
  proof -
    have "regularChanged sha (Some (scratch_source [1])) (Some (bytes_source b)) = Inr (sha [1] \<noteq> sha b)"
    proof -
      have c: "copy_section (scratch_source [1]) 1 0 = Inr [1]" "copy_section (bytes_source b) 1 0 = Inr b"
        using that copy_bytes(2)[of "[1]"] copy_bytes(1)[of b] by (cases b, simp_all)+
      have z: "src_size (scratch_source [1]) = 1" "src_size (bytes_source b) = 1"
        using that by (simp_all add: scratch_source_def bytes_source_def)
      show ?thesis unfolding regularChanged_def sourceSize_def hashSource_def option.case prod.case z using c by simp
    qed
    then show ?thesis by (simp add: changed_def linked_heap_def edited_file_def new_node_def mode_is_regular_def
      ModeType_def mode_defs has_def xattrsEqual_def)
  qed
  have d: "\<not> is_dir ?f" by (simp add: linked_heap_def new_node_def is_dir_def mode_is_dir_def)
  have e: "\<not> is_dir (edited_file b)" for b by (simp add: edited_file_def new_node_def is_dir_def mode_is_dir_def)
  have z: "src_size (bytes_source [2]) = 1" by (simp add: bytes_source_def)
  have w: "writeEntry (\<lambda>_. None) (Suc 0) (edited_file [2]) ''a'' s = Inr (reg_entry ''a'' [2], s)" if "s (Suc 0) = None" for s
    using that copy_bytes[of "[2]"] z
    by (simp add: Let_def writeEntry_def entry_hdr_def base_hdr_def edited_file_def new_node_def is_dir_def mode_is_dir_def
        sourceSize_def reg_entry_def plain_hdr_def pax_of_def mode_perm_def)
  show ?thesis using assms
    by (simp add: t u writeDiffLayer_def edited_tree_def childMap_def c d w e Let_def short_name)
qed

text \<open>
  C35. A layer holding the difference to a tree does not always reproduce it: with a base in which
  \<open>a\<close> and \<open>b\<close> are two names of one file, and a tree in which only \<open>a\<close> was rewritten, the
  layer holds only \<open>a\<close>, and applying it rewrites the shared node, so \<open>b\<close>, which held \<open>[1]\<close> before and holds it
  in the tree, comes out as \<open>[2]\<close>.
\<close>

theorem oci_diff_rewrites_hard_links:
  assumes "sha [1] \<noteq> sha [2]"
  shows "\<exists>old es new. flatten_layers (\<lambda>_. None) [Inr (link_layer, None)] = Inr old
    \<and> writeDiffLayer sha (\<lambda>_. None) (the (unfold_tree 2 old 0)) edited_tree = Inr es
    \<and> flatten_layers (\<lambda>_. None) [Inr (link_layer, None), Inr (es, None)] = Inr new
    \<and> es = [reg_entry ''a'' [2]] \<and> file_bytes old ''a'' = Some [1] \<and> file_bytes old ''b'' = Some [1]
    \<and> map fst (tn_kids edited_tree) = [''a'', ''b''] \<and> tn_node (snd (tn_kids edited_tree ! 1)) = edited_file [1]
    \<and> file_bytes new ''b'' = Some [2]"
proof -
  let ?new = "[hd (linked_heap [2]), (linked_heap [2] ! 1)\<lparr>nd_nlink := 1\<rparr>]"
  have "flatten_layers (\<lambda>_. None) [Inr (link_layer, None)] = Inr (linked_heap [1])"
    by (simp add: flatten_layers_def applyLayer_def link_layer_applied)
  moreover have "flatten_layers (\<lambda>_. None) [Inr (link_layer, None), Inr ([reg_entry ''a'' [2]], None)] = Inr ?new"
    by (simp add: flatten_layers_def applyLayer_def link_layer_applied rewrite_applied del: apply_entries.simps)
  moreover have "file_bytes (linked_heap [1]) ''a'' = Some [1]" "file_bytes (linked_heap [1]) ''b'' = Some [1]"
    by (simp_all add: file_bytes_def oci_lookup_def linked_heap_def find_child_def scratch_source_def bytes_read_at_def window_def)
  moreover have "file_bytes ?new ''b'' = Some [2]"
    by (simp add: file_bytes_def oci_lookup_def linked_heap_def find_child_def scratch_source_def bytes_read_at_def window_def)
  ultimately show ?thesis using edited_diff[OF assms] by (auto simp: edited_tree_def)
qed

theorem oci_diff_rewrites_hard_links_witness:
  "\<exists>old es new. flatten_layers (\<lambda>_. None) [Inr (link_layer, None)] = Inr old
    \<and> writeDiffLayer (\<lambda>b. b) (\<lambda>_. None) (the (unfold_tree 2 old 0)) edited_tree = Inr es
    \<and> flatten_layers (\<lambda>_. None) [Inr (link_layer, None), Inr (es, None)] = Inr new
    \<and> es = [reg_entry ''a'' [2]] \<and> file_bytes old ''a'' = Some [1] \<and> file_bytes old ''b'' = Some [1]
    \<and> map fst (tn_kids edited_tree) = [''a'', ''b''] \<and> tn_node (snd (tn_kids edited_tree ! 1)) = edited_file [1]
    \<and> file_bytes new ''b'' = Some [2]"
  by (rule oci_diff_rewrites_hard_links) simp

section \<open>Reading a layer back\<close>

lemma bit_perm: "bit (mode_perm m) k \<longleftrightarrow> k < 9 \<and> bit m k"
proof -
  have m: "(0x1FF :: filemode) = mask 9" by (simp add: mask_eq_exp_minus_1)
  show ?thesis unfolding mode_perm_def m by (auto simp: bit_and_iff bit_mask_iff)
qed

lemma perm_no_type: "mode_perm m AND NOT ModeType = mode_perm m"
  by (rule bit_word_eqI) (auto simp: bit_and_iff bit_not_iff bit_perm bit_ModeType)

lemma modeFromTar_perm:
  assumes "th_mode hdr = ucast (mode_perm m)"
  shows "modeFromTar hdr = mode_perm m"
proof -
  have b: "bit (ucast (mode_perm m) :: 64 word) k \<longleftrightarrow> k < 9 \<and> bit m k" for k
    by (auto simp: bit_ucast_iff bit_perm possible_bit_def)
  have z: "(ucast (mode_perm m) :: 64 word) AND 0x800 = 0" "(ucast (mode_perm m) :: 64 word) AND 0x400 = 0"
    "(ucast (mode_perm m) :: 64 word) AND 0x200 = 0"
    using and_exp_eq_0_iff_not_bit[of "ucast (mode_perm m) :: 64 word" 11]
      and_exp_eq_0_iff_not_bit[of "ucast (mode_perm m) :: 64 word" 10]
      and_exp_eq_0_iff_not_bit[of "ucast (mode_perm m) :: 64 word" 9] b by simp_all
  have "(ucast ((ucast (mode_perm m) :: 64 word) AND 0x1FF) :: filemode) = mode_perm m"
  proof (rule bit_word_eqI)
    fix k
    have m: "(0x1FF :: 64 word) = mask 9" by (simp add: mask_eq_exp_minus_1)
    show "bit (ucast ((ucast (mode_perm m) :: 64 word) AND 0x1FF) :: filemode) k = bit (mode_perm m) k"
      unfolding m by (auto simp: bit_ucast_iff bit_and_iff bit_mask_iff bit_perm possible_bit_def)
  qed
  then show ?thesis unfolding modeFromTar_def assms by (simp add: z)
qed

text \<open>The type a layer records for a node; one that is neither of these is read back as a file.\<close>

definition layer_kind :: "node \<Rightarrow> filemode" where
  "layer_kind n =
     (if is_dir n then ModeDir
      else if has (md_mode n) ModeSymlink then ModeSymlink
      else if has (md_mode n) ModeCharDevice then ModeCharDevice OR ModeDevice
      else if has (md_mode n) ModeDevice then ModeDevice
      else if has (md_mode n) ModeNamedPipe then ModeNamedPipe
      else 0)"

text \<open>
  The time a tar stream carries. The headers of \<open>layer.go\<close> leave the format open; for these
  \<open>archive/tar\<close> documents that the time is rounded to the nearest second, and it writes the zero
  time as the start of the epoch.
\<close>

definition tar_time :: "gotime \<Rightarrow> gotime" where
  "tar_time t =
     (let s = gt_sec t + (if 500000000 \<le> gt_nsec t then 1 else 0) in
      \<lparr> gt_sec = (if s = gt_sec zero_time then 0 else s), gt_nsec = 0 \<rparr>)"

text \<open>
  What reading a stream back gives for an entry that was written: the same header with that time.
  Of the PAX records, only those of extended attributes are asked for, as the format may add others
  of its own (long names, for instance).
\<close>

definition tar_kept :: "tar_entry \<Rightarrow> tar_entry \<Rightarrow> bool" where
  "tar_kept e e' \<longleftrightarrow> snd e' = snd e \<and> th_name (fst e') = th_name (fst e) \<and> th_flag (fst e') = th_flag (fst e)
     \<and> th_linkname (fst e') = th_linkname (fst e) \<and> th_mode (fst e') = th_mode (fst e)
     \<and> th_uid (fst e') = th_uid (fst e) \<and> th_gid (fst e') = th_gid (fst e)
     \<and> th_mtime (fst e') = tar_time (th_mtime (fst e)) \<and> th_size (fst e') = th_size (fst e)
     \<and> th_devmajor (fst e') = th_devmajor (fst e) \<and> th_devminor (fst e') = th_devminor (fst e)
     \<and> filter (\<lambda>p. has_prefix ''SCHILY.xattr.'' (fst p)) (th_pax (fst e'))
         = filter (\<lambda>p. has_prefix ''SCHILY.xattr.'' (fst p)) (th_pax (fst e))"

text \<open>
  \<open>m\<close> holds what the layer keeps of \<open>n\<close>: the permission bits and the type, ownership, the time as
  tar writes it, extended attributes, and the link target, device number or contents the type calls
  for. The setuid, setgid and sticky bits are not among it, and what is neither a directory, a
  link, a device nor a pipe (a socket) is a file.
\<close>

definition same_entry :: "node \<Rightarrow> node \<Rightarrow> bool" where
  "same_entry n m \<longleftrightarrow> md_mode m = mode_perm (md_mode n) OR layer_kind n
     \<and> md_uid m = md_uid n \<and> md_gid m = md_gid n \<and> md_mtime m = tar_time (md_mtime n) \<and> md_xattrs m = md_xattrs n
     \<and> nd_nlink m = (if is_dir n then 2 else 1)
     \<and> (layer_kind n = ModeSymlink \<longrightarrow> in_link m = in_link n)
     \<and> (layer_kind n = ModeDevice \<or> layer_kind n = (ModeCharDevice OR ModeDevice) \<longrightarrow> in_rdev m = in_rdev n)
     \<and> (layer_kind n = 0 \<longrightarrow> (\<exists>b. in_content m = Some (scratch_source b) \<and>
          (case in_content n of None \<Rightarrow> b = []
           | Some c \<Rightarrow> (if src_size c \<le> 0 then b = [] else copy_section c (nat (src_size c)) 0 = Inr b))))"

text \<open>No file with several names, and numbers in the range of their types.\<close>

definition node_layerable :: "node \<Rightarrow> bool" where
  "node_layerable n \<longleftrightarrow> (is_dir n \<or> nd_nlink n \<le> 1) \<and> md_uid n < 2 ^ 32 \<and> md_gid n < 2 ^ 32 \<and> in_rdev n < 2 ^ 64"

lemma xattrs_round_trip:
  assumes "filter (\<lambda>p. has_prefix ''SCHILY.xattr.'' (fst p)) (th_pax hdr) = filter (\<lambda>p. has_prefix ''SCHILY.xattr.'' (fst p)) (pax_of n)"
  shows "xattrsFromTar hdr = md_xattrs n"
proof -
  have "map (\<lambda>(k, v). (trim_prefix ''SCHILY.xattr.'' k, bytes_of v)) (filter (\<lambda>p. has_prefix ''SCHILY.xattr.'' (fst p))
      (map (\<lambda>(k, v). (''SCHILY.xattr.'' @ k, string_of v)) xs)) = xs" for xs
    by (induction xs) (auto simp: has_prefix_def trim_prefix_def)
  then show ?thesis using assms by (simp add: xattrsFromTar_def pax_of_def)
qed

lemma rdev_round_trip: "n < 2 ^ 64 \<Longrightarrow> unat (push_bit 8 (word_of_int (fst (devNums n)) :: 64 word) OR word_of_int (snd (devNums n))) = n"
proof -
  assume n: "n < 2 ^ 64"
  let ?w = "word_of_nat n :: 64 word"
  have "(word_of_nat (n div 256) :: 64 word) = drop_bit 8 ?w" "(word_of_nat (n mod 256) :: 64 word) = take_bit 8 ?w"
    using n unfolding word_unat_eq_iff
    by (simp_all add: drop_bit_eq_div take_bit_eq_mod unat_of_nat unat_div unat_mod)
  then have "push_bit 8 (word_of_int (fst (devNums n)) :: 64 word) OR word_of_int (snd (devNums n)) = ?w"
    by (simp add: devNums_def) (rule bit_word_eqI, auto simp: bit_or_iff bit_push_bit_iff bit_drop_bit_eq bit_take_bit_iff)
  then show ?thesis using n by (simp add: unat_of_nat)
qed

lemma same_entry_base:
  assumes "th_mode hdr = ucast (mode_perm (md_mode n))" "th_uid hdr = int (md_uid n)" "th_gid hdr = int (md_gid n)"
    "th_mtime hdr = t" "node_layerable n"
    "filter (\<lambda>p. has_prefix ''SCHILY.xattr.'' (fst p)) (th_pax hdr) = filter (\<lambda>p. has_prefix ''SCHILY.xattr.'' (fst p)) (pax_of n)"
  shows "meta_of_hdr hdr = \<lparr> md_mode = mode_perm (md_mode n), md_uid = md_uid n, md_gid = md_gid n,
    md_mtime = t, md_xattrs = md_xattrs n \<rparr>"
proof -
  have "u32_of_int (int k) = k" if "k < 2 ^ 32" for k using that by (simp add: u32_of_int_def)
  then show ?thesis
    using assms modeFromTar_perm xattrs_round_trip by (simp add: meta_of_hdr_def node_layerable_def)
qed

lemma entry_hdr_fields:
  "th_mode (entry_hdr n name) = ucast (mode_perm (md_mode n))" "th_uid (entry_hdr n name) = int (md_uid n)"
  "th_gid (entry_hdr n name) = int (md_gid n)" "th_mtime (entry_hdr n name) = md_mtime n" "th_pax (entry_hdr n name) = pax_of n"
  "th_name (entry_hdr n name) = (if is_dir n then name @ ''/'' else name)"
  by (simp_all add: entry_hdr_def base_hdr_def Let_def)

text \<open>The node an entry makes when its name is new.\<close>

definition fresh_node :: "tar_hdr \<Rightarrow> bytes \<Rightarrow> node" where
  "fresh_node hdr b = (case entry_effect hdr of None \<Rightarrow> as_file (scratch_source b) | Some f \<Rightarrow> f) (new_node (meta_of_hdr hdr) 1)"

lemma perm_not_dir: "\<not> bit (mode_perm m) 31" "bit (mode_perm m OR ModeDir) 31" "\<not> bit (mode_perm m OR ModeSymlink) 31"
  "\<not> bit (mode_perm m OR (ModeCharDevice OR ModeDevice)) 31" "\<not> bit (mode_perm m OR ModeDevice) 31"
  "\<not> bit (mode_perm m OR ModeNamedPipe) 31"
  by (simp_all add: bit_perm bit_or_iff mode_push_bit bit_exp_iff)

lemma fresh_same:
  assumes "node_layerable n" "tar_kept (entry_hdr n name, b') (hdr, b')"
    and "th_flag hdr = TypeReg \<Longrightarrow> (case in_content n of None \<Rightarrow> b = []
           | Some c \<Rightarrow> (if src_size c \<le> 0 then b = [] else copy_section c (nat (src_size c)) 0 = Inr b))"
  shows "same_entry n (fresh_node hdr b)" "nd_children (fresh_node hdr b) = []" "is_dir (fresh_node hdr b) \<longleftrightarrow> is_dir n"
proof -
  let ?m = "\<lparr> md_mode = mode_perm (md_mode n), md_uid = md_uid n, md_gid = md_gid n, md_mtime = tar_time (md_mtime n), md_xattrs = md_xattrs n \<rparr>"
  note h = assms(2)[unfolded tar_kept_def fst_conv]
  have m: "meta_of_hdr hdr = ?m" by (rule same_entry_base) (use h in \<open>simp_all add: entry_hdr_fields assms(1)\<close>)
  have rd: "unat (push_bit 8 (word_of_int (fst (devNums (in_rdev n))) :: 64 word) OR word_of_int (snd (devNums (in_rdev n)))) = in_rdev n"
    using assms(1) by (intro rdev_round_trip) (simp add: node_layerable_def)
  have k: "ModeDir \<noteq> ModeSymlink" "ModeDir \<noteq> ModeDevice" "ModeDir \<noteq> ModeCharDevice OR ModeDevice" "ModeDir \<noteq> 0"
    "ModeSymlink \<noteq> ModeDevice" "ModeSymlink \<noteq> ModeCharDevice OR ModeDevice" "ModeSymlink \<noteq> 0" "ModeDevice \<noteq> 0"
    "ModeCharDevice OR ModeDevice \<noteq> ModeSymlink" "ModeCharDevice OR ModeDevice \<noteq> 0"
    "ModeNamedPipe \<noteq> 0" "ModeNamedPipe \<noteq> ModeSymlink" "ModeNamedPipe \<noteq> ModeDevice" "ModeNamedPipe \<noteq> ModeCharDevice OR ModeDevice"
    by (simp_all add: mode_defs)
  note d = h entry_hdr_def base_hdr_def Let_def
  note f = fresh_node_def m entry_effect_def as_dir_def with_type_def as_file_def new_node_def is_dir_def mode_is_dir_def perm_no_type perm_not_dir
  have all: "same_entry n (fresh_node hdr b) \<and> nd_children (fresh_node hdr b) = [] \<and> (is_dir (fresh_node hdr b) \<longleftrightarrow> is_dir n)"
  proof (cases "is_dir n")
    case True
    then have "th_flag hdr = TypeDir" by (simp add: d)
    then show ?thesis using True k by (simp add: f same_entry_def layer_kind_def Let_def)
  next
    case nd: False
    show ?thesis
    proof (cases "has (md_mode n) ModeSymlink")
      case True
      then have "th_flag hdr = TypeSymlink" "th_linkname hdr = in_link n" using nd by (simp_all add: d)
      then show ?thesis using True nd k by (simp add: f same_entry_def layer_kind_def Let_def)
    next
      case ns: False
      show ?thesis
      proof (cases "has (md_mode n) ModeCharDevice")
        case True
        then have "th_flag hdr = TypeChar" "th_devmajor hdr = fst (devNums (in_rdev n))" "th_devminor hdr = snd (devNums (in_rdev n))"
          using nd ns by (simp_all add: d)
        then show ?thesis using True nd ns k rd by (simp add: f same_entry_def layer_kind_def Let_def)
      next
        case nc: False
        show ?thesis
        proof (cases "has (md_mode n) ModeDevice")
          case True
          then have "th_flag hdr = TypeBlock" "th_devmajor hdr = fst (devNums (in_rdev n))" "th_devminor hdr = snd (devNums (in_rdev n))"
            using nd ns nc by (simp_all add: d)
          then show ?thesis using True nd ns nc k rd by (simp add: f same_entry_def layer_kind_def Let_def)
        next
          case nb: False
          show ?thesis
          proof (cases "has (md_mode n) ModeNamedPipe")
            case True
            then have "th_flag hdr = TypeFifo" using nd ns nc nb by (simp add: d)
            then show ?thesis using True nd ns nc nb k by (simp add: f same_entry_def layer_kind_def Let_def)
          next
            case False
            then have "th_flag hdr = TypeReg" using nd ns nc nb by (simp add: d)
            then show ?thesis using False nd ns nc nb k assms(3)
              by (simp add: f same_entry_def layer_kind_def Let_def)
                (intro exI[of _ b] conjI, simp_all split: option.splits if_splits)
          qed
        qed
      qed
    qed
  qed
  then show "same_entry n (fresh_node hdr b)" "nd_children (fresh_node hdr b) = []" "is_dir (fresh_node hdr b) \<longleftrightarrow> is_dir n" by simp_all
qed

text \<open>Where a path of directories leads.\<close>

fun walk :: "heap \<Rightarrow> ref \<Rightarrow> string list \<Rightarrow> ref option" where
  "walk h cur [] = Some cur"
| "walk h cur (c # cs) =
     (case find_child h cur c of None \<Rightarrow> None | Some r \<Rightarrow> if is_dir (h ! r) then walk h r cs else None)"

lemma walk_snoc: "walk h cur (cs @ [c]) =
    (case walk h cur cs of None \<Rightarrow> None
     | Some d \<Rightarrow> (case find_child h d c of None \<Rightarrow> None | Some r \<Rightarrow> if is_dir (h ! r) then Some r else None))"
  by (induction h cur cs rule: walk.induct) (auto split: option.splits)

lemma ensure_walk: "list_all plain_comp cs \<Longrightarrow> walk h cur cs = Some d \<Longrightarrow> ensure_loop h cur cs = (h, d)"
  by (induction h cur cs rule: walk.induct) (auto simp: plain_comp_def split: option.splits if_splits)

lemma find_child_bound: "heap_ok h \<Longrightarrow> d < length h \<Longrightarrow> find_child h d c = Some r \<Longrightarrow> r < length h"
  using heap_ok_nth[of h d] by (auto simp: find_child_def dest!: map_of_SomeD refs_okD)

lemma walk_bound: "heap_ok h \<Longrightarrow> cur < length h \<Longrightarrow> walk h cur cs = Some d \<Longrightarrow> d < length h"
  by (induction h cur cs rule: walk.induct) (auto dest: find_child_bound split: option.splits if_splits)

text \<open>A store that grew: new nodes at its end and new entries at the end of one directory.\<close>

definition grown :: "heap \<Rightarrow> ref \<Rightarrow> (string \<times> ref) list \<Rightarrow> heap \<Rightarrow> bool" where
  "grown h d xs h' \<longleftrightarrow> length h \<le> length h' \<and> h' ! d = (h ! d)\<lparr>nd_children := nd_children (h ! d) @ xs\<rparr>
     \<and> (\<forall>i < length h. i \<noteq> d \<longrightarrow> h' ! i = h ! i)"

lemma grown_trans:
  assumes "grown h d xs h1" "grown h1 d ys h2" "d < length h"
  shows "grown h d (xs @ ys) h2"
  using assms by (auto simp: grown_def)

lemma grown_find: "grown h d xs h' \<Longrightarrow> i < length h \<Longrightarrow> find_child h i c = Some r \<Longrightarrow> find_child h' i c = Some r"
  by (cases "i = d") (simp_all add: grown_def find_child_def map_add_Some_iff)

lemma grown_is_dir: "grown h d xs h' \<Longrightarrow> i < length h \<Longrightarrow> is_dir (h' ! i) = is_dir (h ! i)"
  by (cases "i = d") (simp_all add: grown_def is_dir_def)

lemma grown_walk: "grown h d xs h' \<Longrightarrow> heap_ok h \<Longrightarrow> cur < length h \<Longrightarrow> walk h cur cs = Some e \<Longrightarrow> walk h' cur cs = Some e"
proof (induction cs arbitrary: cur)
  case (Cons c cs)
  then obtain r where r: "find_child h cur c = Some r" "is_dir (h ! r)" "walk h r cs = Some e"
    by (auto split: option.splits if_splits)
  have "r < length h" using find_child_bound[OF Cons.prems(2,3) r(1)] .
  then show ?case using Cons.IH[OF Cons.prems(1,2) _ r(3)] r grown_find[OF Cons.prems(1,3) r(1)]
      grown_is_dir[OF Cons.prems(1)] by simp
qed simp

text \<open>The part of the store from \<open>lo\<close> on holds the tree.\<close>

lemma list_all2_mono': "(\<And>x y. P x y \<longrightarrow> Q x y) \<Longrightarrow> list_all2 P xs ys \<longrightarrow> list_all2 Q xs ys"
  by (blast intro: list_all2_mono)

inductive rep :: "nat \<Rightarrow> heap \<Rightarrow> ref \<Rightarrow> tnode \<Rightarrow> bool" for lo h where
  repI: "lo \<le> r \<Longrightarrow> r < length h \<Longrightarrow> same_entry n (h ! r) \<Longrightarrow>
    map fst (nd_children (h ! r)) = map fst (if is_dir n then sort_by_name kids else []) \<Longrightarrow>
    list_all2 (rep lo h) (map snd (nd_children (h ! r))) (map snd (if is_dir n then sort_by_name kids else [])) \<Longrightarrow>
    rep lo h r (TNode r0 n kids)"
monos list_all2_mono'

lemma rep_frame:
  "rep lo h r t \<Longrightarrow> lo' \<le> lo \<Longrightarrow> length h \<le> length h' \<Longrightarrow> (\<And>i. lo \<le> i \<Longrightarrow> i < length h \<Longrightarrow> h' ! i = h ! i) \<Longrightarrow> rep lo' h' r t"
proof (induction rule: rep.induct)
  case (repI r n kids r0)
  then have e: "h' ! r = h ! r" by simp
  have "list_all2 (rep lo' h') (map snd (nd_children (h ! r))) (map snd (if is_dir n then sort_by_name kids else []))"
    using repI.IH by (rule list_all2_mono) (use repI.prems in blast)
  then show ?case using repI e by (intro rep.intros) auto
qed

text \<open>Trees a layer can hold: no shared files, no name that means something to a layer.\<close>

definition good_name :: "string \<Rightarrow> bool" where
  "good_name nm \<longleftrightarrow> plain_comp nm \<and> \<not> has_prefix whiteoutPrefix nm"

fun layerable :: "tnode \<Rightarrow> bool" where
  "layerable (TNode r n kids) \<longleftrightarrow> node_layerable n \<and> distinct (map fst kids)
     \<and> list_all (\<lambda>e. good_name (fst e) \<and> layerable (snd e)) kids"

lemma apply_entries_append: "apply_entries tmp (es @ es') a = bindE (apply_entries tmp es a) (apply_entries tmp es')"
proof (induction es arbitrary: a)
  case (Cons e es)
  then show ?case by (cases "applyEntry tmp e a") auto
qed simp

lemma writeEntry_Inr:
  assumes "writeEntry refuse r n name (\<lambda>_. None) = Inr (ent, seen')" "node_layerable n"
  shows "\<exists>b. ent = (entry_hdr n name, Inr b) \<and> seen' = (\<lambda>_. None) \<and>
    (th_flag (entry_hdr n name) = TypeReg \<longrightarrow> (case in_content n of None \<Rightarrow> b = []
           | Some c \<Rightarrow> (if src_size c \<le> 0 then b = [] else copy_section c (nat (src_size c)) 0 = Inr b)))"
proof (cases "th_flag (entry_hdr n name) = TypeReg")
  case True
  then have "\<not> is_dir n" by (auto simp: entry_hdr_def Let_def)
  then have "nd_nlink n \<le> 1" using assms(2) by (simp add: node_layerable_def)
  then show ?thesis using assms(1) True
    by (auto simp: writeEntry_def Let_def bindE_Inr_iff split: option.splits if_splits)
next
  case False
  then show ?thesis using assms(1) by (auto simp: writeEntry_def Let_def split: option.splits if_splits)
qed

lemma plain_valid: "plain_comp c \<Longrightarrow> ValidName c = None"
  by (simp add: plain_comp_def ValidName_def)

lemma checkPath_plain: "list_all plain_comp cs \<Longrightarrow> cs \<noteq> [] \<Longrightarrow> checkPath (join_with (CHR ''/'') cs) = None"
proof -
  assume cs: "list_all plain_comp cs" "cs \<noteq> []"
  have "find (\<lambda>c. c \<noteq> '''' \<and> ValidName c \<noteq> None) cs = None"
    using cs(1) by (auto simp: find_None_iff list_all_iff plain_valid)
  then show ?thesis using split_join[OF cs(2) plain_comps_no_slash[OF cs(1)]] by (simp add: checkPath_def)
qed

lemma opaque_is_whiteout: "base = whiteoutOpaque \<Longrightarrow> has_prefix whiteoutPrefix base"
  by (simp add: whiteoutOpaque_def whiteoutPrefix_def has_prefix_def)

lemma applyEntry_plain:
  assumes "list_all plain_comp cs" "good_name nm" "walk (ap_heap a) 0 cs = Some d"
    and "th_name (fst ent) \<in> {join_with (CHR ''/'') (cs @ [nm]), join_with (CHR ''/'') (cs @ [nm]) @ ''/''}"
  shows "applyEntry tmp ent a = place_node tmp ent d nm a"
proof -
  let ?j = "join_with (CHR ''/'') (cs @ [nm])"
  have p: "list_all plain_comp (cs @ [nm])" "plain_comp nm" using assms by (simp_all add: good_name_def)
  note j = join_plain_neq[OF p(1)]
  have pre: "\<not> has_prefix ''./'' (?j @ ''/'')"
  proof
    assume h: "has_prefix ''./'' (?j @ ''/'')"
    then show False using j(3,4) unfolding has_prefix_def
      by (cases ?j rule: remdups_adj.cases) (auto simp: j(1)[simplified])
  qed
  have name: "path_clean (trim_prefix ''./'' (th_name (fst ent))) = ?j"
    using assms(4) j(4) pre path_clean_join[OF p(1)] by (auto simp: trim_prefix_def)
  have ed: "ensureDir (ap_heap a) (trim_suffix_char (CHR ''/'') (if cs = [] then '''' else join_with (CHR ''/'') cs @ ''/'')) = (ap_heap a, d)"
  proof (cases "cs = []")
    case True
    then show ?thesis using assms(3) by (simp add: trim_suffix_char_def ensureDir_def)
  next
    case False
    then show ?thesis using assms(1,3) ensure_walk join_plain_neq[OF assms(1) False] split_join[OF False plain_comps_no_slash[OF assms(1)]]
      by (simp add: trim_suffix_char_def ensureDir_def)
  qed
  have "?j \<noteq> ''/''" using j by auto
  then show ?thesis unfolding applyEntry_def Let_def name
    using j checkPath_plain[OF p(1)] path_split_join[OF p(2), of cs] ed assms(2) opaque_is_whiteout
    by (auto simp: good_name_def)
qed

lemma place_fresh:
  assumes "\<And>k. tmp k = None" "find_child (ap_heap a) d nm = None" "d < length (ap_heap a)" "th_flag hdr \<noteq> TypeHard"
    and "entry_effect hdr = None \<Longrightarrow> th_flag hdr = TypeReg" "th_flag hdr = TypeReg \<Longrightarrow> entry_effect hdr = None"
  shows "\<exists>s. place_node tmp (hdr, Inr b) d nm a =
    Inr \<lparr>ap_heap = add_entry (ap_heap a @ [fresh_node hdr b]) d nm (length (ap_heap a)), ap_seq = s\<rparr>"
proof -
  have u: "upd_node f (upsert (ap_heap a) d nm m) = add_entry (ap_heap a @ [f (new_node m 1)]) d nm (length (ap_heap a))" for f m
    using assms(2,3) by (simp add: upsert_def upd_node_def add_entry_def nth_append list_update_append)
  show ?thesis
  proof (cases "entry_effect hdr")
    case None
    then have "place_node tmp (hdr, Inr b) d nm a =
        Inr (a\<lparr>ap_seq := ap_seq a + 1, ap_heap := upd_node (as_file (scratch_source b)) (upsert (ap_heap a) d nm (meta_of_hdr hdr))\<rparr>)"
      using assms(1,5) by (simp add: place_node_def spill_def Let_def)
    then show ?thesis using None by (intro exI[of _ "ap_seq a + 1"]) (simp add: u fresh_node_def applier.equality)
  next
    case (Some f)
    then have "th_flag hdr \<noteq> TypeReg" "th_flag hdr \<noteq> TypeRegA" using assms(6) by (auto simp: entry_effect_def split: if_splits)
    then have "place_node tmp (hdr, Inr b) d nm a = Inr (a\<lparr>ap_heap := upd_node f (upsert (ap_heap a) d nm (meta_of_hdr hdr))\<rparr>)"
      using assms(4) Some by (simp add: place_node_def Let_def)
    then show ?thesis using Some by (intro exI[of _ "ap_seq a"]) (simp add: u fresh_node_def applier.equality)
  qed
qed

lemma entry_applied:
  assumes w: "writeEntry refuse r n (join_with (CHR ''/'') (cs @ [nm])) (\<lambda>_. None) = Inr (ent, seen')" and n: "node_layerable n"
    and "list_all plain_comp cs" "good_name nm" "\<And>k. tmp k = None" "heap_ok (ap_heap a)"
    and d: "walk (ap_heap a) 0 cs = Some d" "find_child (ap_heap a) d nm = None" and kept: "tar_kept ent ent'"
  shows "seen' = (\<lambda>_. None) \<and> (\<exists>m s. applyEntry tmp ent' a =
      Inr \<lparr>ap_heap = add_entry (ap_heap a @ [m]) d nm (length (ap_heap a)), ap_seq = s\<rparr>
    \<and> same_entry n m \<and> nd_children m = [] \<and> is_dir m = is_dir n)"
proof -
  let ?hdr = "entry_hdr n (join_with (CHR ''/'') (cs @ [nm]))"
  obtain b where b: "ent = (?hdr, Inr b)" "seen' = (\<lambda>_. None)"
    "th_flag ?hdr = TypeReg \<longrightarrow> (case in_content n of None \<Rightarrow> b = []
           | Some c \<Rightarrow> (if src_size c \<le> 0 then b = [] else copy_section c (nat (src_size c)) 0 = Inr b))"
    using writeEntry_Inr[OF w n] by blast
  obtain hdr where h: "ent' = (hdr, Inr b)" "tar_kept (?hdr, Inr b) (hdr, Inr b)"
    using kept b(1) by (cases ent') (auto simp: tar_kept_def)
  have k: "th_name hdr = th_name ?hdr" "th_flag hdr = th_flag ?hdr" using h(2) by (simp_all add: tar_kept_def)
  have "0 < length (ap_heap a)" using assms(6) by (simp add: heap_ok_def)
  then have dl: "d < length (ap_heap a)" using walk_bound[OF assms(6) _ d(1)] by simp
  have e: "applyEntry tmp ent' a = place_node tmp ent' d nm a"
    by (rule applyEntry_plain[OF assms(3,4) d(1)]) (simp add: h(1) k entry_hdr_fields)
  have fl: "th_flag hdr \<noteq> TypeHard" "entry_effect hdr = None \<longleftrightarrow> th_flag hdr = TypeReg"
    by (auto simp: k entry_hdr_def base_hdr_def Let_def entry_effect_def)
  obtain s where "place_node tmp (hdr, Inr b) d nm a =
    Inr \<lparr>ap_heap = add_entry (ap_heap a @ [fresh_node hdr b]) d nm (length (ap_heap a)), ap_seq = s\<rparr>"
    using place_fresh[where tmp = tmp and a = a and hdr = hdr and b = b, OF assms(5) d(2) dl fl(1)] fl(2) by blast
  moreover have "same_entry n (fresh_node hdr b)" "nd_children (fresh_node hdr b) = []" "is_dir (fresh_node hdr b) \<longleftrightarrow> is_dir n"
    by (rule fresh_same[OF n h(2)], use b(3) k(2) in simp)+
  ultimately show ?thesis using e h(1) b(2) by (metis (no_types, lifting))
qed

lemma grown_entry:
  assumes "d < length h" "nd_children m = []"
  shows "grown h d [(nm, length h)] (add_entry (h @ [m]) d nm (length h))"
    "add_entry (h @ [m]) d nm (length h) ! length h = m"
    "length (add_entry (h @ [m]) d nm (length h)) = Suc (length h)"
  using assms by (auto simp: grown_def add_entry_def nth_append)

lemma grown_in_subdir:
  assumes "grown h d [(nm, r)] h1" "grown h1 r xs h2" "d < length h" "length h \<le> r"
  shows "grown h d [(nm, r)] h2"
  using assms unfolding grown_def by (auto simp: nth_append)

text \<open>Writing the entries below a directory and applying them where that directory was read to.\<close>

lemma written_tree_applied:
  fixes tmp :: "nat \<Rightarrow> error option"
  assumes tmp: "\<And>k. tmp k = None"
  shows "list_all plain_comp cs \<Longrightarrow> good_name nm \<Longrightarrow> layerable t \<Longrightarrow> heap_ok (ap_heap a) \<Longrightarrow> walk (ap_heap a) 0 cs = Some d \<Longrightarrow>
      find_child (ap_heap a) d nm = None \<Longrightarrow> name = join_with (CHR ''/'') (cs @ [nm]) \<Longrightarrow> seen = (\<lambda>_. None) \<Longrightarrow>
      write_subtree refuse t name seen = Inr (es, seen') \<Longrightarrow> list_all2 tar_kept es es' \<Longrightarrow>
      seen' = (\<lambda>_. None) \<and> (\<exists>a'. apply_entries tmp es' a = Inr a' \<and> grown (ap_heap a) d [(nm, length (ap_heap a))] (ap_heap a')
        \<and> rep (length (ap_heap a)) (ap_heap a') (length (ap_heap a)) t)"
    and "list_all plain_comp cs \<Longrightarrow> distinct (map fst ks) \<Longrightarrow> list_all (\<lambda>e. good_name (fst e) \<and> layerable (snd e)) ks \<Longrightarrow>
      heap_ok (ap_heap a) \<Longrightarrow> walk (ap_heap a) 0 cs = Some d \<Longrightarrow>
      list_all (\<lambda>e. find_child (ap_heap a) d (fst e) = None) ks \<Longrightarrow> name = join_with (CHR ''/'') cs \<Longrightarrow> seen = (\<lambda>_. None) \<Longrightarrow>
      write_children refuse ks name seen = Inr (es, seen') \<Longrightarrow> list_all2 tar_kept es es' \<Longrightarrow>
      seen' = (\<lambda>_. None) \<and> (\<exists>a' rs. apply_entries tmp es' a = Inr a' \<and> grown (ap_heap a) d (zip (map fst ks) rs) (ap_heap a')
        \<and> length rs = length ks \<and> list_all2 (rep (length (ap_heap a)) (ap_heap a')) rs (map snd ks))"
proof (induction refuse t name seen and refuse ks name seen arbitrary: cs nm a d es es' seen' and cs a d es es' seen'
    rule: write_subtree_write_children.induct)
  case (1 refuse r n kids name seen)
  let ?h = "ap_heap a" and ?r = "length (ap_heap a)"
  obtain ent s1 where w: "writeEntry refuse r n name (\<lambda>_. None) = Inr (ent, s1)"
    and rest: "(if is_dir n then bindE (write_children refuse (sort_by_name kids) name s1) (\<lambda>(es, seen). Inr (ent # es, seen))
       else Inr ([ent], s1)) = Inr (es, seen')"
    using "1.prems"(8,9) by (auto simp: bindE_Inr_iff)
  have nl: "node_layerable n" using "1.prems"(3) by simp
  obtain esr where "es = ent # esr" using rest by (auto simp: bindE_Inr_iff split: if_splits)
  then obtain ent' esr' where es': "es' = ent' # esr'" "tar_kept ent ent'" "list_all2 tar_kept (tl es) esr'"
    using "1.prems"(10) by (auto simp: list_all2_Cons1)
  obtain m s where s1: "s1 = (\<lambda>_. None)" and ap: "applyEntry tmp ent' a = Inr \<lparr>ap_heap = add_entry (?h @ [m]) d nm ?r, ap_seq = s\<rparr>"
    and m: "same_entry n m" "nd_children m = []" "is_dir m = is_dir n"
    using entry_applied[where tmp = tmp, OF w[unfolded "1.prems"(7)] nl "1.prems"(1,2) tmp "1.prems"(4-6) es'(2)] by blast
  define a1 where "a1 = \<lparr>ap_heap = add_entry (?h @ [m]) d nm ?r, ap_seq = s\<rparr>"
  have h1: "ap_heap a1 = add_entry (?h @ [m]) d nm ?r" by (simp add: a1_def)
  have dl: "d < ?r" using walk_bound[OF "1.prems"(4) _ "1.prems"(5)] "1.prems"(4) by (simp add: heap_ok_def)
  note g = grown_entry[OF dl m(2), of nm, folded h1]
  have ok1: "heap_ok (ap_heap a1)" unfolding a1_def by (rule applyEntry_ok[OF "1.prems"(4) ap])
  have pl: "list_all plain_comp (cs @ [nm])" using "1.prems"(1,2) by (simp add: good_name_def)
  show ?case
  proof (cases "is_dir n")
    case False
    then have "es' = [ent']" "seen' = (\<lambda>_. None)" using rest s1 es'(1,3) by auto
    moreover have "rep ?r (ap_heap a1) ?r (TNode r n kids)"
      using False g m by (intro rep.intros) simp_all
    ultimately show ?thesis using ap g(1) by (auto simp: a1_def)
  next
    case True
    then obtain es2 where es2: "write_children refuse (sort_by_name kids) name s1 = Inr (es2, seen')" "es = ent # es2"
      using rest by (auto simp: bindE_Inr_iff)
    have "walk (ap_heap a1) 0 cs = Some d"
      using grown_walk[OF g(1) "1.prems"(4) _ "1.prems"(5)] dl by (cases ?h) auto
    moreover have "find_child (ap_heap a1) d nm = Some ?r"
      using g(1) "1.prems"(6) by (simp add: grown_def find_child_def map_add_Some_iff)
    ultimately have wk: "walk (ap_heap a1) 0 (cs @ [nm]) = Some ?r"
      using True m(3) g(2) by (simp add: walk_snoc)
    have kids: "distinct (map fst (sort_by_name kids))" "list_all (\<lambda>e. good_name (fst e) \<and> layerable (snd e)) (sort_by_name kids)"
      using "1.prems"(3) by (simp_all add: list_all_iff)
    have none: "list_all (\<lambda>e. find_child (ap_heap a1) ?r (fst e) = None) (sort_by_name kids)"
      using g(2) m(2) by (simp add: find_child_def list_all_iff)
    obtain a2 rs where a2: "seen' = (\<lambda>_. None)" "apply_entries tmp esr' a1 = Inr a2"
      "grown (ap_heap a1) ?r (zip (map fst (sort_by_name kids)) rs) (ap_heap a2)" "length rs = length (sort_by_name kids)"
      "list_all2 (rep (length (ap_heap a1)) (ap_heap a2)) rs (map snd (sort_by_name kids))"
      using "1.IH"[OF w[folded "1.prems"(8)] refl True pl kids ok1 wk none "1.prems"(7) s1 es2(1) es'(3)[unfolded es2(2) list.sel]] by blast
    have ch: "ap_heap a2 ! ?r = m\<lparr>nd_children := zip (map fst (sort_by_name kids)) rs\<rparr>"
      using a2(3) g(2) m(2) by (simp add: grown_def)
    have "list_all2 (rep ?r (ap_heap a2)) rs (map snd (sort_by_name kids))"
      using a2(5) by (rule list_all2_mono) (erule rep_frame, simp_all add: g(3))
    moreover have "?r < length (ap_heap a2)" using a2(3) g(3) by (simp add: grown_def)
    ultimately have "rep ?r (ap_heap a2) ?r (TNode r n kids)"
      using True m(1) a2(4) by (intro rep.intros) (simp_all add: ch same_entry_def)
    moreover have "grown ?h d [(nm, ?r)] (ap_heap a2)" by (rule grown_in_subdir[OF g(1) a2(3) dl]) simp
    moreover have "apply_entries tmp es' a = Inr a2" using ap a2(2) es'(1) by (simp add: a1_def)
    ultimately show ?thesis using a2(1) by blast
  qed
next
  case (2 refuse prefix seen)
  then have "es' = []" "seen' = (\<lambda>_. None)" by simp_all
  then show ?case by (auto simp: grown_def)
next
  case (3 refuse nm t ks prefix seen)
  let ?h = "ap_heap a"
  have nm: "good_name nm" "layerable t" "plain_comp nm" using "3.prems"(3) by (simp_all add: good_name_def)
  obtain es1 s1 es2 where w1: "write_subtree refuse t (path_join [prefix, nm]) (\<lambda>_. None) = Inr (es1, s1)"
    and w2: "write_children refuse ks prefix s1 = Inr (es2, seen')" and es: "es = es1 @ es2"
    using "3.prems"(8,9) by (auto simp: bindE_Inr_iff)
  obtain es1' es2' where es': "es' = es1' @ es2'" "list_all2 tar_kept es1 es1'" "list_all2 tar_kept es2 es2'"
    using "3.prems"(10) es by (auto simp: list_all2_append1)
  have nj: "path_join [prefix, nm] = join_with (CHR ''/'') (cs @ [nm])"
    using path_join_plain[OF "3.prems"(1) nm(3)] "3.prems"(7) by simp
  have f: "find_child ?h d nm = None" using "3.prems"(6) by simp
  obtain a1 where s1: "s1 = (\<lambda>_. None)" and a1: "apply_entries tmp es1' a = Inr a1"
    "grown ?h d [(nm, length ?h)] (ap_heap a1)" "rep (length ?h) (ap_heap a1) (length ?h) t"
    using "3.IH"(1)[OF "3.prems"(1) nm(1,2) "3.prems"(4,5) f nj "3.prems"(8)] w1 es'(2) "3.prems"(8) by blast
  have dl: "d < length ?h" using walk_bound[OF "3.prems"(4) _ "3.prems"(5)] "3.prems"(4) by (simp add: heap_ok_def)
  have ok1: "heap_ok (ap_heap a1)" by (rule apply_entries_ok[OF "3.prems"(4) a1(1)])
  have wk: "walk (ap_heap a1) 0 cs = Some d" using grown_walk[OF a1(2) "3.prems"(4) _ "3.prems"(5)] dl by (cases ?h) auto
  have none: "list_all (\<lambda>e. find_child (ap_heap a1) d (fst e) = None) ks"
    using "3.prems"(2,6) a1(2) by (auto simp: list_all_iff grown_def find_child_def map_add_None)
  have ks: "distinct (map fst ks)" "list_all (\<lambda>e. good_name (fst e) \<and> layerable (snd e)) ks" using "3.prems"(2,3) by simp_all
  obtain a2 rs where a2: "seen' = (\<lambda>_. None)" "apply_entries tmp es2' a1 = Inr a2" "grown (ap_heap a1) d (zip (map fst ks) rs) (ap_heap a2)"
    "length rs = length ks" "list_all2 (rep (length (ap_heap a1)) (ap_heap a2)) rs (map snd ks)"
    using "3.IH"(2)[OF w1[folded "3.prems"(8)] refl "3.prems"(1) ks ok1 wk none "3.prems"(7) s1 w2 es'(3)] by blast
  have len: "length ?h \<le> length (ap_heap a1)" using a1(2) by (simp add: grown_def)
  have "rep (length ?h) (ap_heap a2) (length ?h) t"
    using a1(3) by (rule rep_frame) (use a2(3) dl in \<open>auto simp: grown_def\<close>)
  moreover have "list_all2 (rep (length ?h) (ap_heap a2)) rs (map snd ks)"
    using a2(5) by (rule list_all2_mono) (erule rep_frame, simp_all add: len)
  moreover have "grown ?h d ((nm, length ?h) # zip (map fst ks) rs) (ap_heap a2)"
    using grown_trans[OF a1(2) a2(3) dl] by simp
  ultimately have "grown ?h d (zip (map fst ((nm, t) # ks)) (length ?h # rs)) (ap_heap a2)"
    "list_all2 (rep (length ?h) (ap_heap a2)) (length ?h # rs) (map snd ((nm, t) # ks))" "length (length ?h # rs) = length ((nm, t) # ks)"
    using a2(4) by simp_all
  moreover have "apply_entries tmp es' a = Inr a2" using a1(1) a2(2) es'(1) by (simp add: apply_entries_append)
  ultimately show ?case using a2(1) by blast
qed

text \<open>
  What comes back of a layer written from a tree without shared files: flattening the entries as
  tar reads them back gives a store in which every path of the tree names a node that holds what a
  layer keeps of the original, in sorted order, and nothing else. The root has the attributes of
  the directory every flattened tree starts from, not those of the tree's root.
\<close>

lemma layer_reads_back:
  assumes "tarTree refuse root = Inr es" "layerable root" "\<And>k. tmp k = None" "list_all2 tar_kept es es'"
  shows "\<exists>h. flatten_layers tmp [Inr (es', None)] = Inr h
    \<and> h ! 0 = oci_dir_node\<lparr>nd_children := nd_children (h ! 0)\<rparr>
    \<and> map fst (nd_children (h ! 0)) = map fst (sort_by_name (tn_kids root))
    \<and> list_all2 (rep 1 h) (map snd (nd_children (h ! 0))) (map snd (sort_by_name (tn_kids root)))"
proof -
  let ?ks = "sort_by_name (tn_kids root)"
  obtain s where w: "write_children refuse ?ks '''' (\<lambda>_. None) = Inr (es, s)"
    using assms(1) by (auto simp: tarTree_def bindE_Inr_iff)
  have ks: "distinct (map fst ?ks)" "list_all (\<lambda>e. good_name (fst e) \<and> layerable (snd e)) ?ks"
    using assms(2) by (cases root; simp add: list_all_iff)+
  have none: "list_all (\<lambda>e. find_child (ap_heap empty_applier) 0 (fst e) = None) ?ks"
    by (simp add: list_all_iff find_child_def empty_applier_def oci_dir_node_def new_node_def)
  obtain a' rs where a: "apply_entries tmp es' empty_applier = Inr a'"
    "grown (ap_heap empty_applier) 0 (zip (map fst ?ks) rs) (ap_heap a')" "length rs = length ?ks"
    "list_all2 (rep 1 (ap_heap a')) rs (map snd ?ks)"
    using written_tree_applied(2)[where tmp = tmp and cs = "[]" and a = empty_applier and d = 0 and ks = ?ks and name = "''''"
        and seen = "\<lambda>_. None" and refuse = refuse and es = es and es' = es', OF assms(3) _ ks empty_applier_ok _ none _ refl w assms(4)]
    by (auto simp: empty_applier_def)
  have "nd_children (ap_heap a' ! 0) = zip (map fst ?ks) rs" "ap_heap a' ! 0 = oci_dir_node\<lparr>nd_children := nd_children (ap_heap a' ! 0)\<rparr>"
    using a(2) by (simp_all add: grown_def empty_applier_def oci_dir_node_def new_node_def)
  then show ?thesis using a by (simp add: flatten_layers_def applyLayer_def)
qed

definition sample_layer_tree :: tnode where
  "sample_layer_tree = TNode 0 oci_dir_node [(''d'', TNode 1 oci_dir_node [(''f'', TNode 2 (edited_file [104, 105]) [])])]"

lemma sample_layer:
  "tarTree (\<lambda>_. None) sample_layer_tree = Inr
     [(entry_hdr oci_dir_node ''d'', Inr []), (entry_hdr (edited_file [104, 105]) ''d/f'', Inr [104, 105])]"
proof -
  have p: "path_join [[], ''d''] = ''d''" "path_join [''d'', ''f''] = ''d/f''"
    using path_join_plain[of "[]" "''d''"] path_join_plain[of "[''d'']" "''f''"] by (simp_all add: plain_comp_def)
  have d: "is_dir oci_dir_node" "\<not> is_dir (edited_file b)" for b
    by (simp_all add: oci_dir_node_def new_node_def edited_file_def is_dir_def mode_is_dir_def has_def mode_defs del: has_bit)
  have c: "copy_section (bytes_source [104, 105]) 2 0 = Inr [104, 105]" "src_size (bytes_source [104, 105]) = 2"
    using copy_bytes(1)[of "[104, 105]"] by (simp_all add: bytes_source_def numeral_2_eq_2)
  have e: "writeEntry (\<lambda>_. None) 1 oci_dir_node ''d'' (\<lambda>_. None) = Inr ((entry_hdr oci_dir_node ''d'', Inr []), \<lambda>_. None)"
    using d by (simp add: writeEntry_def Let_def entry_hdr_def)
  have mm: "md_mode (edited_file [104, 105]) = 0x1ED" by (simp add: edited_file_def new_node_def)
  have r: "th_flag (entry_hdr (edited_file [104, 105]) ''d/f'') = TypeReg"
    using mm by (simp add: entry_hdr_def base_hdr_def d Let_def)
  have f: "in_content (edited_file [104, 105]) = Some (bytes_source [104, 105])" "nd_nlink (edited_file [104, 105]) = 1"
    by (simp_all add: edited_file_def new_node_def)
  have g: "writeEntry (\<lambda>_. None) 2 (edited_file [104, 105]) ''d/f'' (\<lambda>_. None) =
      Inr ((entry_hdr (edited_file [104, 105]) ''d/f'', Inr [104, 105]), \<lambda>_. None)"
    unfolding writeEntry_def Let_def using r by (simp add: f c)
  have s1: "sort_by_name [x] = [x]" for x :: "string \<times> tnode" by (simp add: sort_by_name_def)
  show ?thesis using e g by (simp add: tarTree_def sample_layer_tree_def p d s1)
qed

end
