(* ===== verification/OciLayout.thy ===== *)
theory OciLayout
  imports Oci
begin

text \<open>
  OCI image layouts (\<open>pkg/oci\<close>: \<open>layout.go\<close>, \<open>build.go\<close>, \<open>addlayer.go\<close>, \<open>spec.go\<close> and the
  rest of \<open>flatten.go\<close>): blobs stored under the hash of their contents, the manifest and the
  configuration that tie layers together, and the index. JSON, SHA-256, tar and gzip are parameters.
  The layout directory is a map from blob names to contents and the contents of \<open>index.json\<close>; a
  digest with path separators, which would leave the directory, is not distinguished from one that
  names a missing blob. Creating and opening the directory itself is not modelled.
\<close>

section \<open>Documents\<close>

definition MediaTypeIndex :: string where "MediaTypeIndex = ''application/vnd.oci.image.index.v1+json''"
definition MediaTypeManifest :: string where "MediaTypeManifest = ''application/vnd.oci.image.manifest.v1+json''"
definition MediaTypeConfig :: string where "MediaTypeConfig = ''application/vnd.oci.image.config.v1+json''"
definition MediaTypeLayerTarGz :: string where "MediaTypeLayerTarGz = ''application/vnd.oci.image.layer.v1.tar+gzip''"
definition MediaTypeLayerTar :: string where "MediaTypeLayerTar = ''application/vnd.oci.image.layer.v1.tar''"
definition annotationRefName :: string where "annotationRefName = ''org.opencontainers.image.ref.name''"

record platform =
  pl_arch :: string
  pl_os :: string

record descriptor =
  ds_media :: string
  ds_digest :: string
  ds_size :: int
  ds_platform :: "platform option"
  ds_annotations :: "(string \<times> string) list"

record oci_index =
  ix_version :: int
  ix_media :: string
  ix_manifests :: "descriptor list"

record manifest =
  mf_version :: int
  mf_media :: string
  mf_config :: descriptor
  mf_layers :: "descriptor list"

record run_config =
  rc_env :: "string list"
  rc_entrypoint :: "string list"
  rc_cmd :: "string list"
  rc_workdir :: string
  rc_labels :: "(string \<times> string) list"
  rc_volumes :: "string list"

record history =
  hi_created :: string
  hi_by :: string
  hi_empty :: bool

record image_config =
  ic_created :: string
  ic_arch :: string
  ic_os :: string
  ic_config :: run_config
  ic_fs_kind :: string
  ic_diff_ids :: "string list"
  ic_history :: "history list"

definition layerMediaType :: "bool \<Rightarrow> string" where
  "layerMediaType gzip = (if gzip then MediaTypeLayerTarGz else MediaTypeLayerTar)"

text \<open>
  The codecs of the standard library the package calls. \<open>cd_tar\<close> is the uncompressed stream of a
  list of entries, \<open>cd_gzip\<close> its compression, \<open>cd_untar\<close> what reading a blob back gives, with or
  without compression; \<open>cd_hex\<close> is the hexadecimal SHA-256 of its argument.
\<close>

record codecs =
  cd_manifest :: "manifest \<Rightarrow> bytes"
  cd_config :: "image_config \<Rightarrow> bytes"
  cd_index :: "oci_index \<Rightarrow> bytes"
  cd_get_manifest :: "bytes \<Rightarrow> manifest result"
  cd_get_config :: "bytes \<Rightarrow> image_config result"
  cd_get_index :: "bytes \<Rightarrow> oci_index result"
  cd_tar :: "tar_entry list \<Rightarrow> bytes"
  cd_gzip :: "bytes \<Rightarrow> bytes"
  cd_untar :: "bytes \<Rightarrow> tar_stream result"
  cd_hash :: "bytes \<Rightarrow> bytes"
  cd_hex :: "bytes \<Rightarrow> string"

section \<open>Layouts\<close>

record layout =
  lo_blobs :: "string \<Rightarrow> bytes option"
  lo_index :: "bytes option"

definition digestHex :: "string \<Rightarrow> string" where
  "digestHex d = (case cut_at (CHR '':'') d of None \<Rightarrow> d | Some (_, r) \<Rightarrow> r)"

definition BlobReader :: "layout \<Rightarrow> string \<Rightarrow> bytes result" where
  "BlobReader l d = (case lo_blobs l (digestHex d) of None \<Rightarrow> Inl (Err ''open: no such file'') | Some b \<Rightarrow> Inr b)"

definition oci_Index :: "codecs \<Rightarrow> layout \<Rightarrow> oci_index result" where
  "oci_Index K l = (case lo_index l of None \<Rightarrow> Inl (Err ''open: no such file'') | Some b \<Rightarrow> cd_get_index K b)"

definition sha_digest :: "codecs \<Rightarrow> bytes \<Rightarrow> string" where
  "sha_digest K b = ''sha256:'' @ cd_hex K b"

definition blob_desc :: "codecs \<Rightarrow> string \<Rightarrow> bytes \<Rightarrow> descriptor" where
  "blob_desc K media b = \<lparr> ds_media = media, ds_digest = sha_digest K b, ds_size = int (length b),
     ds_platform = None, ds_annotations = [] \<rparr>"

text \<open>\<open>wr\<close> says whether the host refuses to write a file.\<close>

definition PutBlobBytes :: "codecs \<Rightarrow> (string \<Rightarrow> error option) \<Rightarrow> layout \<Rightarrow> string \<Rightarrow> bytes \<Rightarrow> (descriptor \<times> layout) result" where
  "PutBlobBytes K wr l media b =
     (let name = cd_hex K b in
      case wr name of Some e \<Rightarrow> Inl e
      | None \<Rightarrow> Inr (blob_desc K media b, l\<lparr>lo_blobs := (lo_blobs l)(name \<mapsto> b)\<rparr>))"

text \<open>\<open>PutBlobStream\<close> runs the writer before anything is stored; an error of it stores nothing.\<close>

definition PutBlobStream :: "codecs \<Rightarrow> (string \<Rightarrow> error option) \<Rightarrow> layout \<Rightarrow> string \<Rightarrow> bytes result \<Rightarrow> (descriptor \<times> layout) result" where
  "PutBlobStream K wr l media w = bindE w (PutBlobBytes K wr l media)"

fun set_annotation :: "string \<Rightarrow> string \<Rightarrow> (string \<times> string) list \<Rightarrow> (string \<times> string) list" where
  "set_annotation k v [] = [(k, v)]"
| "set_annotation k v ((a, b) # xs) = (if a = k then (k, v) # xs else (a, b) # set_annotation k v xs)"

definition WriteIndex :: "codecs \<Rightarrow> (string \<Rightarrow> error option) \<Rightarrow> layout \<Rightarrow> descriptor \<Rightarrow> string \<Rightarrow> layout result" where
  "WriteIndex K wr l m refName =
     (let m = (if refName \<noteq> '''' then m\<lparr>ds_annotations := set_annotation annotationRefName refName (ds_annotations m)\<rparr> else m);
          idx = \<lparr> ix_version = 2, ix_media = MediaTypeIndex, ix_manifests = [m] \<rparr> in
      case wr ''index.json'' of Some e \<Rightarrow> Inl e | None \<Rightarrow> Inr (l\<lparr>lo_index := Some (cd_index K idx)\<rparr>))"

section \<open>Resolving and flattening\<close>

definition oci_resolve :: "codecs \<Rightarrow> layout \<Rightarrow> string \<Rightarrow> (manifest \<times> image_config) result" where
  "oci_resolve K l ref =
     bindE (oci_Index K l) (\<lambda>idx.
       if ix_manifests idx = [] then Inl (Err ''oci: empty index'')
       else bindE (if ref \<noteq> '''' then
              (case find (\<lambda>m. map_of (ds_annotations m) annotationRefName = Some ref) (ix_manifests idx) of
                 None \<Rightarrow> Inl (Err (''oci: ref not found: '' @ ref)) | Some m \<Rightarrow> Inr m)
            else Inr (hd (ix_manifests idx))) (\<lambda>chosen.
         if ds_media chosen = MediaTypeIndex then Inl (Err ''oci: nested index not supported (single-platform only)'')
         else bindE (bindE (BlobReader l (ds_digest chosen)) (cd_get_manifest K)) (\<lambda>man.
              bindE (bindE (BlobReader l (ds_digest (mf_config man))) (cd_get_config K)) (\<lambda>cfg. Inr (man, cfg)))))"

text \<open>\<open>Flatten\<close>; the scratch directory may not be created (\<open>mk\<close>).\<close>

definition oci_Flatten :: "codecs \<Rightarrow> error option \<Rightarrow> (nat \<Rightarrow> error option) \<Rightarrow> layout \<Rightarrow> string \<Rightarrow> (heap \<times> image_config) result" where
  "oci_Flatten K mk tmp l ref =
     bindE (oci_resolve K l ref) (\<lambda>(man, cfg).
       case mk of Some e \<Rightarrow> Inl e
       | None \<Rightarrow>
           bindE (flatten_layers tmp (map (\<lambda>d. bindE (BlobReader l (ds_digest d)) (cd_untar K)) (mf_layers man)))
             (\<lambda>h. Inr (h, cfg)))"

section \<open>Building\<close>

record build_options =
  bo_ref :: string
  bo_arch :: string
  bo_os :: string
  bo_config :: run_config
  bo_gzip :: bool
  bo_created :: gotime

text \<open>\<open>streamLayer\<close>: the stored blob and the digest of the uncompressed stream.\<close>

definition streamLayer ::
  "codecs \<Rightarrow> (string \<Rightarrow> error option) \<Rightarrow> layout \<Rightarrow> bool \<Rightarrow> (tar_entry list) result \<Rightarrow> (descriptor \<times> string \<times> layout) result" where
  "streamLayer K wr l gzip fill =
     bindE fill (\<lambda>es.
       let raw = cd_tar K es in
       bindE (PutBlobStream K wr l (layerMediaType gzip) (Inr (if gzip then cd_gzip K raw else raw)))
         (\<lambda>(d, l). Inr (d, sha_digest K raw, l)))"

definition writeLayer where
  "writeLayer K wr refuse l root gzip = streamLayer K wr l gzip (tarTree refuse root)"

definition writeImageMeta ::
  "codecs \<Rightarrow> (string \<Rightarrow> error option) \<Rightarrow> layout \<Rightarrow> descriptor list \<Rightarrow> image_config \<Rightarrow> string \<Rightarrow> (descriptor \<times> layout) result" where
  "writeImageMeta K wr l layers cfg ref =
     bindE (PutBlobBytes K wr l MediaTypeConfig (cd_config K cfg)) (\<lambda>(cfgDesc, l).
     let man = \<lparr> mf_version = 2, mf_media = MediaTypeManifest, mf_config = cfgDesc, mf_layers = layers \<rparr> in
     bindE (PutBlobBytes K wr l MediaTypeManifest (cd_manifest K man)) (\<lambda>(manDesc, l).
     let manDesc = manDesc\<lparr>ds_platform := Some \<lparr> pl_arch = ic_arch cfg, pl_os = ic_os cfg \<rparr>\<rparr> in
     bindE (WriteIndex K wr l manDesc ref) (\<lambda>l. Inr (manDesc, l))))"

text \<open>\<open>now\<close> is the clock of the image, \<open>fmt\<close> its RFC 3339 form.\<close>

definition created_string :: "(gotime \<Rightarrow> string) \<Rightarrow> gotime \<Rightarrow> build_options \<Rightarrow> string" where
  "created_string fmt now opt = fmt (if is_zero_time (bo_created opt) then now else bo_created opt)"

definition build_config :: "string \<Rightarrow> string \<Rightarrow> build_options \<Rightarrow> image_config" where
  "build_config created diffID opt =
     \<lparr> ic_created = created, ic_arch = (if bo_arch opt = '''' then ''amd64'' else bo_arch opt),
       ic_os = (if bo_os opt = '''' then ''linux'' else bo_os opt), ic_config = bo_config opt, ic_fs_kind = ''layers'',
       ic_diff_ids = [diffID], ic_history = [\<lparr> hi_created = created, hi_by = ''fsforge'', hi_empty = False \<rparr>] \<rparr>"

definition oci_Build where
  "oci_Build K wr refuse fmt now l root opt =
     bindE (writeLayer K wr refuse l root (bo_gzip opt)) (\<lambda>(layerDesc, diffID, l).
       writeImageMeta K wr l [layerDesc] (build_config (created_string fmt now opt) diffID opt) (bo_ref opt))"

text \<open>Adding a layer to the image a reference names.\<close>

definition add_layer_config :: "string \<Rightarrow> string \<Rightarrow> image_config \<Rightarrow> image_config" where
  "add_layer_config created diffID cfg = cfg\<lparr> ic_created := created, ic_diff_ids := ic_diff_ids cfg @ [diffID],
     ic_history := ic_history cfg @ [\<lparr> hi_created = created, hi_by = ''fsforge'', hi_empty = False \<rparr>] \<rparr>"

definition oci_AddLayer where
  "oci_AddLayer K wr refuse fmt now l baseRef root opt =
     bindE (oci_resolve K l baseRef) (\<lambda>(man, cfg).
     bindE (writeLayer K wr refuse l root (bo_gzip opt)) (\<lambda>(layerDesc, diffID, l).
       writeImageMeta K wr l (mf_layers man @ [layerDesc]) (add_layer_config (created_string fmt now opt) diffID cfg)
         (if bo_ref opt = '''' then baseRef else bo_ref opt)))"

text \<open>
  The flattened base is walked as a tree. One with a cycle is walked for ever; the model says so as
  well of a cycle that is only reached through a file that was a directory in a lower layer, which
  the code does not enter.
\<close>

definition oci_AddLayerDiff where
  "oci_AddLayerDiff K wr refuse fmt now mk tmp l baseRef root opt =
     bindE (oci_resolve K l baseRef) (\<lambda>(man, cfg).
     bindE (oci_Flatten K mk tmp l baseRef) (\<lambda>(h, _).
     bindE (case unfold_tree (Suc (length h)) h 0 of
              None \<Rightarrow> Inl (Panic ''does not return'')
            | Some old \<Rightarrow> streamLayer K wr l (bo_gzip opt) (writeDiffLayer (cd_hash K) refuse old root))
       (\<lambda>(layerDesc, diffID, l).
         writeImageMeta K wr l (mf_layers man @ [layerDesc]) (add_layer_config (created_string fmt now opt) diffID cfg)
           (if bo_ref opt = '''' then baseRef else bo_ref opt))))"

section \<open>Building and flattening\<close>

lemma digestHex_sha [simp]: "digestHex (sha_digest K b) = cd_hex K b"
  by (simp add: sha_digest_def digestHex_def cut_at_def)

text \<open>The blobs a build stores for a list of entries: the layer, the configuration, the manifest.\<close>

definition layer_blob :: "codecs \<Rightarrow> build_options \<Rightarrow> tar_entry list \<Rightarrow> bytes" where
  "layer_blob K opt es = (if bo_gzip opt then cd_gzip K (cd_tar K es) else cd_tar K es)"

definition built_config :: "codecs \<Rightarrow> (gotime \<Rightarrow> string) \<Rightarrow> gotime \<Rightarrow> build_options \<Rightarrow> tar_entry list \<Rightarrow> image_config" where
  "built_config K fmt now opt es =
     build_config (created_string fmt now opt) (sha_digest K (cd_tar K es)) opt"

definition built_manifest :: "codecs \<Rightarrow> (gotime \<Rightarrow> string) \<Rightarrow> gotime \<Rightarrow> build_options \<Rightarrow> tar_entry list \<Rightarrow> manifest" where
  "built_manifest K fmt now opt es =
     \<lparr> mf_version = 2, mf_media = MediaTypeManifest, mf_config = blob_desc K MediaTypeConfig (cd_config K (built_config K fmt now opt es)),
       mf_layers = [blob_desc K (layerMediaType (bo_gzip opt)) (layer_blob K opt es)] \<rparr>"

definition built_blobs :: "codecs \<Rightarrow> (gotime \<Rightarrow> string) \<Rightarrow> gotime \<Rightarrow> build_options \<Rightarrow> tar_entry list \<Rightarrow> bytes set" where
  "built_blobs K fmt now opt es = {layer_blob K opt es, cd_config K (built_config K fmt now opt es),
     cd_manifest K (built_manifest K fmt now opt es)}"

definition built_index :: "codecs \<Rightarrow> (gotime \<Rightarrow> string) \<Rightarrow> gotime \<Rightarrow> build_options \<Rightarrow> tar_entry list \<Rightarrow> oci_index" where
  "built_index K fmt now opt es =
     (let m = (blob_desc K MediaTypeManifest (cd_manifest K (built_manifest K fmt now opt es)))
                \<lparr>ds_platform := Some \<lparr> pl_arch = ic_arch (built_config K fmt now opt es), pl_os = ic_os (built_config K fmt now opt es) \<rparr>\<rparr> in
      \<lparr> ix_version = 2, ix_media = MediaTypeIndex,
        ix_manifests = [if bo_ref opt \<noteq> '''' then m\<lparr>ds_annotations := [(annotationRefName, bo_ref opt)]\<rparr> else m] \<rparr>)"

definition built_layout :: "codecs \<Rightarrow> (gotime \<Rightarrow> string) \<Rightarrow> gotime \<Rightarrow> build_options \<Rightarrow> tar_entry list \<Rightarrow> layout \<Rightarrow> layout" where
  "built_layout K fmt now opt es l =
     (let put = (\<lambda>b l. l\<lparr>lo_blobs := (lo_blobs l)(cd_hex K b \<mapsto> b)\<rparr>) in
      (put (cd_manifest K (built_manifest K fmt now opt es)) (put (cd_config K (built_config K fmt now opt es)) (put (layer_blob K opt es) l)))
        \<lparr>lo_index := Some (cd_index K (built_index K fmt now opt es))\<rparr>)"

text \<open>
  What is asked of the codecs, about the documents of one build only: the JSON documents decode to
  what was encoded, the tar stream to the entries \<open>es'\<close>, which are the written ones \<open>es\<close> with the
  times rounded as \<open>archive/tar\<close> does, and no two different blobs have one hash.
\<close>

definition codecs_ok ::
  "codecs \<Rightarrow> (gotime \<Rightarrow> string) \<Rightarrow> gotime \<Rightarrow> build_options \<Rightarrow> tar_entry list \<Rightarrow> tar_entry list \<Rightarrow> bool" where
  "codecs_ok K fmt now opt es es' \<longleftrightarrow>
     cd_get_manifest K (cd_manifest K (built_manifest K fmt now opt es)) = Inr (built_manifest K fmt now opt es)
     \<and> cd_get_config K (cd_config K (built_config K fmt now opt es)) = Inr (built_config K fmt now opt es)
     \<and> cd_get_index K (cd_index K (built_index K fmt now opt es)) = Inr (built_index K fmt now opt es)
     \<and> cd_untar K (layer_blob K opt es) = Inr (es', None) \<and> list_all2 tar_kept es es'
     \<and> inj_on (cd_hex K) (built_blobs K fmt now opt es)"

lemma build_succeeds:
  assumes "tarTree refuse root = Inr es"
  shows "\<exists>d. oci_Build K (\<lambda>_. None) refuse fmt now l root opt = Inr (d, built_layout K fmt now opt es l)"
  unfolding oci_Build_def writeLayer_def streamLayer_def PutBlobStream_def PutBlobBytes_def assms writeImageMeta_def WriteIndex_def
  by (auto simp: built_layout_def Let_def built_index_def built_config_def built_manifest_def layer_blob_def blob_desc_def)

lemma three_blobs:
  assumes "inj_on f {x, y, z}" "b \<in> {x, y, z}"
  shows "(m(f x \<mapsto> x, f y \<mapsto> y, f z \<mapsto> z)) (f b) = Some b"
proof -
  have "f x = f y \<longleftrightarrow> x = y" "f x = f z \<longleftrightarrow> x = z" "f y = f z \<longleftrightarrow> y = z" using assms(1) by (auto dest: inj_onD)
  then show ?thesis using assms(2) by auto
qed

lemma built_blob:
  assumes "inj_on (cd_hex K) (built_blobs K fmt now opt es)" "b \<in> built_blobs K fmt now opt es"
  shows "BlobReader (built_layout K fmt now opt es l) (sha_digest K b) = Inr b"
  using three_blobs[OF assms[unfolded built_blobs_def]]
  by (simp add: BlobReader_def built_layout_def Let_def)

lemma built_resolves:
  assumes "codecs_ok K fmt now opt es es'"
  shows "oci_resolve K (built_layout K fmt now opt es l) (bo_ref opt) = Inr (built_manifest K fmt now opt es, built_config K fmt now opt es)"
proof -
  let ?l = "built_layout K fmt now opt es l"
  let ?mb = "cd_manifest K (built_manifest K fmt now opt es)" and ?cb = "cd_config K (built_config K fmt now opt es)"
  have inj: "inj_on (cd_hex K) (built_blobs K fmt now opt es)" using assms by (simp add: codecs_ok_def)
  have m: "BlobReader ?l (sha_digest K ?mb) = Inr ?mb" and c: "BlobReader ?l (sha_digest K ?cb) = Inr ?cb"
    by (rule built_blob[OF inj], simp add: built_blobs_def)+
  have md: "ds_digest (mf_config (built_manifest K fmt now opt es)) = sha_digest K ?cb"
    by (simp add: built_manifest_def blob_desc_def)
  have mt: "MediaTypeManifest \<noteq> MediaTypeIndex" by (simp add: MediaTypeManifest_def MediaTypeIndex_def)
  obtain d where d: "ix_manifests (built_index K fmt now opt es) = [d]" "ds_digest d = sha_digest K ?mb" "ds_media d = MediaTypeManifest"
    "bo_ref opt \<noteq> '''' \<longrightarrow> ds_annotations d = [(annotationRefName, bo_ref opt)]"
    by (simp add: built_index_def blob_desc_def Let_def)
  have i: "oci_Index K ?l = Inr (built_index K fmt now opt es)"
    using assms by (simp add: oci_Index_def built_layout_def codecs_ok_def Let_def)
  have "bindE (BlobReader ?l (ds_digest d)) (cd_get_manifest K) = Inr (built_manifest K fmt now opt es)" "ds_media d \<noteq> MediaTypeIndex"
    using d m mt assms by (simp_all add: codecs_ok_def)
  moreover have "bindE (BlobReader ?l (ds_digest (mf_config (built_manifest K fmt now opt es)))) (cd_get_config K) = Inr (built_config K fmt now opt es)"
    unfolding md c using assms by (simp add: codecs_ok_def)
  ultimately show ?thesis unfolding oci_resolve_def i using d by (cases "bo_ref opt = ''''") simp_all
qed

lemma built_flattens:
  assumes "codecs_ok K fmt now opt es es'"
  shows "oci_Flatten K None tmp (built_layout K fmt now opt es l) (bo_ref opt)
    = bindE (flatten_layers tmp [Inr (es', None)]) (\<lambda>h. Inr (h, built_config K fmt now opt es))"
proof -
  have "BlobReader (built_layout K fmt now opt es l) (sha_digest K (layer_blob K opt es)) = Inr (layer_blob K opt es)"
    by (rule built_blob) (use assms in \<open>simp_all add: built_blobs_def codecs_ok_def\<close>)
  then have "map (\<lambda>d. bindE (BlobReader (built_layout K fmt now opt es l) (ds_digest d)) (cd_untar K)) (mf_layers (built_manifest K fmt now opt es))
      = [Inr (es', None)]"
    using assms by (simp add: built_manifest_def blob_desc_def codecs_ok_def)
  then show ?thesis by (simp add: oci_Flatten_def built_resolves[OF assms])
qed

text \<open>
  C7. An image built from a tree without hard links and flattened again has the tree's paths, and
  at each of them what a layer keeps: the build succeeds, and flattening the layout it leaves, under
  the reference it was given, returns the configuration that was written and a store with exactly
  the paths of the tree, every node of which has the permission bits, type, owner, extended
  attributes and contents (or link target, or device number) of the original and its time rounded to
  the second. The setuid, setgid and sticky bits are lost, sockets come back as files, and the root
  has mode 0755 and zero attributes whatever the tree's root had. Assumed: names fit in a layer (no
  whiteout prefix, no slash, no dot name, no duplicate), ids and device numbers fit their widths,
  and the codecs decode this build's documents, the tar stream up to its rounding of times.
\<close>

theorem oci_build_then_flatten:
  assumes "tarTree refuse root = Inr es" "layerable root" "\<And>k. tmp k = None" "codecs_ok K fmt now opt es es'"
  shows "\<exists>d l' h. oci_Build K (\<lambda>_. None) refuse fmt now l root opt = Inr (d, l')
    \<and> oci_Flatten K None tmp l' (bo_ref opt) = Inr (h, built_config K fmt now opt es)
    \<and> h ! 0 = oci_dir_node\<lparr>nd_children := nd_children (h ! 0)\<rparr>
    \<and> map fst (nd_children (h ! 0)) = map fst (sort_by_name (tn_kids root))
    \<and> list_all2 (rep 1 h) (map snd (nd_children (h ! 0))) (map snd (sort_by_name (tn_kids root)))"
proof -
  obtain d where "oci_Build K (\<lambda>_. None) refuse fmt now l root opt = Inr (d, built_layout K fmt now opt es l)"
    using build_succeeds[OF assms(1)] by blast
  moreover have "list_all2 tar_kept es es'" using assms(4) by (simp add: codecs_ok_def)
  then obtain h where "flatten_layers tmp [Inr (es', None)] = Inr h" "h ! 0 = oci_dir_node\<lparr>nd_children := nd_children (h ! 0)\<rparr>"
    "map fst (nd_children (h ! 0)) = map fst (sort_by_name (tn_kids root))"
    "list_all2 (rep 1 h) (map snd (nd_children (h ! 0))) (map snd (sort_by_name (tn_kids root)))"
    using layer_reads_back[where tmp = tmp, OF assms(1-3)] by blast
  ultimately show ?thesis using built_flattens[OF assms(4), of tmp l] by (metis bindE_simps(2))
qed

definition sample_options :: build_options where
  "sample_options = \<lparr> bo_ref = ''x:1'', bo_arch = '''', bo_os = '''',
     bo_config = \<lparr> rc_env = [], rc_entrypoint = [], rc_cmd = [''/init''], rc_workdir = '''', rc_labels = [], rc_volumes = [] \<rparr>,
     bo_gzip = False, bo_created = zero_time \<rparr>"

definition sample_entries :: "tar_entry list" where
  "sample_entries = [(entry_hdr oci_dir_node ''d'', Inr []), (entry_hdr (edited_file [104, 105]) ''d/f'', Inr [104, 105])]"

text \<open>The tree holds the zero time; reading the tar stream back gives the start of the epoch.\<close>

definition sample_read_entries :: "tar_entry list" where
  "sample_read_entries = map (\<lambda>(hdr, b). (hdr\<lparr>th_mtime := \<lparr> gt_sec = 0, gt_nsec = 0 \<rparr>\<rparr>, b)) sample_entries"

text \<open>Codecs for one build: each document has a fixed encoding.\<close>

definition sample_codecs0 :: codecs where
  "sample_codecs0 = \<lparr> cd_manifest = \<lambda>_. [3], cd_config = \<lambda>_. [2], cd_index = \<lambda>_. [4],
     cd_get_manifest = \<lambda>_. Inl EOF, cd_get_config = \<lambda>_. Inl EOF, cd_get_index = \<lambda>_. Inl EOF,
     cd_tar = \<lambda>_. [1], cd_gzip = \<lambda>b. 31 # b, cd_untar = \<lambda>_. Inr (sample_read_entries, None), cd_hash = \<lambda>b. b, cd_hex = string_of \<rparr>"

definition sample_codecs :: codecs where
  "sample_codecs = sample_codecs0\<lparr>
     cd_get_manifest := \<lambda>_. Inr (built_manifest sample_codecs0 (\<lambda>_. ''now'') zero_time sample_options sample_entries),
     cd_get_config := \<lambda>_. Inr (built_config sample_codecs0 (\<lambda>_. ''now'') zero_time sample_options sample_entries),
     cd_get_index := \<lambda>_. Inr (built_index sample_codecs0 (\<lambda>_. ''now'') zero_time sample_options sample_entries)\<rparr>"

theorem oci_build_then_flatten_witness:
  "\<exists>d l' h. oci_Build sample_codecs (\<lambda>_. None) (\<lambda>_. None) (\<lambda>_. ''now'') zero_time \<lparr> lo_blobs = \<lambda>_. None, lo_index = None \<rparr>
        sample_layer_tree sample_options = Inr (d, l')
    \<and> oci_Flatten sample_codecs None (\<lambda>_. None) l' ''x:1'' = Inr (h, built_config sample_codecs (\<lambda>_. ''now'') zero_time sample_options sample_entries)
    \<and> h ! 0 = oci_dir_node\<lparr>nd_children := nd_children (h ! 0)\<rparr>
    \<and> map fst (nd_children (h ! 0)) = map fst (sort_by_name (tn_kids sample_layer_tree))
    \<and> list_all2 (rep 1 h) (map snd (nd_children (h ! 0))) (map snd (sort_by_name (tn_kids sample_layer_tree)))"
proof -
  note K = sample_codecs_def sample_codecs0_def
  have t: "tarTree (\<lambda>_. None) sample_layer_tree = Inr sample_entries" using sample_layer by (simp add: sample_entries_def)
  have l: "layerable sample_layer_tree"
    by (simp add: sample_layer_tree_def node_layerable_def oci_dir_node_def new_node_def edited_file_def is_dir_def
      mode_is_dir_def has_def mode_defs good_name_def plain_comp_def has_prefix_def whiteoutPrefix_def del: has_bit)
  have c: "built_config sample_codecs f n opt es = built_config sample_codecs0 f n opt es"
    "built_manifest sample_codecs f n opt es = built_manifest sample_codecs0 f n opt es" for f n opt es
    by (simp_all add: built_config_def built_manifest_def blob_desc_def sha_digest_def K layer_blob_def)
  have "built_index sample_codecs f n opt es = built_index sample_codecs0 f n opt es" for f n opt es
    unfolding built_index_def c by (simp add: blob_desc_def sha_digest_def K)
  moreover have "list_all2 tar_kept sample_entries sample_read_entries"
    by (simp add: sample_entries_def sample_read_entries_def tar_kept_def entry_hdr_fields tar_time_def zero_time_def
      oci_dir_node_def edited_file_def new_node_def)
  ultimately have "codecs_ok sample_codecs (\<lambda>_. ''now'') zero_time sample_options sample_entries sample_read_entries"
    unfolding codecs_ok_def built_blobs_def c
    by (simp add: K layer_blob_def sample_options_def inj_on_def string_of_def)
  then show ?thesis
    using oci_build_then_flatten[OF t l, of "\<lambda>_. None" sample_codecs "\<lambda>_. ''now''" zero_time sample_options sample_read_entries
        "\<lparr> lo_blobs = \<lambda>_. None, lo_index = None \<rparr>"] by (simp add: sample_options_def)
qed

end
