(* ===== verification/ExtFormat.thy ===== *)
theory ExtFormat
  imports Prelude Device Image Strings "HOL-Library.AList" "HOL-Library.Product_Lexorder"
begin

text \<open>
  The on-disk structures of the ext2/3/4 engine (\<open>pkg/ext\<close>): the geometry derived from the
  device size, group descriptors, superblock, inodes, directory blocks, extents and extended
  attributes, each with its encoder and its decoder. Names carry the prefix \<open>x_\<close>.
\<close>

section \<open>Constants\<close>

definition x_superblockOffset :: nat where "x_superblockOffset = 1024"
definition x_superblockSize :: nat where "x_superblockSize = 1024"
definition x_magic :: nat where "x_magic = 0xEF53"
definition rootIno :: nat where "rootIno = 2"
definition firstIno :: nat where "firstIno = 11"
definition lostFoundIno :: nat where "lostFoundIno = 11"
definition reservedInos :: nat where "reservedInos = 10"
definition goodOldInodeSize :: nat where "goodOldInodeSize = 128"
definition ext4InodeSize :: nat where "ext4InodeSize = 256"
definition extraISize :: nat where "extraISize = 32"
definition descSize :: nat where "descSize = 32"
definition x_defaultBlockSize :: nat where "x_defaultBlockSize = 1024"
definition ext4DefaultBlockSize :: nat where "ext4DefaultBlockSize = 4096"
definition bytesPerInode :: nat where "bytesPerInode = 16384"
definition runtMinDataBlocks :: nat where "runtMinDataBlocks = 8"
definition dynamicRev :: nat where "dynamicRev = 1"
definition stateClean :: nat where "stateClean = 1"
definition errorsContinue :: nat where "errorsContinue = 1"
definition creatorLinux :: nat where "creatorLinux = 0"
definition featCompatExtAttr :: nat where "featCompatExtAttr = 0x0008"
definition featIncompatFiletype :: nat where "featIncompatFiletype = 0x0002"
definition featIncompatExtents :: nat where "featIncompatExtents = 0x0040"
definition featRoCompatSparseSuper :: nat where "featRoCompatSparseSuper = 0x0001"
definition extentsFL :: nat where "extentsFL = 0x80000"
definition extentMagic :: nat where "extentMagic = 0xF30A"
definition extentMaxLen :: nat where "extentMaxLen = 32768"
definition ftRegFile :: nat where "ftRegFile = 1"
definition ftDir :: nat where "ftDir = 2"
definition ftChrdev :: nat where "ftChrdev = 3"
definition ftBlkdev :: nat where "ftBlkdev = 4"
definition ftFifo :: nat where "ftFifo = 5"
definition ftSock :: nat where "ftSock = 6"
definition ftSymlink :: nat where "ftSymlink = 7"
definition modeFifo :: "16 word" where "modeFifo = 0x1000"
definition modeChrdev :: "16 word" where "modeChrdev = 0x2000"
definition modeDir :: "16 word" where "modeDir = 0x4000"
definition modeBlkdev :: "16 word" where "modeBlkdev = 0x6000"
definition modeRegFile :: "16 word" where "modeRegFile = 0x8000"
definition modeSymlink :: "16 word" where "modeSymlink = 0xA000"
definition modeSock :: "16 word" where "modeSock = 0xC000"
definition modeSetuid :: "16 word" where "modeSetuid = 0x800"
definition modeSetgid :: "16 word" where "modeSetgid = 0x400"
definition modeSticky :: "16 word" where "modeSticky = 0x200"
definition directBlocks :: nat where "directBlocks = 12"
definition indSingle :: nat where "indSingle = 12"
definition indDouble :: nat where "indDouble = 13"
definition indTriple :: nat where "indTriple = 14"
definition totalIBlocks :: nat where "totalIBlocks = 15"
definition fastSymlinkMax :: nat where "fastSymlinkMax = 60"
definition extentHeaderSize :: nat where "extentHeaderSize = 12"
definition extentEntrySize :: nat where "extentEntrySize = 12"
definition inlineExtents :: nat where "inlineExtents = 4"
definition maxExtentDepth :: nat where "maxExtentDepth = 5"

lemmas x_consts = x_superblockOffset_def x_superblockSize_def x_magic_def rootIno_def firstIno_def
  lostFoundIno_def reservedInos_def goodOldInodeSize_def ext4InodeSize_def extraISize_def descSize_def
  x_defaultBlockSize_def ext4DefaultBlockSize_def bytesPerInode_def runtMinDataBlocks_def
  dynamicRev_def stateClean_def errorsContinue_def creatorLinux_def featCompatExtAttr_def
  featIncompatFiletype_def featIncompatExtents_def featRoCompatSparseSuper_def extentsFL_def
  extentMagic_def extentMaxLen_def ftRegFile_def ftDir_def ftChrdev_def ftBlkdev_def ftFifo_def
  ftSock_def ftSymlink_def directBlocks_def indSingle_def indDouble_def indTriple_def
  totalIBlocks_def fastSymlinkMax_def extentHeaderSize_def extentEntrySize_def inlineExtents_def
  maxExtentDepth_def

section \<open>Geometry\<close>

record xgeo =
  xg_bs :: nat
  xg_total :: nat
  xg_first :: nat
  xg_bpg :: nat
  xg_ipg :: nat
  xg_isize :: nat
  xg_ipb :: nat
  xg_icount :: nat
  xg_groups :: nat
  xg_gdt :: nat
  xg_itb :: nat

definition x_errBlockSize :: error where
  "x_errBlockSize = Err ''ext: block size must be a power of two in [1024, 65536]''"
definition x_errTooSmall :: error where
  "x_errTooSmall = Err ''ext: device too small for an ext2 filesystem''"
definition x_errDeviceSize :: error where
  "x_errDeviceSize = Err ''ext: device size must be a multiple of the block size''"

text \<open>\<open>ceilDiv\<close> on \<open>uint64\<close>: the sum wraps. The callers rule out \<open>b = 0\<close>, which panics.\<close>

definition x_ceilDiv :: "nat \<Rightarrow> nat \<Rightarrow> nat" where
  "x_ceilDiv a b = sub64 (a + b) 1 div b"

definition x_roundUp :: "nat \<Rightarrow> nat \<Rightarrow> nat" where
  "x_roundUp a m = u64 (x_ceilDiv a m * m)"

text \<open>\<open>bits.OnesCount32(x) == 1\<close>.\<close>

definition one_bit32 :: "nat \<Rightarrow> bool" where
  "one_bit32 x \<longleftrightarrow> length (filter (\<lambda>k. bit x k) [0..<32]) = 1"

function div_out :: "nat \<Rightarrow> nat \<Rightarrow> nat" where
  "div_out n b = (if 1 < b \<and> 0 < n \<and> n mod b = 0 then div_out (n div b) b else n)"
  by pat_completeness auto
termination
  by (relation "measure fst") auto

declare div_out.simps [simp del]

definition isPowerOf :: "nat \<Rightarrow> nat \<Rightarrow> bool" where
  "isPowerOf n b \<longleftrightarrow> n \<noteq> 0 \<and> div_out n b = 1"

definition hasSuperblock :: "nat \<Rightarrow> bool" where
  "hasSuperblock gr \<longleftrightarrow> gr = 0 \<or> isPowerOf gr 3 \<or> isPowerOf gr 5 \<or> isPowerOf gr 7"

definition groupStart :: "xgeo \<Rightarrow> nat \<Rightarrow> nat" where
  "groupStart g gr = xg_first g + gr * xg_bpg g"

definition overhead :: "xgeo \<Rightarrow> nat \<Rightarrow> nat" where
  "overhead g gr = 2 + xg_itb g + (if hasSuperblock gr then 1 + xg_gdt g else 0)"

text \<open>\<open>groupLayout\<close>: block bitmap, inode bitmap, inode table, first data block.\<close>

definition groupLayout :: "xgeo \<Rightarrow> nat \<Rightarrow> nat \<times> nat \<times> nat \<times> nat" where
  "groupLayout g gr =
     (let b = groupStart g gr + (if hasSuperblock gr then 1 + xg_gdt g else 0) in
      (b, b + 1, b + 2, b + 2 + xg_itb g))"

definition blocksInGroup :: "xgeo \<Rightarrow> nat \<Rightarrow> nat" where
  "blocksInGroup g gr =
     (let start = groupStart g gr; en = start + xg_bpg g;
          en = (if en > xg_total g then xg_total g else en) in sub64 en start)"

text \<open>One pass of the loop: the inode geometry as a function of the number of groups.\<close>

definition geo_fill :: "nat \<Rightarrow> xgeo \<Rightarrow> xgeo" where
  "geo_fill devSize g =
     (let n = xg_groups g;
          ipg = x_ceilDiv (devSize div bytesPerInode) n;
          ipg = (if ipg < 16 then 16 else ipg);
          ipg = x_roundUp ipg 8;
          ipg = (if ipg > xg_bpg g then xg_bpg g else ipg) in
      g\<lparr>xg_gdt := x_ceilDiv (n * descSize) (xg_bs g), xg_ipg := ipg, xg_icount := u64 (ipg * n),
        xg_itb := x_ceilDiv (ipg * xg_isize g) (xg_bs g)\<rparr>)"

lemma geo_fill_sel [simp]:
  "xg_groups (geo_fill d g) = xg_groups g" "xg_bs (geo_fill d g) = xg_bs g" "xg_bpg (geo_fill d g) = xg_bpg g"
  "xg_first (geo_fill d g) = xg_first g" "xg_total (geo_fill d g) = xg_total g" "xg_isize (geo_fill d g) = xg_isize g"
  by (simp_all add: geo_fill_def Let_def)

text \<open>
  The loop drops a final group too short for its own overhead. With no group at all the division
  by their number panics.
\<close>

function geo_loop :: "nat \<Rightarrow> xgeo \<Rightarrow> xgeo result" where
  "geo_loop devSize g =
     (if xg_groups g = 0 then Inl (Panic ''integer divide by zero'')
      else let g = geo_fill devSize g; last = xg_groups g - 1 in
        if xg_groups g \<le> 1 \<or> blocksInGroup g last \<ge> overhead g last + runtMinDataBlocks then Inr g
        else geo_loop devSize (g\<lparr>xg_groups := xg_groups g - 1,
               xg_total := xg_first g + (xg_groups g - 1) * xg_bpg g\<rparr>))"
  by pat_completeness auto
termination
  by (relation "measure (\<lambda>(d, g). xg_groups g)") (auto simp: Let_def)

declare geo_loop.simps [simp del]

definition x_computeGeometry :: "int \<Rightarrow> nat \<Rightarrow> nat \<Rightarrow> xgeo result" where
  "x_computeGeometry devSize blockSize inodeSize =
     (let bs = (if blockSize = 0 then x_defaultBlockSize else blockSize);
          isz = (if inodeSize = 0 then goodOldInodeSize else inodeSize) in
      if bs < 1024 \<or> bs > 65536 \<or> \<not> one_bit32 bs then Inl x_errBlockSize
      else if devSize \<le> 0 then Inl x_errDeviceSize
      else let t = nat devSize div bs; first = (if bs = 1024 then 1 else 0); bpg = bs * 8 in
        bindE (geo_loop (nat devSize) \<lparr> xg_bs = bs, xg_total = t, xg_first = first, xg_bpg = bpg, xg_ipg = 0,
            xg_isize = isz, xg_ipb = bs div isz, xg_icount = 0, xg_groups = x_ceilDiv (sub64 t first) bpg,
            xg_gdt = 0, xg_itb = 0 \<rparr>)
          (\<lambda>g. if xg_ipg g < firstIno then Inl x_errTooSmall
               else if xg_total g < overhead g 0 + 8 then Inl x_errTooSmall
               else Inr g))"

section \<open>Group descriptors\<close>

record groupDesc =
  gd_bbm :: nat
  gd_ibm :: nat
  gd_table :: nat
  gd_freeBlocks :: nat
  gd_freeInodes :: nat
  gd_usedDirs :: nat

text \<open>\<open>marshalInto(b[off:])\<close>; \<open>off + 32\<close> is inside \<open>b\<close> at every call.\<close>

definition gd_marshalInto :: "groupDesc \<Rightarrow> nat \<Rightarrow> bytes \<Rightarrow> bytes" where
  "gd_marshalInto d off b =
     (let b = put_le 4 off (gd_bbm d) b;
          b = put_le 4 (off + 4) (gd_ibm d) b;
          b = put_le 4 (off + 8) (gd_table d) b;
          b = put_le 2 (off + 12) (gd_freeBlocks d) b;
          b = put_le 2 (off + 14) (gd_freeInodes d) b in
      put_le 2 (off + 16) (gd_usedDirs d) b)"

definition parseGroupDesc :: "bytes \<Rightarrow> nat \<Rightarrow> groupDesc" where
  "parseGroupDesc b off =
     \<lparr> gd_bbm = get_le 4 b off, gd_ibm = get_le 4 b (off + 4), gd_table = get_le 4 b (off + 8),
       gd_freeBlocks = get_le 2 b (off + 12), gd_freeInodes = get_le 2 b (off + 14),
       gd_usedDirs = get_le 2 b (off + 16) \<rparr>"

section \<open>The superblock\<close>

record xsuper =
  sb_inodesCount :: nat
  sb_blocksCount :: nat
  sb_rBlocksCount :: nat
  sb_freeBlocksCount :: nat
  sb_freeInodesCount :: nat
  sb_firstDataBlock :: nat
  sb_logBlockSize :: nat
  sb_logFragSize :: nat
  sb_blocksPerGroup :: nat
  sb_fragsPerGroup :: nat
  sb_inodesPerGroup :: nat
  sb_mtime :: nat
  sb_wtime :: nat
  sb_magic :: nat
  sb_state :: nat
  sb_errors :: nat
  sb_revLevel :: nat
  sb_firstIno :: nat
  sb_inodeSize :: nat
  sb_blockGroupNr :: nat
  sb_featCompat :: nat
  sb_featIncompat :: nat
  sb_featROCompat :: nat
  sb_uuid :: bytes
  sb_volumeName :: bytes
  sb_minExtraIsize :: nat
  sb_wantExtraIsize :: nat

definition sb_marshal :: "xsuper \<Rightarrow> bytes" where
  "sb_marshal s =
     (let b = zeros x_superblockSize;
          b = put_le 4 0 (sb_inodesCount s) b;
          b = put_le 4 4 (sb_blocksCount s) b;
          b = put_le 4 8 (sb_rBlocksCount s) b;
          b = put_le 4 12 (sb_freeBlocksCount s) b;
          b = put_le 4 16 (sb_freeInodesCount s) b;
          b = put_le 4 20 (sb_firstDataBlock s) b;
          b = put_le 4 24 (sb_logBlockSize s) b;
          b = put_le 4 28 (sb_logFragSize s) b;
          b = put_le 4 32 (sb_blocksPerGroup s) b;
          b = put_le 4 36 (sb_fragsPerGroup s) b;
          b = put_le 4 40 (sb_inodesPerGroup s) b;
          b = put_le 4 44 (sb_mtime s) b;
          b = put_le 4 48 (sb_wtime s) b;
          b = put_le 2 52 0 b;
          b = put_le 2 54 0xFFFF b;
          b = put_le 2 56 (sb_magic s) b;
          b = put_le 2 58 (sb_state s) b;
          b = put_le 2 60 (sb_errors s) b;
          b = put_le 2 62 0 b;
          b = put_le 4 64 (sb_wtime s) b;
          b = put_le 4 68 0 b;
          b = put_le 4 72 creatorLinux b;
          b = put_le 4 76 (sb_revLevel s) b;
          b = put_le 2 80 0 b;
          b = put_le 2 82 0 b;
          b = put_le 4 84 (sb_firstIno s) b;
          b = put_le 2 88 (sb_inodeSize s) b;
          b = put_le 2 90 (sb_blockGroupNr s) b;
          b = put_le 4 92 (sb_featCompat s) b;
          b = put_le 4 96 (sb_featIncompat s) b;
          b = put_le 4 100 (sb_featROCompat s) b;
          b = blit b 104 (sb_uuid s);
          b = blit b 120 (sb_volumeName s);
          b = put_le 2 348 (sb_minExtraIsize s) b in
      put_le 2 350 (sb_wantExtraIsize s) b)"

definition parseSuperblock :: "bytes \<Rightarrow> xsuper" where
  "parseSuperblock b =
     \<lparr> sb_inodesCount = get_le 4 b 0, sb_blocksCount = get_le 4 b 4, sb_rBlocksCount = get_le 4 b 8,
       sb_freeBlocksCount = get_le 4 b 12, sb_freeInodesCount = get_le 4 b 16, sb_firstDataBlock = get_le 4 b 20,
       sb_logBlockSize = get_le 4 b 24, sb_logFragSize = get_le 4 b 28, sb_blocksPerGroup = get_le 4 b 32,
       sb_fragsPerGroup = get_le 4 b 36, sb_inodesPerGroup = get_le 4 b 40, sb_mtime = get_le 4 b 44,
       sb_wtime = get_le 4 b 48, sb_magic = get_le 2 b 56, sb_state = get_le 2 b 58, sb_errors = get_le 2 b 60,
       sb_revLevel = get_le 4 b 76, sb_firstIno = get_le 4 b 84, sb_inodeSize = get_le 2 b 88,
       sb_blockGroupNr = get_le 2 b 90, sb_featCompat = get_le 4 b 92, sb_featIncompat = get_le 4 b 96,
       sb_featROCompat = get_le 4 b 100, sb_uuid = window b 104 16, sb_volumeName = window b 120 16,
       sb_minExtraIsize = 0, sb_wantExtraIsize = 0 \<rparr>"

text \<open>\<open>1024 << logBlockSize\<close> on \<open>uint32\<close>.\<close>

definition sb_blockSize :: "xsuper \<Rightarrow> nat" where
  "sb_blockSize s = u32 (1024 * 2 ^ sb_logBlockSize s)"

text \<open>\<open>bits.TrailingZeros32(blockSize) - 10\<close>.\<close>

definition logBlockSizeFor :: "nat \<Rightarrow> nat" where
  "logBlockSizeFor bs = u32_of_int (int (length (takeWhile (\<lambda>k. \<not> bit bs k) [0..<32])) - 10)"

section \<open>Inodes\<close>

record xinode =
  xi_mode :: "16 word"
  xi_uid :: nat
  xi_size :: nat
  xi_atime :: nat
  xi_ctime :: nat
  xi_mtime :: nat
  xi_dtime :: nat
  xi_gid :: nat
  xi_links :: nat
  xi_blocks :: nat
  xi_flags :: nat
  xi_block :: "nat list"
  xi_blockRaw :: "bytes option"
  xi_extra :: nat
  xi_fileACL :: nat
  xi_eaSectors :: nat
  xi_xattrIbody :: bytes

definition put_i_block :: "nat list \<Rightarrow> bytes \<Rightarrow> bytes" where
  "put_i_block ps b = fold (\<lambda>i b. put_le 4 (40 + i * 4) (ps ! i) b) [0..<totalIBlocks] b"

text \<open>
  \<open>marshalInto\<close> on one slot of the inode table. A slot shorter than the fixed fields, or an
  attribute area starting past its end, makes the slicing panic.
\<close>

definition xi_marshalInto :: "xinode \<Rightarrow> bytes \<Rightarrow> bytes result" where
  "xi_marshalInto n b =
     (if length b < 108 then Inl (Panic ''index out of range'')
      else
        let b = put_le 2 0 (unat (xi_mode n)) b;
            b = put_le 2 2 (xi_uid n) b;
            b = put_le 4 4 (xi_size n) b;
            b = put_le 4 8 (xi_atime n) b;
            b = put_le 4 12 (xi_ctime n) b;
            b = put_le 4 16 (xi_mtime n) b;
            b = put_le 4 20 (xi_dtime n) b;
            b = put_le 2 24 (xi_gid n) b;
            b = put_le 2 26 (xi_links n) b;
            b = put_le 4 28 (xi_blocks n) b;
            b = put_le 4 32 (xi_flags n) b;
            b = (case xi_blockRaw n of Some raw \<Rightarrow> blit b 40 (take fastSymlinkMax raw)
                 | None \<Rightarrow> put_i_block (xi_block n) b);
            b = put_le 4 104 (xi_fileACL n) b;
            b = (if 0 < xi_extra n \<and> 130 \<le> length b then put_le 2 128 (xi_extra n) b else b) in
        if xi_xattrIbody n \<noteq> [] then
          (let s = goodOldInodeSize + xi_extra n in
           if s > length b then Inl (Panic ''slice bounds out of range'')
           else Inr (blit b s (take (length b - s) (xi_xattrIbody n))))
        else Inr b)"

definition parseInode :: "bytes \<Rightarrow> xinode result" where
  "parseInode b =
     (if length b < 108 then Inl (Panic ''index out of range'')
      else
        let extra = (if 130 \<le> length b then get_le 2 b 128 else 0) in
        Inr \<lparr> xi_mode = word_of_nat (get_le 2 b 0), xi_uid = get_le 2 b 2, xi_size = get_le 4 b 4,
          xi_atime = get_le 4 b 8, xi_ctime = get_le 4 b 12, xi_mtime = get_le 4 b 16, xi_dtime = get_le 4 b 20,
          xi_gid = get_le 2 b 24, xi_links = get_le 2 b 26, xi_blocks = get_le 4 b 28, xi_flags = get_le 4 b 32,
          xi_block = map (\<lambda>i. get_le 4 b (40 + i * 4)) [0..<totalIBlocks],
          xi_blockRaw = Some (window b 40 (totalIBlocks * 4)), xi_extra = extra, xi_fileACL = get_le 4 b 104,
          xi_eaSectors = 0,
          xi_xattrIbody = (if 130 \<le> length b then drop (goodOldInodeSize + extra) b else []) \<rparr>)"

definition extMode :: "filemode \<Rightarrow> 16 word" where
  "extMode m =
     (let v = ucast (mode_perm m);
          v = (if has m ModeSetuid then v OR modeSetuid else v);
          v = (if has m ModeSetgid then v OR modeSetgid else v);
          v = (if has m ModeSticky then v OR modeSticky else v) in
      if has m ModeDir then v OR modeDir
      else if has m ModeSymlink then v OR modeSymlink
      else if has m ModeCharDevice then v OR modeChrdev
      else if has m ModeDevice then v OR modeBlkdev
      else if has m ModeNamedPipe then v OR modeFifo
      else if has m ModeSocket then v OR modeSock
      else v OR modeRegFile)"

definition goMode :: "16 word \<Rightarrow> filemode" where
  "goMode m =
     (let p = ucast (m AND 0x1FF);
          p = (if m AND modeSetuid \<noteq> 0 then p OR ModeSetuid else p);
          p = (if m AND modeSetgid \<noteq> 0 then p OR ModeSetgid else p);
          p = (if m AND modeSticky \<noteq> 0 then p OR ModeSticky else p);
          t = m AND 0xF000 in
      if t = modeDir then p OR ModeDir
      else if t = modeSymlink then p OR ModeSymlink
      else if t = modeChrdev then p OR (ModeDevice OR ModeCharDevice)
      else if t = modeBlkdev then p OR ModeDevice
      else if t = modeFifo then p OR ModeNamedPipe
      else if t = modeSock then p OR ModeSocket
      else p)"

definition dirFileType :: "filemode \<Rightarrow> nat" where
  "dirFileType m =
     (if has m ModeDir then ftDir
      else if has m ModeSymlink then ftSymlink
      else if has m ModeCharDevice then ftChrdev
      else if has m ModeDevice then ftBlkdev
      else if has m ModeNamedPipe then ftFifo
      else if has m ModeSocket then ftSock
      else ftRegFile)"

section \<open>Directory blocks\<close>

record dentry =
  de_ino :: nat
  de_name :: string
  de_ftype :: nat

text \<open>\<open>(8 + nameLen + 3) &^ 3\<close>.\<close>

definition dentryLen :: "nat \<Rightarrow> nat" where
  "dentryLen nameLen = (8 + nameLen + 3) div 4 * 4"

text \<open>\<open>putDentry(cur[off:], e, recLen)\<close>; \<open>copy\<close> stops at the end of the block.\<close>

definition putDentry :: "bytes \<Rightarrow> nat \<Rightarrow> dentry \<Rightarrow> nat \<Rightarrow> bytes" where
  "putDentry b off e recLen =
     (let b = put_le 4 off (de_ino e) b;
          b = put_le 2 (off + 4) recLen b;
          b = blit b (off + 6) [word_of_nat (length (de_name e))];
          b = blit b (off + 7) [word_of_nat (de_ftype e)] in
      blit b (off + 8) (take (length b - (off + 8)) (bytes_of (de_name e))))"

text \<open>The closure \<open>flush\<close> and the loop; the state is the finished blocks, the current one and two offsets.\<close>

record dirpack =
  dp_blocks :: "bytes list"
  dp_cur :: bytes
  dp_off :: nat
  dp_last :: nat

definition dir_flush :: "nat \<Rightarrow> dirpack \<Rightarrow> dirpack" where
  "dir_flush bs p =
     (let cur = (if 0 < dp_off p then put_le 2 (dp_last p + 4) (bs - dp_last p) (dp_cur p) else dp_cur p) in
      \<lparr> dp_blocks = dp_blocks p @ [cur], dp_cur = zeros bs, dp_off = 0, dp_last = 0 \<rparr>)"

definition dir_add :: "nat \<Rightarrow> dentry \<Rightarrow> dirpack \<Rightarrow> dirpack" where
  "dir_add bs e p =
     (let need = dentryLen (length (de_name e));
          p = (if dp_off p + need > bs then dir_flush bs p else p) in
      p\<lparr>dp_cur := putDentry (dp_cur p) (dp_off p) e need, dp_last := dp_off p, dp_off := dp_off p + need\<rparr>)"

definition buildDirBlocks :: "dentry list \<Rightarrow> nat \<Rightarrow> bytes list" where
  "buildDirBlocks es bs =
     dp_blocks (dir_flush bs (fold (dir_add bs) es \<lparr> dp_blocks = [], dp_cur = zeros bs, dp_off = 0, dp_last = 0 \<rparr>))"

text \<open>The live entries \<open>parseDirBlock\<close> hands to its callback, in order.\<close>

function parseDirBlock :: "bytes \<Rightarrow> nat \<Rightarrow> dentry list" where
  "parseDirBlock b off =
     (if off + 8 \<le> length b then
        let ino = get_le 4 b off; recLen = get_le 2 b (off + 4);
            nameLen = unat (b ! (off + 6)); ftype = unat (b ! (off + 7)) in
        if recLen < 8 then []
        else (if ino \<noteq> 0 \<and> off + 8 + nameLen \<le> length b
              then [\<lparr> de_ino = ino, de_name = string_of (window b (off + 8) nameLen), de_ftype = ftype \<rparr>] else [])
             @ parseDirBlock b (off + recLen)
      else [])"
  by pat_completeness auto
termination
  by (relation "measure (\<lambda>(b, off). length b - off)") auto

declare parseDirBlock.simps [simp del]

section \<open>Extents\<close>

record extentLeaf =
  el_logical :: nat
  el_length :: nat
  el_start :: nat

record extentIndex =
  ei_logical :: nat
  ei_child :: nat

text \<open>How many of the following blocks continue the run that ends at \<open>prev\<close>.\<close>

fun run_follow :: "nat \<Rightarrow> nat list \<Rightarrow> nat" where
  "run_follow prev [] = 0"
| "run_follow prev (b # bs) = (if b = u64 (prev + 1) then Suc (run_follow b bs) else 0)"

lemma run_follow_le: "run_follow p bs \<le> length bs"
  by (induction p bs rule: run_follow.induct) auto

text \<open>One run cut into leaves of at most \<open>extentMaxLen\<close> blocks.\<close>

function split_run :: "nat \<Rightarrow> nat \<Rightarrow> nat \<Rightarrow> extentLeaf list" where
  "split_run logical runLen phys =
     (if 0 < runLen then
        let c = (if runLen > extentMaxLen then extentMaxLen else runLen) in
        \<lparr> el_logical = logical, el_length = c, el_start = phys \<rparr>
          # split_run (u32 (logical + c)) (runLen - c) (u64 (phys + c))
      else [])"
  by pat_completeness auto
termination
  by (relation "measure (\<lambda>(l, n, p). n)") (auto simp: extentMaxLen_def)

declare split_run.simps [simp del]

function runs_from :: "nat \<Rightarrow> nat list \<Rightarrow> extentLeaf list" where
  "runs_from logical [] = []"
| "runs_from logical (b # bs) =
     (let k = run_follow b bs in
      split_run logical (k + 1) b @ runs_from (u32 (logical + (k + 1))) (drop k bs))"
  by pat_completeness auto
termination
  by (relation "measure (\<lambda>(l, bs). length bs)") auto

definition contiguousRuns :: "nat list \<Rightarrow> extentLeaf list" where
  "contiguousRuns data = runs_from 0 data"

definition entriesPerNode :: "nat \<Rightarrow> nat" where
  "entriesPerNode bs = (bs - extentHeaderSize) div extentEntrySize"

definition putExtentHeader :: "nat \<Rightarrow> nat \<Rightarrow> nat \<Rightarrow> bytes \<Rightarrow> bytes" where
  "putExtentHeader entries mx depth b =
     put_le 4 8 0 (put_le 2 6 depth (put_le 2 4 mx (put_le 2 2 entries (put_le 2 0 extentMagic b))))"

definition putExtentLeaf :: "nat \<Rightarrow> extentLeaf \<Rightarrow> bytes \<Rightarrow> bytes" where
  "putExtentLeaf o' e b =
     put_le 4 (o' + 8) (el_start e) (put_le 2 (o' + 6) (el_start e div 2 ^ 32)
       (put_le 2 (o' + 4) (el_length e) (put_le 4 o' (el_logical e) b)))"

definition putExtentIndex :: "nat \<Rightarrow> extentIndex \<Rightarrow> bytes \<Rightarrow> bytes" where
  "putExtentIndex o' e b =
     put_le 2 (o' + 10) 0 (put_le 2 (o' + 8) (ei_child e div 2 ^ 32)
       (put_le 4 (o' + 4) (ei_child e) (put_le 4 o' (ei_logical e) b)))"

text \<open>Filling the entries of a node, one after the other behind its header.\<close>

definition put_entries :: "(nat \<Rightarrow> 'e \<Rightarrow> bytes \<Rightarrow> bytes) \<Rightarrow> 'e list \<Rightarrow> bytes \<Rightarrow> bytes" where
  "put_entries put es b =
     fold (\<lambda>i b. put (extentHeaderSize + i * extentEntrySize) (es ! i) b) [0..<length es] b"

text \<open>The data block numbers of one leaf entry; a length above the maximum is an uninitialised extent.\<close>

definition leaf_blocks :: "bytes \<Rightarrow> nat \<Rightarrow> nat list" where
  "leaf_blocks node o' =
     (let len = get_le 2 node (o' + 4);
          len = (if len > extentMaxLen then len - extentMaxLen else len);
          start = get_le 2 node (o' + 6) * 2 ^ 32 + get_le 4 node (o' + 8) in
      map (\<lambda>k. start + k) [0..<len])"

definition index_child :: "bytes \<Rightarrow> nat \<Rightarrow> nat" where
  "index_child node o' = get_le 2 node (o' + 8) * 2 ^ 32 + get_le 4 node (o' + 4)"

definition errExtentDepth :: error where
  "errExtentDepth = Err ''ext: unexpected extent tree depth''"
definition errBadExtent :: error where
  "errBadExtent = Err ''ext: bad extent header magic''"

text \<open>
  \<open>parseExtents\<close> recurses through index nodes without checking that the depth goes down, so it
  takes fuel: \<open>None\<close> when the recursion goes deeper than \<open>fuel\<close>. \<open>entry_loop\<close> is its
  loop over the entries, with the recursive call as an argument.
\<close>

fun entry_loop :: "bytes \<Rightarrow> nat \<Rightarrow> (nat \<Rightarrow> nat list result option) \<Rightarrow> nat list \<Rightarrow> nat list \<Rightarrow> nat list result option" where
  "entry_loop node depth sub [] out = Some (Inr out)"
| "entry_loop node depth sub (i # is) out =
     (let o' = extentHeaderSize + i * extentEntrySize in
      if o' + extentEntrySize > length node then Some (Inr out)
      else if depth = 0 then entry_loop node depth sub is (out @ leaf_blocks node o')
      else case sub (index_child node o') of
          None \<Rightarrow> None
        | Some (Inl e) \<Rightarrow> Some (Inl e)
        | Some (Inr bs) \<Rightarrow> entry_loop node depth sub is (out @ bs))"

fun parseExtents :: "nat \<Rightarrow> (nat \<Rightarrow> bytes result) \<Rightarrow> bytes \<Rightarrow> nat list result option" where
  "parseExtents 0 rd node = None"
| "parseExtents (Suc fuel) rd node =
     (if get_le 2 node 0 \<noteq> extentMagic then Some (Inl errBadExtent)
      else let depth = get_le 2 node 6 in
        if depth > maxExtentDepth then Some (Inl errExtentDepth)
        else entry_loop node depth
          (\<lambda>child. case rd child of Inl e \<Rightarrow> Some (Inl e) | Inr buf \<Rightarrow> parseExtents fuel rd buf)
          [0..<get_le 2 node 2] [])"

section \<open>Extended attributes\<close>

definition xattrMagic :: nat where "xattrMagic = 0xEA020000"
definition xattrBlockHeaderSize :: nat where "xattrBlockHeaderSize = 32"
definition xattrIbodyHeaderSize :: nat where "xattrIbodyHeaderSize = 4"
definition xattrEntrySize :: nat where "xattrEntrySize = 16"
definition xattrPad :: nat where "xattrPad = 4"
definition nameHashShift :: nat where "nameHashShift = 5"
definition valueHashShift :: nat where "valueHashShift = 16"
definition blockHashShift :: nat where "blockHashShift = 16"

lemmas xattr_consts = xattrMagic_def xattrBlockHeaderSize_def xattrIbodyHeaderSize_def xattrEntrySize_def
  xattrPad_def nameHashShift_def valueHashShift_def blockHashShift_def

definition xattrPrefixes :: "(nat \<times> string) list" where
  "xattrPrefixes =
     [(2, ''system.posix_acl_access''), (3, ''system.posix_acl_default''), (8, ''system.richacl''),
      (1, ''user.''), (4, ''trusted.''), (6, ''security.''), (7, ''system.'')]"

record xattrEntry =
  xe_index :: nat
  xe_name :: string
  xe_value :: bytes

definition dotted :: "string \<Rightarrow> bool" where
  "dotted p \<longleftrightarrow> p \<noteq> [] \<and> last p = CHR ''.''"

fun split_with :: "(nat \<times> string) list \<Rightarrow> string \<Rightarrow> nat \<times> string" where
  "split_with [] name = (0, name)"
| "split_with ((i, p) # ps) name =
     (if p = name then (i, '''')
      else if has_prefix p name \<and> dotted p then (i, drop (length p) name)
      else split_with ps name)"

definition splitXattrName :: "string \<Rightarrow> nat \<times> string" where
  "splitXattrName name = split_with xattrPrefixes name"

fun join_from :: "(nat \<times> string) list \<Rightarrow> nat \<Rightarrow> string \<Rightarrow> string" where
  "join_from [] i name = name"
| "join_from ((j, p) # ps) i name =
     (if j = i then (if \<not> dotted p \<and> name = '''' then p else p @ name) else join_from ps i name)"

definition joinXattrName :: "nat \<Rightarrow> string \<Rightarrow> string" where
  "joinXattrName i name = join_from xattrPrefixes i name"

text \<open>
  The on-disk order. Distinct names have distinct keys, so the order does not depend on the
  iteration order of the map.
\<close>

definition sortedXattrs :: "(string \<times> bytes) list \<Rightarrow> xattrEntry list" where
  "sortedXattrs x =
     sort_key (\<lambda>e. (xe_index e, length (xe_name e), xe_name e))
       (map (\<lambda>(name, v). let (i, rest) = splitXattrName name in
               \<lparr> xe_index = i, xe_name = rest, xe_value = v \<rparr>) x)"

definition x_align4 :: "nat \<Rightarrow> nat" where
  "x_align4 n = (n + xattrPad - 1) div xattrPad * xattrPad"

definition entryLen :: "nat \<Rightarrow> nat" where
  "entryLen nameLen = x_align4 (xattrEntrySize + nameLen)"

definition xattrAreaSize :: "xattrEntry list \<Rightarrow> nat" where
  "xattrAreaSize es = 4 + sum_list (map (\<lambda>e. entryLen (length (xe_name e)) + x_align4 (length (xe_value e))) es)"

definition put_xattr :: "nat \<Rightarrow> nat \<Rightarrow> nat \<Rightarrow> xattrEntry \<Rightarrow> bytes \<Rightarrow> bytes" where
  "put_xattr valueBase entOff valEnd e area =
     (let area = blit area valEnd (xe_value e);
          area = blit area entOff [word_of_nat (length (xe_name e)), word_of_nat (xe_index e)];
          area = put_le 2 (entOff + 2) (valueBase + valEnd) area;
          area = put_le 4 (entOff + 4) 0 area;
          area = put_le 4 (entOff + 8) (length (xe_value e)) area;
          area = put_le 4 (entOff + 12) 0 area in
      blit area (entOff + xattrEntrySize) (bytes_of (xe_name e)))"

fun put_xattrs :: "nat \<Rightarrow> xattrEntry list \<Rightarrow> nat \<Rightarrow> nat \<Rightarrow> bytes \<Rightarrow> bytes" where
  "put_xattrs valueBase [] entOff valEnd area = put_le 4 entOff 0 area"
| "put_xattrs valueBase (e # es) entOff valEnd area =
     (let valEnd = valEnd - x_align4 (length (xe_value e)) in
      put_xattrs valueBase es (entOff + entryLen (length (xe_name e))) valEnd
        (put_xattr valueBase entOff valEnd e area))"

definition encodeXattrArea :: "bytes \<Rightarrow> xattrEntry list \<Rightarrow> nat \<Rightarrow> bytes result" where
  "encodeXattrArea area es valueBase =
     (if length area < xattrAreaSize es then Inl (Err ''ext: extended attributes do not fit'')
      else Inr (put_xattrs valueBase es 0 (length area) area))"

text \<open>The decoder's map, as an association list; \<open>nil\<close> when it is empty.\<close>

function decode_xattrs :: "bytes \<Rightarrow> bytes \<Rightarrow> nat \<Rightarrow> nat \<Rightarrow> (string \<times> bytes) list \<Rightarrow> (string \<times> bytes) list" where
  "decode_xattrs area whole valueBase off out =
     (if off + xattrEntrySize \<le> length area then
        let nameLen = unat (area ! off); index = unat (area ! (off + 1)) in
        if nameLen = 0 \<and> index = 0 then out
        else if off + xattrEntrySize + nameLen > length area then out
        else
          let valOff = int (get_le 2 area (off + 2)) - int valueBase; valSize = get_le 4 area (off + 8);
              name = joinXattrName index (string_of (window area (off + xattrEntrySize) nameLen)) in
          if valOff < 0 \<or> valOff + int valSize > int (length whole) then out
          else decode_xattrs area whole valueBase (off + entryLen nameLen)
                 (AList.update name (window whole (nat valOff) valSize) out)
      else out)"
  by pat_completeness auto
termination
  by (relation "measure (\<lambda>(area, whole, b, off, out). length area - off)")
    (auto simp: entryLen_def x_align4_def xattr_consts)

declare decode_xattrs.simps [simp del]

definition decodeXattrArea :: "bytes \<Rightarrow> bytes \<Rightarrow> nat \<Rightarrow> (string \<times> bytes) list" where
  "decodeXattrArea area whole valueBase = decode_xattrs area whole valueBase 0 []"

text \<open>\<open>None\<close> is \<open>ok == false\<close>: the attributes do not fit in the inode.\<close>

definition encodeXattrIbody :: "xattrEntry list \<Rightarrow> nat \<Rightarrow> bytes option" where
  "encodeXattrIbody es space =
     (if es = [] then Some []
      else if xattrIbodyHeaderSize + xattrAreaSize es > space then None
      else case encodeXattrArea (zeros (space - xattrIbodyHeaderSize)) es 0 of
          Inl e \<Rightarrow> None
        | Inr area \<Rightarrow> Some (le_bytes 4 xattrMagic @ area))"

definition decodeXattrIbody :: "bytes \<Rightarrow> (string \<times> bytes) list" where
  "decodeXattrIbody area =
     (if length area < xattrIbodyHeaderSize + 4 \<or> get_le 4 area 0 \<noteq> xattrMagic then []
      else let es = drop xattrIbodyHeaderSize area in decodeXattrArea es es 0)"

definition name_hash :: "bytes \<Rightarrow> 32 word" where
  "name_hash name =
     foldl (\<lambda>h c. push_bit nameHashShift h XOR drop_bit (32 - nameHashShift) h XOR ucast c) 0 name"

definition value_hash :: "32 word \<Rightarrow> bytes \<Rightarrow> nat \<Rightarrow> nat \<Rightarrow> 32 word" where
  "value_hash h block valOff words =
     fold (\<lambda>i h. push_bit valueHashShift h XOR drop_bit (32 - valueHashShift) h
                   XOR word_of_nat (get_le 4 block (valOff + 4 * i))) [0..<words] h"

function hash_entries :: "bytes \<Rightarrow> nat \<Rightarrow> 32 word \<Rightarrow> bytes result" where
  "hash_entries block off blockHash =
     (if off + xattrEntrySize \<le> length block \<and> \<not> (block ! off = 0 \<and> block ! (off + 1) = 0) then
        let nameLen = unat (block ! off) in
        if off + xattrEntrySize + nameLen > length block then Inl (Panic ''slice bounds out of range'')
        else let valOff = get_le 2 block (off + 2); valSize = get_le 4 block (off + 8);
            h = name_hash (window block (off + xattrEntrySize) nameLen);
            h = (if 0 < valSize \<and> valOff + x_align4 valSize \<le> length block
                 then value_hash h block valOff (x_align4 valSize div 4) else h) in
        hash_entries (put_le 4 (off + 12) (unat h) block) (off + entryLen nameLen)
          (push_bit blockHashShift blockHash XOR drop_bit (32 - blockHashShift) blockHash XOR h)
      else Inr (put_le 4 12 (unat blockHash) block))"
  by pat_completeness auto
termination
  by (relation "measure (\<lambda>(block, off, h). length block - off)")
    (auto simp: entryLen_def x_align4_def xattr_consts)

declare hash_entries.simps [simp del]

definition hashXattrBlock :: "bytes \<Rightarrow> bytes result" where
  "hashXattrBlock block = hash_entries block xattrBlockHeaderSize 0"

definition encodeXattrBlock :: "xattrEntry list \<Rightarrow> nat \<Rightarrow> bytes result" where
  "encodeXattrBlock es bs =
     bindE (encodeXattrArea (zeros (bs - xattrBlockHeaderSize)) es xattrBlockHeaderSize) (\<lambda>area.
       hashXattrBlock (le_bytes 4 xattrMagic @ le_bytes 4 1 @ le_bytes 4 1 @ zeros 20 @ area))"

definition decodeXattrBlock :: "bytes \<Rightarrow> (string \<times> bytes) list" where
  "decodeXattrBlock block =
     (if length block < xattrBlockHeaderSize + 4 \<or> get_le 4 block 0 \<noteq> xattrMagic then []
      else decodeXattrArea (drop xattrBlockHeaderSize block) block 0)"

section \<open>Directory blocks read back\<close>

definition dentry_ok :: "dentry \<Rightarrow> bool" where
  "dentry_ok e \<longleftrightarrow> 0 < de_ino e \<and> de_ino e < 2 ^ 32 \<and> length (de_name e) \<le> 255 \<and> de_ftype e < 256"

text \<open>The encoding of one entry in \<open>rl\<close> bytes.\<close>

definition dent_enc :: "dentry \<Rightarrow> nat \<Rightarrow> bytes" where
  "dent_enc e rl =
     le_bytes 4 (de_ino e) @ le_bytes 2 rl @ [word_of_nat (length (de_name e))] @ [word_of_nat (de_ftype e)]
       @ bytes_of (de_name e) @ zeros (rl - (8 + length (de_name e)))"

definition dent_need :: "dentry \<Rightarrow> nat" where
  "dent_need e = dentryLen (length (de_name e))"

lemma dentryLen_ge: "8 + n \<le> dentryLen n" "dentryLen n \<le> 11 + n"
  unfolding dentryLen_def by linarith+

lemma length_dent_enc [simp]: "8 + length (de_name e) \<le> rl \<Longrightarrow> length (dent_enc e rl) = rl"
  by (simp add: dent_enc_def)

lemma blit_zeros_at:
  "length p \<le> k \<Longrightarrow> blit (pre @ zeros k) (length pre) p = pre @ p @ zeros (k - length p)"
  by (simp add: blit_def)

lemma putDentry_zeros:
  assumes "dent_need e \<le> k"
  shows "putDentry (pre @ zeros k) (length pre) e (dent_need e) = pre @ dent_enc e (dent_need e) @ zeros (k - dent_need e)"
proof -
  let ?n = "dent_need e" and ?nm = "de_name e" and ?b = "pre @ zeros k" and ?o = "length pre"
  let ?p = "le_bytes 4 (de_ino e)" and ?q = "le_bytes 2 ?n"
    and ?l = "[word_of_nat (length ?nm)] :: bytes" and ?t = "[word_of_nat (de_ftype e)] :: bytes"
  have n: "8 + length ?nm \<le> ?n" by (simp add: dent_need_def dentryLen_ge)
  have "putDentry ?b ?o e ?n = blit ?b ?o (((?p @ ?q) @ ?l) @ ?t @ bytes_of ?nm)"
  proof -
    have a: "blit (blit ?b ?o p) (?o + j) q = blit ?b ?o (p @ q)"
      if "j = length p" "length p + length q \<le> k" for p q j
      using that blit_blit_adjacent[of ?o p q ?b] by simp
    show ?thesis unfolding putDentry_def Let_def put_le_def
      using n assms by (simp add: a)
  qed
  also have "\<dots> = pre @ ((?p @ ?q) @ ?l) @ ?t @ bytes_of ?nm @ zeros (k - (8 + length ?nm))"
    using n assms by (subst blit_zeros_at) auto
  also have "zeros (k - (8 + length ?nm)) = zeros (?n - (8 + length ?nm)) @ zeros (k - ?n)"
    using n assms by (simp add: zeros_append)
  finally show ?thesis by (simp add: dent_enc_def)
qed

lemma dent_enc_stretch:
  assumes "8 + length (de_name e) \<le> n"
  shows "put_le 2 (length pre + 4) (n + k) (pre @ dent_enc e n @ zeros k) = pre @ dent_enc e (n + k)"
proof -
  have z: "zeros (n - (8 + length (de_name e))) @ zeros k = zeros (n + k - (8 + length (de_name e)))"
    using assms by (simp add: zeros_append)
  show ?thesis
    unfolding put_le_def blit_def dent_enc_def by (simp flip: z append_assoc)
qed

lemma get_le_at: "length x = w \<Longrightarrow> off = length pre \<Longrightarrow> get_le w (pre @ x @ post) off = le_val x"
  by (simp add: get_le_def window_def)

lemma parse_step:
  "off + 8 \<le> length b \<Longrightarrow> get_le 4 b off = ino \<Longrightarrow> get_le 2 b (off + 4) = rl \<Longrightarrow> unat (b ! (off + 6)) = l
    \<Longrightarrow> unat (b ! (off + 7)) = t \<Longrightarrow> 8 \<le> rl \<Longrightarrow> 0 < ino \<Longrightarrow> off + 8 + l \<le> length b
    \<Longrightarrow> parseDirBlock b off
      = \<lparr> de_ino = ino, de_name = string_of (window b (off + 8) l), de_ftype = t \<rparr> # parseDirBlock b (off + rl)"
  by (subst parseDirBlock.simps) (simp add: Let_def)

lemma parse_one:
  assumes e: "dentry_ok e" and rl: "8 + length (de_name e) \<le> rl" "rl < 65536"
  shows "parseDirBlock (pre @ dent_enc e rl @ post) (length pre)
       = e # parseDirBlock (pre @ dent_enc e rl @ post) (length pre + rl)"
proof -
  let ?b = "pre @ dent_enc e rl @ post" and ?o = "length pre"
  let ?p = "le_bytes 4 (de_ino e)" and ?q = "le_bytes 2 rl" and ?n = "bytes_of (de_name e)"
  let ?l = "word_of_nat (length (de_name e)) :: byte" and ?t = "word_of_nat (de_ftype e) :: byte"
  let ?z = "zeros (rl - (8 + length (de_name e)))"
  have b: "?b = pre @ ?p @ ?q @ ?l # ?t # ?n @ ?z @ post" by (simp add: dent_enc_def)
  have ino: "get_le 4 ?b ?o = de_ino e" using e unfolding b by (subst get_le_at) (auto simp: dentry_ok_def)
  have rln: "get_le 2 ?b (?o + 4) = rl"
    using rl get_le_at[of ?q 2 "?o + 4" "pre @ ?p" "?l # ?t # ?n @ ?z @ post"] unfolding b by simp
  have nth: "(x @ y # z) ! i = y" if "i = length x" for x z :: bytes and y i using that by simp
  have l: "?b ! (?o + 6) = ?l" "?b ! (?o + 7) = ?t"
    using nth[of "?o + 6" "pre @ ?p @ ?q" ?l "?t # ?n @ ?z @ post"] nth[of "?o + 7" "pre @ ?p @ ?q @ [?l]" ?t "?n @ ?z @ post"]
    unfolding b by simp_all
  have ul: "unat ?l = length (de_name e)" "unat ?t = de_ftype e"
    using e by (simp_all add: unat_of_nat dentry_ok_def)
  have nm: "window ?b (?o + 8) (length (de_name e)) = ?n" unfolding b by (simp add: window_def)
  have len: "?o + 8 + length (de_name e) \<le> length ?b" using rl by simp
  show ?thesis
    by (subst parse_step[OF _ ino rln l(1)[THEN arg_cong[of _ _ unat], unfolded ul]
          l(2)[THEN arg_cong[of _ _ unat], unfolded ul] _ _ len])
      (use e rl len in \<open>simp_all add: nm dentry_ok_def\<close>)
qed

lemma parse_run:
  assumes "list_all dentry_ok es" "\<forall>e \<in> set es. dent_need e < 65536"
  shows "parseDirBlock (pre @ concat (map (\<lambda>e. dent_enc e (dent_need e)) es) @ post) (length pre)
       = es @ parseDirBlock (pre @ concat (map (\<lambda>e. dent_enc e (dent_need e)) es) @ post)
           (length pre + sum_list (map dent_need es))"
  using assms
proof (induction es arbitrary: pre)
  case (Cons e es)
  let ?e = "dent_enc e (dent_need e)" and ?c = "concat (map (\<lambda>e. dent_enc e (dent_need e)) es)"
  have n: "8 + length (de_name e) \<le> dent_need e" by (simp add: dent_need_def dentryLen_ge)
  have len: "length (pre @ ?e) = length pre + dent_need e" using n by simp
  have "parseDirBlock (pre @ ?e @ ?c @ post) (length pre) = e # parseDirBlock (pre @ ?e @ ?c @ post) (length pre + dent_need e)"
    using Cons.prems n by (intro parse_one) auto
  moreover have "parseDirBlock ((pre @ ?e) @ ?c @ post) (length (pre @ ?e))
      = es @ parseDirBlock ((pre @ ?e) @ ?c @ post) (length (pre @ ?e) + sum_list (map dent_need es))"
    using Cons.prems by (intro Cons.IH) auto
  ultimately show ?case unfolding len by (simp add: add.assoc)
qed simp

lemma parse_end: "length b \<le> off \<Longrightarrow> parseDirBlock b off = []"
  by (subst parseDirBlock.simps) simp

text \<open>The packing state after some entries: complete blocks that parse to the first of them, and the current block.\<close>

definition pack_inv :: "nat \<Rightarrow> dentry list \<Rightarrow> dirpack \<Rightarrow> bool" where
  "pack_inv bs es p \<longleftrightarrow>
     (\<exists>done_es cur. es = done_es @ cur \<and> concat (map (\<lambda>b. parseDirBlock b 0) (dp_blocks p)) = done_es
        \<and> list_all (\<lambda>b. length b = bs) (dp_blocks p)
        \<and> dp_cur p = concat (map (\<lambda>e. dent_enc e (dent_need e)) cur) @ zeros (bs - dp_off p)
        \<and> dp_off p = sum_list (map dent_need cur) \<and> dp_off p \<le> bs
        \<and> (cur \<noteq> [] \<longrightarrow> dp_last p = sum_list (map dent_need (butlast cur))))"

lemma length_run [simp]: "length (concat (map (\<lambda>e. dent_enc e (dent_need e)) es)) = sum_list (map dent_need es)"
proof (induction es)
  case (Cons e es)
  then show ?case using dentryLen_ge(1)[of "length (de_name e)"] by (simp add: dent_need_def)
qed simp

lemma parse_zeros: "parseDirBlock (zeros bs) 0 = []"
  by (subst parseDirBlock.simps) (simp add: get_le_def window_def zeros_def numeral_eq_Suc)

lemma flush_inv:
  assumes inv: "pack_inv bs es p" and ok: "list_all dentry_ok es" and bs: "bs < 65536"
  shows "pack_inv bs es (dir_flush bs p)" "dp_off (dir_flush bs p) = 0"
proof -
  obtain dn cur where es: "es = dn @ cur" and dn: "concat (map (\<lambda>b. parseDirBlock b 0) (dp_blocks p)) = dn"
    and lens: "list_all (\<lambda>b. length b = bs) (dp_blocks p)"
    and c: "dp_cur p = concat (map (\<lambda>e. dent_enc e (dent_need e)) cur) @ zeros (bs - dp_off p)"
    and off: "dp_off p = sum_list (map dent_need cur)" "dp_off p \<le> bs"
    and last: "cur \<noteq> [] \<longrightarrow> dp_last p = sum_list (map dent_need (butlast cur))"
    using inv unfolding pack_inv_def by blast
  let ?cur = "if 0 < dp_off p then put_le 2 (dp_last p + 4) (bs - dp_last p) (dp_cur p) else dp_cur p"
  have "parseDirBlock ?cur 0 = cur \<and> length ?cur = bs"
  proof (cases "cur = []")
    case True
    then show ?thesis using off c by (simp add: parse_zeros)
  next
    case False
    let ?i = "butlast cur" and ?l = "last cur" and ?enc = "\<lambda>es. concat (map (\<lambda>e. dent_enc e (dent_need e)) es)"
    have cur: "cur = ?i @ [?l]" using False by simp
    have n: "8 + length (de_name ?l) \<le> dent_need ?l" by (simp add: dent_need_def dentryLen_ge)
    have "sum_list (map dent_need cur) = sum_list (map dent_need ?i) + dent_need ?l"
      using arg_cong[OF cur, of "\<lambda>x. sum_list (map dent_need x)"] by (simp del: append_butlast_last_id)
    then have offl: "dp_off p = dp_last p + dent_need ?l" using off last False by simp
    have pos: "0 < dp_off p" using offl n by simp
    have enc: "?enc cur = ?enc ?i @ dent_enc ?l (dent_need ?l)"
      using arg_cong[OF cur, of ?enc] by (simp del: append_butlast_last_id)
    have rl: "bs - dp_last p = dent_need ?l + (bs - dp_off p)" using offl off by simp
    have "?cur = ?enc ?i @ dent_enc ?l (bs - dp_last p)"
      using dent_enc_stretch[OF n, of "?enc ?i" "bs - dp_off p"] pos last False
      by (simp add: c enc rl[symmetric])
    moreover have "parseDirBlock (?enc ?i @ dent_enc ?l (bs - dp_last p)) 0 = ?i @ [?l]"
    proof -
      have iok: "list_all dentry_ok ?i" "dentry_ok ?l" using ok es False by (auto simp: list_all_iff dest: in_set_butlastD)
      have "\<forall>e \<in> set ?i. dent_need e < 65536"
        using iok dentryLen_ge(2) by (fastforce simp: list_all_iff dentry_ok_def dent_need_def intro: le_less_trans)
      from parse_run[OF iok(1) this, of "[]"]
      have "parseDirBlock (?enc ?i @ dent_enc ?l (bs - dp_last p)) 0
          = ?i @ parseDirBlock (?enc ?i @ dent_enc ?l (bs - dp_last p)) (length (?enc ?i))" by simp
      also have "parseDirBlock (?enc ?i @ dent_enc ?l (bs - dp_last p)) (length (?enc ?i)) = [?l]"
        using iok(2) n rl bs parse_one[of ?l "bs - dp_last p" "?enc ?i" "[]"]
        by (simp add: parse_end)
      finally show ?thesis by simp
    qed
    moreover have "length (?enc ?i @ dent_enc ?l (bs - dp_last p)) = bs"
      using last False n rl offl off by simp
    ultimately show ?thesis using cur by simp
  qed
  then show "pack_inv bs es (dir_flush bs p)" "dp_off (dir_flush bs p) = 0"
    using dn lens es unfolding pack_inv_def dir_flush_def
    by (auto simp: Let_def intro!: exI[of _ es] exI[of _ "[]"])
qed

lemma add_inv:
  assumes inv: "pack_inv bs es p" and ok: "list_all dentry_ok (es @ [e])" and bs: "1024 \<le> bs" "bs < 65536"
  shows "pack_inv bs (es @ [e]) (dir_add bs e p)"
proof -
  have need: "dent_need e \<le> bs" using ok bs dentryLen_ge(2)[of "length (de_name e)"] by (simp add: dent_need_def dentry_ok_def)
  define q where "q = (if dp_off p + dent_need e > bs then dir_flush bs p else p)"
  have q: "pack_inv bs es q" "dp_off q + dent_need e \<le> bs"
    using flush_inv[OF inv _ bs(2)] inv ok need unfolding q_def by auto
  obtain dn cur where es: "es = dn @ cur" and dn: "concat (map (\<lambda>b. parseDirBlock b 0) (dp_blocks q)) = dn"
    and lens: "list_all (\<lambda>b. length b = bs) (dp_blocks q)"
    and c: "dp_cur q = concat (map (\<lambda>e. dent_enc e (dent_need e)) cur) @ zeros (bs - dp_off q)"
    and off: "dp_off q = sum_list (map dent_need cur)" "dp_off q \<le> bs"
    using q(1) unfolding pack_inv_def by blast
  have "putDentry (dp_cur q) (dp_off q) e (dent_need e)
      = concat (map (\<lambda>e. dent_enc e (dent_need e)) cur) @ dent_enc e (dent_need e) @ zeros (bs - dp_off q - dent_need e)"
    using putDentry_zeros[of e "bs - dp_off q" "concat (map (\<lambda>e. dent_enc e (dent_need e)) cur)"] q(2)
    by (simp add: c off(1))
  moreover have "dir_add bs e p = q\<lparr>dp_cur := putDentry (dp_cur q) (dp_off q) e (dent_need e), dp_last := dp_off q,
      dp_off := dp_off q + dent_need e\<rparr>"
    unfolding dir_add_def Let_def q_def dent_need_def by simp
  ultimately show ?thesis
    using es dn lens off q(2) unfolding pack_inv_def by (auto intro!: exI[of _ dn] exI[of _ "cur @ [e]"])
qed

lemma buildDirBlocks_read:
  assumes "list_all dentry_ok es" "1024 \<le> bs" "bs < 65536"
  shows "concat (map (\<lambda>b. parseDirBlock b 0) (buildDirBlocks es bs)) = es"
    and "list_all (\<lambda>b. length b = bs) (buildDirBlocks es bs)"
proof -
  let ?p0 = "\<lparr> dp_blocks = [], dp_cur = zeros bs, dp_off = 0, dp_last = 0 \<rparr>"
  have "pack_inv bs es (fold (dir_add bs) es ?p0)"
    using assms(1)
  proof (induction es rule: rev_induct)
    case Nil
    show ?case by (simp add: pack_inv_def)
  next
    case (snoc e es)
    then show ?case using add_inv[OF _ snoc.prems assms(2,3)] by simp
  qed
  from flush_inv[OF this assms(1,3)]
  obtain dn cur where "es = dn @ cur" "concat (map (\<lambda>b. parseDirBlock b 0) (buildDirBlocks es bs)) = dn"
      "list_all (\<lambda>b. length b = bs) (buildDirBlocks es bs)" "0 = sum_list (map dent_need cur)"
    unfolding pack_inv_def buildDirBlocks_def by metis
  moreover have "cur = []"
  proof (cases cur)
    case (Cons e _)
    have "8 \<le> dent_need e" using dentryLen_ge(1)[of "length (de_name e)"] unfolding dent_need_def by linarith
    then show ?thesis using Cons \<open>0 = _\<close> by simp
  qed simp
  ultimately show "concat (map (\<lambda>b. parseDirBlock b 0) (buildDirBlocks es bs)) = es"
    "list_all (\<lambda>b. length b = bs) (buildDirBlocks es bs)" by simp_all
qed

section \<open>Extents read back\<close>

definition leaf_expand :: "extentLeaf \<Rightarrow> nat list" where
  "leaf_expand e = map (\<lambda>k. el_start e + k) [0..<el_length e]"

definition leaf_ok :: "extentLeaf \<Rightarrow> bool" where
  "leaf_ok e \<longleftrightarrow> el_length e \<le> extentMaxLen \<and> el_start e < 2 ^ 48"

lemma upt_shift: "map (\<lambda>k. a + k) [0..<n] = [a..<a + n]"
  by (simp add: map_add_upt add.commute[of a])

lemma split_run_expand:
  "phys + n \<le> 2 ^ 48 \<Longrightarrow>
   concat (map leaf_expand (split_run lg n phys)) = [phys..<phys + n] \<and> list_all leaf_ok (split_run lg n phys)"
proof (induction lg n phys rule: split_run.induct)
  case (1 lg n phys)
  show ?case
  proof (cases "n = 0")
    case True
    then show ?thesis by (subst (1 2) split_run.simps) simp
  next
    case False
    define c where "c = (if n > extentMaxLen then extentMaxLen else n)"
    have c: "c \<le> n" "c \<le> extentMaxLen" by (simp_all add: c_def)
    have w: "u64 (phys + c) = phys + c" "phys + c + (n - c) = phys + n" using 1(2) c(1) by auto
    have s: "split_run lg n phys
        = \<lparr> el_logical = lg, el_length = c, el_start = phys \<rparr> # split_run (u32 (lg + c)) (n - c) (phys + c)"
      using False w(1) by (subst split_run.simps) (simp add: Let_def c_def)
    have "concat (map leaf_expand (split_run (u32 (lg + c)) (n - c) (phys + c))) = [phys + c..<phys + n]
        \<and> list_all leaf_ok (split_run (u32 (lg + c)) (n - c) (phys + c))"
      using "1.IH"[of c] False w 1(2) by (simp add: c_def)
    moreover have "[phys..<phys + n] = [phys..<phys + c] @ [phys + c..<phys + n]"
      using upt_add_eq_append[of phys "phys + c" "n - c"] w(2) by simp
    moreover have "leaf_expand \<lparr> el_logical = lg, el_length = c, el_start = phys \<rparr> = [phys..<phys + c]"
      by (simp add: leaf_expand_def upt_shift)
    moreover have "leaf_ok \<lparr> el_logical = lg, el_length = c, el_start = phys \<rparr>"
      using c False 1(2) by (simp add: leaf_ok_def)
    ultimately show ?thesis unfolding s by simp
  qed
qed

lemma run_follow_take:
  "\<forall>x \<in> set bs. x < 2 ^ 48 \<Longrightarrow> p < 2 ^ 48 \<Longrightarrow> take (run_follow p bs) bs = [p + 1..<p + 1 + run_follow p bs]"
proof (induction p bs rule: run_follow.induct)
  case (2 p b bs)
  have "u64 (p + 1) = p + 1" using 2(3) by simp
  then show ?case using 2 by (auto simp: upt_rec[of "Suc p"])
qed simp

lemma runs_from_expand:
  "\<forall>x \<in> set bs. x < 2 ^ 48 \<Longrightarrow>
   concat (map leaf_expand (runs_from lg bs)) = bs \<and> list_all leaf_ok (runs_from lg bs)"
proof (induction lg bs rule: runs_from.induct)
  case (2 lg b bs)
  define k where "k = run_follow b bs"
  have t: "b # take k bs = [b..<b + (k + 1)]"
    using run_follow_take[of bs b] 2(2) by (simp add: upt_conv_Cons k_def)
  have "last (b # take k bs) \<in> set (b # take k bs)" by (rule last_in_set) simp
  then have "last (b # take k bs) < 2 ^ 48" using 2(2) by (auto dest: in_set_takeD)
  then have b: "b + (k + 1) \<le> 2 ^ 48" unfolding t by simp
  have "b # bs = (b # take k bs) @ drop k bs" by simp
  then have app: "b # bs = [b..<b + (k + 1)] @ drop k bs" unfolding t .
  have "\<forall>x \<in> set (drop k bs). x < 2 ^ 48" using 2(2) by (auto dest: in_set_dropD)
  then have "concat (map leaf_expand (runs_from (u32 (lg + (k + 1))) (drop k bs))) = drop k bs
      \<and> list_all leaf_ok (runs_from (u32 (lg + (k + 1))) (drop k bs))"
    using "2.IH"[of k] by (simp add: k_def)
  moreover have "runs_from lg (b # bs) = split_run lg (k + 1) b @ runs_from (u32 (lg + (k + 1))) (drop k bs)"
    by (simp add: Let_def k_def)
  ultimately show ?case using split_run_expand[OF b, of lg] by (simp only: app map_append concat_append list_all_append simp_thms)
qed simp

lemma contiguousRuns_expand:
  assumes "\<forall>x \<in> set bs. x < 2 ^ 48"
  shows "concat (map leaf_expand (contiguousRuns bs)) = bs" "list_all leaf_ok (contiguousRuns bs)"
  using runs_from_expand[OF assms, of 0] by (simp_all add: contiguousRuns_def)

text \<open>Entries as twelve bytes at their place.\<close>

definition leaf_enc :: "extentLeaf \<Rightarrow> bytes" where
  "leaf_enc e = le_bytes 4 (el_logical e) @ le_bytes 2 (el_length e) @ le_bytes 2 (el_start e div 2 ^ 32) @ le_bytes 4 (el_start e)"

definition index_enc :: "extentIndex \<Rightarrow> bytes" where
  "index_enc e = le_bytes 4 (ei_logical e) @ le_bytes 4 (ei_child e) @ le_bytes 2 (ei_child e div 2 ^ 32) @ le_bytes 2 0"

lemma put_entry_blit:
  assumes "o' + 12 \<le> length b"
  shows "putExtentLeaf o' e b = blit b o' (leaf_enc e)" "putExtentIndex o' i b = blit b o' (index_enc i)"
proof -
  have a: "blit (blit b o' p) (o' + j) q = blit b o' (p @ q)"
    if "j = length p" "length p + length q \<le> 12" for p q j
    using that assms blit_blit_adjacent[of o' p q b] by simp
  show "putExtentLeaf o' e b = blit b o' (leaf_enc e)" "putExtentIndex o' i b = blit b o' (index_enc i)"
    by (simp_all add: putExtentLeaf_def putExtentIndex_def put_le_def leaf_enc_def index_enc_def a)
qed

lemma put_entries_spec:
  assumes put: "\<And>o' e b. o' + 12 \<le> length b \<Longrightarrow> put o' e b = blit b o' (enc e)" and enc: "\<And>e. length (enc e) = 12"
    and b: "12 + 12 * length es \<le> length b"
  shows "length (put_entries put es b) = length b \<and> window (put_entries put es b) 0 12 = window b 0 12
     \<and> (\<forall>i < length es. window (put_entries put es b) (12 + i * 12) 12 = enc (es ! i))"
proof -
  define f where "f = (\<lambda>i b. put (extentHeaderSize + i * extentEntrySize) (es ! i) b)"
  have "length (fold f [0..<n] b) = length b \<and> window (fold f [0..<n] b) 0 12 = window b 0 12
     \<and> (\<forall>i < n. window (fold f [0..<n] b) (12 + i * 12) 12 = enc (es ! i))" if "n \<le> length es" for n
    using that
  proof (induction n)
    case (Suc n)
    let ?c = "fold f [0..<n] b"
    have c: "length ?c = length b" "window ?c 0 12 = window b 0 12"
      "\<forall>i < n. window ?c (12 + i * 12) 12 = enc (es ! i)" using Suc by auto
    have r: "12 + n * 12 + 12 \<le> length ?c" using Suc.prems b c by simp
    have s: "fold f [0..<Suc n] b = blit ?c (12 + n * 12) (enc (es ! n))"
      using put[OF r] by (simp add: f_def extentHeaderSize_def extentEntrySize_def)
    show ?case unfolding s using r c enc
      by (auto simp: less_Suc_eq window_blit_other)
  qed simp
  then show ?thesis unfolding put_entries_def f_def by blast
qed

lemma get_le_window: "k + w \<le> n \<Longrightarrow> get_le w b (o' + k) = get_le w (window b o' n) k"
  by (simp add: get_le_def window_window min_absorb1)

lemma get_le_at_front:
  "length p \<le> k \<Longrightarrow> get_le w (p @ q) k = get_le w q (k - length p)"
  "length p = w \<Longrightarrow> get_le w (p @ q) 0 = le_val p"
  "length p = w \<Longrightarrow> get_le w p 0 = le_val p"
  by (simp_all add: get_le_def window_def)

lemma leaf_blocks_enc:
  assumes "window node o' 12 = leaf_enc e" "leaf_ok e"
  shows "leaf_blocks node o' = leaf_expand e"
proof -
  note g = get_le_window[of _ _ 12 node o']
  have "el_start e div 2 ^ 32 < 65536" using assms(2) by (simp add: leaf_ok_def less_mult_imp_div_less)
  then have s: "el_start e div 2 ^ 32 mod 65536 * 2 ^ 32 + el_start e mod 4294967296 = el_start e"
    using div_mult_mod_eq[of "el_start e" "2 ^ 32"] by simp
  have "get_le 2 node (o' + 4) = el_length e" "get_le 2 node (o' + 6) = el_start e div 2 ^ 32 mod 65536"
    "get_le 4 node (o' + 8) = el_start e mod 4294967296"
    using assms by (simp_all add: g leaf_enc_def get_le_at_front leaf_ok_def extentMaxLen_def)
  then show ?thesis using s assms(2) by (simp add: leaf_blocks_def leaf_expand_def leaf_ok_def)
qed

lemma index_child_enc:
  assumes "window node o' 12 = index_enc e" "ei_child e < 2 ^ 48"
  shows "index_child node o' = ei_child e"
proof -
  note g = get_le_window[of _ _ 12 node o']
  have "get_le 2 node (o' + 8) = ei_child e div 2 ^ 32 mod 65536" "get_le 4 node (o' + 4) = ei_child e mod 4294967296"
    using assms by (simp_all add: g index_enc_def get_le_at_front)
  moreover have "ei_child e div 2 ^ 32 < 65536" using assms(2) by (simp add: less_mult_imp_div_less)
  ultimately show ?thesis using div_mult_mod_eq[of "ei_child e" "2 ^ 32"] by (simp add: index_child_def)
qed

text \<open>The header of a node that holds its entries.\<close>

lemma header_fields:
  assumes "window node 0 12 = window (putExtentHeader n mx depth (zeros k)) 0 12" "12 \<le> k" "n < 65536" "depth < 65536"
  shows "get_le 2 node 0 = extentMagic" "get_le 2 node 2 = n" "get_le 2 node 6 = depth"
proof -
  have g: "get_le w node i = get_le w (putExtentHeader n mx depth (zeros k)) i" if "i + w \<le> 12" for w i
    using get_le_window[of i w 12 node 0] get_le_window[of i w 12 _ 0] assms(1) that by simp
  show "get_le 2 node 0 = extentMagic" "get_le 2 node 2 = n" "get_le 2 node 6 = depth"
    using assms by (simp_all add: g putExtentHeader_def field_simps_disk extentMagic_def)
qed

lemma entry_loop_all:
  assumes "\<forall>i \<in> set is. 12 + i * 12 + 12 \<le> length node"
    and "\<forall>i \<in> set is. if depth = 0 then leaf_blocks node (12 + i * 12) = cov i
           else sub (index_child node (12 + i * 12)) = Some (Inr (cov i))"
  shows "entry_loop node depth sub is out = Some (Inr (out @ concat (map cov is)))"
  using assms by (induction "is" arbitrary: out) (auto simp: extentHeaderSize_def extentEntrySize_def Let_def)

text \<open>A node written over its entries parses to what the entries cover.\<close>

lemma parse_node:
  assumes put: "\<And>o' e b. o' + 12 \<le> length b \<Longrightarrow> put o' e b = blit b o' (enc e)" and enc: "\<And>e. length (enc e) = 12"
    and len: "12 + 12 * length es \<le> k" and n: "length es < 65536" and depth: "depth \<le> maxExtentDepth"
    and cov: "\<And>e node o'. e \<in> set es \<Longrightarrow> window node o' 12 = enc e \<Longrightarrow>
        if depth = 0 then leaf_blocks node o' = cov e
        else (case rd (index_child node o') of Inl x \<Rightarrow> Some (Inl x) | Inr buf \<Rightarrow> parseExtents f rd buf) = Some (Inr (cov e))"
  shows "parseExtents (Suc f) rd (put_entries put es (putExtentHeader (length es) mx depth (zeros k)))
       = Some (Inr (concat (map cov es)))"
proof -
  let ?h = "putExtentHeader (length es) mx depth (zeros k)"
  let ?b = "put_entries put es ?h"
  have "length ?h = k" using len by (simp add: putExtentHeader_def)
  then have b: "length ?b = k" "window ?b 0 12 = window ?h 0 12"
      "\<forall>i < length es. window ?b (12 + i * 12) 12 = enc (es ! i)"
    using put_entries_spec[OF put enc, where es = es and b = ?h] len by auto
  note h = header_fields[OF b(2) _ n]
  have m: "maxExtentDepth < 65536" by (simp add: maxExtentDepth_def)
  have "entry_loop ?b depth (\<lambda>child. case rd child of Inl e \<Rightarrow> Some (Inl e) | Inr buf \<Rightarrow> parseExtents f rd buf) [0..<length es] []
      = Some (Inr ([] @ concat (map (\<lambda>i. cov (es ! i)) [0..<length es])))"
  proof (rule entry_loop_all)
    show "\<forall>i \<in> set [0..<length es]. 12 + i * 12 + 12 \<le> length ?b" using b(1) len by auto
    show "\<forall>i \<in> set [0..<length es]. if depth = 0 then leaf_blocks ?b (12 + i * 12) = cov (es ! i)
        else (case rd (index_child ?b (12 + i * 12)) of Inl e \<Rightarrow> Some (Inl e) | Inr buf \<Rightarrow> parseExtents f rd buf) = Some (Inr (cov (es ! i)))"
    proof
      fix i assume "i \<in> set [0..<length es]"
      then show "if depth = 0 then leaf_blocks ?b (12 + i * 12) = cov (es ! i)
        else (case rd (index_child ?b (12 + i * 12)) of Inl e \<Rightarrow> Some (Inl e) | Inr buf \<Rightarrow> parseExtents f rd buf) = Some (Inr (cov (es ! i)))"
        using cov[of "es ! i" ?b "12 + i * 12"] b(3) by simp
    qed
  qed
  moreover have "map (\<lambda>i. cov (es ! i)) [0..<length es] = map cov es"
    by (rule nth_equalityI) auto
  ultimately show ?thesis using h len depth m by simp
qed

lemma entry_loop_mono:
  assumes "entry_loop node depth sub is out = Some r" "\<And>c x. sub c = Some x \<Longrightarrow> sub' c = Some x"
  shows "entry_loop node depth sub' is out = Some r"
  using assms(1)
proof (induction "is" arbitrary: out)
  case (Cons i "is")
  show ?case
  proof (cases "depth = 0 \<or> extentHeaderSize + i * extentEntrySize + extentEntrySize > length node")
    case True
    then show ?thesis using Cons by (auto simp: Let_def split: if_splits)
  next
    case False
    then obtain x where x: "sub (index_child node (extentHeaderSize + i * extentEntrySize)) = Some x"
      using Cons.prems by (auto simp: Let_def split: option.splits)
    then show ?thesis using Cons False assms(2)[OF x] by (auto simp: Let_def split: sum.splits)
  qed
qed simp

lemma parseExtents_mono: "parseExtents f rd node = Some r \<Longrightarrow> f \<le> f' \<Longrightarrow> parseExtents f' rd node = Some r"
proof (induction f arbitrary: f' node r)
  case (Suc f)
  then obtain g where g: "f' = Suc g" "f \<le> g" by (cases f') auto
  let ?s = "\<lambda>f child. case rd child of Inl e \<Rightarrow> Some (Inl e) | Inr buf \<Rightarrow> parseExtents f rd buf"
  have "?s g c = Some x" if "?s f c = Some x" for c x
    using that Suc.IH[OF _ g(2)] by (cases "rd c") simp_all
  then have "entry_loop node (get_le 2 node 6) (?s g) [0..<get_le 2 node 2] [] = Some r"
    if "entry_loop node (get_le 2 node 6) (?s f) [0..<get_le 2 node 2] [] = Some r"
    using entry_loop_mono[OF that, of "?s g"] by blast
  then show ?case using Suc.prems(1) unfolding g(1) parseExtents.simps Let_def by (simp split: if_split_asm)
qed simp

section \<open>The geometry is sound\<close>

definition block_sizes :: "nat list" where
  "block_sizes = [1024, 2048, 4096, 8192, 16384, 32768, 65536]"

lemma one_bit32_power:
  assumes "one_bit32 x" "x < 2 ^ 32"
  shows "\<exists>k < 32. x = 2 ^ k"
proof -
  have "length (filter (\<lambda>k. bit x k) [0..<32]) = 1" using assms(1) by (simp add: one_bit32_def)
  then obtain k where f: "filter (\<lambda>k. bit x k) [0..<32] = [k]" by (auto simp: length_Suc_conv)
  have b: "bit x j \<longleftrightarrow> j = k" if "j < 32" for j
  proof -
    have "j \<in> set (filter (\<lambda>k. bit x k) [0..<32]) \<longleftrightarrow> j = k" by (simp only: f) simp
    then show ?thesis using that by simp
  qed
  have k: "k < 32" using f by (metis atLeastLessThan_iff filter_is_subset list.set_intros(1) set_upt subsetD)
  have "\<not> bit x j" if "32 \<le> j" for j
  proof -
    have "x < 2 ^ j" using assms(2) power_increasing[OF that, of "2::nat"] by linarith
    then show ?thesis by (simp add: bit_iff_odd)
  qed
  then have "bit x j \<longleftrightarrow> bit (2 ^ k :: nat) j" for j
    using b[of j] k by (cases "j < 32") (auto simp: bit_exp_iff possible_bit_def)
  then have "x = 2 ^ k" by (simp add: bit_eq_iff)
  then show ?thesis using k by blast
qed

lemma block_size_cases: "one_bit32 x \<Longrightarrow> 1024 \<le> x \<Longrightarrow> x \<le> 65536 \<Longrightarrow> x \<in> set block_sizes"
proof -
  assume a: "one_bit32 x" "1024 \<le> x" "x \<le> 65536"
  then obtain k where k: "k < 32" "x = 2 ^ k" using one_bit32_power by fastforce
  have "(2::nat) ^ 10 \<le> 2 ^ k" "(2::nat) ^ k \<le> 2 ^ 16" using a k by simp_all
  then have "10 \<le> k" "k \<le> 16" by (simp_all only: power_increasing_iff one_less_numeral_iff semiring_norm)
  then have "k \<in> {10, 11, 12, 13, 14, 15, 16}" by auto
  then show ?thesis using k by (auto simp: block_sizes_def)
qed

text \<open>
  What the layout relies on: the groups cover the blocks, the inode table and the descriptor table
  hold what they are for, and the metadata of each group fits in it.
\<close>

definition geo_ok :: "xgeo \<Rightarrow> bool" where
  "geo_ok g \<longleftrightarrow>
     xg_bs g \<in> set block_sizes \<and> xg_bpg g = xg_bs g * 8 \<and> xg_first g = (if xg_bs g = 1024 then 1 else 0)
     \<and> (xg_isize g = 128 \<or> xg_isize g = 256) \<and> 0 < xg_groups g \<and> 16 \<le> xg_ipg g \<and> xg_ipg g \<le> xg_bpg g
     \<and> xg_groups g * 32 \<le> xg_gdt g * xg_bs g \<and> xg_ipg g * xg_isize g \<le> xg_itb g * xg_bs g
     \<and> xg_icount g = xg_ipg g * xg_groups g \<and> xg_total g < 2 ^ 32 \<and> xg_itb g \<le> 2048
     \<and> xg_first g + (xg_groups g - 1) * xg_bpg g < xg_total g \<and> xg_total g \<le> xg_first g + xg_groups g * xg_bpg g
     \<and> list_all (\<lambda>gr. overhead g gr \<le> blocksInGroup g gr) [0..<xg_groups g]"

lemma geo_okD:
  assumes "geo_ok g"
  shows "xg_bs g \<in> set block_sizes" "xg_bpg g = xg_bs g * 8" "xg_first g = (if xg_bs g = 1024 then 1 else 0)"
    "xg_isize g = 128 \<or> xg_isize g = 256" "0 < xg_groups g" "16 \<le> xg_ipg g" "xg_ipg g \<le> xg_bpg g"
    "xg_groups g * 32 \<le> xg_gdt g * xg_bs g" "xg_ipg g * xg_isize g \<le> xg_itb g * xg_bs g"
    "xg_icount g = xg_ipg g * xg_groups g" "xg_total g < 2 ^ 32" "xg_itb g \<le> 2048"
    "xg_first g + (xg_groups g - 1) * xg_bpg g < xg_total g" "xg_total g \<le> xg_first g + xg_groups g * xg_bpg g"
    "gr < xg_groups g \<Longrightarrow> overhead g gr \<le> blocksInGroup g gr"
  using assms unfolding geo_ok_def list_all_iff by auto

lemma x_ceilDiv_small: "0 < b \<Longrightarrow> a + b < 18446744073709551616 \<Longrightarrow> x_ceilDiv a b = ceil_div a b"
  by (simp add: x_ceilDiv_def ceil_div_def)

lemma ceil_div_bounds: "0 < b \<Longrightarrow> a \<le> ceil_div a b * b" "0 < b \<Longrightarrow> ceil_div a b * b \<le> a + b - 1"
  using ceil_div_mult_ge by (auto simp: ceil_div_def)

text \<open>The groups of an unfinished geometry cover its blocks.\<close>

definition covers :: "xgeo \<Rightarrow> bool" where
  "covers g \<longleftrightarrow> 0 < xg_groups g \<longrightarrow>
     xg_first g + (xg_groups g - 1) * xg_bpg g < xg_total g \<and> xg_total g \<le> xg_first g + xg_groups g * xg_bpg g"

lemma geo_loop_result:
  assumes "geo_loop d g = Inr g'" "covers g"
  shows "\<exists>h. g' = geo_fill d h \<and> 0 < xg_groups h \<and> covers h \<and> xg_total h \<le> xg_total g \<and> xg_groups h \<le> xg_groups g
     \<and> xg_bs h = xg_bs g \<and> xg_bpg h = xg_bpg g \<and> xg_first h = xg_first g \<and> xg_isize h = xg_isize g
     \<and> (xg_groups h = 1 \<or> overhead g' (xg_groups h - 1) + 8 \<le> blocksInGroup g' (xg_groups h - 1))"
  using assms
proof (induction d g rule: geo_loop.induct)
  case (1 d g)
  have ng: "xg_groups g \<noteq> 0"
  proof
    assume "xg_groups g = 0"
    then show False using 1(2) by (subst (asm) geo_loop.simps) simp
  qed
  let ?f = "geo_fill d g" and ?g = "geo_fill d g\<lparr>xg_groups := xg_groups g - 1, xg_total := xg_first g + (xg_groups g - 1) * xg_bpg g\<rparr>"
  show ?case
  proof (cases "xg_groups g \<le> 1 \<or> blocksInGroup ?f (xg_groups g - 1) \<ge> overhead ?f (xg_groups g - 1) + runtMinDataBlocks")
    case True
    then have "g' = ?f" using 1(2) ng by (subst (asm) geo_loop.simps) (auto simp: Let_def)
    then show ?thesis using True ng 1(3) by (intro exI[of _ g]) (auto simp: runtMinDataBlocks_def)
  next
    case False
    then have r: "geo_loop d ?g = Inr g'" using 1(2) ng by (subst (asm) geo_loop.simps) (auto simp: Let_def)
    have k: "2 \<le> xg_groups g" using False by simp
    have c: "xg_first g + (xg_groups g - 1) * xg_bpg g < xg_total g" "xg_total g \<le> xg_first g + xg_groups g * xg_bpg g"
      using 1(3) ng by (simp_all add: covers_def)
    have "xg_groups g * xg_bpg g = (xg_groups g - 1) * xg_bpg g + xg_bpg g"
      using ng by (cases "xg_groups g") auto
    then have bp: "0 < xg_bpg g" using c by linarith
    have "(xg_groups g - 1) * xg_bpg g = (xg_groups g - 1 - 1) * xg_bpg g + xg_bpg g"
      using k by (cases "xg_groups g - 1") auto
    then have "covers ?g" using bp by (simp add: covers_def)
    then obtain h where h: "g' = geo_fill d h" "0 < xg_groups h" "covers h" "xg_total h \<le> xg_total ?g" "xg_groups h \<le> xg_groups ?g"
      "xg_bs h = xg_bs ?g" "xg_bpg h = xg_bpg ?g" "xg_first h = xg_first ?g" "xg_isize h = xg_isize ?g"
      "xg_groups h = 1 \<or> overhead g' (xg_groups h - 1) + 8 \<le> blocksInGroup g' (xg_groups h - 1)"
      using "1.IH"[OF ng refl refl] False r by auto
    then show ?thesis using c(1) by (intro exI[of _ h]) simp
  qed
qed

lemma div_small_bound: "0 < b \<Longrightarrow> a < c * b \<Longrightarrow> a div b < (c::nat)"
  by (simp add: div_less_iff_less_mult)

lemma ceil_div_upper: "0 < b \<Longrightarrow> a \<le> c * b \<Longrightarrow> ceil_div a b \<le> c"
  by (simp add: ceil_div_le_iff)

lemma x_ceilDiv_wide:
  assumes "0 < n" "n < 2 ^ 60" "a < 2 ^ 60"
  shows "x_ceilDiv a n = ceil_div a n"
  by (rule x_ceilDiv_small) (use assms in simp_all)

text \<open>The filled-in sizes, when the descriptors take at most 4096 blocks.\<close>

lemma geo_fill_sizes:
  assumes bs: "xg_bs h \<in> set block_sizes" "xg_bpg h = xg_bs h * 8" and isz: "xg_isize h = 128 \<or> xg_isize h = 256"
    and n: "0 < xg_groups h" "xg_groups h \<le> 2 ^ 18" "xg_groups h * 32 \<le> 4096 * xg_bs h"
    and d: "d \<le> 2 ^ 48"
  shows "16 \<le> xg_ipg (geo_fill d h)" "xg_ipg (geo_fill d h) \<le> xg_bpg h"
    "xg_groups h * 32 \<le> xg_gdt (geo_fill d h) * xg_bs h" "xg_ipg (geo_fill d h) * xg_isize h \<le> xg_itb (geo_fill d h) * xg_bs h"
    "xg_icount (geo_fill d h) = xg_ipg (geo_fill d h) * xg_groups h"
    "xg_itb (geo_fill d h) \<le> 2048" "3 + xg_gdt (geo_fill d h) + xg_itb (geo_fill d h) \<le> xg_bpg h"
proof -
  let ?g = "geo_fill d h" and ?b = "xg_bs h" and ?n = "xg_groups h"
  have b: "1024 \<le> ?b" "?b \<le> 65536" using bs(1) by (auto simp: block_sizes_def)
  have b0: "0 < ?b" using b by simp
  show ipg: "16 \<le> xg_ipg ?g" "xg_ipg ?g \<le> xg_bpg h"
  proof -
    define p where "p = x_ceilDiv (d div bytesPerInode) ?n"
    have "d div bytesPerInode \<le> d" by simp
    then have "x_ceilDiv (d div bytesPerInode) ?n = ceil_div (d div bytesPerInode) ?n"
      using n le_less_trans[OF \<open>d div bytesPerInode \<le> d\<close>, of "2 ^ 60"] d by (intro x_ceilDiv_wide) simp_all
    moreover have "ceil_div (d div bytesPerInode) ?n \<le> d div bytesPerInode"
      using n(1) by (intro ceil_div_upper) (cases ?n, auto)
    ultimately have "p \<le> 2 ^ 48" using d \<open>d div bytesPerInode \<le> d\<close> unfolding p_def by linarith
    define q where "q = (if p < 16 then 16 else p)"
    have q: "16 \<le> q" "q \<le> 2 ^ 48" using \<open>p \<le> 2 ^ 48\<close> by (simp_all add: q_def)
    have c: "x_ceilDiv q 8 = ceil_div q 8" using q by (intro x_ceilDiv_wide) simp_all
    have "ceil_div q 8 * 8 \<le> q + 8 - 1" by (rule ceil_div_bounds(2)) simp
    then have r: "x_roundUp q 8 = ceil_div q 8 * 8" using q by (simp add: x_roundUp_def c)
    have "16 \<le> x_roundUp q 8" using q(1) ceil_div_bounds(1)[of 8 q] unfolding r by simp
    moreover have "xg_ipg ?g = (if x_roundUp q 8 > xg_bpg h then xg_bpg h else x_roundUp q 8)"
      by (simp add: geo_fill_def Let_def q_def p_def)
    ultimately show "16 \<le> xg_ipg ?g" "xg_ipg ?g \<le> xg_bpg h" using bs(2) b by simp_all
  qed
  have gdt: "xg_gdt ?g = ceil_div (?n * 32) ?b"
    using n b by (simp add: geo_fill_def Let_def descSize_def x_ceilDiv_wide)
  then show "?n * 32 \<le> xg_gdt ?g * ?b" using ceil_div_bounds(1)[OF b0] by simp
  have prod: "xg_ipg ?g * xg_isize h \<le> 524288 * 256"
    using ipg bs(2) b isz by (intro mult_le_mono) auto
  have "xg_itb ?g = x_ceilDiv (xg_ipg ?g * xg_isize h) ?b" by (simp add: geo_fill_def Let_def)
  also have "\<dots> = ceil_div (xg_ipg ?g * xg_isize h) ?b" using prod b by (intro x_ceilDiv_wide) simp_all
  finally have itb: "xg_itb ?g = ceil_div (xg_ipg ?g * xg_isize h) ?b" .
  then show "xg_ipg ?g * xg_isize h \<le> xg_itb ?g * ?b" using ceil_div_bounds(1)[OF b0] by simp
  have "xg_ipg ?g * ?n \<le> 524288 * 2 ^ 18" using ipg bs(2) b n by (intro mult_le_mono) auto
  then show "xg_icount ?g = xg_ipg ?g * ?n" by (simp add: geo_fill_def Let_def)
  have "xg_ipg ?g * xg_isize h \<le> (?b * 8) * 256" using ipg bs(2) isz by (intro mult_le_mono) auto
  then have "xg_ipg ?g * xg_isize h \<le> 2048 * ?b" by simp
  then show i: "xg_itb ?g \<le> 2048" unfolding itb by (rule ceil_div_upper[OF b0])
  have "xg_gdt ?g \<le> 4096" unfolding gdt by (rule ceil_div_upper[OF b0 n(3)])
  then show "3 + xg_gdt ?g + xg_itb ?g \<le> xg_bpg h" using i bs(2) b by simp
qed

lemma groupStart_bounds:
  assumes "geo_ok g" "gr < xg_groups g"
  shows "groupStart g gr < xg_total g" "groupStart g gr + blocksInGroup g gr \<le> xg_total g"
    "blocksInGroup g gr = min (xg_bpg g) (xg_total g - groupStart g gr)" "groupStart g gr + overhead g gr \<le> xg_total g"
    "gr < gr' \<Longrightarrow> groupStart g gr + blocksInGroup g gr \<le> groupStart g gr'"
proof -
  have "gr * xg_bpg g \<le> (xg_groups g - 1) * xg_bpg g" using assms(2) by (intro mult_le_mono1) simp
  moreover have "xg_first g + (xg_groups g - 1) * xg_bpg g < xg_total g" using assms(1) unfolding geo_ok_def by blast
  ultimately show s: "groupStart g gr < xg_total g" unfolding groupStart_def by linarith
  have t: "xg_total g < 2 ^ 32" using assms(1) by (simp add: geo_ok_def)
  show b: "blocksInGroup g gr = min (xg_bpg g) (xg_total g - groupStart g gr)"
    using s t by (simp add: blocksInGroup_def Let_def min_def) arith
  show "groupStart g gr + blocksInGroup g gr \<le> xg_total g" using b s by simp
  show "groupStart g gr + overhead g gr \<le> xg_total g" using b s geo_okD(15)[OF assms] by linarith
  show "groupStart g gr + blocksInGroup g gr \<le> groupStart g gr'" if "gr < gr'"
  proof -
    have "Suc gr * xg_bpg g \<le> gr' * xg_bpg g" using that by (intro mult_le_mono1) simp
    then show ?thesis using b by (simp add: groupStart_def)
  qed
qed

lemma computeGeometry_ok:
  assumes r: "x_computeGeometry dev bs isz = Inr g" and isz: "isz \<in> {0, 128, 256}"
    and dev: "dev < 2 ^ 32 * int (xg_bs g)" "xg_bs g = 1024 \<longrightarrow> dev \<le> 2 ^ 40"
  shows "geo_ok g" "int (xg_total g * xg_bs g) \<le> dev" "xg_bs g = (if bs = 0 then 1024 else bs)"
    "xg_isize g = (if isz = 0 then 128 else isz)" "overhead g 0 + 8 \<le> xg_total g"
proof -
  define b where "b = (if bs = 0 then x_defaultBlockSize else bs)"
  define z where "z = (if isz = 0 then goodOldInodeSize else isz)"
  define first where "first = (if b = 1024 then 1 else 0 :: nat)"
  define d where "d = nat dev"
  define t where "t = d div b"
  define g0 where "g0 = \<lparr> xg_bs = b, xg_total = t, xg_first = first, xg_bpg = b * 8, xg_ipg = 0, xg_isize = z,
      xg_ipb = b div z, xg_icount = 0, xg_groups = x_ceilDiv (sub64 t first) (b * 8), xg_gdt = 0, xg_itb = 0 \<rparr>"
  have ok: "1024 \<le> b" "b \<le> 65536" "one_bit32 b" "0 < dev" and loop: "geo_loop d g0 = Inr g"
    and fin: "overhead g 0 + 8 \<le> xg_total g"
    using r unfolding x_computeGeometry_def Let_def b_def[symmetric] z_def[symmetric] first_def[symmetric] d_def[symmetric]
      t_def[symmetric] g0_def[symmetric]
    by (auto simp: bindE_Inr_iff not_less split: if_splits)
  have bs: "b \<in> set block_sizes" by (rule block_size_cases) (use ok in simp_all)
  have z: "z = 128 \<or> z = 256" using isz by (auto simp: z_def goodOldInodeSize_def)
  have gb: "xg_bs g = b"
  proof -
    have "xg_bs g' = xg_bs f" if "geo_loop d f = Inr g'" for f g'
      using that by (induction d f rule: geo_loop.induct)
        (subst (asm) (2) geo_loop.simps, auto simp: Let_def split: if_splits)
    then show ?thesis using loop by (fastforce simp: g0_def)
  qed
  have d: "d < 2 ^ 32 * b" "b = 1024 \<longrightarrow> d \<le> 2 ^ 40" "0 < d"
  proof -
    have "int d = dev" using ok(4) by (simp add: d_def)
    then show "d < 2 ^ 32 * b" "b = 1024 \<longrightarrow> d \<le> 2 ^ 40" "0 < d"
      using dev ok(4) unfolding gb by (auto simp: d_def nat_less_iff nat_le_iff)
  qed
  have tb: "t * b \<le> d" "t < 2 ^ 32"
  proof -
    show "t * b \<le> d" by (simp add: t_def)
    show "t < 2 ^ 32" unfolding t_def using d(1) ok(1) by (simp add: div_less_iff_less_mult)
  qed
  have ng: "0 < xg_groups g0"
  proof (rule ccontr)
    assume "\<not> 0 < xg_groups g0"
    then show False using loop by (subst (asm) geo_loop.simps) simp
  qed
  have "first \<le> t"
  proof (rule ccontr)
    assume "\<not> first \<le> t"
    then have "t = 0" "first = 1" "b = 1024" by (auto simp: first_def split: if_splits)
    then have "xg_groups g0 = x_ceilDiv (sub64 0 1) 8192" by (simp add: g0_def)
    moreover have "x_ceilDiv (sub64 0 1) 8192 = 0" by (simp add: x_ceilDiv_def sub64_def)
    ultimately show False using ng by simp
  qed
  then have sub: "sub64 t first = t - first" using tb by simp
  have c: "x_ceilDiv (t - first) (b * 8) = ceil_div (t - first) (b * 8)"
    using ok tb by (intro x_ceilDiv_wide) simp_all
  have "t - first \<noteq> 0" using ng ok by (auto simp: g0_def sub c)
  have n0: "xg_groups g0 = ceil_div (t - first) (b * 8)" by (simp add: g0_def sub c)
  have cov: "covers g0"
  proof -
    have "0 < b * 8" using ok by simp
    note ceil_div_bounds[OF this, of "t - first", folded n0]
    moreover have "(xg_groups g0 - 1) * (b * 8) + b * 8 = xg_groups g0 * (b * 8)" using ng by (cases "xg_groups g0") auto
    moreover have "t - f \<le> K \<Longrightarrow> K \<le> t - f + m - 1 \<Longrightarrow> K' + m = K \<Longrightarrow> f \<le> t \<Longrightarrow> t - f \<noteq> 0 \<Longrightarrow> 0 < m
        \<Longrightarrow> f + K' < t \<and> t \<le> f + K" for f K K' m :: nat by linarith
    ultimately have "first + (xg_groups g0 - 1) * (b * 8) < t \<and> t \<le> first + xg_groups g0 * (b * 8)"
      using \<open>first \<le> t\<close> \<open>t - first \<noteq> 0\<close> \<open>0 < b * 8\<close> by blast
    moreover have "xg_first g0 = first" "xg_bpg g0 = b * 8" "xg_total g0 = t" by (simp_all add: g0_def)
    ultimately show ?thesis by (simp only: covers_def simp_thms)
  qed
  obtain h where h: "g = geo_fill d h" "0 < xg_groups h" "covers h" "xg_total h \<le> t" "xg_groups h \<le> xg_groups g0"
    "xg_bs h = b" "xg_bpg h = b * 8" "xg_first h = first" "xg_isize h = z"
    "xg_groups h = 1 \<or> overhead g (xg_groups h - 1) + 8 \<le> blocksInGroup g (xg_groups h - 1)"
    using geo_loop_result[OF loop cov] by (auto simp: g0_def)
  have tot: "first + (xg_groups h - 1) * (b * 8) < xg_total h" "xg_total h \<le> first + xg_groups h * (b * 8)"
    using h(2,3) by (simp_all add: covers_def h(6-8))
  have b8: "(xg_groups h - 1) * (b * 8) < 2 ^ 32" using tot(1) h(4) tb(2) by linarith
  have n18: "xg_groups h \<le> 2 ^ 18 \<and> xg_groups h * 32 \<le> 4096 * b"
  proof (cases "b = 1024")
    case True
    then have "t \<le> 2 ^ 30" unfolding t_def using d(2) by (simp add: div_le_mono[of d "2 ^ 40" 1024, simplified])
    then have "(xg_groups h - 1) * 8192 < 2 ^ 30" using tot(1) h(4) True by simp
    then have "xg_groups h \<le> 131072" using h(2) by simp
    then show ?thesis using True by simp
  next
    case False
    then have "b \<in> {2048, 4096, 8192, 16384, 32768, 65536}" using bs by (auto simp: block_sizes_def)
    then show ?thesis using b8 h(2) by auto
  qed
  have d48: "d \<le> 2 ^ 48"
  proof -
    have "2 ^ 32 * b \<le> 2 ^ 32 * 65536" using ok(2) by (intro mult_le_mono2)
    then show ?thesis using d(1) by simp
  qed
  note sz = geo_fill_sizes[of h d, unfolded h(6,7,9), OF bs refl z h(2) conjunct1[OF n18] conjunct2[OF n18] d48, folded h(1)]
  have s: "16 \<le> xg_ipg g" "xg_ipg g \<le> b * 8" "xg_groups h * 32 \<le> xg_gdt g * b" "xg_ipg g * z \<le> xg_itb g * b"
    "xg_icount g = xg_ipg g * xg_groups h" "xg_itb g \<le> 2048" "3 + xg_gdt g + xg_itb g \<le> b * 8"
    using sz by simp_all
  have sel: "xg_bs g = b" "xg_bpg g = b * 8" "xg_first g = first" "xg_isize g = z" "xg_groups g = xg_groups h" "xg_total g = xg_total h"
    using h by simp_all
  have fit: "overhead g gr \<le> blocksInGroup g gr" if gr: "gr < xg_groups h" for gr
  proof -
    have o': "overhead g gr \<le> b * 8" using s(7) by (auto simp: overhead_def)
    have "gr * (b * 8) \<le> (xg_groups h - 1) * (b * 8)" using gr by (intro mult_le_mono1) simp
    then have gs: "groupStart g gr < xg_total h" using tot(1) unfolding groupStart_def sel by linarith
    have bg: "blocksInGroup g gr = min (b * 8) (xg_total h - groupStart g gr)"
      using gs h(4) tb(2) by (simp add: blocksInGroup_def sel Let_def min_def) arith
    show ?thesis
    proof (cases "gr = xg_groups h - 1")
      case True
      show ?thesis
      proof (cases "xg_groups h = 1")
        case one: True
        then have "groupStart g gr = first" using True by (simp add: groupStart_def sel)
        then show ?thesis using bg o' fin True one by (auto simp: sel first_def)
      next
        case False
        then show ?thesis using True h(10) by simp
      qed
    next
      case False
      then have "(gr + 1) * (b * 8) \<le> (xg_groups h - 1) * (b * 8)" using gr by (intro mult_le_mono1) simp
      then have "groupStart g gr + b * 8 \<le> xg_total h" using tot(1) by (simp add: groupStart_def sel)
      then show ?thesis using bg o' by simp
    qed
  qed
  show "geo_ok g" unfolding geo_ok_def sel
    using bs z h(2) s tot fit h(4) tb by (auto simp: first_def list_all_iff)
  show "int (xg_total g * xg_bs g) \<le> dev"
  proof -
    have "xg_total g * xg_bs g \<le> d" using h(4) tb(1) mult_le_mono1[of "xg_total h" t b] unfolding sel by linarith
    then show ?thesis using ok(4) unfolding d_def by (simp only: le_nat_iff less_imp_le)
  qed
  show "xg_bs g = (if bs = 0 then 1024 else bs)" "xg_isize g = (if isz = 0 then 128 else isz)"
    by (simp_all add: sel b_def z_def x_defaultBlockSize_def goodOldInodeSize_def)
  show "overhead g 0 + 8 \<le> xg_total g" by (rule fin)
qed

end
