(* ===== verification/ExtWrite.thy ===== *)
theory ExtWrite
  imports ExtFormat Alloc
begin

text \<open>
  The layouter of the ext engine (\<open>pkg/ext/format.go\<close>, \<open>emit.go\<close>, the writing half of
  \<open>extents.go\<close>): inode numbers, data blocks, indirect blocks and extent nodes, then inode
  tables, bitmaps, descriptors and superblocks. The allocator and the device are the dictionaries of
  \<open>Alloc\<close> and \<open>Device\<close>. Maps of the Go state are association lists. An allocator that never
  returns is the error \<open>Panic\<close> with the text \<open>does not return\<close>.
\<close>

section \<open>The layouter\<close>

record xvariant =
  xv_extents :: bool
  xv_isize :: nat
  xv_bs :: nat
  xv_incompat :: nat
  xv_rocompat :: nat

definition ext2Variant :: xvariant where
  "ext2Variant = \<lparr> xv_extents = False, xv_isize = goodOldInodeSize, xv_bs = x_defaultBlockSize,
     xv_incompat = featIncompatFiletype, xv_rocompat = featRoCompatSparseSuper \<rparr>"

definition ext4Variant :: xvariant where
  "ext4Variant = \<lparr> xv_extents = True, xv_isize = ext4InodeSize, xv_bs = ext4DefaultBlockSize,
     xv_incompat = featIncompatFiletype OR featIncompatExtents, xv_rocompat = featRoCompatSparseSuper \<rparr>"

text \<open>What stays fixed during a layout: geometry, variant, label, clock and UUID.\<close>

record xenv =
  xn_geo :: xgeo
  xn_var :: xvariant
  xn_label :: string
  xn_now :: gotime
  xn_uuid :: bytes

record ('d, 'a) xlay =
  xl_dev :: 'd
  xl_al :: 'a
  xl_used :: "bool list"
  xl_inoOf :: "(ref \<times> nat) list"
  xl_inodes :: "(nat \<times> xinode) list"
  xl_built :: "ref list"
  xl_usedInos :: "nat list"
  xl_nextIno :: nat
  xl_curMeta :: nat
  xl_usesXattrs :: bool

definition errTooManyInodes :: error where
  "errTooManyInodes = Err ''ext: not enough inodes for the tree''"
definition errFileTooLarge :: error where
  "errFileTooLarge = Err ''ext: file larger than 4 GiB (large_file is not supported)''"

definition x_newLayouter :: "xenv \<Rightarrow> 'd \<Rightarrow> 'a \<Rightarrow> ('d, 'a) xlay" where
  "x_newLayouter E d a =
     \<lparr> xl_dev = d, xl_al = a, xl_used = replicate (xg_total (xn_geo E)) False, xl_inoOf = [], xl_inodes = [],
       xl_built = [], xl_usedInos = [], xl_nextIno = 0, xl_curMeta = 0, xl_usesXattrs = False \<rparr>"

definition ino_of :: "('d, 'a) xlay \<Rightarrow> ref \<Rightarrow> nat" where
  "ino_of l r = (case map_of (xl_inoOf l) r of Some i \<Rightarrow> i | None \<Rightarrow> 0)"

section \<open>Blocks\<close>

definition x_mark :: "xenv \<Rightarrow> nat \<Rightarrow> nat \<Rightarrow> ('d, 'a) xlay \<Rightarrow> ('d, 'a) xlay" where
  "x_mark E start n l =
     l\<lparr>xl_used := fold (\<lambda>i u. u[i := True]) [start..<min (u64 (start + n)) (xg_total (xn_geo E))] (xl_used l)\<rparr>"

definition x_reserve :: "'a allocator_ops \<Rightarrow> xenv \<Rightarrow> nat \<Rightarrow> nat \<Rightarrow> ('d, 'a) xlay \<Rightarrow> ('d, 'a) xlay" where
  "x_reserve A E start n l =
     (let l = x_mark E start n l in l\<lparr>xl_al := snd (al_reserve A (xl_al l) start n)\<rparr>)"

definition x_allocOne :: "'a allocator_ops \<Rightarrow> xenv \<Rightarrow> ('d, 'a) xlay \<Rightarrow> nat result \<times> ('d, 'a) xlay" where
  "x_allocOne A E l =
     (case al_alloc A (xl_al l) 1 of
        (Inl e, a) \<Rightarrow> (Inl e, l\<lparr>xl_al := a\<rparr>)
      | (Inr s, a) \<Rightarrow> (Inr s, x_mark E s 1 (l\<lparr>xl_al := a\<rparr>)))"

definition allocMetaBlock :: "'a allocator_ops \<Rightarrow> xenv \<Rightarrow> ('d, 'a) xlay \<Rightarrow> nat result \<times> ('d, 'a) xlay" where
  "allocMetaBlock A E l =
     bindS (x_allocOne A E l) (\<lambda>blk l. (Inr blk, l\<lparr>xl_curMeta := xl_curMeta l + 1\<rparr>))"

definition x_maxRun :: "xenv \<Rightarrow> nat" where
  "x_maxRun E = (if xv_extents (xn_var E) then extentMaxLen else 0)"

definition runs_blocks :: "run list \<Rightarrow> nat list" where
  "runs_blocks rs = concat (map (\<lambda>r. [run_start r..<run_start r + run_len r]) rs)"

definition x_allocBlocks :: "'a allocator_ops \<Rightarrow> xenv \<Rightarrow> nat \<Rightarrow> ('d, 'a) xlay \<Rightarrow> nat list result \<times> ('d, 'a) xlay" where
  "x_allocBlocks A E n l =
     (if n = 0 then (Inr [], l)
      else case AllocRuns A (xl_al l) n (x_maxRun E) of
          None \<Rightarrow> (Inl (Panic ''does not return''), l)
        | Some (Inl e, a) \<Rightarrow> (Inl e, l\<lparr>xl_al := a\<rparr>)
        | Some (Inr rs, a) \<Rightarrow>
            (Inr (runs_blocks rs), fold (\<lambda>r. x_mark E (run_start r) (run_len r)) rs (l\<lparr>xl_al := a\<rparr>)))"

text \<open>Device writes, whose errors are dropped.\<close>

definition x_pos :: "nat \<Rightarrow> nat \<Rightarrow> int" where
  "x_pos block bs = i64 (int block * int bs)"

definition x_writeBlock :: "'d device_ops \<Rightarrow> xenv \<Rightarrow> nat \<Rightarrow> bytes \<Rightarrow> ('d, 'a) xlay \<Rightarrow> ('d, 'a) xlay" where
  "x_writeBlock D E block data l =
     l\<lparr>xl_dev := snd (dev_write_at D (xl_dev l) data (x_pos block (xg_bs (xn_geo E))))\<rparr>"

definition x_writeBlocks :: "'d device_ops \<Rightarrow> xenv \<Rightarrow> nat \<Rightarrow> bytes \<Rightarrow> ('d, 'a) xlay \<Rightarrow> ('d, 'a) xlay" where
  "x_writeBlocks D E start data l =
     l\<lparr>xl_dev := snd (dev_write_at D (xl_dev l) data (x_pos start (xg_bs (xn_geo E))))\<rparr>"

definition writeChunkBytes :: nat where "writeChunkBytes = 2 ^ 20"

text \<open>
  \<open>writeContent\<close>: the blocks still to fill, the index of the first of them, and the staging
  buffer, which is reused from one write to the next.
\<close>

function content_loop ::
  "'d device_ops \<Rightarrow> xenv \<Rightarrow> source \<Rightarrow> nat \<Rightarrow> nat \<Rightarrow> nat list \<Rightarrow> nat \<Rightarrow> bytes \<Rightarrow> ('d, 'a) xlay
     \<Rightarrow> unit result \<times> ('d, 'a) xlay" where
  "content_loop D E src sz perWrite [] i buf l = (Inr (), l)"
| "content_loop D E src sz perWrite (b # bs) i buf l =
     (let k = min (run_follow b bs) (perWrite - 1);
          blk = xg_bs (xn_geo E);
          span = (k + 1) * blk; off = i * blk; n = min span (sz - off);
          (data, err) = src_read_at src n (int off) in
      if err \<noteq> None \<and> err \<noteq> Some EOF then (Inl (the err), l)
      else let buf = blit buf 0 data; buf = blit buf n (zeros (span - n)) in
        content_loop D E src sz perWrite (drop k bs) (i + k + 1) buf (x_writeBlock D E b (take span buf) l))"
  by pat_completeness auto
termination
  by (relation "measure (\<lambda>(D, E, src, sz, p, bs, i, buf, l). length bs)") auto

definition x_writeContent ::
  "'d device_ops \<Rightarrow> xenv \<Rightarrow> source option \<Rightarrow> nat list \<Rightarrow> nat \<Rightarrow> ('d, 'a) xlay \<Rightarrow> unit result \<times> ('d, 'a) xlay" where
  "x_writeContent D E src blocks sz l =
     (let bs = xg_bs (xn_geo E);
          perWrite = min (max (writeChunkBytes div bs) 1) (length blocks) in
      if perWrite = 0 then (Inr (), l)
      else case src of
          None \<Rightarrow> (Inl (Panic ''nil pointer dereference''), l)
        | Some c \<Rightarrow> content_loop D E c sz perWrite blocks 0 (zeros (perWrite * bs)) l)"

fun x_writeBytes :: "'d device_ops \<Rightarrow> xenv \<Rightarrow> bytes \<Rightarrow> nat list \<Rightarrow> ('d, 'a) xlay \<Rightarrow> ('d, 'a) xlay" where
  "x_writeBytes D E data [] l = l"
| "x_writeBytes D E data (b # bs) l =
     (let n = xg_bs (xn_geo E) in
      x_writeBytes D E (drop n data) bs (x_writeBlock D E b (buf_of n (take n data)) l))"

section \<open>Block maps\<close>

text \<open>
  \<open>buildIndirect\<close> consumes the data blocks that are left and returns the pointer and the rest.
  Level 0 is the branch that stores a data pointer in place of a child block.
\<close>

fun ind_loop ::
  "(nat list \<Rightarrow> ('d, 'a) xlay \<Rightarrow> (nat \<times> nat list) result \<times> ('d, 'a) xlay) \<Rightarrow> nat \<Rightarrow> nat \<Rightarrow> bytes \<Rightarrow> nat list
     \<Rightarrow> ('d, 'a) xlay \<Rightarrow> (bytes \<times> nat list) result \<times> ('d, 'a) xlay" where
  "ind_loop child 0 i buf rest l = (Inr (buf, rest), l)"
| "ind_loop child (Suc k) i buf rest l =
     (if rest = [] then (Inr (buf, rest), l)
      else bindS (child rest l) (\<lambda>(ptr, rest) l. ind_loop child k (i + 1) (put_le 4 (i * 4) ptr buf) rest l))"

fun buildIndirect ::
  "'d device_ops \<Rightarrow> 'a allocator_ops \<Rightarrow> xenv \<Rightarrow> nat \<Rightarrow> nat list \<Rightarrow> ('d, 'a) xlay \<Rightarrow> (nat \<times> nat list) result \<times> ('d, 'a) xlay" where
  "buildIndirect D A E 0 rest l = (Inr (u32 (hd rest), tl rest), l)"
| "buildIndirect D A E (Suc level) rest l =
     bindS (allocMetaBlock A E l) (\<lambda>blk l.
     bindS (ind_loop (buildIndirect D A E level) (xg_bs (xn_geo E) div 4) 0 (zeros (xg_bs (xn_geo E))) rest l) (\<lambda>(buf, rest) l.
       (Inr (u32 blk, rest), x_writeBlock D E blk buf l)))"

text \<open>\<open>writeExtentNode\<close> and the packing of leaves and index entries into nodes.\<close>

definition writeExtentNode ::
  "'d device_ops \<Rightarrow> 'a allocator_ops \<Rightarrow> xenv \<Rightarrow> (nat \<Rightarrow> 'e \<Rightarrow> bytes \<Rightarrow> bytes) \<Rightarrow> 'e list \<Rightarrow> nat \<Rightarrow> nat \<Rightarrow> ('d, 'a) xlay
     \<Rightarrow> nat result \<times> ('d, 'a) xlay" where
  "writeExtentNode D A E put es perNode depth l =
     (let buf = put_entries put es (putExtentHeader (length es) perNode depth (zeros (xg_bs (xn_geo E)))) in
      bindS (allocMetaBlock A E l) (\<lambda>blk l. (Inr blk, x_writeBlock D E blk buf l)))"

function emit_nodes ::
  "'d device_ops \<Rightarrow> 'a allocator_ops \<Rightarrow> xenv \<Rightarrow> (nat \<Rightarrow> 'e \<Rightarrow> bytes \<Rightarrow> bytes) \<Rightarrow> ('e \<Rightarrow> nat) \<Rightarrow> nat \<Rightarrow> nat \<Rightarrow> 'e list
     \<Rightarrow> ('d, 'a) xlay \<Rightarrow> extentIndex list result \<times> ('d, 'a) xlay" where
  "emit_nodes D A E put logical perNode depth es l =
     (if es = [] then (Inr [], l)
      else if perNode = 0 then (Inl (Panic ''index out of range''), l)
      else let g = take perNode es in
        bindS (writeExtentNode D A E put g perNode depth l) (\<lambda>blk l.
        bindS (emit_nodes D A E put logical perNode depth (drop perNode es) l) (\<lambda>idx l.
          (Inr (\<lparr> ei_logical = logical (hd g), ei_child = blk \<rparr> # idx), l))))"
  by pat_completeness auto
termination
  by (relation "measure (\<lambda>(D, A, E, put, lg, p, d, es, l). length es)") auto

declare emit_nodes.simps [simp del]

definition emitLeafNodes ::
  "'d device_ops \<Rightarrow> 'a allocator_ops \<Rightarrow> xenv \<Rightarrow> extentLeaf list \<Rightarrow> nat \<Rightarrow> ('d, 'a) xlay \<Rightarrow> extentIndex list result \<times> ('d, 'a) xlay" where
  "emitLeafNodes D A E leaves perNode l = emit_nodes D A E putExtentLeaf el_logical perNode 0 leaves l"

definition emitIndexNodes ::
  "'d device_ops \<Rightarrow> 'a allocator_ops \<Rightarrow> xenv \<Rightarrow> extentIndex list \<Rightarrow> nat \<Rightarrow> nat \<Rightarrow> ('d, 'a) xlay \<Rightarrow> extentIndex list result \<times> ('d, 'a) xlay" where
  "emitIndexNodes D A E es perNode depth l = emit_nodes D A E putExtentIndex ei_logical perNode depth es l"

definition extent_root :: "(nat \<Rightarrow> 'e \<Rightarrow> bytes \<Rightarrow> bytes) \<Rightarrow> 'e list \<Rightarrow> nat \<Rightarrow> bytes" where
  "extent_root put es depth =
     put_entries put es (putExtentHeader (length es) inlineExtents depth (zeros (totalIBlocks * 4)))"

text \<open>The loop over the index levels; \<open>depth\<close> starts at 1 and may not pass \<open>maxExtentDepth\<close>.\<close>

function index_levels ::
  "'d device_ops \<Rightarrow> 'a allocator_ops \<Rightarrow> xenv \<Rightarrow> nat \<Rightarrow> nat \<Rightarrow> extentIndex list \<Rightarrow> ('d, 'a) xlay \<Rightarrow> bytes result \<times> ('d, 'a) xlay" where
  "index_levels D A E perNode depth idx l =
     (if depth > maxExtentDepth then (Inl errExtentDepth, l)
      else if length idx \<le> inlineExtents then (Inr (extent_root putExtentIndex idx depth), l)
      else bindS (emitIndexNodes D A E idx perNode depth l) (\<lambda>idx l. index_levels D A E perNode (depth + 1) idx l))"
  by pat_completeness auto
termination
  by (relation "measure (\<lambda>(D, A, E, p, depth, idx, l). Suc maxExtentDepth - depth)") auto

declare index_levels.simps [simp del]

definition buildExtentTree :: "'d device_ops \<Rightarrow> 'a allocator_ops \<Rightarrow> xenv \<Rightarrow> nat list \<Rightarrow> ('d, 'a) xlay \<Rightarrow> bytes result \<times> ('d, 'a) xlay" where
  "buildExtentTree D A E data l =
     (let leaves = contiguousRuns data in
      if length leaves \<le> inlineExtents then (Inr (extent_root putExtentLeaf leaves 0), l)
      else let perNode = entriesPerNode (xg_bs (xn_geo E)) in
        bindS (emitLeafNodes D A E leaves perNode l) (\<lambda>idx l. index_levels D A E perNode 1 idx l))"

definition sectorsPerBlock :: "nat \<Rightarrow> nat" where
  "sectorsPerBlock bs = bs div 512"

definition set_blocks :: "xenv \<Rightarrow> nat \<Rightarrow> xinode \<Rightarrow> ('d, 'a) xlay \<Rightarrow> xinode" where
  "set_blocks E n i l =
     i\<lparr>xi_blocks := u32 (u32 (u64 ((n + xl_curMeta l) * sectorsPerBlock (xg_bs (xn_geo E)))) + xi_eaSectors i)\<rparr>"

text \<open>One of the three indirect slots: used when data blocks are left.\<close>

definition ind_slot ::
  "'d device_ops \<Rightarrow> 'a allocator_ops \<Rightarrow> xenv \<Rightarrow> nat \<Rightarrow> nat \<Rightarrow> nat list \<times> xinode \<Rightarrow> ('d, 'a) xlay
     \<Rightarrow> (nat list \<times> xinode) result \<times> ('d, 'a) xlay" where
  "ind_slot D A E level slot = (\<lambda>(rest, i) l.
     if rest = [] then (Inr (rest, i), l)
     else bindS (buildIndirect D A E level rest l) (\<lambda>(p, rest) l.
       (Inr (rest, i\<lparr>xi_block := (xi_block i)[slot := p]\<rparr>), l)))"

definition x_mapBlocks :: "'d device_ops \<Rightarrow> 'a allocator_ops \<Rightarrow> xenv \<Rightarrow> xinode \<Rightarrow> nat list \<Rightarrow> ('d, 'a) xlay \<Rightarrow> xinode result \<times> ('d, 'a) xlay" where
  "x_mapBlocks D A E i data l =
     (if xv_extents (xn_var E) then
        bindS (buildExtentTree D A E data l) (\<lambda>raw l.
          (Inr (set_blocks E (length data) (i\<lparr>xi_blockRaw := Some raw, xi_flags := xi_flags i OR extentsFL\<rparr>) l), l))
      else
        let direct = take directBlocks data;
            i = i\<lparr>xi_block := map u32 direct @ drop (length direct) (xi_block i)\<rparr> in
        bindS (ind_slot D A E 1 indSingle (drop directBlocks data, i) l) (\<lambda>p l.
        bindS (ind_slot D A E 2 indDouble p l) (\<lambda>p l.
        bindS (ind_slot D A E 3 indTriple p l) (\<lambda>(rest, i) l.
          if rest \<noteq> [] then (Inl (Err ''ext: file exceeds maximum size''), l)
          else (Inr (set_blocks E (length data) i l), l)))))"

section \<open>Inodes\<close>

definition put_inode :: "nat \<Rightarrow> xinode \<Rightarrow> ('d, 'a) xlay \<Rightarrow> ('d, 'a) xlay" where
  "put_inode ino i l = l\<lparr>xl_inodes := AList.update ino i (xl_inodes l)\<rparr>"

text \<open>\<open>placeXattrs\<close>: in the inode when they fit there, otherwise in a block of their own.\<close>

definition placeXattrs ::
  "'d device_ops \<Rightarrow> 'a allocator_ops \<Rightarrow> xenv \<Rightarrow> xinode \<Rightarrow> node \<Rightarrow> ('d, 'a) xlay \<Rightarrow> xinode result \<times> ('d, 'a) xlay" where
  "placeXattrs D A E i n l =
     (if md_xattrs n = [] then (Inr i, l)
      else
        let l = l\<lparr>xl_usesXattrs := True\<rparr>; es = sortedXattrs (md_xattrs n); bs = xg_bs (xn_geo E);
            body = (if 0 < xi_extra i then encodeXattrIbody es (xg_isize (xn_geo E) - goodOldInodeSize - xi_extra i) else None) in
        case body of
          Some b \<Rightarrow> (Inr (i\<lparr>xi_xattrIbody := b\<rparr>), l)
        | None \<Rightarrow>
            (case encodeXattrBlock es bs of
               Inl e \<Rightarrow> (Inl e, l)
             | Inr block \<Rightarrow>
                 bindS (x_allocBlocks A E 1 l) (\<lambda>blocks l.
                   (Inr (i\<lparr>xi_fileACL := u32 (hd blocks), xi_eaSectors := sectorsPerBlock bs,
                           xi_blocks := u32 (xi_blocks i + sectorsPerBlock bs)\<rparr>),
                    x_writeBlock D E (hd blocks) block l))))"

definition x_newInode ::
  "'d device_ops \<Rightarrow> 'a allocator_ops \<Rightarrow> xenv \<Rightarrow> node \<Rightarrow> nat \<Rightarrow> ('d, 'a) xlay \<Rightarrow> xinode result \<times> ('d, 'a) xlay" where
  "x_newInode D A E n sz l =
     (let mt = (if is_zero_time (md_mtime n) then xn_now E else md_mtime n); t = u32_of_int (gt_sec mt) in
      placeXattrs D A E
        \<lparr> xi_mode = extMode (md_mode n), xi_uid = u16 (md_uid n), xi_size = sz, xi_atime = t, xi_ctime = t,
          xi_mtime = t, xi_dtime = 0, xi_gid = u16 (md_gid n), xi_links = u16_of_int (nd_nlink n), xi_blocks = 0,
          xi_flags = 0, xi_block = replicate totalIBlocks 0, xi_blockRaw = None,
          xi_extra = (if xg_isize (xn_geo E) > goodOldInodeSize then extraISize else 0), xi_fileACL = 0,
          xi_eaSectors = 0, xi_xattrIbody = [] \<rparr>
        n (l\<lparr>xl_curMeta := 0\<rparr>))"

fun x_writeDirBlocks :: "'d device_ops \<Rightarrow> xenv \<Rightarrow> bytes list \<Rightarrow> nat list \<Rightarrow> ('d, 'a) xlay \<Rightarrow> ('d, 'a) xlay" where
  "x_writeDirBlocks D E (b # bs) (k # ks) l = x_writeDirBlocks D E bs ks (x_writeBlock D E k b l)"
| "x_writeDirBlocks D E bs ks l = l"

definition dir_entries :: "('d, 'a) xlay \<Rightarrow> tnode \<Rightarrow> nat \<Rightarrow> nat \<Rightarrow> dentry list" where
  "dir_entries l t ino parentIno =
     [\<lparr> de_ino = ino, de_name = ''.'', de_ftype = ftDir \<rparr>, \<lparr> de_ino = parentIno, de_name = ''..'', de_ftype = ftDir \<rparr>]
     @ map (\<lambda>(name, c). \<lparr> de_ino = ino_of l (tn_ref c), de_name = name, de_ftype = dirFileType (md_mode (tn_node c)) \<rparr>)
         (sort_by_name (tn_kids t))"

definition x_buildDir ::
  "'d device_ops \<Rightarrow> 'a allocator_ops \<Rightarrow> xenv \<Rightarrow> tnode \<Rightarrow> nat \<Rightarrow> nat \<Rightarrow> ('d, 'a) xlay \<Rightarrow> unit result \<times> ('d, 'a) xlay" where
  "x_buildDir D A E t ino parentIno l =
     (let bs = xg_bs (xn_geo E); blocks = buildDirBlocks (dir_entries l t ino parentIno) bs in
      bindS (x_allocBlocks A E (length blocks) l) (\<lambda>data l.
      bindS (x_newInode D A E (tn_node t) (u32 (length blocks * bs)) (x_writeDirBlocks D E blocks data l)) (\<lambda>i l.
      bindS (x_mapBlocks D A E i data l) (\<lambda>i l. (Inr (), put_inode ino i l)))))"

definition x_buildFile ::
  "'d device_ops \<Rightarrow> 'a allocator_ops \<Rightarrow> xenv \<Rightarrow> node \<Rightarrow> nat \<Rightarrow> ('d, 'a) xlay \<Rightarrow> unit result \<times> ('d, 'a) xlay" where
  "x_buildFile D A E n ino l =
     (let sz = (case in_content n of None \<Rightarrow> 0 | Some c \<Rightarrow> u64_of_int (src_size c)) in
      if sz > 4294967295 then (Inl errFileTooLarge, l)
      else
      bindS (x_allocBlocks A E (x_ceilDiv sz (xg_bs (xn_geo E))) l) (\<lambda>data l.
      bindS (x_writeContent D E (in_content n) data sz l) (\<lambda>_ l.
      bindS (x_newInode D A E n sz l) (\<lambda>i l.
      bindS (x_mapBlocks D A E i data l) (\<lambda>i l. (Inr (), put_inode ino i l))))))"

definition x_buildSymlink ::
  "'d device_ops \<Rightarrow> 'a allocator_ops \<Rightarrow> xenv \<Rightarrow> node \<Rightarrow> nat \<Rightarrow> ('d, 'a) xlay \<Rightarrow> unit result \<times> ('d, 'a) xlay" where
  "x_buildSymlink D A E n ino l =
     (let target = bytes_of (in_link n) in
      bindS (x_newInode D A E n (u32 (length target)) l) (\<lambda>i l.
        if length target < fastSymlinkMax
        then (Inr (), put_inode ino (i\<lparr>xi_blockRaw := Some (buf_of (totalIBlocks * 4) target)\<rparr>) l)
        else
          bindS (x_allocBlocks A E (x_ceilDiv (length target) (xg_bs (xn_geo E))) l) (\<lambda>data l.
          bindS (x_mapBlocks D A E i data (x_writeBytes D E target data l)) (\<lambda>i l. (Inr (), put_inode ino i l)))))"

definition x_buildSpecial ::
  "'d device_ops \<Rightarrow> 'a allocator_ops \<Rightarrow> xenv \<Rightarrow> node \<Rightarrow> nat \<Rightarrow> ('d, 'a) xlay \<Rightarrow> unit result \<times> ('d, 'a) xlay" where
  "x_buildSpecial D A E n ino l =
     bindS (x_newInode D A E n 0 l) (\<lambda>i l.
       (Inr (), put_inode ino
          (if md_mode n AND (ModeDevice OR ModeCharDevice) \<noteq> 0
           then i\<lparr>xi_block := (xi_block i)[0 := u32 (in_rdev n)]\<rparr> else i) l))"

text \<open>Whatever is not a directory, by mode.\<close>

definition build_leaf ::
  "'d device_ops \<Rightarrow> 'a allocator_ops \<Rightarrow> xenv \<Rightarrow> node \<Rightarrow> nat \<Rightarrow> ('d, 'a) xlay \<Rightarrow> unit result \<times> ('d, 'a) xlay" where
  "build_leaf D A E n ino l =
     (if has (md_mode n) ModeSymlink then x_buildSymlink D A E n ino l
      else if md_mode n AND (ModeDevice OR ModeCharDevice OR ModeNamedPipe OR ModeSocket) \<noteq> 0
      then x_buildSpecial D A E n ino l
      else x_buildFile D A E n ino l)"

function (sequential)
  x_buildNode :: "'d device_ops \<Rightarrow> 'a allocator_ops \<Rightarrow> xenv \<Rightarrow> tnode \<Rightarrow> nat \<Rightarrow> ('d, 'a) xlay \<Rightarrow> unit result \<times> ('d, 'a) xlay" and
  x_buildNodes :: "'d device_ops \<Rightarrow> 'a allocator_ops \<Rightarrow> xenv \<Rightarrow> (string \<times> tnode) list \<Rightarrow> nat \<Rightarrow> ('d, 'a) xlay \<Rightarrow> unit result \<times> ('d, 'a) xlay"
where
  "x_buildNode D A E (TNode r n kids) parentIno l =
     (let ino = ino_of l r in
      if r \<in> set (xl_built l) then (Inr (), l)
      else let l = l\<lparr>xl_built := r # xl_built l\<rparr> in
        if is_dir n then
          bindS (x_buildDir D A E (TNode r n kids) ino parentIno l) (\<lambda>_ l.
            x_buildNodes D A E (sort_by_name kids) ino l)
        else build_leaf D A E n ino l)"
| "x_buildNodes D A E [] parentIno l = (Inr (), l)"
| "x_buildNodes D A E ((name, t) # es) parentIno l =
     bindS (x_buildNode D A E t parentIno l) (\<lambda>_ l. x_buildNodes D A E es parentIno l)"
  by pat_completeness auto
termination
  by (relation "measure (\<lambda>x. case x of Inl (D, A, E, t, p, l) \<Rightarrow> size t | Inr (D, A, E, es, p, l) \<Rightarrow> kids_weight es)")
    (auto simp: kids_weight_less[simplified])

section \<open>Inode numbers\<close>

text \<open>\<open>lost+found\<close> is added under the root when absent; its node is a new one.\<close>

fun tree_refs :: "tnode \<Rightarrow> ref list" where
  "tree_refs (TNode r n kids) = r # concat (map (\<lambda>e. tree_refs (snd e)) kids)"

definition ensureLostFound :: "gotime \<Rightarrow> tnode \<Rightarrow> tnode" where
  "ensureLostFound now t =
     (case t of TNode r n kids \<Rightarrow>
        if map_of kids ''lost+found'' \<noteq> None then t
        else
          let lf = new_node \<lparr> md_mode = ModeDir OR 0x1C0, md_uid = 0, md_gid = 0, md_mtime = now, md_xattrs = [] \<rparr> 2 in
          TNode r (n\<lparr>nd_nlink := nd_nlink n + 1\<rparr>)
            (kids @ [(''lost+found'', TNode (Suc (Max (set (tree_refs t)))) lf [])]))"

function (sequential)
  x_assignInodes :: "tnode \<Rightarrow> ('d, 'a) xlay \<Rightarrow> ('d, 'a) xlay" and
  x_assignKids :: "(string \<times> tnode) list \<Rightarrow> ('d, 'a) xlay \<Rightarrow> ('d, 'a) xlay"
where
  "x_assignInodes (TNode r n kids) l = x_assignKids (sort_by_name kids) l"
| "x_assignKids [] l = l"
| "x_assignKids ((name, t) # es) l =
     (let l = (if map_of (xl_inoOf l) (tn_ref t) \<noteq> None then l
               else l\<lparr>xl_inoOf := (tn_ref t, xl_nextIno l) # xl_inoOf l, xl_usedInos := xl_nextIno l # xl_usedInos l,
                      xl_nextIno := u32 (xl_nextIno l + 1)\<rparr>) in
      x_assignKids es (if is_dir (tn_node t) then x_assignInodes t l else l))"
  by pat_completeness auto
termination
  by (relation "measure (\<lambda>x. case x of Inl (t, l) \<Rightarrow> size t | Inr (es, l) \<Rightarrow> kids_weight es)")
    (auto simp: kids_weight_less[simplified])

section \<open>Metadata\<close>

definition x_setBit :: "bytes \<Rightarrow> nat \<Rightarrow> bytes" where
  "x_setBit b i = b[i div 8 := b ! (i div 8) OR push_bit (i mod 8) 1]"

definition bitmap_of :: "nat \<Rightarrow> (nat \<Rightarrow> bool) \<Rightarrow> nat \<Rightarrow> bytes" where
  "bitmap_of bs p n = fold (\<lambda>i b. if p i then x_setBit b i else b) [0..<n] (zeros bs)"

fun inode_slots :: "xgeo \<Rightarrow> (nat \<times> xinode) list \<Rightarrow> nat \<Rightarrow> nat list \<Rightarrow> bytes \<Rightarrow> bytes result" where
  "inode_slots g inodes gr [] buf = Inr buf"
| "inode_slots g inodes gr (i # is) buf =
     (case map_of inodes (u32 (gr * xg_ipg g + i + 1)) of
        None \<Rightarrow> inode_slots g inodes gr is buf
      | Some n \<Rightarrow> bindE (xi_marshalInto n (window buf (i * xg_isize g) (xg_isize g))) (\<lambda>s.
          inode_slots g inodes gr is (blit buf (i * xg_isize g) s)))"

fun writeInodeTables :: "'d device_ops \<Rightarrow> xenv \<Rightarrow> nat list \<Rightarrow> ('d, 'a) xlay \<Rightarrow> unit result \<times> ('d, 'a) xlay" where
  "writeInodeTables D E [] l = (Inr (), l)"
| "writeInodeTables D E (gr # grs) l =
     (let g = xn_geo E; (_, _, table, _) = groupLayout g gr in
      case inode_slots g (xl_inodes l) gr [0..<xg_ipg g] (zeros (xg_itb g * xg_bs g)) of
        Inl e \<Rightarrow> (Inl e, l)
      | Inr buf \<Rightarrow> writeInodeTables D E grs (x_writeBlocks D E table buf l))"

definition block_bitmap :: "xgeo \<Rightarrow> bool list \<Rightarrow> nat \<Rightarrow> bytes" where
  "block_bitmap g used gr =
     bitmap_of (xg_bs g) (\<lambda>n. n \<ge> blocksInGroup g gr \<or> used ! (groupStart g gr + n)) (xg_bpg g)"

definition inode_bitmap :: "xgeo \<Rightarrow> nat list \<Rightarrow> nat \<Rightarrow> bytes" where
  "inode_bitmap g usedInos gr =
     bitmap_of (xg_bs g) (\<lambda>m. m \<ge> xg_ipg g \<or> u32 (gr * xg_ipg g + m + 1) \<in> set usedInos) (xg_bs g * 8)"

definition writeBitmaps :: "'d device_ops \<Rightarrow> xenv \<Rightarrow> ('d, 'a) xlay \<Rightarrow> ('d, 'a) xlay" where
  "writeBitmaps D E l =
     fold (\<lambda>gr l. let g = xn_geo E; (bbm, ibm, _, _) = groupLayout g gr in
             x_writeBlock D E ibm (inode_bitmap g (xl_usedInos l) gr)
               (x_writeBlock D E bbm (block_bitmap g (xl_used l) gr) l))
       [0..<xg_groups (xn_geo E)] l"

definition usedBlocksInGroup :: "xgeo \<Rightarrow> bool list \<Rightarrow> nat \<Rightarrow> nat" where
  "usedBlocksInGroup g used gr =
     length (filter (\<lambda>n. used ! (groupStart g gr + n)) [0..<blocksInGroup g gr])"

definition usedInodesInGroup :: "xgeo \<Rightarrow> nat list \<Rightarrow> nat \<Rightarrow> nat" where
  "usedInodesInGroup g usedInos gr =
     length (filter (\<lambda>m. u32 (gr * xg_ipg g + m + 1) \<in> set usedInos) [0..<xg_ipg g])"

definition dirsInGroup :: "xgeo \<Rightarrow> ('d, 'a) xlay \<Rightarrow> nat \<Rightarrow> nat" where
  "dirsInGroup g l gr =
     length (filter (\<lambda>(r, ino). case map_of (xl_inodes l) ino of None \<Rightarrow> False
         | Some i \<Rightarrow> xi_mode i AND 0xF000 = modeDir \<and> sub64 ino 1 div xg_ipg g = gr) (xl_inoOf l))"

definition group_free :: "xgeo \<Rightarrow> ('d, 'a) xlay \<Rightarrow> nat \<Rightarrow> nat \<times> nat" where
  "group_free g l gr =
     (sub64 (blocksInGroup g gr) (usedBlocksInGroup g (xl_used l) gr),
      sub64 (xg_ipg g) (usedInodesInGroup g (xl_usedInos l) gr))"

definition group_desc :: "xgeo \<Rightarrow> ('d, 'a) xlay \<Rightarrow> nat \<Rightarrow> groupDesc" where
  "group_desc g l gr =
     (let (bbm, ibm, table, _) = groupLayout g gr; (fb, fi) = group_free g l gr in
      \<lparr> gd_bbm = u32 bbm, gd_ibm = u32 ibm, gd_table = u32 table, gd_freeBlocks = u16 fb, gd_freeInodes = u16 fi,
        gd_usedDirs = u16 (dirsInGroup g l gr) \<rparr>)"

definition gdt_bytes :: "xgeo \<Rightarrow> ('d, 'a) xlay \<Rightarrow> bytes" where
  "gdt_bytes g l =
     fold (\<lambda>gr b. gd_marshalInto (group_desc g l gr) (gr * descSize) b) [0..<xg_groups g] (zeros (xg_gdt g * xg_bs g))"

definition x_superblock :: "xenv \<Rightarrow> ('d, 'a) xlay \<Rightarrow> xsuper" where
  "x_superblock E l =
     (let g = xn_geo E; v = xn_var E; free = map (group_free g l) [0..<xg_groups g] in
      \<lparr> sb_inodesCount = u32 (xg_icount g), sb_blocksCount = u32 (xg_total g),
        sb_rBlocksCount = u32 (xg_total g * 5 div 100), sb_freeBlocksCount = u32 (u64 (sum_list (map fst free))),
        sb_freeInodesCount = u32 (u64 (sum_list (map snd free))), sb_firstDataBlock = u32 (xg_first g),
        sb_logBlockSize = logBlockSizeFor (xg_bs g), sb_logFragSize = logBlockSizeFor (xg_bs g),
        sb_blocksPerGroup = u32 (xg_bpg g), sb_fragsPerGroup = u32 (xg_bpg g), sb_inodesPerGroup = u32 (xg_ipg g),
        sb_mtime = 0, sb_wtime = u32_of_int (gt_sec (xn_now E)), sb_magic = x_magic, sb_state = stateClean,
        sb_errors = errorsContinue, sb_revLevel = dynamicRev, sb_firstIno = firstIno, sb_inodeSize = u16 (xg_isize g),
        sb_blockGroupNr = 0, sb_featCompat = (if xl_usesXattrs l then featCompatExtAttr else 0),
        sb_featIncompat = xv_incompat v, sb_featROCompat = xv_rocompat v, sb_uuid = buf_of 16 (take 16 (xn_uuid E)),
        sb_volumeName = buf_of 16 (take 16 (bytes_of (xn_label E))),
        sb_minExtraIsize = (if xg_isize g > goodOldInodeSize then extraISize else 0),
        sb_wantExtraIsize = (if xg_isize g > goodOldInodeSize then extraISize else 0) \<rparr>)"

definition write_super ::
  "'d device_ops \<Rightarrow> xenv \<Rightarrow> xsuper \<Rightarrow> bytes \<Rightarrow> nat \<Rightarrow> ('d, 'a) xlay \<Rightarrow> ('d, 'a) xlay" where
  "write_super D E sb gdt gr l =
     (let raw = sb_marshal (sb\<lparr>sb_blockGroupNr := u16 gr\<rparr>); g = xn_geo E in
      if \<not> hasSuperblock gr then l
      else if gr = 0 then
        x_writeBlocks D E (xg_first g + 1) gdt
          (l\<lparr>xl_dev := snd (dev_write_at D (xl_dev l) raw (int x_superblockOffset))\<rparr>)
      else x_writeBlocks D E (groupStart g gr + 1) gdt (x_writeBlock D E (groupStart g gr) raw l))"

definition writeDescriptorsAndSuperblocks :: "'d device_ops \<Rightarrow> xenv \<Rightarrow> ('d, 'a) xlay \<Rightarrow> ('d, 'a) xlay" where
  "writeDescriptorsAndSuperblocks D E l =
     (let gdt = gdt_bytes (xn_geo E) l; sb = x_superblock E l in
      fold (write_super D E sb gdt) [0..<xg_groups (xn_geo E)] l)"

section \<open>The whole layout\<close>

text \<open>The reserved inodes, the root and \<open>lost+found\<close>.\<close>

definition start_inodes :: "tnode \<Rightarrow> ('d, 'a) xlay \<Rightarrow> ('d, 'a) xlay" where
  "start_inodes root l =
     (let l = l\<lparr>xl_inoOf := [(tn_ref root, rootIno)], xl_usedInos := [rootIno]\<rparr>;
          l = (case map_of (tn_kids root) ''lost+found'' of None \<Rightarrow> l
               | Some t \<Rightarrow> l\<lparr>xl_inoOf := AList.update (tn_ref t) lostFoundIno (xl_inoOf l),
                             xl_usedInos := lostFoundIno # xl_usedInos l\<rparr>) in
      l\<lparr>xl_usedInos := rev [1..<reservedInos + 1] @ xl_usedInos l, xl_nextIno := firstIno + 1\<rparr>)"

definition reserve_meta :: "'a allocator_ops \<Rightarrow> xenv \<Rightarrow> ('d, 'a) xlay \<Rightarrow> ('d, 'a) xlay" where
  "reserve_meta A E l =
     (let g = xn_geo E; l = (if 0 < xg_first g then x_reserve A E 0 (xg_first g) l else l) in
      fold (\<lambda>gr l. let (_, _, _, firstData) = groupLayout g gr in
              x_reserve A E (groupStart g gr) (sub64 firstData (groupStart g gr)) l)
        [0..<xg_groups g] l)"

definition x_run :: "'d device_ops \<Rightarrow> 'a allocator_ops \<Rightarrow> xenv \<Rightarrow> tnode \<Rightarrow> ('d, 'a) xlay \<Rightarrow> unit result \<times> ('d, 'a) xlay" where
  "x_run D A E root l =
     (let root = ensureLostFound (xn_now E) root;
          l = x_assignInodes root (start_inodes root l) in
      if u32_of_int (int (xl_nextIno l) - 1) > xg_icount (xn_geo E) then (Inl errTooManyInodes, l)
      else
        bindS (x_buildNode D A E root rootIno (reserve_meta A E l)) (\<lambda>_ l.
        bindS (writeInodeTables D E [0..<xg_groups (xn_geo E)] l) (\<lambda>_ l.
          (Inr (), writeDescriptorsAndSuperblocks D E (writeBitmaps D E l)))))"

text \<open>
  \<open>Format\<close> computes the geometry; \<open>Finalize\<close> of the image it returns runs the layout.
  The new allocator is the factory's, an argument.
\<close>

definition x_Format :: "xvariant \<Rightarrow> nat \<Rightarrow> int \<Rightarrow> xgeo result" where
  "x_Format v blockSize devSize =
     x_computeGeometry devSize (if blockSize = 0 then xv_bs v else blockSize) (xv_isize v)"

definition x_Finalize ::
  "'d device_ops \<Rightarrow> 'a allocator_ops \<Rightarrow> (nat \<Rightarrow> 'a) \<Rightarrow> xenv \<Rightarrow> tnode \<Rightarrow> 'd \<Rightarrow> unit result \<times> 'd" where
  "x_Finalize D A newA E root d =
     (case x_run D A E root (x_newLayouter E d (newA (xg_total (xn_geo E)))) of (r, l) \<Rightarrow> (r, xl_dev l))"

text \<open>\<open>copyDevice\<close> in chunks of 1 MiB; the buffer is reused, so the tail of a short read is what it held.\<close>

function copy_loop ::
  "'d device_ops \<Rightarrow> 's device_ops \<Rightarrow> 's \<Rightarrow> int \<Rightarrow> int \<Rightarrow> bytes \<Rightarrow> 'd \<Rightarrow> error option \<times> 'd" where
  "copy_loop D S src sz off buf d =
     (if off < sz then
        let n = min (2 ^ 20) (sz - off); (data, err) = dev_read_at S src (nat n) off in
        if err \<noteq> None \<and> err \<noteq> Some EOF then (err, d)
        else let buf = blit buf 0 data in
          (case write_all D d (take (nat n) buf) off of
             (Some e, d) \<Rightarrow> (Some e, d)
           | (None, d) \<Rightarrow> copy_loop D S src sz (off + n) buf d)
      else (None, d))"
  by pat_completeness auto
termination
  by (relation "measure (\<lambda>(D, S, src, sz, off, buf, d). nat (sz - off))") auto

declare copy_loop.simps [simp del]

definition copyDevice :: "'d device_ops \<Rightarrow> 's device_ops \<Rightarrow> 's \<Rightarrow> 'd \<Rightarrow> error option \<times> 'd" where
  "copyDevice D S src d = copy_loop D S src (dev_size S src) 0 (zeros (2 ^ 20)) d"

text \<open>
  \<open>finalizeStaged\<close> lays the tree out on a scratch file first; \<open>scratchErr\<close> stands for the
  error of creating or truncating the temporary file.
\<close>

definition finalizeStaged ::
  "'d device_ops \<Rightarrow> 'a allocator_ops \<Rightarrow> (nat \<Rightarrow> 'a) \<Rightarrow> xenv \<Rightarrow> error option \<Rightarrow> tnode \<Rightarrow> 'd \<Rightarrow> error option \<times> 'd" where
  "finalizeStaged D A newA E scratchErr root d =
     (case scratchErr of Some e \<Rightarrow> (Some e, d)
      | None \<Rightarrow>
        let sz = dev_size D d; S = file_ops sz in
        case x_Finalize S A newA E root (zeros (nat sz)) of
          (Inl e, s) \<Rightarrow> (Some e, d)
        | (Inr (), s) \<Rightarrow> copyDevice D S s d)"

end
