(* ===== verification/ExtRead.thy ===== *)
theory ExtRead
  imports ExtWrite
begin

text \<open>
  The reader of the ext engine (\<open>pkg/ext/reader.go\<close>): superblock and descriptors, inodes, block
  lists from extents or indirect blocks, directories, symbolic links, extended attributes and lazy
  file contents, and \<open>Open\<close>. Nodes are built in a store. The extent walk and the directory walk
  take fuel: \<open>None\<close> when a recursion is deeper than it. Memory is not a limit of the model.
\<close>

section \<open>The reader\<close>

record xreader =
  xr_sb :: xsuper
  xr_bs :: nat
  xr_ipg :: nat
  xr_isize :: nat
  xr_first :: nat
  xr_descs :: "groupDesc list"

definition errBadMagic :: error where
  "errBadMagic = Err ''ext: bad superblock magic''"

definition x_newReader :: "'d device_ops \<Rightarrow> 'd \<Rightarrow> xreader result" where
  "x_newReader D d =
     bindE (read_full D d x_superblockSize (int x_superblockOffset)) (\<lambda>raw.
       let sb = parseSuperblock raw; bs = sb_blockSize sb; first = sb_firstDataBlock sb in
       if sb_magic sb \<noteq> x_magic then Inl errBadMagic
       else if sb_blocksPerGroup sb = 0 \<or> bs = 0 then Inl (Panic ''integer divide by zero'')
       else
         let numGroups = x_ceilDiv (sub64 (sb_blocksCount sb) first) (sb_blocksPerGroup sb);
             gdtBlocks = x_ceilDiv (u64 (numGroups * descSize)) bs in
         bindE (read_full D d (u64 (gdtBlocks * bs)) (x_pos (first + 1) bs)) (\<lambda>gdt.
           if numGroups * descSize > length gdt then Inl (Panic ''index out of range'')
           else Inr \<lparr> xr_sb = sb, xr_bs = bs, xr_ipg = sb_inodesPerGroup sb,
             xr_isize = (if sb_inodeSize sb = 0 then goodOldInodeSize else sb_inodeSize sb), xr_first = first,
             xr_descs = map (\<lambda>i. parseGroupDesc gdt (i * descSize)) [0..<numGroups] \<rparr>))"

definition x_readBlock :: "'d device_ops \<Rightarrow> 'd \<Rightarrow> xreader \<Rightarrow> nat \<Rightarrow> bytes result" where
  "x_readBlock D d R block = read_full D d (xr_bs R) (x_pos block (xr_bs R))"

definition x_readInode :: "'d device_ops \<Rightarrow> 'd \<Rightarrow> xreader \<Rightarrow> nat \<Rightarrow> xinode result" where
  "x_readInode D d R ino =
     (if xr_ipg R = 0 then Inl (Panic ''integer divide by zero'')
      else
        let gr = sub64 ino 1 div xr_ipg R; idx = sub64 ino 1 mod xr_ipg R in
        if gr \<ge> length (xr_descs R) then Inl (Err ''ext: inode out of range'')
        else bindE (read_full D d (xr_isize R)
            (i64 (int (gd_table (xr_descs R ! gr) * xr_bs R + idx * xr_isize R)))) parseInode)"

section \<open>Block lists\<close>

fun rd_loop :: "(nat \<Rightarrow> nat list \<Rightarrow> nat list result) \<Rightarrow> nat \<Rightarrow> nat \<Rightarrow> bytes \<Rightarrow> nat \<Rightarrow> nat list \<Rightarrow> nat list result" where
  "rd_loop child 0 i buf need out = Inr out"
| "rd_loop child (Suc k) i buf need out =
     (if length out < need then
        bindE (child (get_le 4 buf (i * 4)) out) (\<lambda>out. rd_loop child k (i + 1) buf need out)
      else Inr out)"

text \<open>Level 0 is the branch that takes the pointer itself.\<close>

fun x_readIndirect :: "'d device_ops \<Rightarrow> 'd \<Rightarrow> xreader \<Rightarrow> nat \<Rightarrow> nat \<Rightarrow> nat \<Rightarrow> nat list \<Rightarrow> nat list result" where
  "x_readIndirect D d R need 0 blk out = Inr (out @ [blk])"
| "x_readIndirect D d R need (Suc level) blk out =
     (if blk = 0 then Inr out
      else bindE (x_readBlock D d R blk) (\<lambda>buf.
        rd_loop (x_readIndirect D d R need level) (xr_bs R div 4) 0 buf need out))"

definition rd_slot :: "'d device_ops \<Rightarrow> 'd \<Rightarrow> xreader \<Rightarrow> xinode \<Rightarrow> nat \<Rightarrow> nat \<Rightarrow> nat \<Rightarrow> nat list \<Rightarrow> nat list result" where
  "rd_slot D d R i need level slot out =
     (if length out \<ge> need then Inr out else x_readIndirect D d R need level (xi_block i ! slot) out)"

definition x_blockList :: "nat \<Rightarrow> 'd device_ops \<Rightarrow> 'd \<Rightarrow> xreader \<Rightarrow> xinode \<Rightarrow> nat \<Rightarrow> nat list result option" where
  "x_blockList xf D d R i sz =
     (let need = x_ceilDiv sz (xr_bs R) in
      if xi_flags i AND extentsFL \<noteq> 0 then
        (case parseExtents xf (x_readBlock D d R) (case xi_blockRaw i of Some raw \<Rightarrow> raw | None \<Rightarrow> []) of
           None \<Rightarrow> None
         | Some (Inl e) \<Rightarrow> Some (Inl e)
         | Some (Inr bs) \<Rightarrow> Some (Inr (take need bs)))
      else Some
        (bindE (rd_slot D d R i need 1 indSingle (take (min directBlocks need) (xi_block i))) (\<lambda>out.
         bindE (rd_slot D d R i need 2 indDouble out) (\<lambda>out.
         bindE (rd_slot D d R i need 3 indTriple out) (\<lambda>out. Inr (take need out))))))"

section \<open>Contents, links, attributes\<close>

text \<open>\<open>fileSource.ReadAt\<close>, block by block; \<open>f.blocks[idx]\<close> panics past the end of the list.\<close>

function fs_read :: "'d device_ops \<Rightarrow> 'd \<Rightarrow> nat list \<Rightarrow> nat \<Rightarrow> nat \<Rightarrow> nat \<Rightarrow> nat \<Rightarrow> bytes \<times> error option" where
  "fs_read D d blocks sz bs n off =
     (if 0 < n \<and> off < sz \<and> 0 < bs then
        if off div bs \<ge> length blocks then ([], Some (Panic ''index out of range''))
        else case read_full D d bs (x_pos (blocks ! (off div bs)) bs) of
            Inl e \<Rightarrow> ([], Some e)
          | Inr buf \<Rightarrow>
              let within = off mod bs; avail = min (bs - within) (sz - off); c = min n avail;
                  (rest, err) = fs_read D d blocks sz bs (n - c) (off + c) in
              (window buf within c @ rest, err)
      else ([], if 0 < n then Some EOF else None))"
  by pat_completeness auto
termination
  by (relation "measure (\<lambda>(D, d, blocks, sz, bs, n, off). n)") (auto simp: min_def)

declare fs_read.simps [simp del]

definition fileSource_read_at :: "'d device_ops \<Rightarrow> 'd \<Rightarrow> nat list \<Rightarrow> nat \<Rightarrow> nat \<Rightarrow> nat \<Rightarrow> int \<Rightarrow> bytes \<times> error option" where
  "fileSource_read_at D d blocks sz bs n off =
     (if off < 0 then ([], Some (Err ''ext: negative offset''))
      else if off \<ge> int sz then ([], Some EOF)
      else fs_read D d blocks sz bs n (nat off))"

definition fileSource :: "'d device_ops \<Rightarrow> 'd \<Rightarrow> nat list \<Rightarrow> nat \<Rightarrow> nat \<Rightarrow> source" where
  "fileSource D d blocks sz bs = \<lparr> src_size = int sz, src_read_at = fileSource_read_at D d blocks sz bs \<rparr>"

definition x_readXattrs :: "'d device_ops \<Rightarrow> 'd \<Rightarrow> xreader \<Rightarrow> xinode \<Rightarrow> (string \<times> bytes) list result" where
  "x_readXattrs D d R i =
     (let out = decodeXattrIbody (xi_xattrIbody i) in
      if xi_fileACL i = 0 then Inr out
      else bindE (read_full D d (xr_bs R) (x_pos (xi_fileACL i) (xr_bs R))) (\<lambda>block.
        let more = decodeXattrBlock block in
        Inr (if out = [] then more else fold (\<lambda>(k, v). AList.update k v) more out)))"

text \<open>\<open>strings.TrimRight(s, "\x00")\<close>.\<close>

definition trim_nul :: "bytes \<Rightarrow> bytes" where
  "trim_nul b = rev (dropWhile (\<lambda>c. c = 0) (rev b))"

fun read_blocks :: "'d device_ops \<Rightarrow> 'd \<Rightarrow> xreader \<Rightarrow> nat list \<Rightarrow> nat \<Rightarrow> bytes result" where
  "read_blocks D d R [] left = Inr []"
| "read_blocks D d R (b # bs) left =
     bindE (x_readBlock D d R b) (\<lambda>buf.
       let n = min left (length buf) in
       bindE (read_blocks D d R bs (left - n)) (\<lambda>rest. Inr (take n buf @ rest)))"

text \<open>A fast link keeps its target in the inode; the test leaves an attribute block out of \<open>i_blocks\<close>.\<close>

definition x_readSymlink :: "nat \<Rightarrow> 'd device_ops \<Rightarrow> 'd \<Rightarrow> xreader \<Rightarrow> xinode \<Rightarrow> string result option" where
  "x_readSymlink xf D d R i =
     (let eaBlocks = (if xi_fileACL i \<noteq> 0 then xr_bs R div 512 else 0) in
      if xi_blocks i \<le> eaBlocks then
        Some (Inr (string_of (trim_nul (take (xi_size i) (case xi_blockRaw i of Some raw \<Rightarrow> raw | None \<Rightarrow> [])))))
      else case x_blockList xf D d R i (xi_size i) of
          None \<Rightarrow> None
        | Some (Inl e) \<Rightarrow> Some (Inl e)
        | Some (Inr blocks) \<Rightarrow> Some (bindE (read_blocks D d R blocks (xi_size i)) (\<lambda>b. Inr (string_of b))))"

section \<open>Nodes\<close>

definition inode_node :: "xinode \<Rightarrow> (string \<times> bytes) list \<Rightarrow> node" where
  "inode_node i xattrs =
     new_node \<lparr> md_mode = goMode (xi_mode i), md_uid = xi_uid i, md_gid = xi_gid i,
       md_mtime = \<lparr> gt_sec = int (xi_mtime i), gt_nsec = 0 \<rparr>, md_xattrs = xattrs \<rparr> (int (xi_links i))"

text \<open>The node of an inode that is not a directory.\<close>

definition leaf_of :: "nat \<Rightarrow> 'd device_ops \<Rightarrow> 'd \<Rightarrow> xreader \<Rightarrow> xinode \<Rightarrow> node \<Rightarrow> node result option" where
  "leaf_of xf D d R i n =
     (let mode = md_mode n in
      if has mode ModeSymlink then
        map_option (\<lambda>r. bindE r (\<lambda>target. Inr (n\<lparr>in_link := target\<rparr>))) (x_readSymlink xf D d R i)
      else if mode AND (ModeDevice OR ModeCharDevice) \<noteq> 0 then Some (Inr (n\<lparr>in_rdev := xi_block i ! 0\<rparr>))
      else if mode AND (ModeNamedPipe OR ModeSocket) \<noteq> 0 then Some (Inr n)
      else map_option (\<lambda>r. bindE r (\<lambda>blocks.
             Inr (n\<lparr>in_content := Some (fileSource D d blocks (xi_size i) (xr_bs R))\<rparr>))) (x_blockList xf D d R i (xi_size i)))"

text \<open>The store under construction and the inodes seen.\<close>

type_synonym xbuild = "heap \<times> (nat \<times> ref) list"

text \<open>The callback of \<open>readDir\<close> on the entries of one block; \<open>rdn\<close> is the recursive call.\<close>

fun dir_block_loop :: "(nat \<Rightarrow> xbuild \<Rightarrow> (ref result \<times> xbuild) option) \<Rightarrow> ref \<Rightarrow> dentry list \<Rightarrow> xbuild \<Rightarrow> (unit result \<times> xbuild) option" where
  "dir_block_loop rdn r [] s = Some (Inr (), s)"
| "dir_block_loop rdn r (e # es) s =
     (if de_name e = ''.'' \<or> de_name e = ''..'' then dir_block_loop rdn r es s
      else case rdn (de_ino e) s of
          None \<Rightarrow> None
        | Some (Inl err, s) \<Rightarrow> Some (Inl err, s)
        | Some (Inr child, (h, seen)) \<Rightarrow>
            (case AddChild h r (de_name e) child of
               Inl err \<Rightarrow> Some (Inl err, (h, seen))
             | Inr h \<Rightarrow> dir_block_loop rdn r es (h, seen)))"

fun dir_blocks_loop ::
  "'d device_ops \<Rightarrow> 'd \<Rightarrow> xreader \<Rightarrow> (nat \<Rightarrow> xbuild \<Rightarrow> (ref result \<times> xbuild) option) \<Rightarrow> ref \<Rightarrow> nat list \<Rightarrow> xbuild
     \<Rightarrow> (unit result \<times> xbuild) option" where
  "dir_blocks_loop D d R rdn r [] s = Some (Inr (), s)"
| "dir_blocks_loop D d R rdn r (b # bs) s =
     (case x_readBlock D d R b of
        Inl e \<Rightarrow> Some (Inl e, s)
      | Inr buf \<Rightarrow>
          (case dir_block_loop rdn r (parseDirBlock buf 0) s of
             None \<Rightarrow> None
           | Some (Inl e, s) \<Rightarrow> Some (Inl e, s)
           | Some (Inr (), s) \<Rightarrow> dir_blocks_loop D d R rdn r bs s))"

fun x_readNode :: "nat \<Rightarrow> nat \<Rightarrow> 'd device_ops \<Rightarrow> 'd \<Rightarrow> xreader \<Rightarrow> nat \<Rightarrow> xbuild \<Rightarrow> (ref result \<times> xbuild) option" where
  "x_readNode 0 xf D d R ino s = None"
| "x_readNode (Suc fuel) xf D d R ino s =
     (case map_of (snd s) ino of
        Some r \<Rightarrow> Some (Inr r, s)
      | None \<Rightarrow>
          (case x_readInode D d R ino of
             Inl e \<Rightarrow> Some (Inl e, s)
           | Inr i \<Rightarrow>
               (case x_readXattrs D d R i of
                  Inl e \<Rightarrow> Some (Inl e, s)
                | Inr xattrs \<Rightarrow>
                    let n = inode_node i xattrs; r = length (fst s); seen = (ino, r) # snd s in
                    if mode_is_dir (md_mode n) then
                      (case x_blockList xf D d R i (xi_size i) of
                         None \<Rightarrow> None
                       | Some (Inl e) \<Rightarrow> Some (Inl e, (fst s @ [n], seen))
                       | Some (Inr blocks) \<Rightarrow>
                           (case dir_blocks_loop D d R (x_readNode fuel xf D d R) r blocks (fst s @ [n], seen) of
                              None \<Rightarrow> None
                            | Some (Inl e, s) \<Rightarrow> Some (Inl e, s)
                            | Some (Inr (), s) \<Rightarrow> Some (Inr r, s)))
                    else
                      (case leaf_of xf D d R i n of
                         None \<Rightarrow> None
                       | Some (Inl e) \<Rightarrow> Some (Inl e, (fst s @ [n], seen))
                       | Some (Inr n) \<Rightarrow> Some (Inr r, (fst s @ [n], seen))))))"

section \<open>Open\<close>

record ximage =
  im_heap :: heap
  im_root :: ref
  im_geo :: xgeo
  im_var :: xvariant
  im_label :: string
  im_uuid :: bytes

text \<open>The geometry is computed again from the size of the device, not read from the superblock.\<close>

definition x_Open :: "nat \<Rightarrow> nat \<Rightarrow> 'd device_ops \<Rightarrow> 'd \<Rightarrow> ximage result option" where
  "x_Open fuel xf D d =
     (case x_newReader D d of
        Inl e \<Rightarrow> Some (Inl e)
      | Inr R \<Rightarrow>
          (case x_readNode fuel xf D d R rootIno ([], []) of
             None \<Rightarrow> None
           | Some (Inl e, s) \<Rightarrow> Some (Inl e)
           | Some (Inr root, (h, seen)) \<Rightarrow>
               Some (bindE (x_computeGeometry (dev_size D d) (xr_bs R) (xr_isize R)) (\<lambda>g.
                 Inr \<lparr> im_heap = h, im_root = root, im_geo = g,
                   im_var = \<lparr> xv_extents = (sb_featIncompat (xr_sb R) AND featIncompatExtents \<noteq> 0), xv_isize = xr_isize R,
                     xv_bs = xr_bs R, xv_incompat = sb_featIncompat (xr_sb R), xv_rocompat = sb_featROCompat (xr_sb R) \<rparr>,
                   im_label = string_of (trim_nul (sb_volumeName (xr_sb R))), im_uuid = sb_uuid (xr_sb R) \<rparr>))))"

end
