(* ===== verification/ExtProof.thy ===== *)
theory ExtProof
  imports ExtRead
begin

text \<open>
  The layouter of the ext engine over any device and allocator that meet their contracts: what each
  step allocates and writes, and that the reader gets block maps, directories and contents back. The
  locale \<open>x_disk\<close> joins the two contracts; it is interpreted on the in-memory device with the
  bitmap allocator.
\<close>

section \<open>States and steps\<close>

definition blk_view :: "('d \<Rightarrow> bytes) \<Rightarrow> nat \<Rightarrow> 'd \<Rightarrow> nat \<Rightarrow> bytes" where
  "blk_view view bs d b = window (view d) (b * bs) bs"

text \<open>The device holds the whole volume, the allocator counts its blocks and the layouter's mirror agrees with it.\<close>

definition lay_inv ::
  "('d \<Rightarrow> bytes) \<Rightarrow> ('d \<Rightarrow> bool) \<Rightarrow> ('a \<Rightarrow> nat set) \<Rightarrow> ('a \<Rightarrow> nat) \<Rightarrow> ('a \<Rightarrow> bool) \<Rightarrow> xgeo \<Rightarrow> ('d, 'a) xlay \<Rightarrow> bool" where
  "lay_inv view dinv used atot ainv g l \<longleftrightarrow>
     dinv (xl_dev l) \<and> xg_total g * xg_bs g \<le> length (view (xl_dev l)) \<and> ainv (xl_al l) \<and> atot (xl_al l) = xg_total g
     \<and> length (xl_used l) = xg_total g \<and> (\<forall>i < xg_total g. xl_used l ! i \<longleftrightarrow> i \<in> used (xl_al l))"

text \<open>A step takes the free blocks \<open>B\<close> and writes at most the blocks \<open>W\<close>.\<close>

definition lay_step ::
  "('d \<Rightarrow> bytes) \<Rightarrow> ('a \<Rightarrow> nat set) \<Rightarrow> xgeo \<Rightarrow> nat set \<Rightarrow> nat set \<Rightarrow> ('d, 'a) xlay \<Rightarrow> ('d, 'a) xlay \<Rightarrow> bool" where
  "lay_step view used g B W l l' \<longleftrightarrow>
     used (xl_al l') = used (xl_al l) \<union> B \<and> B \<inter> used (xl_al l) = {} \<and> B \<subseteq> {..<xg_total g}
     \<and> length (view (xl_dev l')) = length (view (xl_dev l))
     \<and> (\<forall>b < xg_total g. b \<notin> W \<longrightarrow> blk_view view (xg_bs g) (xl_dev l') b = blk_view view (xg_bs g) (xl_dev l) b)
     \<and> xl_inoOf l' = xl_inoOf l \<and> xl_inodes l' = xl_inodes l \<and> xl_built l' = xl_built l
     \<and> xl_usedInos l' = xl_usedInos l \<and> xl_nextIno l' = xl_nextIno l"

lemma lay_step_refl: "lay_step view used g {} {} l l"
  by (simp add: lay_step_def)

lemma lay_step_trans:
  "lay_step view used g B W l l1 \<Longrightarrow> lay_step view used g B' W' l1 l2 \<Longrightarrow> lay_step view used g (B \<union> B') (W \<union> W') l l2"
  unfolding lay_step_def by auto

lemma lay_step_mono: "lay_step view used g B W l l' \<Longrightarrow> W \<subseteq> W' \<Longrightarrow> lay_step view used g B W' l l'"
  unfolding lay_step_def by blast

text \<open>Fields that do not matter to these predicates.\<close>

lemma lay_inv_fields [simp]:
  "lay_inv view dinv used atot ainv g (l\<lparr>xl_curMeta := n\<rparr>) = lay_inv view dinv used atot ainv g l"
  "lay_inv view dinv used atot ainv g (l\<lparr>xl_usesXattrs := b\<rparr>) = lay_inv view dinv used atot ainv g l"
  "lay_inv view dinv used atot ainv g (l\<lparr>xl_inodes := is\<rparr>) = lay_inv view dinv used atot ainv g l"
  "lay_inv view dinv used atot ainv g (l\<lparr>xl_built := bt\<rparr>) = lay_inv view dinv used atot ainv g l"
  by (simp_all add: lay_inv_def)

lemma lay_step_fields [simp]:
  "lay_step view used g B W (l\<lparr>xl_curMeta := n\<rparr>) l' = lay_step view used g B W l l'"
  "lay_step view used g B W l (l'\<lparr>xl_curMeta := n\<rparr>) = lay_step view used g B W l l'"
  "lay_step view used g B W (l\<lparr>xl_usesXattrs := b\<rparr>) l' = lay_step view used g B W l l'"
  "lay_step view used g B W l (l'\<lparr>xl_usesXattrs := b\<rparr>) = lay_step view used g B W l l'"
  by (simp_all add: lay_step_def)

lemma nth_fold_upd: "length u = n \<Longrightarrow> i < n \<Longrightarrow> fold (\<lambda>j u. u[j := True]) js u ! i \<longleftrightarrow> i \<in> set js \<or> u ! i"
proof (induction js arbitrary: u)
  case (Cons a js)
  then show ?case by (cases "a = i") (auto simp: Cons.IH)
qed simp

lemma length_fold_upd [simp]: "length (fold (\<lambda>j u. u[j := x]) js u) = length u"
  by (induction js arbitrary: u) auto

lemma mark_used:
  assumes "length (xl_used l) = xg_total (xn_geo E)" "s + n \<le> xg_total (xn_geo E)" "xg_total (xn_geo E) < 2 ^ 32"
    "i < xg_total (xn_geo E)"
  shows "xl_used (x_mark E s n l) ! i \<longleftrightarrow> i \<in> {s..<s + n} \<or> xl_used l ! i"
  using assms by (simp add: x_mark_def nth_fold_upd[of _ "xg_total (xn_geo E)"])

lemma mark_fields [simp]:
  "xl_dev (x_mark E s n l) = xl_dev l" "xl_al (x_mark E s n l) = xl_al l" "length (xl_used (x_mark E s n l)) = length (xl_used l)"
  "xl_inoOf (x_mark E s n l) = xl_inoOf l" "xl_inodes (x_mark E s n l) = xl_inodes l" "xl_built (x_mark E s n l) = xl_built l"
  "xl_usedInos (x_mark E s n l) = xl_usedInos l" "xl_nextIno (x_mark E s n l) = xl_nextIno l"
  by (simp_all add: x_mark_def)

lemma mark_runs_fields:
  "xl_dev (fold (\<lambda>r. x_mark E (run_start r) (run_len r)) rs l) = xl_dev l"
  "xl_al (fold (\<lambda>r. x_mark E (run_start r) (run_len r)) rs l) = xl_al l"
  "length (xl_used (fold (\<lambda>r. x_mark E (run_start r) (run_len r)) rs l)) = length (xl_used l)"
  "xl_inoOf (fold (\<lambda>r. x_mark E (run_start r) (run_len r)) rs l) = xl_inoOf l"
  "xl_inodes (fold (\<lambda>r. x_mark E (run_start r) (run_len r)) rs l) = xl_inodes l"
  "xl_built (fold (\<lambda>r. x_mark E (run_start r) (run_len r)) rs l) = xl_built l"
  "xl_usedInos (fold (\<lambda>r. x_mark E (run_start r) (run_len r)) rs l) = xl_usedInos l"
  "xl_nextIno (fold (\<lambda>r. x_mark E (run_start r) (run_len r)) rs l) = xl_nextIno l"
  by (induction rs arbitrary: l) simp_all

lemma mark_runs_used:
  assumes "length (xl_used l) = xg_total (xn_geo E)" "\<forall>r \<in> set rs. run_start r + run_len r \<le> xg_total (xn_geo E)"
    "xg_total (xn_geo E) < 2 ^ 32" "i < xg_total (xn_geo E)"
  shows "xl_used (fold (\<lambda>r. x_mark E (run_start r) (run_len r)) rs l) ! i \<longleftrightarrow> i \<in> run_set rs \<or> xl_used l ! i"
  using assms(1,2)
proof (induction rs arbitrary: l)
  case (Cons r rs)
  then show ?case using mark_used[OF Cons.prems(1) _ assms(3,4), of "run_start r" "run_len r"]
    by (auto simp: run_blocks_def)
qed simp

lemma runs_blocks_set: "set (runs_blocks rs) = run_set rs"
  by (auto simp: runs_blocks_def run_set_def run_blocks_def)

lemma runs_blocks_distinct:
  "good_runs rs U tot m \<Longrightarrow> distinct (runs_blocks rs) \<and> length (runs_blocks rs) = total_len rs"
proof (induction rs)
  case (Cons r rs)
  then have "distinct (runs_blocks rs)" "length (runs_blocks rs) = total_len rs" "run_blocks r \<inter> run_set rs = {}"
    by (auto simp: good_runs_Cons)
  then show ?case using runs_blocks_set[of rs] by (auto simp: runs_blocks_def run_blocks_def)
qed (simp add: runs_blocks_def)

lemma x_pos_small: "b * bs < 2 ^ 63 \<Longrightarrow> x_pos b bs = int (b * bs)"
  by (simp add: x_pos_def flip: of_nat_mult)

lemma block_fits: "b < n \<Longrightarrow> b * bs + bs \<le> n * (bs :: nat)"
proof -
  assume "b < n"
  then have "Suc b * bs \<le> n * bs" by (intro mult_le_mono1) simp
  then show ?thesis by simp
qed

lemma blocks_apart: "b \<noteq> c \<Longrightarrow> b * bs + bs \<le> c * bs \<or> c * bs + bs \<le> b * (bs :: nat)"
  using block_fits[of b c bs] block_fits[of c b bs] by linarith

section \<open>The contract of the layouter's device and allocator\<close>

locale x_disk = dv: block_device D view dinv + alc: run_allocator A used atot ainv upto_op
  for D :: "'d device_ops" and view :: "'d \<Rightarrow> bytes" and dinv :: "'d \<Rightarrow> bool"
    and A :: "'a allocator_ops" and used :: "'a \<Rightarrow> nat set" and atot :: "'a \<Rightarrow> nat" and ainv :: "'a \<Rightarrow> bool" and upto_op
begin

abbreviation (input) "linv g l \<equiv> lay_inv view dinv used atot ainv g l"
abbreviation (input) "lstep g B W l l' \<equiv> lay_step view used g B W l l'"
abbreviation (input) "lblk g l b \<equiv> blk_view view (xg_bs g) (xl_dev l) b"

text \<open>Writing whole blocks.\<close>

lemma write_blocks_step:
  assumes inv: "linv (xn_geo E) l" and len: "length data = k * xg_bs (xn_geo E)" and b: "b + k \<le> xg_total (xn_geo E)"
    and l': "l' = x_writeBlock D E b data l \<or> l' = x_writeBlocks D E b data l"
  shows "linv (xn_geo E) l'" "lstep (xn_geo E) {} {b..<b + k} l l'"
    "j < k \<Longrightarrow> lblk (xn_geo E) l' (b + j) = window data (j * xg_bs (xn_geo E)) (xg_bs (xn_geo E))"
proof -
  let ?g = "xn_geo E" and ?bs = "xg_bs (xn_geo E)" and ?d = "xl_dev l"
  have d: "dinv ?d" "xg_total ?g * ?bs \<le> length (view ?d)" using inv by (simp_all add: lay_inv_def)
  have "(b + k) * ?bs \<le> xg_total ?g * ?bs" using b by (rule mult_le_mono1)
  then have fit: "b * ?bs + length data \<le> length (view ?d)" using len d(2) by (simp add: add_mult_distrib)
  have pos: "x_pos b ?bs = int (b * ?bs)" using fit dv.size_bound[OF d(1)] by (intro x_pos_small) simp
  obtain d' where w: "dev_write_at D ?d data (int (b * ?bs)) = ((length data, None), d')" "dinv d'"
    "view d' = blit (view ?d) (b * ?bs) data"
    using dv.write_view[OF d(1), of "int (b * ?bs)" data] dv.size_view[OF d(1)] fit by (auto simp del: of_nat_mult)
  have eq: "l' = l\<lparr>xl_dev := d'\<rparr>" using l' w(1) pos by (auto simp: x_writeBlock_def x_writeBlocks_def)
  have lv: "length (view d') = length (view ?d)" using w(3) fit by simp
  show "linv ?g l'" using inv w lv by (simp add: eq lay_inv_def)
  have "blk_view view ?bs d' c = blk_view view ?bs ?d c" if "c < xg_total ?g" "c \<notin> {b..<b + k}" for c
  proof -
    have cf: "c * ?bs + ?bs \<le> length (view ?d)" using block_fits[OF that(1), of ?bs] d(2) by linarith
    have "c * ?bs + ?bs \<le> b * ?bs \<or> b * ?bs + length data \<le> c * ?bs"
    proof (cases "c < b")
      case True
      then show ?thesis using block_fits by blast
    next
      case False
      then have "b + k \<le> c" using that(2) by simp
      then have "(b + k) * ?bs \<le> c * ?bs" by (rule mult_le_mono1)
      then show ?thesis by (simp add: len add_mult_distrib)
    qed
    then show ?thesis unfolding blk_view_def w(3) using fit cf by (subst window_blit_other) auto
  qed
  then show "lstep ?g {} {b..<b + k} l l'" using lv by (simp add: eq lay_step_def)
  show "lblk ?g l' (b + j) = window data (j * ?bs) ?bs" if "j < k"
  proof -
    have jf: "j * ?bs + ?bs \<le> length data" using block_fits[OF that, of ?bs] len by simp
    have "window (blit (view ?d) (b * ?bs) data) ((b + j) * ?bs) ?bs = window (window (blit (view ?d) (b * ?bs) data) (b * ?bs) (length data)) (j * ?bs) ?bs"
      using jf by (simp add: window_window min_absorb1 add_mult_distrib)
    then show ?thesis using fit by (simp add: eq blk_view_def w(3))
  qed
qed

lemma write_block_step:
  assumes "linv (xn_geo E) l" "length data = xg_bs (xn_geo E)" "b < xg_total (xn_geo E)"
  shows "linv (xn_geo E) (x_writeBlock D E b data l)" "lstep (xn_geo E) {} {b} l (x_writeBlock D E b data l)"
    "lblk (xn_geo E) (x_writeBlock D E b data l) b = data"
proof -
  have b1: "b + 1 \<le> xg_total (xn_geo E)" and len: "length data = 1 * xg_bs (xn_geo E)" using assms(2,3) by simp_all
  note w = write_blocks_step[OF assms(1) len b1 disjI1[OF refl]]
  show "linv (xn_geo E) (x_writeBlock D E b data l)" by (rule w(1))
  show "lstep (xn_geo E) {} {b} l (x_writeBlock D E b data l)" using w(2) by simp
  show "lblk (xn_geo E) (x_writeBlock D E b data l) b = data" using w(3)[of 0] assms(2) by (simp add: window_def)
qed

text \<open>Taking blocks.\<close>

lemma allocOne_step:
  assumes inv: "linv (xn_geo E) l" and g: "geo_ok (xn_geo E)" and r: "x_allocOne A E l = (Inr b, l')"
  shows "linv (xn_geo E) l'" "lstep (xn_geo E) {b} {} l l'" "xl_dev l' = xl_dev l" "b < xg_total (xn_geo E)" "b \<notin> used (xl_al l)"
    "xl_curMeta l' = xl_curMeta l" "xl_usesXattrs l' = xl_usesXattrs l"
proof -
  obtain a where a: "al_alloc A (xl_al l) 1 = (Inr b, a)" "l' = x_mark E b 1 (l\<lparr>xl_al := a\<rparr>)"
    using r by (auto simp: x_allocOne_def split: prod.splits sum.splits)
  have i: "ainv (xl_al l)" "atot (xl_al l) = xg_total (xn_geo E)" "length (xl_used l) = xg_total (xn_geo E)"
    using inv by (simp_all add: lay_inv_def)
  have ok: "ainv a \<and> atot a = atot (xl_al l) \<and> b + 1 \<le> atot (xl_al l) \<and> {b ..< b + 1} \<inter> used (xl_al l) = {}
       \<and> used a = used (xl_al l) \<union> {b ..< b + 1}"
    by (rule alc.alloc_ok[OF i(1) _ a(1)]) simp
  note mk = mark_used[of "l\<lparr>xl_al := a\<rparr>" E b 1]
  show b: "b < xg_total (xn_geo E)" "b \<notin> used (xl_al l)" using ok i by auto
  show "linv (xn_geo E) l'" using inv ok i mk b geo_okD(11)[OF g] by (auto simp: lay_inv_def a(2))
  show "lstep (xn_geo E) {b} {} l l'" using ok b by (auto simp: lay_step_def a(2))
  show "xl_dev l' = xl_dev l" "xl_curMeta l' = xl_curMeta l" "xl_usesXattrs l' = xl_usesXattrs l"
    by (simp_all add: a(2) x_mark_def)
qed

lemma allocMeta_step:
  assumes inv: "linv (xn_geo E) l" and g: "geo_ok (xn_geo E)" and r: "allocMetaBlock A E l = (Inr b, l')"
  shows "linv (xn_geo E) l'" "lstep (xn_geo E) {b} {} l l'" "xl_dev l' = xl_dev l" "b < xg_total (xn_geo E)" "b \<notin> used (xl_al l)"
proof -
  obtain l1 where l1: "x_allocOne A E l = (Inr b, l1)" "l' = l1\<lparr>xl_curMeta := xl_curMeta l1 + 1\<rparr>"
    using r by (auto simp: allocMetaBlock_def bindS_Inr_iff)
  note s = allocOne_step[OF inv g l1(1)]
  show "linv (xn_geo E) l'" "lstep (xn_geo E) {b} {} l l'" "xl_dev l' = xl_dev l" "b < xg_total (xn_geo E)" "b \<notin> used (xl_al l)"
    using s by (simp_all add: l1(2))
qed

lemma allocBlocks_step:
  assumes inv: "linv (xn_geo E) l" and g: "geo_ok (xn_geo E)" and n: "n < 2 ^ 64"
    and r: "x_allocBlocks A E n l = (Inr bl, l')"
  shows "linv (xn_geo E) l'" "lstep (xn_geo E) (set bl) {} l l'" "xl_dev l' = xl_dev l" "distinct bl" "length bl = n"
proof -
  have i: "ainv (xl_al l)" "atot (xl_al l) = xg_total (xn_geo E)" "length (xl_used l) = xg_total (xn_geo E)"
    using inv by (simp_all add: lay_inv_def)
  have "linv (xn_geo E) l' \<and> lstep (xn_geo E) (set bl) {} l l' \<and> xl_dev l' = xl_dev l \<and> distinct bl \<and> length bl = n"
  proof (cases "n = 0")
    case True
    then show ?thesis using r inv lay_step_refl by (simp add: x_allocBlocks_def)
  next
    case False
    obtain r' a where al: "AllocRuns A (xl_al l) n (x_maxRun E) = Some (r', a)" "ainv a" "atot a = atot (xl_al l)"
      and cs: "(\<exists>rs. r' = Inr rs \<and> good_runs rs (used (xl_al l)) (atot (xl_al l)) (x_maxRun E) \<and> total_len rs = n
         \<and> used a = used (xl_al l) \<union> run_set rs)
        \<or> (r' = Inl ErrNoSpace \<and> used a = used (xl_al l) \<and> card ({..< atot (xl_al l)} - used (xl_al l)) < n)"
      using alc.AllocRuns_spec[OF i(1) n, of "x_maxRun E"] by blast
    have "\<exists>rs. r' = Inr rs" using r al(1) False cs by (auto simp: x_allocBlocks_def)
    then obtain rs where rs: "r' = Inr rs" "good_runs rs (used (xl_al l)) (atot (xl_al l)) (x_maxRun E)" "total_len rs = n"
         "used a = used (xl_al l) \<union> run_set rs" using cs by auto
    have e: "bl = runs_blocks rs" "l' = fold (\<lambda>r. x_mark E (run_start r) (run_len r)) rs (l\<lparr>xl_al := a\<rparr>)"
      using r al(1) False rs(1) by (simp_all add: x_allocBlocks_def)
    have fr: "run_set rs \<subseteq> {..<xg_total (xn_geo E)} - used (xl_al l)" using good_runs_free[OF rs(2)] i by simp
    have le: "\<forall>r \<in> set rs. run_start r + run_len r \<le> xg_total (xn_geo E)" using rs(2) i by (simp add: good_runs_def)
    have mk: "i < xg_total (xn_geo E) \<Longrightarrow> xl_used l' ! i \<longleftrightarrow> i \<in> run_set rs \<or> xl_used l ! i" for i
      using mark_runs_used[of "l\<lparr>xl_al := a\<rparr>" E rs i] le i geo_okD(11)[OF g] by (simp add: e(2))
    have "linv (xn_geo E) l'" using inv al rs i mk by (auto simp: lay_inv_def e(2) mark_runs_fields)
    moreover have "lstep (xn_geo E) (set bl) {} l l'"
      using fr rs(4) by (auto simp: lay_step_def e mark_runs_fields runs_blocks_set)
    moreover have "xl_dev l' = xl_dev l" by (simp add: e(2) mark_runs_fields)
    ultimately show ?thesis using runs_blocks_distinct[OF rs(2)] rs(3) by (simp add: e(1))
  qed
  then show "linv (xn_geo E) l'" "lstep (xn_geo E) (set bl) {} l l'" "xl_dev l' = xl_dev l" "distinct bl" "length bl = n" by blast+
qed

end

section \<open>Reading that survives later writes\<close>

text \<open>
  \<open>Q\<close> holds of the device, and of every device of the same size that has the same blocks
  \<open>U\<close>. What a step has written is stable over its used blocks, so no later step disturbs it.
\<close>

definition stab :: "('d \<Rightarrow> bytes) \<Rightarrow> ('d \<Rightarrow> bool) \<Rightarrow> nat \<Rightarrow> nat set \<Rightarrow> 'd \<Rightarrow> ('d \<Rightarrow> bool) \<Rightarrow> bool" where
  "stab view dinv bs U d Q \<longleftrightarrow>
     (\<forall>d'. dinv d' \<and> length (view d') = length (view d) \<and> (\<forall>b \<in> U. blk_view view bs d' b = blk_view view bs d b) \<longrightarrow> Q d')"

lemma stab_now: "stab view dinv bs U d Q \<Longrightarrow> dinv d \<Longrightarrow> Q d"
  by (simp add: stab_def)

lemma stab_at:
  "stab view dinv bs U d Q \<Longrightarrow> dinv d' \<Longrightarrow> length (view d') = length (view d)
    \<Longrightarrow> (\<And>b. b \<in> U \<Longrightarrow> blk_view view bs d' b = blk_view view bs d b) \<Longrightarrow> Q d'"
  by (simp add: stab_def)

lemma stab_move:
  "stab view dinv bs U d Q \<Longrightarrow> U \<subseteq> U' \<Longrightarrow> length (view d') = length (view d)
    \<Longrightarrow> (\<And>b. b \<in> U \<Longrightarrow> blk_view view bs d' b = blk_view view bs d b) \<Longrightarrow> stab view dinv bs U' d' Q"
  unfolding stab_def by (metis subsetD)

lemma stab_imp: "stab view dinv bs U d Q \<Longrightarrow> (\<And>d'. Q d' \<Longrightarrow> Q' d') \<Longrightarrow> stab view dinv bs U d Q'"
  by (simp add: stab_def)

lemma stab_conj: "stab view dinv bs U d P \<Longrightarrow> stab view dinv bs U d Q \<Longrightarrow> stab view dinv bs U d (\<lambda>d. P d \<and> Q d)"
  by (simp add: stab_def)

lemma stab_all: "(\<And>x. stab view dinv bs U d (Q x)) \<Longrightarrow> stab view dinv bs U d (\<lambda>d. \<forall>x. Q x d)"
  by (simp add: stab_def)

lemma stab_const: "Q \<Longrightarrow> stab view dinv bs U d (\<lambda>d. Q)"
  by (simp add: stab_def)

text \<open>Reading that depends on the blocks \<open>B\<close> alone survives any step that writes other blocks.\<close>

lemma stab_keep:
  assumes "stab view dinv (xg_bs g) B (xl_dev l) Q" "lay_step view used g B' W l l'" "W \<inter> B = {}" "B \<subseteq> {..<xg_total g}" "B \<subseteq> C"
  shows "stab view dinv (xg_bs g) C (xl_dev l') Q"
  using assms by (intro stab_move[OF assms(1)]) (auto simp: lay_step_def)

lemma stab_sub: "stab view dinv bs U d Q \<Longrightarrow> U \<subseteq> U' \<Longrightarrow> stab view dinv bs U' d Q"
  by (rule stab_move) simp_all

text \<open>The extent node in block \<open>b\<close> parses to \<open>ds\<close>; a pointer of a level reads as \<open>ch\<close>.\<close>

definition node_at :: "nat \<Rightarrow> 'd device_ops \<Rightarrow> xreader \<Rightarrow> nat \<Rightarrow> nat list \<Rightarrow> 'd \<Rightarrow> bool" where
  "node_at f D R b ds d \<longleftrightarrow>
     (case x_readBlock D d R b of Inl e \<Rightarrow> Some (Inl e) | Inr buf \<Rightarrow> parseExtents f (x_readBlock D d R) buf) = Some (Inr ds)"

definition ptr_at :: "'d device_ops \<Rightarrow> xreader \<Rightarrow> nat \<Rightarrow> nat \<Rightarrow> nat list \<Rightarrow> bool \<Rightarrow> 'd \<Rightarrow> bool" where
  "ptr_at D R level p ch fin d \<longleftrightarrow>
     (\<forall>need out. length out < need \<and> (fin \<longrightarrow> need \<le> length out + length ch) \<longrightarrow>
        x_readIndirect D d R need level p out = Inr (out @ take (need - length out) ch))"

lemma upto_fits: "list_all (\<lambda>b. 12 + 12 * entriesPerNode b \<le> b \<and> entriesPerNode b < 65536 \<and> 0 < entriesPerNode b) block_sizes"
  by (simp add: block_sizes_def entriesPerNode_def extentHeaderSize_def extentEntrySize_def)

context x_disk
begin

lemma used_fits: "linv g l \<Longrightarrow> used (xl_al l) \<subseteq> {..<xg_total g}"
  using alc.used_total by (fastforce simp: lay_inv_def)

lemma readBlock_view:
  assumes "dinv d" "xr_bs R = bs" "b * bs + bs \<le> length (view d)"
  shows "x_readBlock D d R b = Inr (blk_view view bs d b)"
proof -
  have "x_pos b bs = int (b * bs)" using assms(3) dv.size_bound[OF assms(1)] by (intro x_pos_small) linarith
  then show ?thesis using dv.read_inside[OF assms(1,3)] assms(2) by (simp add: x_readBlock_def blk_view_def)
qed

lemma readBlock_stab:
  assumes inv: "linv g l" and R: "xr_bs R = xg_bs g" and b: "b < xg_total g" and buf: "lblk g l b = buf"
  shows "stab view dinv (xg_bs g) {b} (xl_dev l) (\<lambda>d. x_readBlock D d R b = Inr buf)"
  unfolding stab_def
proof (intro allI impI)
  fix d' assume d': "dinv d' \<and> length (view d') = length (view (xl_dev l))
      \<and> (\<forall>c \<in> {b}. blk_view view (xg_bs g) d' c = blk_view view (xg_bs g) (xl_dev l) c)"
  then have "b * xg_bs g + xg_bs g \<le> length (view d')"
    using block_fits[OF b, of "xg_bs g"] inv by (simp add: lay_inv_def)
  then show "x_readBlock D d' R b = Inr buf" using readBlock_view[of d' R "xg_bs g" b] d' b buf R by auto
qed

text \<open>A metadata block that is allocated and written.\<close>

lemma meta_written:
  assumes inv: "linv (xn_geo E) l" and g: "geo_ok (xn_geo E)" and a: "allocMetaBlock A E l = (Inr b, l1)"
    and len: "length buf = xg_bs (xn_geo E)" and R: "xr_bs R = xg_bs (xn_geo E)"
    and mid: "linv (xn_geo E) l2" "lstep (xn_geo E) B B l1 l2"
  shows "linv (xn_geo E) (x_writeBlock D E b buf l2)"
    "lstep (xn_geo E) (insert b B) (insert b B) l (x_writeBlock D E b buf l2)"
    "stab view dinv (xg_bs (xn_geo E)) {b} (xl_dev (x_writeBlock D E b buf l2))
       (\<lambda>d. x_readBlock D d R b = Inr buf)"
    "b \<notin> B" "b < xg_total (xn_geo E)" "b \<notin> used (xl_al l)"
proof -
  note s1 = allocMeta_step[OF inv g a]
  note w = write_block_step[OF mid(1) len s1(4)]
  show "linv (xn_geo E) (x_writeBlock D E b buf l2)" by (rule w(1))
  have "lstep (xn_geo E) (({b} \<union> B) \<union> {}) (({} \<union> B) \<union> {b}) l (x_writeBlock D E b buf l2)"
    by (rule lay_step_trans[OF lay_step_trans[OF s1(2) mid(2)] w(2)])
  then show "lstep (xn_geo E) (insert b B) (insert b B) l (x_writeBlock D E b buf l2)" by simp
  show "stab view dinv (xg_bs (xn_geo E)) {b} (xl_dev (x_writeBlock D E b buf l2))
       (\<lambda>d. x_readBlock D d R b = Inr buf)" by (rule readBlock_stab[OF w(1) R s1(4) w(3)])
  show "b \<notin> B" using s1(2) mid(2) by (auto simp: lay_step_def)
  show "b < xg_total (xn_geo E)" "b \<notin> used (xl_al l)" by (rule s1)+
qed

end

section \<open>Extent trees read back\<close>

context x_disk
begin

lemma writeExtentNode_step:
  assumes inv: "linv (xn_geo E) l" and g: "geo_ok (xn_geo E)" and R: "xr_bs R = xg_bs (xn_geo E)"
    and put: "\<And>o' e b. o' + 12 \<le> length b \<Longrightarrow> put o' e b = blit b o' (enc e)" and enc: "\<And>e. length (enc e) = 12"
    and n: "length es \<le> entriesPerNode (xg_bs (xn_geo E))"
    and r: "writeExtentNode D A E put es perNode depth l = (Inr b, l')"
  shows "linv (xn_geo E) l'" "lstep (xn_geo E) {b} {b} l l'" "b < xg_total (xn_geo E)" "b \<notin> used (xl_al l)"
    "stab view dinv (xg_bs (xn_geo E)) {b} (xl_dev l')
       (\<lambda>d. x_readBlock D d R b = Inr (put_entries put es (putExtentHeader (length es) perNode depth (zeros (xg_bs (xn_geo E))))))"
proof -
  let ?h = "putExtentHeader (length es) perNode depth (zeros (xg_bs (xn_geo E)))"
  let ?buf = "put_entries put es ?h"
  obtain l1 where l1: "allocMetaBlock A E l = (Inr b, l1)" "l' = x_writeBlock D E b ?buf l1"
    using r by (auto simp: writeExtentNode_def Let_def bindS_Inr_iff)
  have fit: "12 + 12 * entriesPerNode (xg_bs (xn_geo E)) \<le> xg_bs (xn_geo E)"
    using geo_okD(1)[OF g] upto_fits by (simp add: list_all_iff)
  then have h: "length ?h = xg_bs (xn_geo E)" by (simp add: putExtentHeader_def)
  have len: "length ?buf = xg_bs (xn_geo E)"
    using put_entries_spec[OF put enc, where es = es and b = ?h] n fit h by simp
  note s1 = allocMeta_step[OF inv g l1(1)]
  note w = meta_written[OF inv g l1(1) len R s1(1), of "{}", folded l1(2)]
  have st: "lstep (xn_geo E) {} {} l1 l1" by (rule lay_step_refl)
  show "linv (xn_geo E) l'" "lstep (xn_geo E) {b} {b} l l'" "b < xg_total (xn_geo E)" "b \<notin> used (xl_al l)"
    "stab view dinv (xg_bs (xn_geo E)) {b} (xl_dev l') (\<lambda>d. x_readBlock D d R b = Inr ?buf)"
    using w[OF st] by simp_all
qed

lemma emit_nodes_reads:
  assumes put: "\<And>o' e b. o' + 12 \<le> length b \<Longrightarrow> put o' e b = blit b o' (enc e)" and enc: "\<And>e. length (enc e) = 12"
    and g: "geo_ok (xn_geo E)" and R: "xr_bs R = xg_bs (xn_geo E)" and depth: "depth \<le> maxExtentDepth"
    and inv: "linv (xn_geo E) l"
    and U: "U \<subseteq> used (xl_al l)"
    and cov: "\<forall>e \<in> set es. stab view dinv (xg_bs (xn_geo E)) U (xl_dev l)
        (\<lambda>d. \<forall>node o'. window node o' 12 = enc e \<longrightarrow>
           (if depth = 0 then leaf_blocks node o' = cov e else node_at f D R (index_child node o') (cov e) d))"
    and r: "emit_nodes D A E put lg (entriesPerNode (xg_bs (xn_geo E))) depth es l = (Inr idx, l')"
  shows "\<exists>B dss. linv (xn_geo E) l' \<and> lstep (xn_geo E) B B l l' \<and> concat dss = concat (map cov es)
     \<and> list_all2 (\<lambda>x ds. ei_child x < xg_total (xn_geo E)
          \<and> stab view dinv (xg_bs (xn_geo E)) (U \<union> B) (xl_dev l') (node_at (Suc f) D R (ei_child x) ds)) idx dss"
  using inv U cov r
proof (induction "length es" arbitrary: es l idx rule: less_induct)
  case less
  let ?g = "xn_geo E" and ?n = "entriesPerNode (xg_bs (xn_geo E))"
  have n: "12 + 12 * ?n \<le> xg_bs ?g" "?n < 65536" "0 < ?n"
    using geo_okD(1)[OF g] upto_fits by (simp_all add: list_all_iff)
  show ?case
  proof (cases "es = []")
    case True
    then have "idx = []" "l' = l" using less.prems(4) by (auto simp: emit_nodes.simps)
    then show ?thesis using True less.prems(1) lay_step_refl by (intro exI[of _ "{}"] exI[of _ "[]"]) auto
  next
    case False
    let ?t = "take ?n es" and ?d = "drop ?n es"
    obtain b l1 idx' l2 where w: "writeExtentNode D A E put ?t ?n depth l = (Inr b, l1)"
      and e: "emit_nodes D A E put lg ?n depth ?d l1 = (Inr idx', l')" and idx: "idx = \<lparr> ei_logical = lg (hd ?t), ei_child = b \<rparr> # idx'"
      using less.prems(4) False n(3) by (subst (asm) emit_nodes.simps) (auto simp: Let_def bindS_Inr_iff)
    have tl: "length ?t \<le> ?n" by simp
    note ws = writeExtentNode_step[OF less.prems(1) g R put enc tl w]
    have Ut: "U \<subseteq> {..<xg_total ?g}" using less.prems(2) used_fits[OF less.prems(1)] by blast
    have Ub: "{b} \<inter> U = {}" "U \<subseteq> used (xl_al l1)" using less.prems(2) ws(2,4) by (auto simp: lay_step_def)
    have lift: "stab view dinv (xg_bs ?g) U (xl_dev l1)
        (\<lambda>d. \<forall>node o'. window node o' 12 = enc e \<longrightarrow>
           (if depth = 0 then leaf_blocks node o' = cov e else node_at f D R (index_child node o') (cov e) d))" if "e \<in> set es" for e
      by (rule stab_keep[OF bspec[OF less.prems(3) that] ws(2) Ub(1) Ut order_refl])
    have cov1: "\<forall>e \<in> set ?d. stab view dinv (xg_bs ?g) U (xl_dev l1)
        (\<lambda>d. \<forall>node o'. window node o' 12 = enc e \<longrightarrow>
           (if depth = 0 then leaf_blocks node o' = cov e else node_at f D R (index_child node o') (cov e) d))" by (intro ballI lift) (rule in_set_dropD)
    have covt: "\<forall>e \<in> set ?t. stab view dinv (xg_bs ?g) U (xl_dev l1)
        (\<lambda>d. \<forall>node o'. window node o' 12 = enc e \<longrightarrow>
           (if depth = 0 then leaf_blocks node o' = cov e else node_at f D R (index_child node o') (cov e) d))" by (intro ballI lift) (rule in_set_takeD)
    have node: "stab view dinv (xg_bs ?g) (insert b U) (xl_dev l1) (node_at (Suc f) D R b (concat (map cov ?t)))"
      unfolding stab_def
    proof (intro allI impI)
      fix d assume d: "dinv d \<and> length (view d) = length (view (xl_dev l1))
        \<and> (\<forall>b \<in> insert b U. blk_view view (xg_bs ?g) d b = blk_view view (xg_bs ?g) (xl_dev l1) b)"
      then have rb: "x_readBlock D d R b = Inr (put_entries put ?t (putExtentHeader (length ?t) ?n depth (zeros (xg_bs ?g))))"
        using stab_at[OF ws(5)] by blast
      have "parseExtents (Suc f) (x_readBlock D d R) (put_entries put ?t (putExtentHeader (length ?t) ?n depth (zeros (xg_bs ?g))))
          = Some (Inr (concat (map cov ?t)))"
      proof (rule parse_node[OF put enc _ _ depth])
        show "12 + 12 * length ?t \<le> xg_bs ?g" "length ?t < 65536" using n by auto
        fix e node o' assume e: "e \<in> set ?t" "window node o' 12 = enc e"
        have "\<forall>node o'. window node o' 12 = enc e \<longrightarrow>
           (if depth = 0 then leaf_blocks node o' = cov e else node_at f D R (index_child node o') (cov e) d)"
          using stab_at[OF covt[rule_format, OF e(1)]] d by blast
        then show "if depth = 0 then leaf_blocks node o' = cov e
            else (case x_readBlock D d R (index_child node o') of Inl x \<Rightarrow> Some (Inl x)
                  | Inr buf \<Rightarrow> parseExtents f (x_readBlock D d R) buf) = Some (Inr (cov e))"
          using e(2) unfolding node_at_def by blast
      qed
      then show "node_at (Suc f) D R b (concat (map cov ?t)) d" by (simp add: node_at_def rb del: parseExtents.simps)
    qed
    have "length ?d < length es" using False n(3) by (cases es) auto
    from less.hyps[OF this ws(1) Ub(2) cov1 e] obtain B dss where ih: "linv ?g l'" "lstep ?g B B l1 l'"
        "concat dss = concat (map cov ?d)"
        "list_all2 (\<lambda>x ds. ei_child x < xg_total ?g
          \<and> stab view dinv (xg_bs ?g) (U \<union> B) (xl_dev l') (node_at (Suc f) D R (ei_child x) ds)) idx' dss" by blast
    have "B \<inter> insert b U = {}" "insert b U \<subseteq> {..<xg_total ?g}" using ih(2) ws(2,3) Ub(2) Ut by (auto simp: lay_step_def)
    then have node': "stab view dinv (xg_bs ?g) (U \<union> ({b} \<union> B)) (xl_dev l') (node_at (Suc f) D R b (concat (map cov ?t)))"
      using stab_keep[OF node ih(2)] by auto
    have ih4: "list_all2 (\<lambda>x ds. ei_child x < xg_total ?g
          \<and> stab view dinv (xg_bs ?g) (U \<union> ({b} \<union> B)) (xl_dev l') (node_at (Suc f) D R (ei_child x) ds)) idx' dss"
      by (rule list_all2_mono[OF ih(4)]) (auto intro: stab_sub)
    have "lstep ?g ({b} \<union> B) ({b} \<union> B) l l'" by (rule lay_step_trans[OF ws(2) ih(2)])
    moreover have "concat (concat (map cov ?t) # dss) = concat (map cov es)"
      using ih(3) by (metis append_take_drop_id concat.simps(2) concat_append map_append)
    ultimately show ?thesis using ih(1) ih4 node' ws(3) unfolding idx
      by (intro exI[of _ "{b} \<union> B"] exI[of _ "concat (map cov ?t) # dss"]) simp
  qed
qed

end

context x_disk
begin

lemma root_reads:
  assumes put: "\<And>o' e b. o' + 12 \<le> length b \<Longrightarrow> put o' e b = blit b o' (enc e)" and enc: "\<And>e. length (enc e) = 12"
    and n: "length es \<le> inlineExtents" and depth: "depth \<le> maxExtentDepth"
    and cov: "\<And>e node o'. e \<in> set es \<Longrightarrow> window node o' 12 = enc e \<Longrightarrow>
        (if depth = 0 then leaf_blocks node o' = cov e else node_at f D R (index_child node o') (cov e) d)"
  shows "parseExtents (Suc f) (x_readBlock D d R) (extent_root put es depth) = Some (Inr (concat (map cov es)))"
  unfolding extent_root_def
proof (rule parse_node[OF put enc _ _ depth])
  show "12 + 12 * length es \<le> totalIBlocks * 4" "length es < 65536" using n by (simp_all add: inlineExtents_def totalIBlocks_def)
  fix e node o' assume "e \<in> set es" "window node o' 12 = enc e"
  from cov[OF this] show "if depth = 0 then leaf_blocks node o' = cov e
      else (case x_readBlock D d R (index_child node o') of Inl x \<Rightarrow> Some (Inl x)
            | Inr buf \<Rightarrow> parseExtents f (x_readBlock D d R) buf) = Some (Inr (cov e))"
    unfolding node_at_def .
qed

lemma length_extent_root:
  assumes put: "\<And>o' e b. o' + 12 \<le> length b \<Longrightarrow> put o' e b = blit b o' (enc e)" and enc: "\<And>e. length (enc e) = 12"
    and n: "length es \<le> inlineExtents"
  shows "length (extent_root put es depth) = 60"
proof -
  let ?h = "putExtentHeader (length es) inlineExtents depth (zeros (totalIBlocks * 4))"
  have "length ?h = 60" by (simp add: putExtentHeader_def totalIBlocks_def)
  then show ?thesis using put_entries_spec[OF put enc, where es = es and b = ?h] n
    by (simp add: extent_root_def inlineExtents_def)
qed

end

text \<open>The block list of an index entry is determined by the device, so the entries determine what they cover.\<close>

definition node_blocks :: "nat \<Rightarrow> 'd device_ops \<Rightarrow> xreader \<Rightarrow> 'd \<Rightarrow> nat \<Rightarrow> nat list" where
  "node_blocks f D R d b =
     (case x_readBlock D d R b of Inl e \<Rightarrow> []
      | Inr buf \<Rightarrow> (case parseExtents f (x_readBlock D d R) buf of Some (Inr ds) \<Rightarrow> ds | _ \<Rightarrow> []))"

lemma node_blocks_eq: "node_at f D R b ds d \<Longrightarrow> node_blocks f D R d b = ds"
  by (auto simp: node_at_def node_blocks_def split: sum.splits)

context x_disk
begin

lemma index_levels_reads:
  assumes g: "geo_ok (xn_geo E)" and R: "xr_bs R = xg_bs (xn_geo E)"
    and inv: "linv (xn_geo E) l" and depth: "0 < depth"
    and U: "U \<subseteq> used (xl_al l)"
    and idx: "list_all2 (\<lambda>x ds. ei_child x < xg_total (xn_geo E)
          \<and> stab view dinv (xg_bs (xn_geo E)) U (xl_dev l) (node_at depth D R (ei_child x) ds)) idx dss"
    and r: "index_levels D A E (entriesPerNode (xg_bs (xn_geo E))) depth idx l = (Inr raw, l')"
  shows "\<exists>B. linv (xn_geo E) l' \<and> lstep (xn_geo E) B B l l' \<and> length raw = 60
     \<and> stab view dinv (xg_bs (xn_geo E)) (U \<union> B) (xl_dev l')
         (\<lambda>d. parseExtents (Suc maxExtentDepth) (x_readBlock D d R) raw = Some (Inr (concat dss)))"
  using inv depth U idx r
proof (induction "Suc maxExtentDepth - depth" arbitrary: depth idx dss l U rule: less_induct)
  case less
  let ?g = "xn_geo E"
  note put = put_entry_blit(2) and enc = index_enc_def
  define cov where "cov = (\<lambda>x :: extentIndex. node_blocks depth D R (xl_dev l) (ei_child x))"
  have d: "dinv (xl_dev l)" using less.prems(1) by (simp add: lay_inv_def)
  have len12: "length (index_enc e) = 12" for e by (simp add: index_enc_def)
  have mcov: "map cov idx = dss"
    using less.prems(4)
  proof (induction idx dss rule: list_all2_induct)
    case (Cons x xs y ys)
    have "node_at depth D R (ei_child x) y (xl_dev l)" using stab_now[OF conjunct2[OF Cons.hyps(1)] d] .
    then show ?case using Cons.IH by (simp add: cov_def node_blocks_eq)
  qed simp
  have each: "ei_child x < xg_total ?g \<and> stab view dinv (xg_bs ?g) U (xl_dev l) (node_at depth D R (ei_child x) (cov x))"
    if "x \<in> set idx" for x
  proof -
    obtain i where i: "i < length idx" "idx ! i = x" using \<open>x \<in> set idx\<close> by (auto simp: in_set_conv_nth)
    then have "cov x = dss ! i" using mcov by auto
    then show ?thesis using list_all2_nthD[OF less.prems(4) i(1)] i by simp
  qed
  have ch: "ei_child x < 2 ^ 48" if "x \<in> set idx" for x using each[OF that] geo_okD(11)[OF g] by simp
  have dm: "depth \<le> maxExtentDepth" using less.prems(5) by (subst (asm) index_levels.simps) (auto split: if_splits)
  show ?case
  proof (cases "length idx \<le> inlineExtents")
    case True
    then have r': "raw = extent_root putExtentIndex idx depth" "l' = l"
      using less.prems(5) dm by (subst (asm) index_levels.simps, simp)+
    have "stab view dinv (xg_bs ?g) U (xl_dev l)
         (\<lambda>d. parseExtents (Suc maxExtentDepth) (x_readBlock D d R) raw = Some (Inr (concat dss)))"
      unfolding stab_def
    proof (intro allI impI)
      fix d' assume d': "dinv d' \<and> length (view d') = length (view (xl_dev l))
        \<and> (\<forall>b \<in> U. blk_view view (xg_bs ?g) d' b = blk_view view (xg_bs ?g) (xl_dev l) b)"
      have "parseExtents (Suc depth) (x_readBlock D d' R) (extent_root putExtentIndex idx depth) = Some (Inr (concat (map cov idx)))"
      proof (rule root_reads[OF put len12 True dm])
        fix e node o' assume e: "e \<in> set idx" "window node o' 12 = index_enc e"
        have "node_at depth D R (ei_child e) (cov e) d'" using stab_at[OF conjunct2[OF each[OF e(1)]]] d' by blast
        then show "if depth = 0 then leaf_blocks node o' = cov e else node_at depth D R (index_child node o') (cov e) d'"
          using index_child_enc[OF e(2) ch[OF e(1)]] less.prems(2) by simp
      qed
      from parseExtents_mono[OF this, of "Suc maxExtentDepth"] show "parseExtents (Suc maxExtentDepth) (x_readBlock D d' R) raw = Some (Inr (concat dss))"
        unfolding r'(1) mcov using dm by blast
    qed
    moreover have "length raw = 60" unfolding r'(1) by (rule length_extent_root[OF put len12 True])
    ultimately show ?thesis using less.prems(1) lay_step_refl r'(2) by (intro exI[of _ "{}"]) simp
  next
    case False
    obtain idx1 l1 where e: "emit_nodes D A E putExtentIndex ei_logical (entriesPerNode (xg_bs ?g)) depth idx l = (Inr idx1, l1)"
      and n: "index_levels D A E (entriesPerNode (xg_bs ?g)) (depth + 1) idx1 l1 = (Inr raw, l')"
      using less.prems(5) dm False by (subst (asm) index_levels.simps) (auto simp: emitIndexNodes_def bindS_Inr_iff)
    have "\<forall>e \<in> set idx. stab view dinv (xg_bs ?g) U (xl_dev l)
        (\<lambda>d. \<forall>node o'. window node o' 12 = index_enc e \<longrightarrow>
           (if depth = 0 then leaf_blocks node o' = cov e else node_at depth D R (index_child node o') (cov e) d))"
    proof
      fix e assume e: "e \<in> set idx"
      have "index_child node o' = ei_child e" if "window node o' 12 = index_enc e" for node o'
        by (rule index_child_enc[OF that ch[OF e]])
      then show "stab view dinv (xg_bs ?g) U (xl_dev l)
        (\<lambda>d. \<forall>node o'. window node o' 12 = index_enc e \<longrightarrow>
           (if depth = 0 then leaf_blocks node o' = cov e else node_at depth D R (index_child node o') (cov e) d))"
        using less.prems(2) by (intro stab_imp[OF conjunct2[OF each[OF e]]]) simp
    qed
    from emit_nodes_reads[OF put len12 g R dm less.prems(1) less.prems(3) this e] obtain B dss1 where
      em: "linv ?g l1" "lstep ?g B B l l1" "concat dss1 = concat (map cov idx)"
        "list_all2 (\<lambda>x ds. ei_child x < xg_total ?g
          \<and> stab view dinv (xg_bs ?g) (U \<union> B) (xl_dev l1) (node_at (Suc depth) D R (ei_child x) ds)) idx1 dss1" by blast
    have UB: "U \<union> B \<subseteq> used (xl_al l1)" using less.prems(3) em(2) by (auto simp: lay_step_def)
    have "Suc maxExtentDepth - (depth + 1) < Suc maxExtentDepth - depth" using dm by simp
    from less.hyps[OF this em(1) _ UB _ n] em(4) obtain B' where ih: "linv ?g l'" "lstep ?g B' B' l1 l'" "length raw = 60"
      "stab view dinv (xg_bs ?g) (U \<union> B \<union> B') (xl_dev l')
         (\<lambda>d. parseExtents (Suc maxExtentDepth) (x_readBlock D d R) raw = Some (Inr (concat dss1)))" by auto
    have "lstep ?g (B \<union> B') (B \<union> B') l l'" by (rule lay_step_trans[OF em(2) ih(2)])
    then show ?thesis using ih em(3) mcov by (intro exI[of _ "B \<union> B'"]) (simp add: Un_assoc)
  qed
qed

text \<open>The tree of any block list with numbers below $2^{48}$ reads back as that list.\<close>

lemma buildExtentTree_reads:
  assumes g: "geo_ok (xn_geo E)" and R: "xr_bs R = xg_bs (xn_geo E)" and inv: "linv (xn_geo E) l"
    and data: "\<forall>x \<in> set data. x < 2 ^ 48"
    and r: "buildExtentTree D A E data l = (Inr raw, l')"
  shows "\<exists>B. linv (xn_geo E) l' \<and> lstep (xn_geo E) B B l l' \<and> length raw = 60
     \<and> stab view dinv (xg_bs (xn_geo E)) B (xl_dev l')
         (\<lambda>d. parseExtents (Suc maxExtentDepth) (x_readBlock D d R) raw = Some (Inr data))"
proof -
  let ?g = "xn_geo E" and ?lv = "contiguousRuns data"
  note ex = contiguousRuns_expand[OF data]
  note put = put_entry_blit(1)
  have len12: "length (leaf_enc e) = 12" for e by (simp add: leaf_enc_def)
  have leaf: "leaf_blocks node o' = leaf_expand e" if "e \<in> set ?lv" "window node o' 12 = leaf_enc e" for e node o'
    using leaf_blocks_enc[OF that(2)] ex(2) that(1) by (simp add: list_all_iff)
  show ?thesis
  proof (cases "length ?lv \<le> inlineExtents")
    case True
    then have r': "raw = extent_root putExtentLeaf ?lv 0" "l' = l" using r by (simp_all add: buildExtentTree_def Let_def)
    have "parseExtents (Suc maxExtentDepth) (x_readBlock D d R) raw = Some (Inr data)" for d
      using root_reads[OF put len12 True, where depth = 0 and cov = leaf_expand and f = maxExtentDepth and R = R and d = d] leaf
      unfolding r'(1) by (simp add: ex(1) del: parseExtents.simps)
    then show ?thesis using inv lay_step_refl length_extent_root[OF put len12 True] r'
      by (intro exI[of _ "{}"]) (simp add: stab_const del: parseExtents.simps)
  next
    case False
    obtain idx l1 where e: "emit_nodes D A E putExtentLeaf el_logical (entriesPerNode (xg_bs ?g)) 0 ?lv l = (Inr idx, l1)"
      and n: "index_levels D A E (entriesPerNode (xg_bs ?g)) 1 idx l1 = (Inr raw, l')"
      using r False by (auto simp: buildExtentTree_def emitLeafNodes_def Let_def bindS_Inr_iff)
    have "\<forall>e \<in> set ?lv. stab view dinv (xg_bs ?g) {} (xl_dev l)
        (\<lambda>d. \<forall>node o'. window node o' 12 = leaf_enc e \<longrightarrow>
           (if (0::nat) = 0 then leaf_blocks node o' = leaf_expand e else node_at 0 D R (index_child node o') (leaf_expand e) d))"
      using leaf by (simp add: stab_def)
    from emit_nodes_reads[OF put len12 g R _ inv empty_subsetI this e] obtain B dss where
      em: "linv ?g l1" "lstep ?g B B l l1" "concat dss = concat (map leaf_expand ?lv)"
        "list_all2 (\<lambda>x ds. ei_child x < xg_total ?g
          \<and> stab view dinv (xg_bs ?g) B (xl_dev l1) (node_at (Suc 0) D R (ei_child x) ds)) idx dss" by auto
    have UB: "B \<subseteq> used (xl_al l1)" using em(2) by (auto simp: lay_step_def)
    from index_levels_reads[OF g R em(1) _ UB _ n] em(4) obtain B' where ih: "linv ?g l'" "lstep ?g B' B' l1 l'" "length raw = 60"
      "stab view dinv (xg_bs ?g) (B \<union> B') (xl_dev l')
         (\<lambda>d. parseExtents (Suc maxExtentDepth) (x_readBlock D d R) raw = Some (Inr (concat dss)))" by auto
    have "lstep ?g (B \<union> B') (B \<union> B') l l'" by (rule lay_step_trans[OF em(2) ih(2)])
    then show ?thesis using ih em(3) ex(1) by (intro exI[of _ "B \<union> B'"]) simp
  qed
qed

end

section \<open>Indirect blocks read back\<close>

text \<open>
  What one call promises that consumes a part of the remaining blocks: its pointer reads as that
  part, whatever the reader needs; only the last pointer of a file may cover fewer blocks than it could.
\<close>

definition ind_ok ::
  "('d \<Rightarrow> bytes) \<Rightarrow> ('d \<Rightarrow> bool) \<Rightarrow> 'd device_ops \<Rightarrow> ('a \<Rightarrow> nat set) \<Rightarrow> ('a \<Rightarrow> nat) \<Rightarrow> ('a \<Rightarrow> bool) \<Rightarrow> xgeo \<Rightarrow> xreader \<Rightarrow> nat
     \<Rightarrow> (nat list \<Rightarrow> ('d, 'a) xlay \<Rightarrow> (nat \<times> nat list) result \<times> ('d, 'a) xlay) \<Rightarrow> bool" where
  "ind_ok view dinv D used atot ainv g R level child \<longleftrightarrow>
     (\<forall>rest l p rest' l'. lay_inv view dinv used atot ainv g l \<and> 0 \<in> used (xl_al l) \<and> rest \<noteq> [] \<and> (\<forall>x \<in> set rest. x < 2 ^ 32)
        \<and> child rest l = (Inr (p, rest'), l') \<longrightarrow>
        (\<exists>B ch. lay_inv view dinv used atot ainv g l' \<and> lay_step view used g B B l l' \<and> rest = ch @ rest' \<and> ch \<noteq> [] \<and> p < 2 ^ 32
           \<and> stab view dinv (xg_bs g) B (xl_dev l') (ptr_at D R level p ch (rest' = []))))"

text \<open>The pointers from the \<open>i\<close>-th on, at most \<open>k\<close> of them, read as \<open>ch\<close>.\<close>

definition ptrs_at :: "'d device_ops \<Rightarrow> xreader \<Rightarrow> nat \<Rightarrow> nat \<Rightarrow> nat \<Rightarrow> bytes \<Rightarrow> nat list \<Rightarrow> bool \<Rightarrow> 'd \<Rightarrow> bool" where
  "ptrs_at D R level k i buf ch fin d \<longleftrightarrow>
     (\<forall>need out. (fin \<longrightarrow> need \<le> length out + length ch) \<longrightarrow>
        rd_loop (x_readIndirect D d R need level) k i buf need out = Inr (out @ take (need - length out) ch))"

lemma ptr_at_0: "ptr_at D R 0 p [p] fin d"
  by (auto simp: ptr_at_def)

lemma ptrs_at_cons:
  assumes "ptr_at D R level (get_le 4 buf (i * 4)) ch1 fin1 d" "ptrs_at D R level k (i + 1) buf ch2 fin d"
    "fin1 \<Longrightarrow> ch2 = [] \<and> fin"
  shows "ptrs_at D R level (Suc k) i buf (ch1 @ ch2) fin d"
  unfolding ptrs_at_def
proof (intro allI impI)
  fix need and out :: "nat list" assume f: "fin \<longrightarrow> need \<le> length out + length (ch1 @ ch2)"
  show "rd_loop (x_readIndirect D d R need level) (Suc k) i buf need out = Inr (out @ take (need - length out) (ch1 @ ch2))"
  proof (cases "length out < need")
    case True
    let ?out1 = "out @ take (need - length out) ch1"
    have "x_readIndirect D d R need level (get_le 4 buf (i * 4)) out = Inr ?out1"
    proof -
      have "fin1 \<longrightarrow> need \<le> length out + length ch1" using assms(3) f by auto
      then show ?thesis using assms(1) True by (simp add: ptr_at_def)
    qed
    moreover have "rd_loop (x_readIndirect D d R need level) k (i + 1) buf need ?out1 = Inr (?out1 @ take (need - length ?out1) ch2)"
    proof -
      have "length ?out1 = length out + min (length ch1) (need - length out)" by simp
      then have "fin \<longrightarrow> need \<le> length ?out1 + length ch2" using f by auto
      then show ?thesis using assms(2) unfolding ptrs_at_def by blast
    qed
    ultimately show ?thesis using True by (auto simp: min_def)
  qed simp
qed

context x_disk
begin

lemma ind_loop_reads:
  assumes ok: "ind_ok view dinv D used atot ainv g R level child"
    and inv: "linv g l" and z: "0 \<in> used (xl_al l)" and rest: "\<forall>x \<in> set rest. x < 2 ^ 32"
    and len: "length buf = bs" "(i + k) * 4 \<le> bs"
    and r: "ind_loop child k i buf rest l = (Inr (buf', rest'), l')"
  shows "\<exists>B ch. linv g l' \<and> lstep g B B l l' \<and> rest = ch @ rest' \<and> (rest \<noteq> [] \<and> 0 < k \<longrightarrow> ch \<noteq> []) \<and> length buf' = bs
     \<and> window buf' 0 (i * 4) = window buf 0 (i * 4)
     \<and> stab view dinv (xg_bs g) B (xl_dev l') (ptrs_at D R level k i buf' ch (rest' = []))"
  using inv z rest len r
proof (induction k arbitrary: i buf rest l)
  case 0
  then have e: "buf' = buf" "rest' = rest" "l' = l" by simp_all
  have "stab view dinv (xg_bs g) {} (xl_dev l) (ptrs_at D R level 0 i buf [] (rest = []))"
    by (simp add: stab_def ptrs_at_def)
  then show ?case using 0 e lay_step_refl by (intro exI[of _ "{}"] exI[of _ "[]"]) simp
next
  case (Suc k)
  show ?case
  proof (cases "rest = []")
    case True
    then have e: "buf' = buf" "rest' = []" "l' = l" using Suc.prems(6) by simp_all
    have "stab view dinv (xg_bs g) {} (xl_dev l) (ptrs_at D R level (Suc k) i buf [] True)"
      by (simp add: stab_def ptrs_at_def)
    then show ?thesis using Suc.prems e True lay_step_refl by (intro exI[of _ "{}"] exI[of _ "[]"]) simp
  next
    case False
    obtain p rest1 l1 where c: "child rest l = (Inr (p, rest1), l1)"
      and n: "ind_loop child k (i + 1) (put_le 4 (i * 4) p buf) rest1 l1 = (Inr (buf', rest'), l')"
      using Suc.prems(6) False by (auto simp: bindS_Inr_iff)
    from ok[unfolded ind_ok_def, rule_format, of l rest p rest1 l1] c Suc.prems False
    obtain B1 ch1 where s1: "linv g l1" "lstep g B1 B1 l l1" "rest = ch1 @ rest1" "ch1 \<noteq> []" "p < 2 ^ 32"
      "stab view dinv (xg_bs g) B1 (xl_dev l1) (ptr_at D R level p ch1 (rest1 = []))" by blast
    have z1: "0 \<in> used (xl_al l1)" using Suc.prems(2) s1(2) by (simp add: lay_step_def)
    have fit: "i * 4 + 4 \<le> length buf" using Suc.prems(4,5) by simp
    have rs: "\<forall>x \<in> set rest1. x < 2 ^ 32" using Suc.prems(3) s1(3) by simp
    have "length (put_le 4 (i * 4) p buf) = bs" "(i + 1 + k) * 4 \<le> bs" using fit Suc.prems(4,5) by simp_all
    from Suc.IH[OF s1(1) z1 rs this n] obtain B2 ch2 where s2: "linv g l'" "lstep g B2 B2 l1 l'" "rest1 = ch2 @ rest'"
      "rest1 \<noteq> [] \<and> 0 < k \<longrightarrow> ch2 \<noteq> []" "length buf' = bs"
      "window buf' 0 ((i + 1) * 4) = window (put_le 4 (i * 4) p buf) 0 ((i + 1) * 4)"
      "stab view dinv (xg_bs g) B2 (xl_dev l') (ptrs_at D R level k (i + 1) buf' ch2 (rest' = []))" by blast
    have dis: "B2 \<inter> B1 = {}" "B1 \<subseteq> {..<xg_total g}" "B2 \<subseteq> {..<xg_total g}" using s1(2) s2(2) by (auto simp: lay_step_def)
    have p1: "stab view dinv (xg_bs g) (B1 \<union> B2) (xl_dev l') (ptr_at D R level p ch1 (rest1 = []))"
      by (rule stab_keep[OF s1(6) s2(2) dis(1,2)]) simp
    have p2: "stab view dinv (xg_bs g) (B1 \<union> B2) (xl_dev l') (ptrs_at D R level k (i + 1) buf' ch2 (rest' = []))"
      by (rule stab_move[OF s2(7)]) simp_all
    have gp: "get_le 4 buf' (i * 4) = p"
    proof -
      have "get_le 4 buf' (0 + i * 4) = get_le 4 (put_le 4 (i * 4) p buf) (0 + i * 4)"
        using s2(6) get_le_window[of "i * 4" 4 "(i + 1) * 4" buf' 0] get_le_window[of "i * 4" 4 "(i + 1) * 4" "put_le 4 (i * 4) p buf" 0]
        by simp
      then show ?thesis using fit s1(5) by (simp add: get_put_le)
    qed
    have "stab view dinv (xg_bs g) (B1 \<union> B2) (xl_dev l') (ptrs_at D R level (Suc k) i buf' (ch1 @ ch2) (rest' = []))"
    proof (rule stab_imp[OF stab_conj[OF p1 p2]])
      fix d assume a: "ptr_at D R level p ch1 (rest1 = []) d \<and> ptrs_at D R level k (i + 1) buf' ch2 (rest' = []) d"
      show "ptrs_at D R level (Suc k) i buf' (ch1 @ ch2) (rest' = []) d"
      proof (rule ptrs_at_cons[OF _ conjunct2[OF a]])
        show "ptr_at D R level (get_le 4 buf' (i * 4)) ch1 (rest1 = []) d" using a gp by simp
        show "rest1 = [] \<Longrightarrow> ch2 = [] \<and> rest' = []" using s2(3) by simp
      qed
    qed
    moreover have "window buf' 0 (i * 4) = window buf 0 (i * 4)"
    proof -
      have "window buf' 0 (i * 4) = window (window buf' 0 ((i + 1) * 4)) 0 (i * 4)" by (simp add: window_window)
      also have "\<dots> = window (put_le 4 (i * 4) p buf) 0 (i * 4)" unfolding s2(6) by (simp add: window_window)
      also have "\<dots> = window buf 0 (i * 4)" using fit by (intro window_put_le_other) simp_all
      finally show ?thesis .
    qed
    moreover have "lstep g (B1 \<union> B2) (B1 \<union> B2) l l'" by (rule lay_step_trans[OF s1(2) s2(2)])
    moreover have "rest = (ch1 @ ch2) @ rest'" using s1(3) s2(3) by simp
    moreover have "ch1 @ ch2 \<noteq> []" using s1(4) by simp
    ultimately show ?thesis using s2(1,5) by blast
  qed
qed

lemma buildIndirect_ok:
  assumes g: "geo_ok (xn_geo E)" and R: "xr_bs R = xg_bs (xn_geo E)"
  shows "ind_ok view dinv D used atot ainv (xn_geo E) R level (buildIndirect D A E level)"
proof (induction level)
  case 0
  show ?case unfolding ind_ok_def
  proof (intro allI impI)
    fix rest :: "nat list" and l p rest' l'
    assume a: "linv (xn_geo E) l \<and> 0 \<in> used (xl_al l) \<and> rest \<noteq> [] \<and> (\<forall>x \<in> set rest. x < 2 ^ 32)
        \<and> buildIndirect D A E 0 rest l = (Inr (p, rest'), l')"
    then have e: "p = hd rest" "rest' = tl rest" "l' = l" "hd rest < 2 ^ 32" by (auto simp: hd_in_set)
    have "stab view dinv (xg_bs (xn_geo E)) {} (xl_dev l) (ptr_at D R 0 p [p] (rest' = []))"
      by (simp add: stab_def ptr_at_0)
    then show "\<exists>B ch. linv (xn_geo E) l' \<and> lstep (xn_geo E) B B l l' \<and> rest = ch @ rest' \<and> ch \<noteq> [] \<and> p < 2 ^ 32
        \<and> stab view dinv (xg_bs (xn_geo E)) B (xl_dev l') (ptr_at D R 0 p ch (rest' = []))"
      using a e lay_step_refl by (intro exI[of _ "{}"] exI[of _ "[p]"]) simp
  qed
next
  case (Suc level)
  let ?g = "xn_geo E"
  show ?case unfolding ind_ok_def
  proof (intro allI impI)
    fix rest :: "nat list" and l p rest' l'
    assume a: "linv ?g l \<and> 0 \<in> used (xl_al l) \<and> rest \<noteq> [] \<and> (\<forall>x \<in> set rest. x < 2 ^ 32)
        \<and> buildIndirect D A E (Suc level) rest l = (Inr (p, rest'), l')"
    then obtain b l1 buf l2 where m: "allocMetaBlock A E l = (Inr b, l1)"
      and lp: "ind_loop (buildIndirect D A E level) (xg_bs ?g div 4) 0 (zeros (xg_bs ?g)) rest l1 = (Inr (buf, rest'), l2)"
      and e: "p = u32 b" "l' = x_writeBlock D E b buf l2"
      by (auto simp: bindS_Inr_iff)
    have inv: "linv ?g l" and z: "0 \<in> used (xl_al l)" and ne: "rest \<noteq> []" and rs: "\<forall>x \<in> set rest. x < 2 ^ 32"
      using a by simp_all
    note s1 = allocMeta_step[OF inv g m]
    have z1: "0 \<in> used (xl_al l1)" using z s1(2) by (simp add: lay_step_def)
    have bs: "0 < xg_bs ?g div 4" "xg_bs ?g div 4 * 4 \<le> xg_bs ?g" using geo_okD(1)[OF g] by (auto simp: block_sizes_def)
    from ind_loop_reads[OF Suc s1(1) z1 rs length_zeros _ lp] bs obtain B ch where s2: "linv ?g l2" "lstep ?g B B l1 l2"
      "rest = ch @ rest'" "ch \<noteq> []" "length buf = xg_bs ?g"
      "stab view dinv (xg_bs ?g) B (xl_dev l2) (ptrs_at D R level (xg_bs ?g div 4) 0 buf ch (rest' = []))"
      using ne by auto
    note w = meta_written[OF inv g m s2(5) R s2(1,2), folded e(2)]
    have b0: "b \<noteq> 0" using w(6) z by metis
    have pb: "p = b" using w(5) geo_okD(11)[OF g] by (simp add: e(1))
    have ws: "lstep ?g {} {b} l2 l'" using write_block_step(2)[OF s2(1,5) w(5)] by (simp add: e(2))
    have Bt: "B \<subseteq> {..<xg_total ?g}" "{b} \<inter> B = {}" using s2(2) w(4) by (auto simp: lay_step_def)
    have ps: "stab view dinv (xg_bs ?g) (insert b B) (xl_dev l') (ptrs_at D R level (xg_bs ?g div 4) 0 buf ch (rest' = []))"
      by (rule stab_keep[OF s2(6) ws Bt(2,1)]) auto
    have rb: "stab view dinv (xg_bs ?g) (insert b B) (xl_dev l') (\<lambda>d. x_readBlock D d R b = Inr buf)"
    proof -
      have "lblk ?g l' b = buf" using write_block_step(3)[OF s2(1,5) w(5)] by (simp add: e(2))
      then show ?thesis using w(1,5) R block_fits[OF w(5), of "xg_bs ?g"]
        by (auto simp: stab_def lay_inv_def intro!: readBlock_view[THEN trans])
    qed
    have "stab view dinv (xg_bs ?g) (insert b B) (xl_dev l') (ptr_at D R (Suc level) p ch (rest' = []))"
    proof (rule stab_imp[OF stab_conj[OF ps rb]])
      fix d assume "ptrs_at D R level (xg_bs ?g div 4) 0 buf ch (rest' = []) d \<and> x_readBlock D d R b = Inr buf"
      then show "ptr_at D R (Suc level) p ch (rest' = []) d"
        using b0 pb R unfolding ptr_at_def ptrs_at_def by simp
    qed
    then show "\<exists>B ch. linv ?g l' \<and> lstep ?g B B l l' \<and> rest = ch @ rest' \<and> ch \<noteq> [] \<and> p < 2 ^ 32
        \<and> stab view dinv (xg_bs ?g) B (xl_dev l') (ptr_at D R (Suc level) p ch (rest' = []))"
      using w(1,2,5) s2(3,4) pb geo_okD(11)[OF g] by (intro exI[of _ "insert b B"] exI[of _ ch]) simp
  qed
qed

end

section \<open>Block maps read back\<close>

text \<open>What \<open>mapBlocks\<close> leaves of an inode: the block map and the count of sectors.\<close>

definition same_map :: "xenv \<Rightarrow> xinode \<Rightarrow> xinode \<Rightarrow> bool" where
  "same_map E i j \<longleftrightarrow> xi_flags j = xi_flags i \<and>
     (if xv_extents (xn_var E) then xi_blockRaw j = xi_blockRaw i else xi_block j = xi_block i)"

definition maps_to :: "xenv \<Rightarrow> 'd device_ops \<Rightarrow> xreader \<Rightarrow> xinode \<Rightarrow> nat \<Rightarrow> nat list \<Rightarrow> 'd \<Rightarrow> bool" where
  "maps_to E D R i sz data d \<longleftrightarrow>
     (\<forall>j xf. same_map E i j \<and> Suc maxExtentDepth \<le> xf \<longrightarrow> x_blockList xf D d R j sz = Some (Inr data))"

definition fresh_map :: "xinode \<Rightarrow> bool" where
  "fresh_map i \<longleftrightarrow> xi_flags i = 0 \<and> xi_block i = replicate totalIBlocks 0 \<and> xi_blockRaw i = None"

text \<open>The inode apart from its map, flags and sector count.\<close>

definition map_kept :: "xenv \<Rightarrow> xinode \<Rightarrow> xinode \<Rightarrow> bool" where
  "map_kept E i i' \<longleftrightarrow>
     (\<exists>raw bl n. i' = i\<lparr>xi_block := bl, xi_blockRaw := raw, xi_flags := (if xv_extents (xn_var E) then extentsFL else 0), xi_blocks := n\<rparr>
        \<and> length bl = totalIBlocks \<and> (\<forall>p \<in> set bl. p < 2 ^ 32)
        \<and> (if xv_extents (xn_var E) then \<exists>r. raw = Some r \<and> length r = 60 else raw = None))"

context x_disk
begin

lemma slot_reads:
  assumes g: "geo_ok (xn_geo E)" and R: "xr_bs R = xg_bs (xn_geo E)" and inv: "linv (xn_geo E) l" and z: "0 \<in> used (xl_al l)"
    and rs: "\<forall>x \<in> set rest. x < 2 ^ 32" and slot: "slot < length (xi_block i)"
    and r: "ind_slot D A E level slot (rest, i) l = (Inr (rest', i'), l')"
  shows "\<exists>B ch p. linv (xn_geo E) l' \<and> lstep (xn_geo E) B B l l' \<and> rest = ch @ rest' \<and> p < 2 ^ 32
     \<and> (i' = i \<and> rest' = [] \<or> i' = i\<lparr>xi_block := (xi_block i)[slot := p]\<rparr>)
     \<and> stab view dinv (xg_bs (xn_geo E)) B (xl_dev l')
         (\<lambda>d. \<forall>j out. xi_block j ! slot = xi_block i' ! slot \<longrightarrow> rd_slot D d R j (length out + length rest) level slot out = Inr (out @ ch))"
proof (cases "rest = []")
  case True
  then have e: "rest' = []" "i' = i" "l' = l" using r by (simp_all add: ind_slot_def)
  have "stab view dinv (xg_bs (xn_geo E)) {} (xl_dev l)
      (\<lambda>d. \<forall>j out. xi_block j ! slot = xi_block i ! slot \<longrightarrow> rd_slot D d R j (length out + length rest) level slot out = Inr (out @ []))"
    using True by (simp add: stab_def rd_slot_def)
  then show ?thesis using inv e True lay_step_refl by (intro exI[of _ "{}"] exI[of _ "[]"] exI[of _ 0]) simp
next
  case False
  obtain p where b: "buildIndirect D A E level rest l = (Inr (p, rest'), l')" and i': "i' = i\<lparr>xi_block := (xi_block i)[slot := p]\<rparr>"
    using r False by (auto simp: ind_slot_def bindS_Inr_iff)
  obtain B ch where s: "linv (xn_geo E) l'" "lstep (xn_geo E) B B l l'" "rest = ch @ rest'" "ch \<noteq> []" "p < 2 ^ 32"
    "stab view dinv (xg_bs (xn_geo E)) B (xl_dev l') (ptr_at D R level p ch (rest' = []))"
    using buildIndirect_ok[OF g R, of level, unfolded ind_ok_def, rule_format, of l rest p rest' l'] b inv z rs False by blast
  have "stab view dinv (xg_bs (xn_geo E)) B (xl_dev l')
      (\<lambda>d. \<forall>j out. xi_block j ! slot = xi_block i' ! slot \<longrightarrow> rd_slot D d R j (length out + length rest) level slot out = Inr (out @ ch))"
  proof (rule stab_imp[OF s(6)], intro allI impI)
    fix d and j :: xinode and out :: "nat list"
    assume pt: "ptr_at D R level p ch (rest' = []) d" and j: "xi_block j ! slot = xi_block i' ! slot"
    have "x_readIndirect D d R (length out + length rest) level p out = Inr (out @ take (length out + length rest - length out) ch)"
      using pt False s(3) unfolding ptr_at_def by auto
    then show "rd_slot D d R j (length out + length rest) level slot out = Inr (out @ ch)"
      using j slot False s(3) by (simp add: rd_slot_def i')
  qed
  then show ?thesis using s i' by blast
qed

lemma mapBlocks_reads:
  assumes g: "geo_ok (xn_geo E)" and R: "xr_bs R = xg_bs (xn_geo E)" and inv: "linv (xn_geo E) l" and z: "0 \<in> used (xl_al l)"
    and data: "\<forall>x \<in> set data. x < xg_total (xn_geo E)" and i: "fresh_map i"
    and need: "x_ceilDiv sz (xg_bs (xn_geo E)) = length data"
    and r: "x_mapBlocks D A E i data l = (Inr i', l')"
  shows "\<exists>B. linv (xn_geo E) l' \<and> lstep (xn_geo E) B B l l' \<and> map_kept E i i'
     \<and> stab view dinv (xg_bs (xn_geo E)) B (xl_dev l') (maps_to E D R i' sz data)"
proof -
  let ?g = "xn_geo E"
  have d32: "\<forall>x \<in> set data. x < 2 ^ 32" and d48: "\<forall>x \<in> set data. x < 2 ^ 48"
    using data geo_okD(11)[OF g] by (auto dest!: bspec)
  show ?thesis
  proof (cases "xv_extents (xn_var E)")
    case True
    then obtain raw where b: "buildExtentTree D A E data l = (Inr raw, l')"
      and i': "i' = set_blocks E (length data) (i\<lparr>xi_blockRaw := Some raw, xi_flags := extentsFL\<rparr>) l'"
      using r i by (auto simp: x_mapBlocks_def bindS_Inr_iff fresh_map_def)
    from buildExtentTree_reads[OF g R inv d48 b] obtain B where s: "linv ?g l'" "lstep ?g B B l l'" "length raw = 60"
      "stab view dinv (xg_bs ?g) B (xl_dev l')
         (\<lambda>d. parseExtents (Suc maxExtentDepth) (x_readBlock D d R) raw = Some (Inr data))" by blast
    have "stab view dinv (xg_bs ?g) B (xl_dev l') (maps_to E D R i' sz data)"
    proof (rule stab_imp[OF s(4)])
      fix d assume p: "parseExtents (Suc maxExtentDepth) (x_readBlock D d R) raw = Some (Inr data)"
      show "maps_to E D R i' sz data d" unfolding maps_to_def
      proof (intro allI impI)
        fix j xf assume j: "same_map E i' j \<and> Suc maxExtentDepth \<le> xf"
        then have f: "xi_flags j = extentsFL" "xi_blockRaw j = Some raw" using True by (simp_all add: same_map_def i' set_blocks_def)
        have "parseExtents xf (x_readBlock D d R) raw = Some (Inr data)" using parseExtents_mono[OF p] j by blast
        then show "x_blockList xf D d R j sz = Some (Inr data)"
          by (simp add: x_blockList_def f R need extentsFL_def)
      qed
    qed
    moreover have "map_kept E i i'" unfolding map_kept_def using i s(3) True
      by (intro exI[of _ "Some raw"] exI[of _ "replicate totalIBlocks 0"] exI[of _ "xi_blocks i'"])
         (auto simp: i' set_blocks_def fresh_map_def)
    ultimately show ?thesis using s(1,2) by blast
  next
    case False
    let ?dir = "take directBlocks data"
    define i0 where "i0 = i\<lparr>xi_block := map u32 ?dir @ drop (length ?dir) (xi_block i)\<rparr>"
    obtain r1 i1 l1 r2 i2 l2 r3 i3 where
      b1: "ind_slot D A E 1 indSingle (drop directBlocks data, i0) l = (Inr (r1, i1), l1)" and
      b2: "ind_slot D A E 2 indDouble (r1, i1) l1 = (Inr (r2, i2), l2)" and
      b3: "ind_slot D A E 3 indTriple (r2, i2) l2 = (Inr (r3, i3), l')" and
      e: "r3 = []" "i' = set_blocks E (length data) i3 l'"
      using r False unfolding x_mapBlocks_def Let_def i0_def by (auto simp: bindS_Inr_iff split: if_splits)
    have mu: "map u32 ?dir = ?dir" using d32 by (intro map_idI) (auto dest: in_set_takeD)
    have i0: "xi_block i0 = ?dir @ replicate (totalIBlocks - length ?dir) 0" using i by (simp add: i0_def mu fresh_map_def)
    have l0: "length (xi_block i0) = 15" by (simp add: i0 totalIBlocks_def directBlocks_def)
    have d32': "\<forall>x \<in> set (drop directBlocks data). x < 2 ^ 32" using d32 by (auto dest: in_set_dropD)
    have sl0: "indSingle < length (xi_block i0)" using l0 by (simp add: indSingle_def)
    from slot_reads[OF g R inv z d32' sl0 b1] obtain B1 c1 p1 where s1: "linv ?g l1" "lstep ?g B1 B1 l l1"
      "drop directBlocks data = c1 @ r1" "p1 < 2 ^ 32" "i1 = i0 \<and> r1 = [] \<or> i1 = i0\<lparr>xi_block := (xi_block i0)[indSingle := p1]\<rparr>"
      "stab view dinv (xg_bs ?g) B1 (xl_dev l1)
         (\<lambda>d. \<forall>j out. xi_block j ! indSingle = xi_block i1 ! indSingle \<longrightarrow>
            rd_slot D d R j (length out + length (drop directBlocks data)) 1 indSingle out = Inr (out @ c1))"
      by blast
    have z1: "0 \<in> used (xl_al l1)" using z s1(2) by (simp add: lay_step_def)
    have l1': "length (xi_block i1) = 15" using s1(5) l0 by auto
    have r1: "\<forall>x \<in> set r1. x < 2 ^ 32" using d32' s1(3) by simp
    have sl1: "indDouble < length (xi_block i1)" using l1' by (simp add: indDouble_def)
    from slot_reads[OF g R s1(1) z1 r1 sl1 b2] obtain B2 c2 p2 where s2: "linv ?g l2" "lstep ?g B2 B2 l1 l2"
      "r1 = c2 @ r2" "p2 < 2 ^ 32" "i2 = i1 \<and> r2 = [] \<or> i2 = i1\<lparr>xi_block := (xi_block i1)[indDouble := p2]\<rparr>"
      "stab view dinv (xg_bs ?g) B2 (xl_dev l2)
         (\<lambda>d. \<forall>j out. xi_block j ! indDouble = xi_block i2 ! indDouble \<longrightarrow>
            rd_slot D d R j (length out + length r1) 2 indDouble out = Inr (out @ c2))"
      by blast
    have z2: "0 \<in> used (xl_al l2)" using z1 s2(2) by (simp add: lay_step_def)
    have l2': "length (xi_block i2) = 15" using s2(5) l1' by auto
    have r2: "\<forall>x \<in> set r2. x < 2 ^ 32" using r1 s2(3) by simp
    have sl2: "indTriple < length (xi_block i2)" using l2' by (simp add: indTriple_def)
    from slot_reads[OF g R s2(1) z2 r2 sl2 b3] obtain B3 c3 p3 where s3: "linv ?g l'" "lstep ?g B3 B3 l2 l'"
      "r2 = c3 @ r3" "p3 < 2 ^ 32" "i3 = i2 \<and> r3 = [] \<or> i3 = i2\<lparr>xi_block := (xi_block i2)[indTriple := p3]\<rparr>"
      "stab view dinv (xg_bs ?g) B3 (xl_dev l')
         (\<lambda>d. \<forall>j out. xi_block j ! indTriple = xi_block i3 ! indTriple \<longrightarrow>
            rd_slot D d R j (length out + length r2) 3 indTriple out = Inr (out @ c3))"
      by blast
    have keep: "xi_block i3 ! indSingle = xi_block i1 ! indSingle" "xi_block i3 ! indDouble = xi_block i2 ! indDouble"
      using s2(5) s3(5) by (auto simp: indSingle_def indDouble_def indTriple_def)
    have dis: "B2 \<inter> B1 = {}" "B3 \<inter> (B1 \<union> B2) = {}" "B1 \<subseteq> {..<xg_total ?g}" "B2 \<subseteq> {..<xg_total ?g}"
      using s1(2) s2(2) s3(2) by (auto simp: lay_step_def)
    have st: "lstep ?g (B1 \<union> B2 \<union> B3) (B1 \<union> B2 \<union> B3) l l'"
      by (rule lay_step_trans[OF lay_step_trans[OF s1(2) s2(2)] s3(2)])
    note q1 = stab_keep[OF stab_keep[OF s1(6) s2(2) dis(1,3) order_refl] s3(2), of "B1 \<union> B2 \<union> B3"]
    note q2 = stab_keep[OF s2(6) s3(2), of "B1 \<union> B2 \<union> B3"]
    note q3 = stab_move[OF s3(6), of "B1 \<union> B2 \<union> B3"]
    define rs where "rs = (\<lambda>d j n lv slot c. \<forall>out. rd_slot D d R j (length out + n) lv slot out = Inr (out @ c))"
    have "stab view dinv (xg_bs ?g) (B1 \<union> B2 \<union> B3) (xl_dev l') (\<lambda>d. \<forall>j. xi_block j = xi_block i3 \<longrightarrow>
        rs d j (length (drop directBlocks data)) 1 indSingle c1 \<and> rs d j (length r1) 2 indDouble c2 \<and> rs d j (length r2) 3 indTriple c3)"
      unfolding rs_def
      by (rule stab_imp[OF stab_conj[OF stab_conj[OF q1 q2] q3]]) (use dis keep in \<open>auto\<close>)
    then have "stab view dinv (xg_bs ?g) (B1 \<union> B2 \<union> B3) (xl_dev l') (maps_to E D R i' sz data)"
    proof (rule stab_imp)
      fix d assume a: "\<forall>j. xi_block j = xi_block i3 \<longrightarrow>
        rs d j (length (drop directBlocks data)) 1 indSingle c1 \<and> rs d j (length r1) 2 indDouble c2 \<and> rs d j (length r2) 3 indTriple c3"
      show "maps_to E D R i' sz data d" unfolding maps_to_def
      proof (intro allI impI)
        fix j xf assume j: "same_map E i' j \<and> Suc maxExtentDepth \<le> xf"
        then have jb: "xi_block j = xi_block i3" using False by (simp add: same_map_def e(2) set_blocks_def)
        have jf: "xi_flags j = 0" using j s1(5) s2(5) s3(5) i by (auto simp: same_map_def e(2) set_blocks_def i0_def fresh_map_def)
        have r: "rs d j (length (drop directBlocks data)) 1 indSingle c1" "rs d j (length r1) 2 indDouble c2" "rs d j (length r2) 3 indTriple c3"
          using a jb by blast+
        have dd: "data = ?dir @ c1 @ c2 @ c3" using s1(3) s2(3) s3(3) e(1) by (metis append.right_neutral append_take_drop_id)
        have t3: "take 12 (xi_block j) = take 12 (xi_block i0)"
          unfolding jb using s1(5) s2(5) s3(5) by (auto simp: indSingle_def indDouble_def indTriple_def)
        have t: "take (min directBlocks (length data)) (xi_block j) = ?dir"
        proof -
          have "take (min directBlocks (length data)) (xi_block j) = take (min directBlocks (length data)) (take 12 (xi_block j))"
            by (simp add: directBlocks_def)
          also have "\<dots> = take (min directBlocks (length data)) (?dir @ replicate (totalIBlocks - length ?dir) 0)"
            unfolding t3 i0 by (simp add: directBlocks_def)
          finally show ?thesis by (simp add: min_def)
        qed
        have n1: "length data = length ?dir + length (drop directBlocks data)" by simp
        have 1: "rd_slot D d R j (length data) 1 indSingle ?dir = Inr (?dir @ c1)"
          using r(1)[unfolded rs_def, rule_format, of ?dir] by (simp only: n1[symmetric])
        have n2: "length data = length (?dir @ c1) + length r1" using s1(3) dd by (metis append_take_drop_id length_append append.assoc)
        have 2: "rd_slot D d R j (length data) 2 indDouble (?dir @ c1) = Inr ((?dir @ c1) @ c2)"
          using r(2)[unfolded rs_def, rule_format, of "?dir @ c1"] by (simp only: n2)
        have n3: "length data = length ((?dir @ c1) @ c2) + length r2" using n2 s2(3) by simp
        have 3: "rd_slot D d R j (length data) 3 indTriple ((?dir @ c1) @ c2) = Inr (((?dir @ c1) @ c2) @ c3)"
          using r(3)[unfolded rs_def, rule_format, of "(?dir @ c1) @ c2"] by (simp only: n3)
        have "((?dir @ c1) @ c2) @ c3 = data" using dd by simp
        moreover have "x_blockList xf D d R j sz = Some
          (bindE (rd_slot D d R j (length data) 1 indSingle ?dir) (\<lambda>out.
           bindE (rd_slot D d R j (length data) 2 indDouble out) (\<lambda>out.
           bindE (rd_slot D d R j (length data) 3 indTriple out) (\<lambda>out. Inr (take (length data) out)))))"
          unfolding x_blockList_def by (simp add: jf R need Let_def t)
        ultimately show "x_blockList xf D d R j sz = Some (Inr data)" by (simp only: 1 2 3 bindE_simps take_all order_refl)
      qed
    qed
    moreover have "map_kept E i i'"
    proof -
      have "\<forall>p \<in> set (xi_block i0). p < 2 ^ 32" using d32 by (auto simp: i0 dest: in_set_takeD)
      then have p: "\<forall>p \<in> set (xi_block i3). p < 2 ^ 32" "length (xi_block i3) = 15"
        using s1(4,5) s2(4,5) s3(4,5) l0 by (auto dest!: set_update_subset_insert[THEN subsetD])
      have "i1 = i\<lparr>xi_block := xi_block i1\<rparr>" using s1(5) by (elim disjE conjE) (simp_all add: i0_def)
      then have "i2 = i\<lparr>xi_block := xi_block i2\<rparr>" using s2(5) by (elim disjE conjE) (simp_all, metis xinode.surjective xinode.update_convs(12))
      then have i3: "i3 = i\<lparr>xi_block := xi_block i3\<rparr>" using s3(5) by (elim disjE conjE) (simp_all, metis xinode.surjective xinode.update_convs(12))
      have "i = i\<lparr>xi_blockRaw := None, xi_flags := 0\<rparr>" using i by (simp add: fresh_map_def)
      then have "i' = i\<lparr>xi_block := xi_block i3, xi_blockRaw := None, xi_flags := 0, xi_blocks := xi_blocks i'\<rparr>"
        using i3 by (simp add: e(2) set_blocks_def) (metis xinode.surjective xinode.update_convs(10,11,12,13))
      then show ?thesis unfolding map_kept_def using p False
        by (intro exI[of _ None] exI[of _ "xi_block i3"] exI[of _ "xi_blocks i'"]) (simp add: totalIBlocks_def)
    qed
    ultimately show ?thesis using s3(1) st by blast
  qed
qed

end

section \<open>Contents read back\<close>

text \<open>A source that returns what it is asked for inside its contents (the contract of \<open>io.ReaderAt\<close>).\<close>

definition full_source :: "source \<Rightarrow> bytes \<Rightarrow> bool" where
  "full_source c content \<longleftrightarrow> src_size c = int (length content) \<and>
     (\<forall>off n. off + n \<le> length content \<longrightarrow>
        (\<exists>e. src_read_at c n (int off) = (window content off n, e) \<and> (e = None \<or> e = Some EOF)))"

lemma bytes_source_full: "full_source (bytes_source b) b"
  by (auto simp: full_source_def bytes_source_def bytes_read_at_def Let_def window_def)

lemma length_pad: "length (buf_of m (window xs off m)) = m"
  by (simp add: window_def)

lemma pad_nth: "t < m \<Longrightarrow> buf_of m (window xs off m) ! t = (if off + t < length xs then xs ! (off + t) else 0)"
  by (auto simp: buf_of_def window_def nth_append zeros_def)

lemma pad_clip: "n = min m (length xs - off) \<Longrightarrow> window xs off n @ zeros (m - n) = buf_of m (window xs off m)"
  by (auto simp: buf_of_def window_def min_def)

lemma window_pad: "a + w \<le> m \<Longrightarrow> window (buf_of m (window xs off m)) a w = buf_of w (window xs (off + a) w)"
  by (rule nth_equalityI) (auto simp: length_pad nth_window pad_nth add.assoc)

lemma buf_of_len [simp]: "length (buf_of m x) = max m (length x)"
  by (simp add: buf_of_def)

text \<open>The blocks \<open>bl\<close> hold the contents from their \<open>i\<close>-th block on, padded with zeros.\<close>

definition content_at :: "('d \<Rightarrow> bytes) \<Rightarrow> nat \<Rightarrow> bytes \<Rightarrow> nat \<Rightarrow> nat list \<Rightarrow> 'd \<Rightarrow> bool" where
  "content_at view bs content i bl d \<longleftrightarrow>
     (\<forall>j < length bl. blk_view view bs d (bl ! j) = buf_of bs (window content ((i + j) * bs) bs))"

lemma content_at_Cons_run:
  assumes "b # take k bl = [b..<b + (k + 1)]" "k \<le> length bl"
    and "\<forall>j < k + 1. blk_view view bs d (b + j) = buf_of bs (window content ((i + j) * bs) bs)"
    and "content_at view bs content (i + k + 1) (drop k bl) d"
  shows "content_at view bs content i (b # bl) d"
  unfolding content_at_def
proof (intro allI impI)
  fix j assume j: "j < length (b # bl)"
  show "blk_view view bs d ((b # bl) ! j) = buf_of bs (window content ((i + j) * bs) bs)"
  proof (cases "j < k + 1")
    case True
    have "(b # bl) ! j = (b # take k bl) ! j" using True by (cases j) auto
    also have "\<dots> = b + j" unfolding assms(1) using True by (simp del: upt_Suc)
    finally show ?thesis using assms(3) True by simp
  next
    case False
    then have "j - (k + 1) < length (drop k bl)" "(b # bl) ! j = drop k bl ! (j - (k + 1))" using j
      by (auto simp: nth_Cons' )
    moreover have "i + k + 1 + (j - (k + 1)) = i + j" using False by simp
    ultimately show ?thesis using assms(4) unfolding content_at_def by metis
  qed
qed

lemma run_follow_take_less:
  assumes "k \<le> run_follow b bl" "\<forall>x \<in> set (b # bl). x < 2 ^ 48"
  shows "b # take k bl = [b..<b + (k + 1)]"
proof -
  have "take k bl = take k (take (run_follow b bl) bl)" using assms(1) by (simp add: min_absorb1)
  also have "take (run_follow b bl) bl = [b + 1..<b + 1 + run_follow b bl]" using run_follow_take[of bl b] assms(2) by simp
  also have "take k \<dots> = [b + 1..<b + 1 + k]" using assms(1) by (intro take_upt) simp
  finally show ?thesis by (simp add: upt_conv_Cons)
qed

context x_disk
begin

lemma content_loop_writes:
  assumes g: "geo_ok (xn_geo E)" and src: "full_source c content" and pw: "0 < perWrite"
    and inv: "linv (xn_geo E) l" and bl: "distinct bl" "\<forall>x \<in> set bl. x < xg_total (xn_geo E)"
    and buf: "length buf = perWrite * xg_bs (xn_geo E)"
    and cover: "bl \<noteq> [] \<longrightarrow> (i + length bl - 1) * xg_bs (xn_geo E) < length content"
    and r: "content_loop D E c (length content) perWrite bl i buf l = (Inr (), l')"
  shows "linv (xn_geo E) l' \<and> lstep (xn_geo E) {} (set bl) l l' \<and> content_at view (xg_bs (xn_geo E)) content i bl (xl_dev l')"
  using inv bl buf cover r
proof (induction "length bl" arbitrary: bl i buf l rule: less_induct)
  case less
  let ?g = "xn_geo E" and ?bs = "xg_bs (xn_geo E)"
  show ?case
  proof (cases bl)
    case Nil
    then show ?thesis using less.prems lay_step_refl by (simp add: content_at_def)
  next
    case (Cons b t)
    define k where "k = min (run_follow b t) (perWrite - 1)"
    have k: "k \<le> run_follow b t" "k + 1 \<le> perWrite" "k \<le> length t" using pw run_follow_le[of b t] by (auto simp: k_def)
    define off where "off = i * ?bs"
    define span where "span = (k + 1) * ?bs"
    define n where "n = min span (length content - off)"
    have bpos: "0 < ?bs" using geo_okD(1)[OF g] by (auto simp: block_sizes_def)
    have rng: "\<forall>x \<in> set (b # t). x < 2 ^ 48" using less.prems(3) geo_okD(11)[OF g] Cons by (auto dest!: bspec)
    have run: "b # take k t = [b..<b + (k + 1)]" by (rule run_follow_take_less[OF k(1) rng])
    have "i * ?bs \<le> (i + length bl - 1) * ?bs" by (rule mult_le_mono1) (simp add: Cons)
    moreover have "(i + length bl - 1) * ?bs < length content" using less.prems(5) Cons by blast
    ultimately have offl: "off < length content" unfolding off_def by (rule le_less_trans)
    obtain e where rd: "src_read_at c n (int off) = (window content off n, e)" "e = None \<or> e = Some EOF"
    proof -
      have "off + n \<le> length content" using offl by (simp add: n_def)
      then show ?thesis using that src unfolding full_source_def by blast
    qed
    define buf1 where "buf1 = blit (blit buf 0 (window content off n)) n (zeros (span - n))"
    have sb: "span \<le> length buf" using mult_le_mono1[OF k(2), of ?bs] less.prems(4) unfolding span_def by simp
    have ns: "n \<le> span" "length (window content off n) = n" using offl by (auto simp: n_def intro!: length_window)
    have lb: "length buf1 = perWrite * ?bs" using sb ns less.prems(4) by (simp add: buf1_def)
    have tk: "take span buf1 = buf_of span (window content off span)"
    proof -
      have "take span buf1 = window content off n @ zeros (span - n)"
        using sb ns by (simp add: buf1_def blit_def)
      then show ?thesis using pad_clip[OF n_def] by simp
    qed
    let ?l1 = "x_writeBlock D E b (take span buf1) l"
    have "content_loop D E c (length content) perWrite (b # t) i buf l
        = content_loop D E c (length content) perWrite (drop k t) (i + k + 1) buf1 ?l1"
      unfolding content_loop.simps Let_def k_def[symmetric] off_def[symmetric] span_def[symmetric] n_def[symmetric] rd(1) prod.case
      using rd(2) by (auto simp: buf1_def)
    then have n: "content_loop D E c (length content) perWrite (drop k t) (i + k + 1) buf1 ?l1 = (Inr (), l')"
      using less.prems(6) unfolding Cons by simp
    have "b + k < xg_total ?g"
    proof -
      have "b + k \<in> set (b # take k t)" unfolding run by simp
      then show ?thesis using less.prems(3) Cons by (auto dest: in_set_takeD)
    qed
    then have bk: "b + (k + 1) \<le> xg_total ?g" by simp
    have len: "length (take span buf1) = (k + 1) * ?bs" unfolding tk length_pad by (simp add: span_def)
    note w = write_blocks_step[OF less.prems(1) len bk disjI1[OF refl]]
    have sd: "set (drop k t) \<subseteq> set bl" "distinct (drop k t)" using less.prems(2) Cons by (auto dest: in_set_dropD)
    have "(i + k + 1) + length (drop k t) - 1 = i + length bl - 1" "drop k t \<noteq> [] \<Longrightarrow> bl \<noteq> []"
      using Cons k(3) by auto
    then have cov: "drop k t \<noteq> [] \<longrightarrow> ((i + k + 1) + length (drop k t) - 1) * ?bs < length content" using less.prems(5) by simp
    have shorter: "length (drop k t) < length bl" using Cons by simp
    have rng': "\<forall>x \<in> set (drop k t). x < xg_total ?g" using sd(1) less.prems(3) by blast
    from less.hyps[OF shorter w(1) sd(2) rng' lb cov n]
    have ih: "linv ?g l'" "lstep ?g {} (set (drop k t)) ?l1 l'" "content_at view ?bs content (i + k + 1) (drop k t) (xl_dev l')"
      by blast+
    have set_eq: "set bl = {b..<b + (k + 1)} \<union> set (drop k t)"
    proof -
      have "set bl = set (b # take k t) \<union> set (drop k t)" unfolding Cons by (metis append_Cons append_take_drop_id set_append)
      then show ?thesis unfolding run set_upt .
    qed
    have dis: "{b..<b + (k + 1)} \<inter> set (drop k t) = {}"
    proof -
      have "distinct ((b # take k t) @ drop k t)" using less.prems(2) Cons by simp
      then show ?thesis unfolding run distinct_append set_upt by blast
    qed
    have "lstep ?g ({} \<union> {}) ({b..<b + (k + 1)} \<union> set (drop k t)) l l'" by (rule lay_step_trans[OF w(2) ih(2)])
    then have st: "lstep ?g {} (set bl) l l'" by (simp add: set_eq)
    have blk: "\<forall>j < k + 1. blk_view view ?bs (xl_dev l') (b + j) = buf_of ?bs (window content ((i + j) * ?bs) ?bs)"
    proof (intro allI impI)
      fix j assume j: "j < k + 1"
      have "b + j \<in> {b..<b + (k + 1)}" using j by simp
      then have "b + j \<notin> set (drop k t)" using dis by blast
      moreover have "b + j < xg_total ?g" using bk j by simp
      ultimately have "blk_view view ?bs (xl_dev l') (b + j) = lblk ?g ?l1 (b + j)" using ih(2) by (simp add: lay_step_def)
      also have "\<dots> = window (buf_of span (window content off span)) (j * ?bs) ?bs" using w(3)[OF j] by (simp add: tk)
      also have "\<dots> = buf_of ?bs (window content (off + j * ?bs) ?bs)"
        using block_fits[OF j, of ?bs] by (intro window_pad) (simp add: span_def)
      finally show "blk_view view ?bs (xl_dev l') (b + j) = buf_of ?bs (window content ((i + j) * ?bs) ?bs)"
        by (simp add: off_def add_mult_distrib)
    qed
    have "content_at view ?bs content i bl (xl_dev l')"
      unfolding Cons by (rule content_at_Cons_run[OF run k(3) blk]) (use ih(3) in simp)
    then show ?thesis using ih(1) st by blast
  qed
qed

end

text \<open>The lazy source over such blocks returns the contents, at every offset.\<close>

definition content_reads :: "'d device_ops \<Rightarrow> nat \<Rightarrow> nat list \<Rightarrow> bytes \<Rightarrow> 'd \<Rightarrow> bool" where
  "content_reads D bs bl content d \<longleftrightarrow>
     (\<forall>n off. off < length content \<longrightarrow> fs_read D d bl (length content) bs n off
        = (window content off n, if off + n > length content then Some EOF else None))"

lemma window_cons_block:
  assumes "0 < n" "off < length xs" "within = off mod bs" "c = min n (min (bs - within) (length xs - off))" "0 < bs"
  shows "window (buf_of bs (window xs (off div bs * bs) bs)) within c @ window xs (off + c) (n - c) = window xs off n"
    and "0 < c" "c \<le> n" "off + c \<le> length xs"
proof -
  have w: "within < bs" using assms(3,5) by simp
  show c: "0 < c" "c \<le> n" "off + c \<le> length xs" using assms w by (auto simp: min_def)
  have o': "off div bs * bs + within = off" using assms(3) by simp
  have "within + c \<le> bs" using assms(4) w by linarith
  then have "window (buf_of bs (window xs (off div bs * bs) bs)) within c = buf_of c (window xs off c)"
    using window_pad[of within c bs xs "off div bs * bs"] unfolding o' by blast
  also have "\<dots> = window xs off c" using c(3) by (intro buf_of_full length_window)
  finally show "window (buf_of bs (window xs (off div bs * bs) bs)) within c @ window xs (off + c) (n - c) = window xs off n"
    using c(2) by (simp add: window_def take_add[symmetric] add.commute[of off c] flip: drop_drop)
qed

context x_disk
begin

lemma content_at_reads:
  assumes d: "dinv d" and bs: "0 < bs" and fit: "\<forall>b \<in> set bl. b * bs + bs \<le> length (view d)"
    and at: "content_at view bs content 0 bl d" and len: "length content \<le> length bl * bs"
  shows "content_reads D bs bl content d"
  unfolding content_reads_def
proof (intro allI impI)
  fix n off assume "off < length content"
  then show "fs_read D d bl (length content) bs n off = (window content off n, if off + n > length content then Some EOF else None)"
  proof (induction n arbitrary: off rule: less_induct)
    case (less n)
    show ?case
    proof (cases "n = 0")
      case True
      then show ?thesis using less.prems by (subst fs_read.simps) (simp add: window_def)
    next
      case False
      define within where "within = off mod bs"
      define c where "c = min n (min (bs - within) (length content - off))"
      note wc = window_cons_block[OF _ less.prems within_def c_def bs]
      have i: "off div bs < length bl"
        using less.prems len by (intro div_small_bound[OF bs]) simp
      have b: "bl ! (off div bs) * bs + bs \<le> length (view d)" using fit i by simp
      have pos: "x_pos (bl ! (off div bs)) bs = int (bl ! (off div bs) * bs)"
        using b dv.size_bound[OF d] by (intro x_pos_small) linarith
      have rd: "read_full D d bs (x_pos (bl ! (off div bs)) bs) = Inr (buf_of bs (window content (off div bs * bs) bs))"
        unfolding pos using dv.read_inside[OF d b] at i by (simp add: content_at_def blk_view_def)
      have step: "fs_read D d bl (length content) bs n off
          = (let (rest, err) = fs_read D d bl (length content) bs (n - c) (off + c) in
             (window (buf_of bs (window content (off div bs * bs) bs)) within c @ rest, err))"
        using False less.prems bs i rd
        by (subst fs_read.simps) (simp add: Let_def within_def[symmetric] c_def[symmetric] min.assoc)
      show ?thesis
      proof (cases "off + c < length content")
        case True
        have "fs_read D d bl (length content) bs (n - c) (off + c)
            = (window content (off + c) (n - c), if off + c + (n - c) > length content then Some EOF else None)"
          using wc(2) False True by (intro less.IH) auto
        then show ?thesis using wc(1,3) False by (simp add: step)
      next
        case end': False
        then have e: "off + c = length content" using wc(4) False by simp
        have "fs_read D d bl (length content) bs (n - c) (off + c) = ([], if 0 < n - c then Some EOF else None)"
          unfolding e by (subst fs_read.simps) simp
        moreover have "window content (off + c) (n - c) = []" unfolding e by (simp add: window_def)
        moreover have "0 < n - c \<longleftrightarrow> length content < off + n" using e wc(3) False by auto
        ultimately show ?thesis using wc(1) False by (simp add: step)
      qed
    qed
  qed
qed

text \<open>Contents written to fresh blocks stay readable as long as those blocks are kept.\<close>

lemma content_stab:
  assumes inv: "linv g l" and g: "geo_ok g" and bl: "\<forall>x \<in> set bl. x < xg_total g"
    and at: "content_at view (xg_bs g) content 0 bl (xl_dev l)" and len: "length content \<le> length bl * xg_bs g"
  shows "stab view dinv (xg_bs g) (set bl) (xl_dev l) (content_reads D (xg_bs g) bl content)"
  unfolding stab_def
proof (intro allI impI)
  fix d' assume d': "dinv d' \<and> length (view d') = length (view (xl_dev l))
      \<and> (\<forall>b \<in> set bl. blk_view view (xg_bs g) d' b = blk_view view (xg_bs g) (xl_dev l) b)"
  have "0 < xg_bs g" using geo_okD(1)[OF g] by (auto simp: block_sizes_def)
  moreover have "\<forall>b \<in> set bl. b * xg_bs g + xg_bs g \<le> length (view d')"
  proof
    fix b assume "b \<in> set bl"
    then have "b < xg_total g" using bl by auto
    then show "b * xg_bs g + xg_bs g \<le> length (view d')"
      using block_fits[of b "xg_total g" "xg_bs g"] inv d' by (simp add: lay_inv_def)
  qed
  moreover have "content_at view (xg_bs g) content 0 bl d'" unfolding content_at_def
  proof (intro allI impI)
    fix j assume "j < length bl"
    moreover from this have "bl ! j \<in> set bl" by simp
    ultimately show "blk_view view (xg_bs g) d' (bl ! j) = buf_of (xg_bs g) (window content ((0 + j) * xg_bs g) (xg_bs g))"
      using at d' by (simp add: content_at_def)
  qed
  ultimately show "content_reads D (xg_bs g) bl content d'" using content_at_reads[of d'] d' len by blast
qed

lemma writeContent_reads:
  assumes g: "geo_ok (xn_geo E)" and src: "case src of None \<Rightarrow> content = [] | Some c \<Rightarrow> full_source c content"
    and inv: "linv (xn_geo E) l" and bl: "distinct bl" "\<forall>x \<in> set bl. x < xg_total (xn_geo E)"
    and n: "length bl = ceil_div (length content) (xg_bs (xn_geo E))"
    and r: "x_writeContent D E src bl (length content) l = (Inr (), l')"
  shows "linv (xn_geo E) l' \<and> lstep (xn_geo E) {} (set bl) l l' \<and> content_at view (xg_bs (xn_geo E)) content 0 bl (xl_dev l')"
proof (cases "bl = []")
  case True
  then show ?thesis using r inv lay_step_refl by (auto simp: x_writeContent_def content_at_def)
next
  case False
  let ?bs = "xg_bs (xn_geo E)"
  have bs: "0 < ?bs" using geo_okD(1)[OF g] by (auto simp: block_sizes_def)
  have "content \<noteq> []" using False n bs by auto
  then obtain c where c: "src = Some c" "full_source c content" using src by (auto split: option.splits)
  let ?pw = "min (max (writeChunkBytes div ?bs) 1) (length bl)"
  have pw: "0 < ?pw" using False by (cases bl) auto
  have "?pw \<noteq> 0" using pw by blast
  then have r': "content_loop D E c (length content) ?pw bl 0 (zeros (?pw * ?bs)) l = (Inr (), l')"
    using r c(1) unfolding x_writeContent_def Let_def by (simp only: if_False option.case)
  have "(length bl - 1) * ?bs < length content"
  proof -
    have "length bl * ?bs < length content + ?bs" unfolding n using bs \<open>content \<noteq> []\<close> by (intro ceil_div_mult_less) auto
    then show ?thesis using False by (cases bl) auto
  qed
  then show ?thesis using content_loop_writes[OF g c(2) pw inv bl length_zeros _ r'] by simp
qed

end

end
