(* ===== verification/ExtProps.thy ===== *)
theory ExtProps
  imports ExtProof Cpio
begin

text \<open>
  Properties of the ext engine on the in-memory device with the bitmap allocator: geometry, modes,
  inodes, superblocks, directory blocks, block maps and file contents, and what it gets wrong.
\<close>

section \<open>The first state\<close>

text \<open>What the layouter reserves: the blocks before the first group, and the overhead of every group.\<close>

definition meta_blocks :: "xgeo \<Rightarrow> nat set" where
  "meta_blocks g = {..<xg_first g} \<union> (\<Union>gr < xg_groups g. {groupStart g gr..<groupStart g gr + overhead g gr})"

lemma layout_overhead:
  "groupLayout g gr = (bbm, ibm, table, firstData) \<Longrightarrow> firstData = groupStart g gr + overhead g gr"
  by (auto simp: groupLayout_def overhead_def Let_def)

context x_disk
begin

lemma new_lay_inv:
  assumes "dinv d" "xg_total (xn_geo E) * xg_bs (xn_geo E) \<le> length (view d)" "ainv a" "atot a = xg_total (xn_geo E)" "used a = {}"
  shows "linv (xn_geo E) (x_newLayouter E d a)"
  using assms by (simp add: lay_inv_def x_newLayouter_def)

lemma reserve_step:
  assumes inv: "linv (xn_geo E) l" and g: "geo_ok (xn_geo E)" and fit: "s + n \<le> xg_total (xn_geo E)"
  shows "linv (xn_geo E) (x_reserve A E s n l)" "used (xl_al (x_reserve A E s n l)) = used (xl_al l) \<union> {s..<s + n}"
    "xl_dev (x_reserve A E s n l) = xl_dev l" "xl_inoOf (x_reserve A E s n l) = xl_inoOf l"
    "xl_built (x_reserve A E s n l) = xl_built l" "xl_inodes (x_reserve A E s n l) = xl_inodes l"
    "xl_usedInos (x_reserve A E s n l) = xl_usedInos l"
proof -
  have i: "ainv (xl_al l)" "s + n \<le> atot (xl_al l)" using inv fit by (simp_all add: lay_inv_def)
  obtain oe a where a: "al_reserve A (xl_al l) s n = (oe, a)" by fastforce
  note ok = alc.reserve_ok[OF i a]
  have eq: "x_reserve A E s n l = (x_mark E s n l)\<lparr>xl_al := a\<rparr>" by (simp add: x_reserve_def Let_def a)
  have "xg_total (xn_geo E) < 2 ^ 32" by (rule geo_okD(11)[OF g])
  then show "linv (xn_geo E) (x_reserve A E s n l)"
    using inv ok mark_used[OF _ fit, of l] by (auto simp: lay_inv_def eq)
  show "used (xl_al (x_reserve A E s n l)) = used (xl_al l) \<union> {s..<s + n}" using ok by (simp add: eq)
  show "xl_dev (x_reserve A E s n l) = xl_dev l" "xl_inoOf (x_reserve A E s n l) = xl_inoOf l"
    "xl_built (x_reserve A E s n l) = xl_built l" "xl_inodes (x_reserve A E s n l) = xl_inodes l"
    "xl_usedInos (x_reserve A E s n l) = xl_usedInos l" by (simp_all add: eq)
qed

lemma reserve_groups:
  assumes inv: "linv (xn_geo E) l" and g: "geo_ok (xn_geo E)" and grs: "\<forall>gr \<in> set grs. gr < xg_groups (xn_geo E)"
  defines "l' \<equiv> fold (\<lambda>gr l. let (_, _, _, firstData) = groupLayout (xn_geo E) gr in
              x_reserve A E (groupStart (xn_geo E) gr) (sub64 firstData (groupStart (xn_geo E) gr)) l) grs l"
  shows "linv (xn_geo E) l' \<and> xl_dev l' = xl_dev l \<and> xl_inoOf l' = xl_inoOf l \<and> xl_built l' = xl_built l
    \<and> xl_inodes l' = xl_inodes l \<and> xl_usedInos l' = xl_usedInos l
    \<and> used (xl_al l') = used (xl_al l) \<union> (\<Union>gr \<in> set grs. {groupStart (xn_geo E) gr..<groupStart (xn_geo E) gr + overhead (xn_geo E) gr})"
  using inv grs unfolding l'_def
proof (induction grs arbitrary: l)
  case (Cons gr grs)
  let ?g = "xn_geo E"
  have gr: "gr < xg_groups ?g" using Cons.prems(2) by simp
  have fit: "groupStart ?g gr + overhead ?g gr \<le> xg_total ?g" by (rule groupStart_bounds(4)[OF g gr])
  have big: "xg_total ?g < 2 ^ 32" by (rule geo_okD(11)[OF g])
  obtain bbm ibm table fd where lay: "groupLayout ?g gr = (bbm, ibm, table, fd)" by (cases "groupLayout ?g gr")
  have "sub64 fd (groupStart ?g gr) = overhead ?g gr"
    using layout_overhead[OF lay] fit big by (simp add: sub64_def)
  then have step: "(let (_, _, _, firstData) = groupLayout ?g gr in x_reserve A E (groupStart ?g gr) (sub64 firstData (groupStart ?g gr)) l)
      = x_reserve A E (groupStart ?g gr) (overhead ?g gr) l" by (simp add: lay)
  note r = reserve_step[OF Cons.prems(1) g fit]
  have grs: "\<forall>gr \<in> set grs. gr < xg_groups ?g" using Cons.prems(2) by simp
  show ?case using Cons.IH[OF r(1) grs] r(2-) unfolding fold_Cons comp_def step by auto
qed simp

lemma reserve_meta_step:
  assumes inv: "linv (xn_geo E) l" and g: "geo_ok (xn_geo E)"
  shows "linv (xn_geo E) (reserve_meta A E l)" "used (xl_al (reserve_meta A E l)) = used (xl_al l) \<union> meta_blocks (xn_geo E)"
    "xl_dev (reserve_meta A E l) = xl_dev l" "xl_inoOf (reserve_meta A E l) = xl_inoOf l"
    "xl_built (reserve_meta A E l) = xl_built l" "xl_inodes (reserve_meta A E l) = xl_inodes l"
    "xl_usedInos (reserve_meta A E l) = xl_usedInos l"
proof -
  let ?g = "xn_geo E" and ?l = "if 0 < xg_first (xn_geo E) then x_reserve A E 0 (xg_first (xn_geo E)) l else l"
  have fit: "0 + xg_first ?g \<le> xg_total ?g" using geo_okD(13)[OF g] by linarith
  note r = reserve_step[OF inv g fit]
  have l: "linv ?g ?l" "used (xl_al ?l) = used (xl_al l) \<union> {..<xg_first ?g}" "xl_dev ?l = xl_dev l" "xl_inoOf ?l = xl_inoOf l"
    "xl_built ?l = xl_built l" "xl_inodes ?l = xl_inodes l" "xl_usedInos ?l = xl_usedInos l"
    using r inv by (auto simp: atLeast0LessThan)
  have grs: "\<forall>gr \<in> set [0..<xg_groups ?g]. gr < xg_groups ?g" by simp
  have m: "reserve_meta A E l = fold (\<lambda>gr l. let (_, _, _, firstData) = groupLayout ?g gr in
              x_reserve A E (groupStart ?g gr) (sub64 firstData (groupStart ?g gr)) l) [0..<xg_groups ?g] ?l"
    by (simp only: reserve_meta_def Let_def)
  note f = reserve_groups[OF l(1) g grs, folded m]
  show "linv ?g (reserve_meta A E l)" "xl_dev (reserve_meta A E l) = xl_dev l" "xl_inoOf (reserve_meta A E l) = xl_inoOf l"
    "xl_built (reserve_meta A E l) = xl_built l" "xl_inodes (reserve_meta A E l) = xl_inodes l"
    "xl_usedInos (reserve_meta A E l) = xl_usedInos l" using f l(3-) by simp_all
  have "used (xl_al (reserve_meta A E l)) = used (xl_al l) \<union> {..<xg_first ?g}
      \<union> (\<Union>gr \<in> set [0..<xg_groups ?g]. {groupStart ?g gr..<groupStart ?g gr + overhead ?g gr})"
    using f l(2) by simp
  then show "used (xl_al (reserve_meta A E l)) = used (xl_al l) \<union> meta_blocks ?g"
    by (simp only: meta_blocks_def set_upt atLeast0LessThan Un_assoc)
qed

end

section \<open>The contracts met\<close>

interpretation xm: x_disk mem_ops "\<lambda>m. m" mem_invar bitmap_ops used_blocks bm_total bm_inv bm_alloc_upto
  by unfold_locales

text \<open>The layouter of a volume in memory is in a consistent state.\<close>

definition mem_lay_ok :: "xgeo \<Rightarrow> (bytes, bitmap) xlay \<Rightarrow> bool" where
  "mem_lay_ok g l \<longleftrightarrow> lay_inv (\<lambda>m. m) mem_invar used_blocks bm_total bm_inv g l"

section \<open>Fields read back\<close>

definition xi_fits :: "xinode \<Rightarrow> bool" where
  "xi_fits i \<longleftrightarrow> xi_uid i < 2 ^ 16 \<and> xi_gid i < 2 ^ 16 \<and> xi_links i < 2 ^ 16 \<and> xi_extra i < 2 ^ 16
     \<and> list_all (\<lambda>f. f i < 2 ^ 32) [xi_size, xi_atime, xi_ctime, xi_mtime, xi_dtime, xi_blocks, xi_flags, xi_fileACL]
     \<and> length (xi_block i) = totalIBlocks \<and> list_all (\<lambda>p. p < 2 ^ 32) (xi_block i)
     \<and> (case xi_blockRaw i of None \<Rightarrow> True | Some raw \<Rightarrow> length raw = totalIBlocks * 4)"

text \<open>What of an inode reaches the disk: the fields, the map as bytes, the attribute area.\<close>

definition i_block_bytes :: "xinode \<Rightarrow> bytes" where
  "i_block_bytes i = (case xi_blockRaw i of Some raw \<Rightarrow> raw | None \<Rightarrow> concat (map (le_bytes 4) (xi_block i)))"

lemma put_i_block_bytes:
  assumes "100 \<le> length b" "length ps = totalIBlocks"
  shows "put_i_block ps b = blit b 40 (concat (map (le_bytes 4) ps))"
proof -
  have *: "n \<le> 15 \<Longrightarrow> fold (\<lambda>i b. put_le 4 (40 + i * 4) (ps ! i) b) [0..<n] b = blit b 40 (concat (map (le_bytes 4) (take n ps)))" for n
  proof (induction n)
    case (Suc n)
    have l: "length (concat (map (le_bytes 4) (take n ps))) = n * 4"
      using Suc.prems assms(2) by (simp add: length_concat o_def sum_list_triv x_consts)
    have "fold (\<lambda>i b. put_le 4 (40 + i * 4) (ps ! i) b) [0..<Suc n] b
        = put_le 4 (40 + n * 4) (ps ! n) (blit b 40 (concat (map (le_bytes 4) (take n ps))))" using Suc by simp
    also have "\<dots> = blit b 40 (concat (map (le_bytes 4) (take n ps)) @ le_bytes 4 (ps ! n))"
      using blit_blit_adjacent[of 40 "concat (map (le_bytes 4) (take n ps))" "le_bytes 4 (ps ! n)" b] l Suc.prems assms(1)
      by (simp add: put_le_def)
    also have "\<dots> = blit b 40 (concat (map (le_bytes 4) (take (Suc n) ps)))"
      using Suc.prems assms(2) by (simp add: take_Suc_conv_app_nth x_consts)
    finally show ?case .
  qed simp
  show ?thesis using *[of 15] assms(2) by (simp add: put_i_block_def x_consts)
qed

definition xi_slot_ok :: "nat \<Rightarrow> xinode \<Rightarrow> bool" where
  "xi_slot_ok isz i \<longleftrightarrow> xi_fits i \<and>
     (isz = goodOldInodeSize \<and> xi_extra i = 0 \<and> xi_xattrIbody i = []
      \<or> isz = ext4InodeSize \<and> xi_extra i = extraISize \<and> length (xi_xattrIbody i) \<le> isz - goodOldInodeSize - extraISize)"

text \<open>The inode as the reader sees it.\<close>

definition xi_seen :: "nat \<Rightarrow> xinode \<Rightarrow> xinode" where
  "xi_seen isz i =
     i\<lparr>xi_block := map (\<lambda>k. get_le 4 (i_block_bytes i) (k * 4)) [0..<totalIBlocks], xi_blockRaw := Some (i_block_bytes i),
       xi_eaSectors := 0, xi_xattrIbody := (if isz = goodOldInodeSize then [] else buf_of 96 (xi_xattrIbody i))\<rparr>"

lemma length_i_block: "xi_fits i \<Longrightarrow> length (i_block_bytes i) = 60"
  by (auto simp: i_block_bytes_def xi_fits_def x_consts length_concat o_def sum_list_triv split: option.splits)

lemma xi_block_seen:
  assumes "xi_fits i" "xi_blockRaw i = None"
  shows "map (\<lambda>k. get_le 4 (i_block_bytes i) (k * 4)) [0..<totalIBlocks] = xi_block i"
proof (rule nth_equalityI)
  have l: "length (xi_block i) = totalIBlocks" using assms(1) by (simp add: xi_fits_def)
  then show "length (map (\<lambda>k. get_le 4 (i_block_bytes i) (k * 4)) [0..<totalIBlocks]) = length (xi_block i)" by simp
  fix k assume "k < length (map (\<lambda>k. get_le 4 (i_block_bytes i) (k * 4)) [0..<totalIBlocks])"
  then have k: "k < length (xi_block i)" using l by simp
  have "window (concat (map (le_bytes 4) (xi_block i))) (k * 4) 4 = le_bytes 4 (xi_block i ! k)"
    using k by (subst window_concat) auto
  moreover have "xi_block i ! k < 2 ^ 32" using assms(1) k by (auto simp: xi_fits_def list_all_iff)
  ultimately show "map (\<lambda>k. get_le 4 (i_block_bytes i) (k * 4)) [0..<totalIBlocks] ! k = xi_block i ! k"
    using k l assms(2) by (simp add: get_le_def i_block_bytes_def)
qed

text \<open>The fixed fields, written and read.\<close>

definition slot_head :: "xinode \<Rightarrow> bytes \<Rightarrow> bytes" where
  "slot_head i z = put_le 4 104 (xi_fileACL i) (blit (put_le 4 32 (xi_flags i) (put_le 4 28 (xi_blocks i)
         (put_le 2 26 (xi_links i) (put_le 2 24 (xi_gid i) (put_le 4 20 (xi_dtime i) (put_le 4 16 (xi_mtime i) (put_le 4 12 (xi_ctime i)
         (put_le 4 8 (xi_atime i) (put_le 4 4 (xi_size i) (put_le 2 2 (xi_uid i) (put_le 2 0 (unat (xi_mode i)) z)))))))))))
          40 (i_block_bytes i))"

definition head_fields :: "xinode \<Rightarrow> bytes \<Rightarrow> bool" where
  "head_fields i c \<longleftrightarrow> get_le 2 c 0 = unat (xi_mode i) \<and> get_le 2 c 2 = xi_uid i \<and> get_le 4 c 4 = xi_size i \<and> get_le 4 c 8 = xi_atime i
     \<and> get_le 4 c 12 = xi_ctime i \<and> get_le 4 c 16 = xi_mtime i \<and> get_le 4 c 20 = xi_dtime i \<and> get_le 2 c 24 = xi_gid i
     \<and> get_le 2 c 26 = xi_links i \<and> get_le 4 c 28 = xi_blocks i \<and> get_le 4 c 32 = xi_flags i \<and> get_le 4 c 104 = xi_fileACL i
     \<and> window c 40 60 = i_block_bytes i"

lemma slot_head_fields:
  assumes f: "xi_fits i" and n: "n = 128 \<or> n = 256"
  shows "length (slot_head i (zeros n)) = n" "head_fields i (slot_head i (zeros n))"
    "108 \<le> a \<Longrightarrow> a + k \<le> n \<Longrightarrow> window (slot_head i (zeros n)) a k = zeros k"
proof -
  note r = length_i_block[OF f]
  have bnd: "xi_uid i < 65536" "xi_gid i < 65536" "xi_links i < 65536" "xi_size i < 4294967296" "xi_atime i < 4294967296"
      "xi_ctime i < 4294967296" "xi_mtime i < 4294967296" "xi_dtime i < 4294967296" "xi_blocks i < 4294967296"
      "xi_flags i < 4294967296" "xi_fileACL i < 4294967296" using f by (simp_all add: xi_fits_def)
  have m: "unat (xi_mode i) mod 65536 = unat (xi_mode i)"
    using unsigned_less[of "xi_mode i", where ?'a = nat] by simp
  have z: "length (zeros n) = n" by simp
  have l: "length (slot_head i (zeros n)) = n \<and> (108 \<le> a \<and> a + k \<le> n \<longrightarrow> window (slot_head i (zeros n)) a k = window (zeros n) a k)" for a k
  proof -
    have "108 \<le> n" using n by auto
    then show ?thesis
      by (simp add: slot_head_def sized[where n = n] r del: length_put_le length_blit window_blit_same)
  qed
  have "head_fields i (slot_head i (zeros n))"
  proof (cases "n = 128")
    case True
    note S = sized[where n = 128]
    show ?thesis unfolding head_fields_def
      by (intro conjI; simp add: True slot_head_def S r m bnd del: length_put_le length_blit window_blit_same)
  next
    case False
    then have N: "n = 256" using n by simp
    note S = sized[where n = 256]
    show ?thesis unfolding head_fields_def
      by (intro conjI; simp add: N slot_head_def S r m bnd del: length_put_le length_blit window_blit_same)
  qed
  then show "length (slot_head i (zeros n)) = n" "head_fields i (slot_head i (zeros n))" using l by simp_all
  show "window (slot_head i (zeros n)) a k = zeros k" if "108 \<le> a" "a + k \<le> n"
    using l[of a k] that by (simp add: window_def zeros_def)
qed

lemma parse_head:
  assumes "head_fields i b" "xi_fits i" "length b = isz" "isz = 128 \<or> isz = 256"
    "130 \<le> isz \<Longrightarrow> get_le 2 b 128 = xi_extra i" "isz = 128 \<Longrightarrow> xi_extra i = 0"
    "isz = 256 \<Longrightarrow> drop (128 + xi_extra i) b = buf_of 96 (xi_xattrIbody i)"
  shows "parseInode b = Inr (xi_seen isz i)"
proof -
  have m: "map (\<lambda>k. get_le 4 b (40 + k * 4)) [0..<totalIBlocks] = map (\<lambda>k. get_le 4 (i_block_bytes i) (k * 4)) [0..<totalIBlocks]"
    using get_le_window[of _ 4 60 b 40] assms(1) by (auto simp: x_consts head_fields_def)
  note h = assms(1)[unfolded head_fields_def]
  have "parseInode b = Inr (xi_seen isz i)" if "isz = 128"
    using that assms(3,6) by (simp add: parseInode_def xi_seen_def h m[unfolded totalIBlocks_def] goodOldInodeSize_def totalIBlocks_def xinode.equality)
  moreover have "parseInode b = Inr (xi_seen isz i)" if "isz = 256"
    using that assms(3,5,7) by (simp add: parseInode_def xi_seen_def h m[unfolded totalIBlocks_def] goodOldInodeSize_def totalIBlocks_def xinode.equality)
  ultimately show ?thesis using assms(4) by blast
qed

lemma marshal_seen:
  assumes "xi_slot_ok isz i"
  shows "\<exists>b. xi_marshalInto i (zeros isz) = Inr b \<and> length b = isz \<and> parseInode b = Inr (xi_seen isz i)"
proof -
  have f: "xi_fits i" using assms by (simp add: xi_slot_ok_def)
  have blk: "(case xi_blockRaw i of Some raw \<Rightarrow> blit b 40 (take fastSymlinkMax raw) | None \<Rightarrow> put_i_block (xi_block i) b)
      = blit b 40 (i_block_bytes i)" if "100 \<le> length b" for b
    using f put_i_block_bytes[OF that] by (auto simp: i_block_bytes_def xi_fits_def x_consts split: option.splits)
  show ?thesis
  proof (cases "isz = goodOldInodeSize")
    case True
    then have z: "isz = 128" "xi_extra i = 0" "xi_xattrIbody i = []" using assms by (auto simp: xi_slot_ok_def x_consts)
    note h = slot_head_fields[OF f disjI1[OF refl]]
    have "xi_marshalInto i (zeros isz) = Inr (slot_head i (zeros 128))"
      by (simp add: xi_marshalInto_def z Let_def blk slot_head_def)
    then show ?thesis using h z parse_head[OF h(2) f h(1)] by simp
  next
    case False
    then have z: "isz = 256" "xi_extra i = 32" "length (xi_xattrIbody i) \<le> 96" using assms by (auto simp: xi_slot_ok_def x_consts)
    note h = slot_head_fields[OF f disjI2[OF refl]]
    let ?n = "length (xi_xattrIbody i)" and ?c = "put_le 2 128 32 (slot_head i (zeros 256))"
    let ?b = "blit ?c 160 (xi_xattrIbody i)"
    have cl: "length ?c = 256" using h(1) by simp
    have "xi_marshalInto i (zeros 256) = (if xi_xattrIbody i \<noteq> []
        then (if 160 > length ?c then Inl (Panic ''slice bounds out of range'')
              else Inr (blit ?c 160 (take (length ?c - 160) (xi_xattrIbody i)))) else Inr ?c)"
      unfolding xi_marshalInto_def slot_head_def by (simp add: z(2) Let_def blk goodOldInodeSize_def sized[where n = 256] length_i_block[OF f] del: not_less length_put_le length_blit)
    then have "xi_marshalInto i (zeros isz) = Inr ?b" using z(3) cl by (simp add: z(1))
    moreover have hf: "head_fields i ?b" using h(2) z(3) by (simp add: head_fields_def sized[where n = 256] h(1))
    moreover have bl: "length ?b = 256" using cl z(3) by simp
    moreover have "get_le 2 ?b 128 = 32" using z(3) h(1) by (simp add: sized[where n = 256])
    moreover have "drop 160 ?b = buf_of 96 (xi_xattrIbody i)"
    proof -
      have "drop (160 + ?n) ?c = window ?c (160 + ?n) (96 - ?n)" using cl by (simp add: window_def)
      also have "\<dots> = zeros (96 - ?n)" using z(3) h(1) h(3)[of "160 + ?n" "96 - ?n"] by (simp add: sized[where n = 256])
      finally show ?thesis using cl by (simp add: blit_def buf_of_def)
    qed
    ultimately show ?thesis using z parse_head[OF hf f bl] by simp
  qed
qed

section \<open>Modes\<close>

lemma perm_16: "ucast (ucast (mode_perm m) :: 16 word) = mode_perm m"
proof -
  have *: "(0x1FF :: filemode) = mask 9" by (simp add: mask_eq_exp_minus_1)
  show ?thesis unfolding mode_perm_def *
    by (intro bit_eqI) (auto simp: bit_simps)
qed

lemma perm_ucast: "ucast (ucast (m :: filemode) AND 0x1FF :: 16 word) = mode_perm m"
proof -
  have *: "(0x1FF :: filemode) = mask 9" "(0x1FF :: 16 word) = mask 9" by (simp_all add: mask_eq_exp_minus_1)
  show ?thesis unfolding mode_perm_def *
    by (intro bit_eqI) (auto simp: bit_simps)
qed

lemmas ext_mode_defs = modeFifo_def modeChrdev_def modeDir_def modeBlkdev_def modeRegFile_def modeSymlink_def modeSock_def
  modeSetuid_def modeSetgid_def modeSticky_def

text \<open>Both engines write the same \<open>st_mode\<close>, one in 16 and one in 32 bits.\<close>

lemma extMode_is_st_mode: "ucast (extMode m) = modeToUnix m"
  unfolding extMode_def modeToUnix_def Let_def
  by (simp add: unsigned_or_eq ext_mode_defs unix_mode_defs perm_16 if_distrib[of "\<lambda>x. ucast x"] cong: if_cong)

lemma ucast_and: "(ucast (v :: 16 word) :: 32 word) AND ucast (k :: 16 word) = ucast (v AND k)"
  by (simp add: unsigned_and_eq)

lemma ucast_eq: "(ucast (v :: 16 word) :: 32 word) = ucast (k :: 16 word) \<longleftrightarrow> v = k"
proof
  assume "(ucast v :: 32 word) = ucast k"
  then have "unat (ucast v :: 32 word) = unat (ucast k :: 32 word)" by simp
  then show "v = k" by (simp add: word_unat_eq_iff unsigned_ucast_eq take_bit_nat_eq_self_iff[THEN iffD2] order.strict_trans[OF unsigned_less])
qed simp

lemma goMode_is_st_mode: "goMode v = modeFromUnix (ucast v)"
proof -
  have n: "sIFMT = ucast (0xF000 :: 16 word)" "sISUID = ucast modeSetuid" "sISGID = ucast modeSetgid" "sISVTX = ucast modeSticky"
    "sIFDIR = ucast modeDir" "sIFLNK = ucast modeSymlink" "sIFCHR = ucast modeChrdev" "sIFBLK = ucast modeBlkdev"
    "sIFIFO = ucast modeFifo" "sIFSOCK = ucast modeSock" "(0x1FF :: 32 word) = ucast (0x1FF :: 16 word)"
    by (simp_all add: unix_mode_defs ext_mode_defs)
  have z: "(ucast (x :: 16 word) :: 32 word) \<noteq> 0 \<longleftrightarrow> x \<noteq> 0" for x
    using ucast_eq[of x 0] by simp
  show ?thesis unfolding goMode_def modeFromUnix_def Let_def n ucast_and ucast_eq z
    by (simp only: or.commute[of ModeDevice ModeCharDevice])
qed

lemma st_type_bits:
  "bit (modeFromUnix v) 31 \<longleftrightarrow> v AND sIFMT = sIFDIR" "bit (modeFromUnix v) 27 \<longleftrightarrow> v AND sIFMT = sIFLNK"
  "bit (modeFromUnix v) 26 \<longleftrightarrow> v AND sIFMT = sIFCHR \<or> v AND sIFMT = sIFBLK" "bit (modeFromUnix v) 21 \<longleftrightarrow> v AND sIFMT = sIFCHR"
  "bit (modeFromUnix v) 25 \<longleftrightarrow> v AND sIFMT = sIFIFO" "bit (modeFromUnix v) 24 \<longleftrightarrow> v AND sIFMT = sIFSOCK"
proof -
  have p: "bit (v AND 0x1FF) n \<longleftrightarrow> bit v n \<and> n < 9" for n
  proof -
    have "(0x1FF :: 32 word) = mask 9" by (simp add: mask_eq_exp_minus_1)
    then show ?thesis by (simp only: bit_and_iff bit_mask_iff possible_bit_def) auto
  qed
  have s: "bit ModeSetuid n \<longleftrightarrow> n = 23" "bit ModeSetgid n \<longleftrightarrow> n = 22" "bit ModeSticky n \<longleftrightarrow> n = 20" for n
    by (auto simp only: mode_push_bit bit_exp_iff possible_bit_word) simp_all
  note d = sIFMT_def sIFSOCK_def sIFLNK_def sIFREG_def sIFBLK_def sIFDIR_def sIFCHR_def sIFIFO_def
  show "bit (modeFromUnix v) 31 \<longleftrightarrow> v AND sIFMT = sIFDIR" "bit (modeFromUnix v) 27 \<longleftrightarrow> v AND sIFMT = sIFLNK"
    "bit (modeFromUnix v) 26 \<longleftrightarrow> v AND sIFMT = sIFCHR \<or> v AND sIFMT = sIFBLK" "bit (modeFromUnix v) 21 \<longleftrightarrow> v AND sIFMT = sIFCHR"
    "bit (modeFromUnix v) 25 \<longleftrightarrow> v AND sIFMT = sIFIFO" "bit (modeFromUnix v) 24 \<longleftrightarrow> v AND sIFMT = sIFSOCK"
    by (simp_all add: modeFromUnix_def Let_def bit_or_iff p s mode_bits d)
qed

lemma st_type: "modeToUnix m AND sIFMT =
   (if bit m 31 then sIFDIR else if bit m 27 then sIFLNK else if bit m 21 then sIFCHR else if bit m 26 then sIFBLK
    else if bit m 25 then sIFIFO else if bit m 24 then sIFSOCK else sIFREG)"
  by (simp add: modeToUnix_def Let_def bit.conj_disj_distrib2 perm_and unix_mode_defs)

lemma dirFileType_round: "dirFileType (modeFromUnix (modeToUnix m)) = dirFileType m"
  unfolding dirFileType_def has_bit st_type_bits st_type
  by (cases "bit m 31"; cases "bit m 27"; cases "bit m 21"; cases "bit m 26"; cases "bit m 25"; cases "bit m 24")
    (simp_all add: unix_mode_defs)

text \<open>
  C24. The mode of an inode is the \<open>st_mode\<close> the cpio engine computes, both ways. Its type, once
  read, is the type in the directory entry, for every mode; a Unix mode reads back as it was.
\<close>

theorem ext_modes_agree:
  "ucast (extMode m) = modeToUnix m \<and> goMode v = modeFromUnix (ucast v)
    \<and> dirFileType (goMode (extMode m)) = dirFileType m \<and> (unix_mode m \<longrightarrow> goMode (extMode m) = m)"
  by (simp add: extMode_is_st_mode goMode_is_st_mode dirFileType_round mode_round_trip)

theorem ext_modes_agree_witness:
  "unix_mode (ModeDir OR ModeSticky OR 0x1FF) \<and> goMode (extMode (ModeDir OR ModeSticky OR 0x1FF)) = ModeDir OR ModeSticky OR 0x1FF"
proof -
  have "unix_mode (ModeDir OR ModeSticky OR 0x1FF)" by (simp add: unix_mode_def unix_types_def mode_defs)
  then show ?thesis using ext_modes_agree[of "ModeDir OR ModeSticky OR 0x1FF" 0] by blast
qed

section \<open>Superblocks\<close>

definition sb_fits :: "xsuper \<Rightarrow> bool" where
  "sb_fits s \<longleftrightarrow> list_all (\<lambda>f. f s < 2 ^ 32) [sb_inodesCount, sb_blocksCount, sb_rBlocksCount, sb_freeBlocksCount,
      sb_freeInodesCount, sb_firstDataBlock, sb_logBlockSize, sb_logFragSize, sb_blocksPerGroup, sb_fragsPerGroup, sb_inodesPerGroup,
      sb_mtime, sb_wtime, sb_revLevel, sb_firstIno, sb_featCompat, sb_featIncompat, sb_featROCompat]
     \<and> list_all (\<lambda>f. f s < 2 ^ 16) [sb_magic, sb_state, sb_errors, sb_inodeSize, sb_blockGroupNr]
     \<and> length (sb_uuid s) = 16 \<and> length (sb_volumeName s) = 16"

lemma super_read:
  assumes "sb_fits s"
  shows "length (sb_marshal s) = 1024"
    "parseSuperblock (sb_marshal s) = s\<lparr>sb_minExtraIsize := 0, sb_wantExtraIsize := 0\<rparr>"
proof -
  note S = sized[where n = 1024]
  have b: "sb_inodesCount s < 4294967296" "sb_blocksCount s < 4294967296" "sb_rBlocksCount s < 4294967296"
    "sb_freeBlocksCount s < 4294967296" "sb_freeInodesCount s < 4294967296" "sb_firstDataBlock s < 4294967296"
    "sb_logBlockSize s < 4294967296" "sb_logFragSize s < 4294967296" "sb_blocksPerGroup s < 4294967296"
    "sb_fragsPerGroup s < 4294967296" "sb_inodesPerGroup s < 4294967296" "sb_mtime s < 4294967296" "sb_wtime s < 4294967296"
    "sb_revLevel s < 4294967296" "sb_firstIno s < 4294967296" "sb_featCompat s < 4294967296" "sb_featIncompat s < 4294967296"
    "sb_featROCompat s < 4294967296" "sb_magic s < 65536" "sb_state s < 65536" "sb_errors s < 65536" "sb_inodeSize s < 65536"
    "sb_blockGroupNr s < 65536" "length (sb_uuid s) = 16" "length (sb_volumeName s) = 16"
    using assms by (simp_all add: sb_fits_def)
  note D = sb_marshal_def Let_def x_superblockSize_def S b
  show "length (sb_marshal s) = 1024"
    by (simp add: D del: length_put_le length_blit window_blit_same)
  have "get_le 4 (sb_marshal s) 0 = sb_inodesCount s" "get_le 4 (sb_marshal s) 4 = sb_blocksCount s"
    "get_le 4 (sb_marshal s) 8 = sb_rBlocksCount s" "get_le 4 (sb_marshal s) 12 = sb_freeBlocksCount s"
    "get_le 4 (sb_marshal s) 16 = sb_freeInodesCount s" "get_le 4 (sb_marshal s) 20 = sb_firstDataBlock s"
    "get_le 4 (sb_marshal s) 24 = sb_logBlockSize s" "get_le 4 (sb_marshal s) 28 = sb_logFragSize s"
    "get_le 4 (sb_marshal s) 32 = sb_blocksPerGroup s" "get_le 4 (sb_marshal s) 36 = sb_fragsPerGroup s"
    "get_le 4 (sb_marshal s) 40 = sb_inodesPerGroup s" "get_le 4 (sb_marshal s) 44 = sb_mtime s"
    "get_le 4 (sb_marshal s) 48 = sb_wtime s" "get_le 2 (sb_marshal s) 56 = sb_magic s" "get_le 2 (sb_marshal s) 58 = sb_state s"
    "get_le 2 (sb_marshal s) 60 = sb_errors s" "get_le 4 (sb_marshal s) 76 = sb_revLevel s" "get_le 4 (sb_marshal s) 84 = sb_firstIno s"
    "get_le 2 (sb_marshal s) 88 = sb_inodeSize s" "get_le 2 (sb_marshal s) 90 = sb_blockGroupNr s"
    "get_le 4 (sb_marshal s) 92 = sb_featCompat s" "get_le 4 (sb_marshal s) 96 = sb_featIncompat s"
    "get_le 4 (sb_marshal s) 100 = sb_featROCompat s" "window (sb_marshal s) 104 16 = sb_uuid s" "window (sb_marshal s) 120 16 = sb_volumeName s"
    by (simp_all add: D del: length_put_le length_blit window_blit_same)
  then show "parseSuperblock (sb_marshal s) = s\<lparr>sb_minExtraIsize := 0, sb_wantExtraIsize := 0\<rparr>"
    by (simp add: parseSuperblock_def)
qed

text \<open>The block size is a power of two, so its logarithm reads back as the size.\<close>

lemma upt_around: "m < n \<Longrightarrow> [0..<n] = [0..<m] @ m # [Suc m..<n]"
  using upt_add_eq_append[of 0 m "n - m"] by (simp add: upt_conv_Cons)

lemma log_of_power:
  assumes "10 \<le> m" "m < 32"
  shows "logBlockSizeFor (2 ^ m) = m - 10"
proof -
  note upt_around[OF assms(2)]
  moreover have "takeWhile (\<lambda>k. \<not> bit (2 ^ m :: nat) k) ([0..<m] @ m # [Suc m..<32]) = [0..<m]"
    by (subst takeWhile_append2) (auto simp: bit_exp_iff)
  ultimately show ?thesis using assms by (simp add: logBlockSizeFor_def u32_of_int_def)
qed

lemma logBlockSize_inverse:
  assumes "bs \<in> set block_sizes"
  shows "1024 * 2 ^ logBlockSizeFor bs = bs" "logBlockSizeFor bs \<le> 6"
proof -
  have "\<exists>m. bs = 2 ^ m \<and> 10 \<le> m \<and> m \<le> 16"
    using assms unfolding block_sizes_def list.set insert_iff empty_iff
    by (elim disjE) (auto intro: exI[of _ 10] exI[of _ 11] exI[of _ 12] exI[of _ 13] exI[of _ 14] exI[of _ 15] exI[of _ 16])
  then obtain m where m: "bs = 2 ^ m" "10 \<le> m" "m \<le> 16" by blast
  then have "logBlockSizeFor bs = m - 10" using log_of_power by simp
  moreover have "1024 * 2 ^ (m - 10) = (2 ^ (10 + (m - 10)) :: nat)" by (simp add: power_add)
  ultimately show "1024 * 2 ^ logBlockSizeFor bs = bs" "logBlockSizeFor bs \<le> 6" using m by simp_all
qed

section \<open>Properties\<close>

text \<open>A small volume: 128 blocks of 1 KiB, one group.\<close>

definition sample_geo :: xgeo where
  "sample_geo = \<lparr> xg_bs = 1024, xg_total = 128, xg_first = 1, xg_bpg = 8192, xg_ipg = 16, xg_isize = 128, xg_ipb = 8,
     xg_icount = 16, xg_groups = 1, xg_gdt = 1, xg_itb = 2 \<rparr>"

lemma one_bit32_of_power: "m < 32 \<Longrightarrow> one_bit32 (2 ^ m)"
proof -
  assume m: "m < 32"
  have "filter (\<lambda>k. bit (2 ^ m :: nat) k) ([0..<m] @ m # [Suc m..<32]) = [m]"
    by (auto simp: bit_exp_iff filter_empty_conv)
  then show ?thesis by (simp add: one_bit32_def upt_around[OF m])
qed

lemma sample_geometry: "x_computeGeometry 131072 1024 128 = Inr sample_geo"
proof -
  have o: "one_bit32 1024" using one_bit32_of_power[of 10] by simp
  let ?g = "\<lparr> xg_bs = 1024, xg_total = 128, xg_first = 1, xg_bpg = 8192, xg_ipg = 0, xg_isize = 128, xg_ipb = 8,
     xg_icount = 0, xg_groups = 1, xg_gdt = 0, xg_itb = 0 \<rparr>"
  have f: "geo_fill 131072 ?g = sample_geo"
  proof -
    have c: "x_ceilDiv 8 1 = 8" "x_ceilDiv 16 8 = 2" "x_ceilDiv 32 1024 = 1" "x_ceilDiv 2048 1024 = 2"
      by (simp_all add: x_ceilDiv_def sub64_def)
    moreover have "x_roundUp 16 8 = 16" by (simp add: x_roundUp_def c u64_def)
    ultimately show ?thesis
      by (simp add: geo_fill_def descSize_def bytesPerInode_def u64_def sample_geo_def Let_def del: geo_fill_sel)
  qed
  have "geo_loop 131072 ?g = Inr sample_geo"
    unfolding geo_loop.simps[of 131072 ?g] f Let_def by (simp add: sample_geo_def)
  moreover have "x_computeGeometry 131072 1024 128 = bindE (geo_loop 131072 ?g)
      (\<lambda>g. if xg_ipg g < firstIno then Inl x_errTooSmall else if xg_total g < overhead g 0 + 8 then Inl x_errTooSmall else Inr g)"
    by (simp add: x_computeGeometry_def Let_def o x_ceilDiv_def sub64_def)
  ultimately show ?thesis by (simp add: sample_geo_def firstIno_def overhead_def)
qed

definition sample_xenv :: "xvariant \<Rightarrow> xenv" where
  "sample_xenv v = \<lparr> xn_geo = sample_geo, xn_var = v, xn_label = '''', xn_now = \<lparr> gt_sec = 0, gt_nsec = 0 \<rparr>, xn_uuid = [] \<rparr>"

definition sample_layout :: "xvariant \<Rightarrow> (bytes, bitmap) xlay" where
  "sample_layout v = reserve_meta bitmap_ops (sample_xenv v) (x_newLayouter (sample_xenv v) (mem_new 131072) (new_bitmap 128))"

lemma sample_geo_ok: "geo_ok sample_geo"
  by (rule computeGeometry_ok(1)[OF sample_geometry]) (simp_all add: sample_geo_def)

lemma sample_layout_ok: "mem_lay_ok sample_geo (sample_layout v)" "0 \<in> used_blocks (xl_al (sample_layout v))"
proof -
  have e: "xn_geo (sample_xenv v) = sample_geo" by (simp add: sample_xenv_def)
  have "lay_inv (\<lambda>m. m) mem_invar used_blocks bm_total bm_inv (xn_geo (sample_xenv v))
      (x_newLayouter (sample_xenv v) (mem_new 131072) (new_bitmap 128))"
    by (rule xm.new_lay_inv) (simp_all add: e sample_geo_def mem_invar_def mem_new_def new_bitmap_spec)
  note r = xm.reserve_meta_step[OF this] 
  show "mem_lay_ok sample_geo (sample_layout v)" using r(1) e sample_geo_ok by (simp add: mem_lay_ok_def sample_layout_def)
  have "0 \<in> meta_blocks sample_geo" by (simp add: meta_blocks_def sample_geo_def)
  then show "0 \<in> used_blocks (xl_al (sample_layout v))" using r(2) e sample_geo_ok by (simp add: sample_layout_def)
qed

text \<open>
  Nothing checks that the descriptors leave room in a group: at 2 TiB with blocks of 1 KiB, half of
  what 32-bit block numbers reach, a geometry is accepted whose group 0 is smaller than its metadata.
\<close>

lemma ext_descriptors_overflow_at_2_tib:
  "\<exists>g. x_computeGeometry (2 ^ 41) 1024 128 = Inr g \<and> xg_total g < 2 ^ 32 \<and> blocksInGroup g 0 < overhead g 0"
proof -
  have o: "one_bit32 1024" using one_bit32_of_power[of 10] by simp
  let ?g = "\<lparr> xg_bs = 1024, xg_total = 2147483648, xg_first = 1, xg_bpg = 8192, xg_ipg = 0, xg_isize = 128, xg_ipb = 8,
     xg_icount = 0, xg_groups = 262144, xg_gdt = 0, xg_itb = 0 \<rparr>"
  let ?f = "\<lparr> xg_bs = 1024, xg_total = 2147483648, xg_first = 1, xg_bpg = 8192, xg_ipg = 512, xg_isize = 128, xg_ipb = 8,
     xg_icount = 134217728, xg_groups = 262144, xg_gdt = 8192, xg_itb = 64 \<rparr>"
  have f: "geo_fill 2199023255552 ?g = ?f"
  proof -
    have c: "x_ceilDiv 134217728 262144 = 512" "x_ceilDiv 512 8 = 64" "x_ceilDiv 8388608 1024 = 8192" "x_ceilDiv 65536 1024 = 64"
      by (simp_all add: x_ceilDiv_def sub64_def)
    moreover have "x_roundUp 512 8 = 512" by (simp add: x_roundUp_def c u64_def)
    ultimately show ?thesis
      by (simp add: geo_fill_def descSize_def bytesPerInode_def u64_def Let_def del: geo_fill_sel)
  qed
  have ns: "\<not> hasSuperblock 262143"
    by (simp add: hasSuperblock_def isPowerOf_def div_out.simps)
  have "blocksInGroup ?f 262143 = 8191" "overhead ?f 262143 = 66"
    using ns by (simp_all add: blocksInGroup_def groupStart_def overhead_def Let_def sub64_def)
  then have "geo_loop 2199023255552 ?g = Inr ?f"
    unfolding geo_loop.simps[of 2199023255552 ?g] f Let_def by (simp add: runtMinDataBlocks_def)
  moreover have "x_computeGeometry (2 ^ 41) 1024 128 = bindE (geo_loop 2199023255552 ?g)
      (\<lambda>g. if xg_ipg g < firstIno then Inl x_errTooSmall else if xg_total g < overhead g 0 + 8 then Inl x_errTooSmall else Inr g)"
    by (simp add: x_computeGeometry_def Let_def o x_ceilDiv_def sub64_def)
  moreover have "overhead ?f 0 = 8259" "blocksInGroup ?f 0 = 8192"
    by (simp_all add: overhead_def hasSuperblock_def blocksInGroup_def groupStart_def Let_def sub64_def)
  ultimately show ?thesis by (simp add: firstIno_def)
qed

text \<open>
  C6. A geometry accepted for a volume of fewer than \<open>2 ^ 32\<close> blocks, and with blocks of 1 KiB of
  at most 1 TiB, fits the device; its groups follow each other without overlap up to the end of the
  volume; superblock, descriptors, bitmaps and inode table of a group fit in it; one block holds each
  bitmap, the inode table holds the inodes and the descriptor table the groups.
\<close>

theorem ext_geometry_is_sound:
  assumes "x_computeGeometry dev bs isz = Inr g" "isz \<in> {0, 128, 256}" "gr < xg_groups g"
    and "dev < 2 ^ 32 * int (xg_bs g)" "xg_bs g = 1024 \<longrightarrow> dev \<le> 2 ^ 40"
  shows "int (xg_total g * xg_bs g) \<le> dev \<and> groupStart g 0 = xg_first g
    \<and> (if gr + 1 < xg_groups g then groupStart g gr + blocksInGroup g gr = groupStart g (gr + 1)
       else groupStart g gr + blocksInGroup g gr = xg_total g)
    \<and> (case groupLayout g gr of (bbm, ibm, table, firstData) \<Rightarrow>
         groupStart g gr + (if hasSuperblock gr then 1 + xg_gdt g else 0) \<le> bbm \<and> bbm < ibm \<and> ibm < table
         \<and> table + xg_itb g \<le> firstData \<and> firstData \<le> groupStart g gr + blocksInGroup g gr)
    \<and> xg_bpg g \<le> xg_bs g * 8 \<and> xg_ipg g \<le> xg_bs g * 8 \<and> firstIno \<le> xg_ipg g
    \<and> xg_ipg g * xg_isize g \<le> xg_itb g * xg_bs g \<and> xg_groups g * descSize \<le> xg_gdt g * xg_bs g"
proof -
  have g: "geo_ok g" "int (xg_total g * xg_bs g) \<le> dev"
    using computeGeometry_ok[OF assms(1,2,4,5)] by blast+
  note k = geo_okD[OF g(1)]
  have oh: "overhead g gr \<le> blocksInGroup g gr" by (rule k(15)[OF assms(3)])
  have blk: "blocksInGroup g gr = min (xg_bpg g) (xg_total g - groupStart g gr)" "groupStart g gr < xg_total g"
    using groupStart_bounds(1,3)[OF g(1) assms(3)] by blast+
  have next_group: "groupStart g (gr + 1) = groupStart g gr + xg_bpg g" by (simp add: groupStart_def)
  have end_of: "if gr + 1 < xg_groups g then groupStart g gr + blocksInGroup g gr = groupStart g (gr + 1)
       else groupStart g gr + blocksInGroup g gr = xg_total g"
  proof (cases "gr + 1 < xg_groups g")
    case True
    then show ?thesis using groupStart_bounds(1)[OF g(1) True] next_group blk by simp
  next
    case False
    then have "xg_groups g = gr + 1" using assms(3) by simp
    then have "xg_total g \<le> groupStart g gr + xg_bpg g" using k(14) by (simp add: groupStart_def)
    then show ?thesis using blk False by simp
  qed
  show ?thesis
    using g(2) end_of oh k(2,6-9) by (simp add: groupLayout_def groupStart_def overhead_def Let_def firstIno_def descSize_def)
qed

theorem ext_geometry_is_sound_witness:
  "int (xg_total sample_geo * xg_bs sample_geo) \<le> 131072 \<and> firstIno \<le> xg_ipg sample_geo"
  using ext_geometry_is_sound[OF sample_geometry, of 0] by (simp add: sample_geo_def)

text \<open>
  C5. Both block maps agree: whichever of indirect blocks (ext2) and extents (ext4) the variant
  uses, the reader gets from the inode exactly the blocks the writer mapped, in order.
\<close>

theorem ext_block_maps_agree:
  assumes geo: "x_computeGeometry dev bs isz = Inr (xn_geo E)" "isz \<in> {0, 128, 256}"
      "dev < 2 ^ 32 * int (xg_bs (xn_geo E))" "xg_bs (xn_geo E) = 1024 \<longrightarrow> dev \<le> 2 ^ 40"
    and R: "xr_bs R = xg_bs (xn_geo E)" and l: "mem_lay_ok (xn_geo E) l" "0 \<in> used_blocks (xl_al l)"
    and data: "\<forall>b \<in> set data. b < xg_total (xn_geo E)" "x_ceilDiv sz (xg_bs (xn_geo E)) = length data"
    and i: "xi_flags i = 0" "xi_block i = replicate totalIBlocks 0" "xi_blockRaw i = None"
    and r: "x_mapBlocks mem_ops bitmap_ops E i data l = (Inr i', l')" and xf: "Suc maxExtentDepth \<le> xf"
  shows "x_blockList xf mem_ops (xl_dev l') R i' sz = Some (Inr data)"
proof -
  have g: "geo_ok (xn_geo E)" by (rule computeGeometry_ok(1)[OF geo])
  have f: "fresh_map i" using i by (simp add: fresh_map_def)
  obtain B where inv: "lay_inv (\<lambda>m. m) mem_invar used_blocks bm_total bm_inv (xn_geo E) l'"
    and st: "stab (\<lambda>m. m) mem_invar (xg_bs (xn_geo E)) B (xl_dev l') (maps_to E mem_ops R i' sz data)"
    using xm.mapBlocks_reads[OF g R l(1)[unfolded mem_lay_ok_def] l(2) data(1) f data(2) r] by blast
  have "maps_to E mem_ops R i' sz data (xl_dev l')" using stab_now[OF st] inv by (simp add: lay_inv_def)
  then show ?thesis using xf by (simp add: maps_to_def same_map_def)
qed

definition sample_inode :: xinode where
  "sample_inode = \<lparr> xi_mode = 0x81A4, xi_uid = 0, xi_size = 0, xi_atime = 0, xi_ctime = 0, xi_mtime = 0, xi_dtime = 0, xi_gid = 0,
     xi_links = 1, xi_blocks = 0, xi_flags = 0, xi_block = replicate totalIBlocks 0, xi_blockRaw = None, xi_extra = 0,
     xi_fileACL = 0, xi_eaSectors = 0, xi_xattrIbody = [] \<rparr>"

theorem ext_block_maps_agree_witness:
  "\<exists>i l. x_mapBlocks mem_ops bitmap_ops (sample_xenv ext4Variant) sample_inode [20, 21, 40] (sample_layout ext4Variant) = (Inr i, l)
     \<and> x_blockList 6 mem_ops (xl_dev l) \<lparr> xr_sb = undefined, xr_bs = 1024, xr_ipg = 16, xr_isize = 128, xr_first = 1, xr_descs = [] \<rparr>
         i 2049 = Some (Inr [20, 21, 40])"
proof -
  let ?E = "sample_xenv ext4Variant" and ?R = "\<lparr> xr_sb = undefined, xr_bs = 1024, xr_ipg = 16, xr_isize = 128, xr_first = 1, xr_descs = [] \<rparr>"
  have e: "xn_geo ?E = sample_geo" "xg_bs sample_geo = 1024" "xg_total sample_geo = 128" by (simp_all add: sample_xenv_def sample_geo_def)
  have "length (contiguousRuns [20, 21, 40]) \<le> inlineExtents"
    by (simp add: contiguousRuns_def split_run.simps u64_def extentMaxLen_def inlineExtents_def)
  then obtain i l where r: "x_mapBlocks mem_ops bitmap_ops ?E sample_inode [20, 21, 40] (sample_layout ext4Variant) = (Inr i, l)"
    by (simp add: x_mapBlocks_def buildExtentTree_def sample_xenv_def ext4Variant_def Let_def)
  have "x_blockList 6 mem_ops (xl_dev l) ?R i 2049 = Some (Inr [20, 21, 40])"
    by (rule ext_block_maps_agree[where E = ?E and dev = 131072 and bs = 1024 and isz = 128, OF _ _ _ _ _ _ _ _ _ _ _ _ r])
      (simp_all add: e sample_geometry sample_layout_ok sample_inode_def x_ceilDiv_def sub64_def maxExtentDepth_def)
  then show ?thesis using r by blast
qed

text \<open>
  C22. The blocks of a directory are of the block size and parse to the entries they were packed
  from, in order and none lost, for every block size below 64 KiB.
\<close>

theorem ext_directory_reads_back:
  assumes "list_all (\<lambda>e. 0 < de_ino e \<and> de_ino e < 2 ^ 32 \<and> length (de_name e) \<le> 255 \<and> de_ftype e < 256) es"
    and "1024 \<le> bs" "bs < 65536"
  shows "concat (map (\<lambda>b. parseDirBlock b 0) (buildDirBlocks es bs)) = es \<and> list_all (\<lambda>b. length b = bs) (buildDirBlocks es bs)"
proof -
  have "list_all dentry_ok es" using assms(1) by (simp add: list_all_iff dentry_ok_def)
  then show ?thesis using buildDirBlocks_read[of es bs] assms(2,3) by blast
qed

theorem ext_directory_reads_back_witness:
  "concat (map (\<lambda>b. parseDirBlock b 0) (buildDirBlocks [\<lparr> de_ino = 2, de_name = ''.'', de_ftype = 2 \<rparr>, \<lparr> de_ino = 12, de_name = ''etc'', de_ftype = 2 \<rparr>] 1024))
     = [\<lparr> de_ino = 2, de_name = ''.'', de_ftype = 2 \<rparr>, \<lparr> de_ino = 12, de_name = ''etc'', de_ftype = 2 \<rparr>]"
  using ext_directory_reads_back[of "[\<lparr> de_ino = 2, de_name = ''.'', de_ftype = 2 \<rparr>, \<lparr> de_ino = 12, de_name = ''etc'', de_ftype = 2 \<rparr>]" 1024] by simp

text \<open>
  C27. With blocks of 64 KiB an entry that has a block to itself is lost: its record length of 65536
  is stored as 0, where the reader stops.
\<close>

theorem ext_lone_entry_is_lost:
  assumes "0 < de_ino e" "length (de_name e) \<le> 255"
  shows "concat (map (\<lambda>b. parseDirBlock b 0) (buildDirBlocks [e] 65536)) = []"
proof -
  have need: "8 + length (de_name e) \<le> dentryLen (length (de_name e))" "dentryLen (length (de_name e)) \<le> 266"
    using dentryLen_ge[of "length (de_name e)"] assms(2) by simp_all
  let ?c = "putDentry (zeros 65536) 0 e (dentryLen (length (de_name e)))"
  have len: "length ?c = 65536"
    using assms(2) by (simp add: putDentry_def Let_def)
  have b: "buildDirBlocks [e] 65536 = [put_le 2 4 65536 ?c]"
    using need by (simp add: buildDirBlocks_def dir_add_def dir_flush_def Let_def)
  have "get_le 2 (put_le 2 4 65536 ?c) 4 = 0" using len by (subst get_put_le) simp_all
  then have "parseDirBlock (put_le 2 4 65536 ?c) 0 = []" by (subst parseDirBlock.simps) (simp add: Let_def)
  then show ?thesis by (simp add: b)
qed

theorem ext_lone_entry_is_lost_witness:
  "concat (map (\<lambda>b. parseDirBlock b 0) (buildDirBlocks [\<lparr> de_ino = 12, de_name = ''a'', de_ftype = 1 \<rparr>] 65536)) = []"
  using ext_lone_entry_is_lost[of "\<lparr> de_ino = 12, de_name = ''a'', de_ftype = 1 \<rparr>"] by simp

text \<open>
  C23. An inode whose fields fit their widths is written to its slot of the inode table and read back
  field by field; the block map comes back as the bytes and as the pointers they spell.
\<close>

theorem ext_inode_reads_back:
  assumes "xi_fits i"
    and "isz = 128 \<and> xi_extra i = 0 \<and> xi_xattrIbody i = [] \<or> isz = 256 \<and> xi_extra i = 32 \<and> length (xi_xattrIbody i) \<le> 96"
  shows "\<exists>b. xi_marshalInto i (zeros isz) = Inr b \<and> length b = isz
    \<and> parseInode b = Inr (i\<lparr>xi_block := (if xi_blockRaw i = None then xi_block i
            else map (\<lambda>k. get_le 4 (the (xi_blockRaw i)) (k * 4)) [0..<totalIBlocks]),
        xi_blockRaw := Some (case xi_blockRaw i of Some raw \<Rightarrow> raw | None \<Rightarrow> concat (map (le_bytes 4) (xi_block i))),
        xi_eaSectors := 0, xi_xattrIbody := (if isz = 128 then [] else buf_of 96 (xi_xattrIbody i))\<rparr>)"
proof -
  have "xi_slot_ok isz i" using assms by (auto simp: xi_slot_ok_def goodOldInodeSize_def ext4InodeSize_def extraISize_def)
  note m = marshal_seen[OF this]
  have "xi_seen isz i = i\<lparr>xi_block := (if xi_blockRaw i = None then xi_block i
            else map (\<lambda>k. get_le 4 (the (xi_blockRaw i)) (k * 4)) [0..<totalIBlocks]),
        xi_blockRaw := Some (case xi_blockRaw i of Some raw \<Rightarrow> raw | None \<Rightarrow> concat (map (le_bytes 4) (xi_block i))),
        xi_eaSectors := 0, xi_xattrIbody := (if isz = 128 then [] else buf_of 96 (xi_xattrIbody i))\<rparr>"
  proof (cases "xi_blockRaw i")
    case None
    show ?thesis unfolding xi_seen_def xi_block_seen[OF assms(1) None] by (simp add: None i_block_bytes_def goodOldInodeSize_def)
  next
    case (Some raw)
    then show ?thesis by (simp add: xi_seen_def i_block_bytes_def goodOldInodeSize_def)
  qed
  then show ?thesis using m by simp
qed

theorem ext_inode_reads_back_witness:
  "\<exists>b. xi_marshalInto sample_inode (zeros 128) = Inr b \<and> parseInode b = Inr (sample_inode\<lparr>xi_blockRaw := Some (zeros 60)\<rparr>)"
proof -
  have f: "xi_fits sample_inode" by (simp add: xi_fits_def sample_inode_def totalIBlocks_def list_all_iff)
  have z: "concat (map (le_bytes 4) (xi_block sample_inode)) = zeros 60"
  proof -
    have "concat (replicate n (zeros 4)) = zeros (n * 4)" for n
      by (induction n) (simp_all add: zeros_def replicate_add)
    moreover have "le_bytes n 0 = zeros n" for n by (induction n) (simp_all add: zeros_def)
    ultimately show ?thesis by (simp add: sample_inode_def totalIBlocks_def)
  qed
  have e: "sample_inode\<lparr>xi_block := xi_block sample_inode, xi_blockRaw := Some (zeros 60), xi_eaSectors := 0, xi_xattrIbody := []\<rparr>
      = sample_inode\<lparr>xi_blockRaw := Some (zeros 60)\<rparr>" by (simp add: sample_inode_def)
  have n: "xi_blockRaw sample_inode = None" by (simp add: sample_inode_def)
  show ?thesis using ext_inode_reads_back[OF f, of 128] by (simp add: n z e) (simp add: sample_inode_def, blast)
qed

text \<open>
  C26. On a device too small for a single block of data \<open>Format\<close> divides by the number of
  groups, which is zero, instead of returning the error it has for the case.
\<close>

theorem ext_tiny_device_panics:
  assumes "one_bit32 bs" "1024 \<le> bs" "bs \<le> 65536" "0 < dev" "dev < (if bs = 1024 then 2048 else int bs)"
  shows "x_computeGeometry dev bs isz = Inl (Panic ''integer divide by zero'')"
proof -
  have z: "geo_loop n g = Inl (Panic ''integer divide by zero'')" if "xg_groups g = 0" for n g
    using that by (subst geo_loop.simps) simp
  have "x_ceilDiv (sub64 (nat dev div bs) (if bs = 1024 then 1 else 0)) (bs * 8) = 0"
  proof (cases "bs = 1024")
    case True
    then have "nat dev div bs = 0 \<or> nat dev div bs = 1" using assms(4,5) by auto
    then show ?thesis by (elim disjE) (simp_all add: True x_ceilDiv_def sub64_def)
  next
    case False
    then have "nat dev div bs = 0" using assms(4,5) by simp
    then show ?thesis using False assms(2,3) by (simp add: x_ceilDiv_def sub64_def)
  qed
  then show ?thesis using assms by (simp add: x_computeGeometry_def Let_def z)
qed

theorem ext_tiny_device_panics_witness:
  "x_computeGeometry 2047 1024 128 = Inl (Panic ''integer divide by zero'')"
  using ext_tiny_device_panics[of 1024 2047 128] one_bit32_of_power[of 10] by simp

text \<open>
  C25. The depth of an extent node is not required to go down: an index node whose first entry points
  at itself is read for ever, whatever the fuel.
\<close>

theorem ext_extent_cycle_never_returns:
  assumes "rd b = Inr node" "get_le 2 node 0 = extentMagic" "0 < get_le 2 node 2" "0 < get_le 2 node 6"
    "get_le 2 node 6 \<le> maxExtentDepth" "24 \<le> length node" "index_child node 12 = b"
  shows "parseExtents fuel rd node = None"
proof (induction fuel)
  case (Suc fuel)
  have "[0..<get_le 2 node 2] = 0 # [1..<get_le 2 node 2]" using assms(3) by (simp add: upt_conv_Cons)
  then show ?case using assms Suc by (simp add: Let_def extentHeaderSize_def extentEntrySize_def)
qed simp

theorem ext_extent_cycle_never_returns_witness:
  "\<forall>fuel. parseExtents fuel (\<lambda>b. Inr (extent_root putExtentIndex [\<lparr> ei_logical = 0, ei_child = 7 \<rparr>] 1))
     (extent_root putExtentIndex [\<lparr> ei_logical = 0, ei_child = 7 \<rparr>] 1) = None"
proof -
  define n where "n = extent_root putExtentIndex [\<lparr> ei_logical = 0, ei_child = 7 \<rparr>] 1"
  have n: "n = putExtentIndex 12 \<lparr> ei_logical = 0, ei_child = 7 \<rparr> (putExtentHeader 1 4 1 (zeros 60))"
    by (simp add: n_def extent_root_def put_entries_def extentHeaderSize_def extentEntrySize_def inlineExtents_def totalIBlocks_def)
  note S = sized[where n = 60]
  have "length n = 60" "get_le 2 n 0 = extentMagic" "get_le 2 n 2 = 1" "get_le 2 n 6 = 1" "index_child n 12 = 7"
    by (simp_all add: n putExtentIndex_def putExtentHeader_def S index_child_def extentMagic_def
        del: length_put_le length_blit)
  then have "\<forall>fuel. parseExtents fuel (\<lambda>b. Inr n) n = None"
    by (intro allI ext_extent_cycle_never_returns[where b = 7]) (simp_all add: maxExtentDepth_def)
  then show ?thesis unfolding n_def by blast
qed

end
