(* ===== verification/Spec2Isabelle.thy ===== *)
theory Spec2Isabelle
  imports Prelude Codec Device Alloc Image Qcow2 Cpio Partition Fat Romfs Strings Mtree Oci OciLayout ExtFormat ExtWrite ExtRead ExtProof ExtProps
begin

text \<open>
  A verification development for fsforge, a Go library that creates, reads and edits file-system
  images, disk images and archives without root privileges.

  How the program is put together. A \<open>device.Device\<close> is a random-access block store. An image is a
  tree of nodes (\<open>tree.Inode\<close>, \<open>image.Node\<close>) edited through \<open>image.Mem\<close>. An engine lays the tree
  out on a device (\<open>Finalize\<close>) and reads one back (\<open>Open\<close>). Around the engines are allocators,
  partition tables, the QCOW2 container, mtree specifications that describe or amend a tree, and OCI
  layers that are flattened into one.

  \<^item> \<open>Prelude\<close>: machine integers as \<open>nat\<close> and \<open>int\<close> with the wrap-around written out, Go errors as
    a sum type (a panic is an error value), byte strings, little- and big-endian fields, buffers.
  \<^item> \<open>Codec\<close>, \<open>Strings\<close>: what the code uses of Go's text encodings, dates, \<open>strings\<close>, \<open>path\<close> and
    \<open>strconv\<close>; CRC-32C (\<open>internal/binio\<close>).
  \<^item> \<open>Device\<close> (\<open>pkg/device\<close>): the device interface as a record of operations and as a locale, with
    the in-memory device, the section window and the host file as instances.
  \<^item> \<open>Alloc\<close> (\<open>pkg/alloc\<close>): the allocator interface as a locale, the bitmap allocator, \<open>AllocRuns\<close>.
    Shown: first fit, the invariant of the bitmap under every call, all-or-nothing allocation.
  \<^item> \<open>Image\<close> (\<open>pkg/tree\<close>, \<open>pkg/image\<close>): nodes in a store, because names share nodes; the editing
    calls. Shown: the result is always a finite tree with valid names and exact link counts.
  \<^item> \<open>Qcow2\<close> (\<open>pkg/qcow2\<close>): writer, \<open>Finalize\<close> and reader. Shown: the writer refines a flat disk,
    the finished image reads back, the reference counts cover it.
  \<^item> \<open>Cpio\<close> (\<open>pkg/cpio\<close>), \<open>Romfs\<close> (\<open>pkg/romfs\<close>), \<open>Fat\<close> (\<open>pkg/fat\<close>), \<open>Partition\<close>
    (\<open>pkg/partition\<close>): the engines and partition tables. Shown: geometry and layout invariants,
    round trips of headers, names, tables and whole archives, termination of the readers. The cluster
    count of a FAT32 volume is shown to fit its entries up to 2 TiB; from 5 TiB on it does not.
  \<^item> \<open>ExtFormat\<close>, \<open>ExtWrite\<close>, \<open>ExtRead\<close> (\<open>pkg/ext\<close>): the ext2 and ext4 engine. \<open>ExtFormat\<close> holds
    what is a function of its input (geometry, superblocks, inodes, directory blocks, extents,
    attributes), \<open>ExtWrite\<close> the layouter, \<open>ExtRead\<close> the reader. \<open>ExtProof\<close> shows, over any device
    and allocator that meet their contracts (locale \<open>x_disk\<close>), what each step of the layouter takes and
    writes, and that block maps and contents read back however later steps write to other blocks.
    \<open>ExtProps\<close> interprets the locale and states the properties: geometry, block maps of both
    variants, directories, inodes, modes, and what the engine gets wrong. Geometry and block maps are
    stated for volumes of fewer than \<open>2 ^ 32\<close> blocks, with 1 KiB blocks of at most 1 TiB; at 2 TiB the
    geometry is not sound (\<open>ext_descriptors_overflow_at_2_tib\<close>).
  \<^item> \<open>Mtree\<close> (\<open>pkg/mtree\<close>): parsing, writing and applying specifications. Shown: escaping round
    trips, independence of the iteration order of Go maps where it holds.
  \<^item> \<open>Oci\<close>, \<open>OciLayout\<close> (\<open>pkg/oci\<close>): layers, differences, layouts. Shown: names are safe; an
    image built from a tree without hard links and flattened again has the paths of the tree, and at
    each what a layer keeps: permission bits, type (sockets come back as files), owner, time to the
    second, extended attributes and contents, link target or device number. Setuid, setgid, sticky
    and the metadata of the root are not kept.

  Several properties state what the code does where it goes wrong: they are the theorems the findings
  of the manifest name.

  Conventions. A definition has the name of the Go function it models, with a prefix where two
  packages share a name. Pointers are indices into a store (\<open>heap\<close>); an engine, which only reads the
  tree, gets it unfolded (\<open>tnode\<close>), each node keeping its index as its identity.

  Bounds and fuel. Loops of the code are recursive functions with a termination proof, except: the
  archive reader of \<open>Cpio\<close> and \<open>AllocRuns\<close> over an arbitrary allocator are partial functions, so that
  not returning is \<open>None\<close>, and a theorem says they return; the romfs reader and the extent and
  directory walks of the ext reader take fuel, since they do not end on every image, and a theorem
  gives an image on which no fuel is enough (6 is enough for every extent tree the layouter builds,
  whose depth is at most 5); \<open>unfold_tree\<close>
  takes fuel, and more than the size of the store is enough for every tree without a cycle
  (\<open>edited_image_unfolds\<close>). A copy from a source that keeps returning nothing is the error
  \<open>Panic\<close> with the text \<open>does not return\<close>.

  Parameters. Not under the repository and therefore arguments of the definitions: the clock and the
  source of UUIDs, upper-casing of runes outside ASCII, host files, the iteration order of a Go map
  where it matters, and for OCI the codecs (JSON, SHA-256, tar, gzip). Of tar it is assumed that an
  entry is read back as it was written, with its time as \<open>archive/tar\<close> rounds it (\<open>tar_kept\<close>).

  Not modelled: the squashfs, erofs, exFAT, ISO 9660, UDF and cramfs engines; the registry
  client; the public facade, the command line and the test support; host-directory walks. The tar,
  gzip and JSON encodings themselves are those of the standard library.
\<close>

end
